(* ===== verification/RV_Prelude.thy ===== *)
theory RV_Prelude
  imports Main "HOL-Library.Word" "HOL-Library.Signed_Division" "HOL-Library.Monad_Syntax"
begin

unbundle bit_operations_syntax

text \<open>
  Shared vocabulary of the development: names for the machine types of the C++ sources, the
  conversions between them, and the generic lemmas on lists, options and words that the component
  theories use.

  Conventions used everywhere below.
  \<^item> A call that may not return (the process aborts in \<^verbatim>\<open>panic_overflow\<close> or
    \<^verbatim>\<open>panic_precondition\<close>, or a loop never ends) has an \<open>option\<close> type; \<open>None\<close> is
    "does not return".
  \<^item> \<^verbatim>\<open>int64_t\<close> values are integers of type \<open>i64\<close>; every operation writes out what the
    source does when the mathematical result leaves the range of the type.
  \<^item> \<^verbatim>\<open>uint64_t\<close>, \<^verbatim>\<open>uint32_t\<close>, \<^verbatim>\<open>uint16_t\<close> and \<^verbatim>\<open>uint8_t\<close> data
    that is hashed, compared or stored as it arrives is a word of that width.
  \<^item> Row numbers and counters that index arrays are natural numbers; the sentinels
    \<^verbatim>\<open>kEmpty\<close>, \<^verbatim>\<open>kNil\<close> and \<^verbatim>\<open>kNoSlot\<close> (all \<^verbatim>\<open>0xFFFFFFFF\<close>) keep
    their number.
\<close>

section \<open>Machine types\<close>

type_synonym u8 = "8 word"
type_synonym u16 = "16 word"
type_synonym u32 = "32 word"
type_synonym u64 = "64 word"
type_synonym i64 = int

named_theorems wrap_simps \<open>equations that evaluate the wrapping casts\<close>

text \<open>\<^verbatim>\<open>INT64_MIN\<close> and \<^verbatim>\<open>INT64_MAX\<close>.\<close>

definition i64_min :: int where
  "i64_min = - 9223372036854775808"

definition i64_max :: int where
  "i64_max = 9223372036854775807"

definition in_i64 :: "int \<Rightarrow> bool" where
  "in_i64 x \<longleftrightarrow> i64_min \<le> x \<and> x \<le> i64_max"

text \<open>
  \<^verbatim>\<open>static_cast\<close> to a narrower or differently signed integer type: the value modulo the
  width, read back in the target's range (C++20 fixes two's complement).
\<close>

definition cast_i64 :: "int \<Rightarrow> i64" where
  "cast_i64 x = (x + 9223372036854775808) mod 18446744073709551616 - 9223372036854775808"

definition cast_i32 :: "int \<Rightarrow> int" where
  "cast_i32 x = (x + 2147483648) mod 4294967296 - 2147483648"

definition cast_u32 :: "int \<Rightarrow> int" where
  "cast_u32 x = x mod 4294967296"

lemmas i64_bounds = i64_min_def i64_max_def in_i64_def

lemma cast_i64_id [wrap_simps]: "in_i64 x \<Longrightarrow> cast_i64 x = x"
  by (simp add: cast_i64_def i64_bounds)

lemma cast_i64_range: "in_i64 (cast_i64 x)"
proof -
  have "0 \<le> (x + 9223372036854775808) mod 18446744073709551616"
    and "(x + 9223372036854775808) mod 18446744073709551616 < 18446744073709551616"
    by simp_all
  then show ?thesis by (simp add: cast_i64_def i64_bounds)
qed

lemma cast_u32_id [wrap_simps]: "0 \<le> x \<Longrightarrow> x < 4294967296 \<Longrightarrow> cast_u32 x = x"
  by (simp add: cast_u32_def)

lemma cast_i32_id [wrap_simps]: "- 2147483648 \<le> x \<Longrightarrow> x < 2147483648 \<Longrightarrow> cast_i32 x = x"
  by (simp add: cast_i32_def)

text \<open>The common sentinel of the index tables and linked lists.\<close>

definition sentinel32 :: nat where
  "sentinel32 = 4294967295"

section \<open>Truncated division\<close>

text \<open>
  C++ division truncates towards zero and the remainder takes the sign of the dividend: the
  \<open>sdiv\<close> and \<open>smod\<close> of the library on integers.
\<close>

lemma sdiv_nonneg [simp]: "0 \<le> a \<Longrightarrow> 0 < b \<Longrightarrow> (a::int) sdiv b = a div b"
  by (cases "a = 0") (simp_all add: signed_divide_int_def)

lemma sdiv_neg: "a < 0 \<Longrightarrow> 0 < b \<Longrightarrow> (a::int) sdiv b = - ((- a) div b)"
  by (simp add: signed_divide_int_def)

lemma smod_sdiv: "(a::int) smod b = a - (a sdiv b) * b"
  by (metis minus_sdiv_mult_eq_smod)

lemma sdiv_bounds:
  assumes "0 < (b::int)"
  shows "\<bar>a sdiv b\<bar> * b \<le> \<bar>a\<bar>" and "\<bar>a\<bar> < (\<bar>a sdiv b\<bar> + 1) * b"
proof -
  have pos: "0 \<le> \<bar>a\<bar> div b" using assms by (simp add: pos_imp_zdiv_nonneg_iff)
  have abs: "\<bar>a sdiv b\<bar> = \<bar>a\<bar> div b"
  proof (cases "0 \<le> a")
    case True
    with assms pos show ?thesis by simp
  next
    case False
    with assms pos show ?thesis by (simp add: sdiv_neg)
  qed
  have eq: "\<bar>a\<bar> div b * b + \<bar>a\<bar> mod b = \<bar>a\<bar>" by (rule div_mult_mod_eq)
  have lo: "0 \<le> \<bar>a\<bar> mod b" and hi: "\<bar>a\<bar> mod b < b" using assms by simp_all
  show "\<bar>a sdiv b\<bar> * b \<le> \<bar>a\<bar>" unfolding abs using eq lo by linarith
  show "\<bar>a\<bar> < (\<bar>a sdiv b\<bar> + 1) * b" unfolding abs distrib_right using eq hi by linarith
qed

section \<open>Lists\<close>

lemma nth_update_if: "i < length xs \<Longrightarrow> (xs[i := v]) ! j = (if j = i then v else xs ! j)"
  by (auto simp: nth_list_update)

lemma sum_list_update_add:
  fixes d :: "'a :: comm_monoid_add"
  shows "i < length xs \<Longrightarrow> sum_list (xs[i := xs ! i + d]) = sum_list xs + d"
proof (induction xs arbitrary: i)
  case Nil
  then show ?case by simp
next
  case (Cons x xs)
  then show ?case by (cases i) (simp_all add: ac_simps)
qed

section \<open>Bits\<close>

lemma and_mask_nat: "(x::nat) AND (2 ^ k - 1) = x mod 2 ^ k"
proof -
  have "(2 ^ k - 1 :: nat) = mask k" by (simp add: mask_eq_exp_minus_1)
  then show ?thesis by (simp add: take_bit_eq_mask [symmetric] take_bit_eq_mod)
qed

text \<open>
  A word that equals its own right shift by a positive amount is zero: what makes the
  xor-shift rounds of \<^verbatim>\<open>mix64\<close> injective.
\<close>

lemma drop_bit_fixpoint_zero:
  fixes d :: "'a::len word"
  assumes "d = drop_bit k d" and "0 < k"
  shows "d = 0"
proof -
  have step: "d = drop_bit (n * k) d" for n
  proof (induction n)
    case 0
    show ?case by simp
  next
    case (Suc n)
    have "drop_bit (Suc n * k) d = drop_bit (n * k) (drop_bit k d)"
      by (simp add: drop_bit_drop_bit add.commute)
    also have "\<dots> = d" using assms(1) Suc.IH by simp
    finally show ?case by simp
  qed
  have "LENGTH('a) \<le> LENGTH('a) * k" using assms(2) by simp
  then have "drop_bit (LENGTH('a) * k) d = 0"
    by (simp add: bit_eq_iff bit_drop_bit_eq)
  with step [of "LENGTH('a)"] show ?thesis by simp
qed

lemma xor_shift_inj:
  fixes x y :: "'a::len word"
  assumes "x XOR drop_bit k x = y XOR drop_bit k y" and "0 < k"
  shows "x = y"
proof -
  have "(x XOR y) XOR drop_bit k (x XOR y) = 0"
  proof -
    have "(x XOR y) XOR drop_bit k (x XOR y) = (x XOR drop_bit k x) XOR (y XOR drop_bit k y)"
      by (simp add: drop_bit_xor ac_simps)
    also have "\<dots> = 0" using assms(1) by simp
    finally show ?thesis .
  qed
  then have "x XOR y = drop_bit k (x XOR y)"
    by (metis xor.left_neutral xor.assoc xor_self_eq)
  then have "x XOR y = 0" using assms(2) by (rule drop_bit_fixpoint_zero)
  then show ?thesis by (metis xor.left_neutral xor.assoc xor_self_eq)
qed

lemma odd_mult_inj:
  fixes x y c :: "'a::len word"
  assumes "x * c = y * c" and "c * d = 1"
  shows "x = y"
proof -
  have "x = x * c * d" using assms(2) by (simp add: mult.assoc)
  also have "\<dots> = y * c * d" using assms(1) by simp
  also have "\<dots> = y" using assms(2) by (simp add: mult.assoc)
  finally show ?thesis .
qed

end
