(* ===== verification/RV_Fixed.thy ===== *)
theory RV_Fixed
  imports RV_Prelude
begin

text \<open>
  \<^verbatim>\<open>src/base/fixed.hpp\<close>: fixed-point values are 64-bit integers that count multiples of
  \<open>10\<^sup>-\<^sup>8\<close> (\<^verbatim>\<open>Qty\<close>, \<^verbatim>\<open>Price\<close>) or \<open>10\<^sup>-\<^sup>4\<close> (\<^verbatim>\<open>Money\<close>).  The exact operations abort
  the process when the result leaves the 64-bit range; the \<^verbatim>\<open>checked_\<close> operations report it.
  The lemmas say that an operation that returns computed the exact result within the range, and
  when it returns.
\<close>

section \<open>Types and constants\<close>

type_synonym Qty = i64
type_synonym Price = i64
type_synonym Money = i64

fun pow10 :: "nat \<Rightarrow> int" where
  "pow10 0 = 1"
| "pow10 (Suc n) = pow10 n * 10"

definition kOne :: "nat \<Rightarrow> int" where
  "kOne scale = pow10 scale"

definition qty_one :: int where
  "qty_one = 100000000"

definition money_one :: int where
  "money_one = 10000"

lemma kOne_scales: "kOne 8 = qty_one" "kOne 4 = money_one"
  by (simp_all add: kOne_def qty_one_def money_one_def eval_nat_numeral)

definition kMaxQtyRaw :: int where
  "kMaxQtyRaw = 100000000 * 100000000"

definition kMaxPriceRaw :: int where
  "kMaxPriceRaw = 1000000 * 100000000"

definition kMaxMoneyRaw :: int where
  "kMaxMoneyRaw = 100000000000000 * 10000 div 10"

lemmas max_raw_defs = kMaxQtyRaw_def kMaxPriceRaw_def kMaxMoneyRaw_def

definition qty_in_range :: "i64 \<Rightarrow> bool" where
  "qty_in_range raw \<longleftrightarrow> - kMaxQtyRaw \<le> raw \<and> raw \<le> kMaxQtyRaw"

definition price_in_range :: "i64 \<Rightarrow> bool" where
  "price_in_range raw \<longleftrightarrow> 0 \<le> raw \<and> raw \<le> kMaxPriceRaw"

definition money_in_range :: "i64 \<Rightarrow> bool" where
  "money_in_range raw \<longleftrightarrow> - kMaxMoneyRaw \<le> raw \<and> raw \<le> kMaxMoneyRaw"

section \<open>Operations\<close>

text \<open>\<^verbatim>\<open>from_units\<close>, \<^verbatim>\<open>operator+\<close>, \<^verbatim>\<open>operator-\<close> (both) of \<^verbatim>\<open>Fixed\<close>.\<close>

definition from_units :: "nat \<Rightarrow> i64 \<Rightarrow> i64 option" where
  "from_units scale u = (let r = u * kOne scale in if in_i64 r then Some r else None)"

definition fx_add :: "i64 \<Rightarrow> i64 \<Rightarrow> i64 option" where
  "fx_add a b = (if in_i64 (a + b) then Some (a + b) else None)"

definition fx_sub :: "i64 \<Rightarrow> i64 \<Rightarrow> i64 option" where
  "fx_sub a b = (if in_i64 (a - b) then Some (a - b) else None)"

definition fx_neg :: "i64 \<Rightarrow> i64 option" where
  "fx_neg a = (if in_i64 (0 - a) then Some (0 - a) else None)"

text \<open>
  \<^verbatim>\<open>checked_add\<close> and \<^verbatim>\<open>checked_sub\<close>: the flag the C++ returns and the value left in the
  output argument (\<open>out\<close> keeps its old value when the flag is false).
\<close>

definition checked_add :: "i64 \<Rightarrow> i64 \<Rightarrow> i64 \<Rightarrow> bool \<times> i64" where
  "checked_add a b out = (if in_i64 (a + b) then (True, a + b) else (False, out))"

definition checked_sub :: "i64 \<Rightarrow> i64 \<Rightarrow> i64 \<Rightarrow> bool \<times> i64" where
  "checked_sub a b out = (if in_i64 (a - b) then (True, a - b) else (False, out))"

definition fx_whole :: "int \<Rightarrow> i64 \<Rightarrow> i64" where
  "fx_whole one raw = raw sdiv one"

definition fx_fraction :: "int \<Rightarrow> i64 \<Rightarrow> i64" where
  "fx_fraction one raw = raw smod one"

named_theorems fx_simps \<open>when the exact operations return, and what\<close>

lemma fx_add_Some [fx_simps]: "fx_add a b = Some r \<longleftrightarrow> in_i64 r \<and> r = a + b"
  by (auto simp: fx_add_def)

lemma fx_sub_Some [fx_simps]: "fx_sub a b = Some r \<longleftrightarrow> in_i64 r \<and> r = a - b"
  by (auto simp: fx_sub_def)

lemma fx_neg_Some [fx_simps]: "fx_neg a = Some r \<longleftrightarrow> in_i64 r \<and> r = - a"
  by (auto simp: fx_neg_def)

lemma fx_ok: "in_i64 (a + b) \<Longrightarrow> fx_add a b = Some (a + b)" "in_i64 (a - b) \<Longrightarrow> fx_sub a b = Some (a - b)"
  "in_i64 (- a) \<Longrightarrow> fx_neg a = Some (- a)"
  by (simp_all add: fx_add_def fx_sub_def fx_neg_def)

lemma fx_zero [simp]: "in_i64 a \<Longrightarrow> fx_add a 0 = Some a" "in_i64 a \<Longrightarrow> fx_sub a 0 = Some a"
  by (simp_all add: fx_add_def fx_sub_def)

text \<open>The only value the unary minus cannot negate is the smallest one.\<close>

lemma fx_neg_None: "in_i64 a \<Longrightarrow> fx_neg a = None \<longleftrightarrow> a = i64_min"
  by (auto simp: fx_neg_def i64_bounds)

lemma fx_split: "fx_whole one raw * one + fx_fraction one raw = raw"
  by (simp add: fx_whole_def fx_fraction_def smod_sdiv)

text \<open>
  The static assertion of the header: within the event ranges the notional fits in \<^verbatim>\<open>Money\<close>.
\<close>

lemma max_notional_fits: "kMaxQtyRaw * kMaxPriceRaw div 1000000000000 < i64_max"
  by (simp add: max_raw_defs i64_max_def)

end
