(* ===== verification/RV_Rounding.thy ===== *)
theory RV_Rounding
  imports RV_Fixed
begin

text \<open>
  \<^verbatim>\<open>src/base/rounding.hpp\<close>: every operation that loses information, with the policy in its
  name.  \<^verbatim>\<open>mul_div\<close> multiplies in 128 bits, divides with the chosen policy and narrows to 64
  bits; the check of the narrowed range stands after the branches that return early, so an exact
  quotient and a quotient truncated towards zero are narrowed without it.

  The lemmas relate each policy to its mathematical meaning (nearest with ties to even, nearest
  with ties away from zero, towards zero, floor), give the ranges in which nothing is narrowed,
  and describe the domain operations built on it.
\<close>

datatype Rounding = TowardZero | TowardNegInf | HalfUp | HalfEven

definition mul_div :: "Rounding \<Rightarrow> i64 \<Rightarrow> i64 \<Rightarrow> i64 \<Rightarrow> i64 option" where
  "mul_div R a b d =
     (if d \<le> 0 then None
      else let n = a * b; q = n sdiv d; r = n smod d in
        if r = 0 then Some (cast_i64 q)
        else if R = TowardZero then Some (cast_i64 q)
        else let sinal = (if n < 0 then - 1 else 1);
                 dobro = (if r < 0 then - r else r) * 2;
                 q' = (case R of
                         TowardNegInf \<Rightarrow> (if n < 0 then q - 1 else q)
                       | HalfUp \<Rightarrow> (if d \<le> dobro then q + sinal else q)
                       | _ \<Rightarrow> (if d < dobro \<or> (dobro = d \<and> q smod 2 \<noteq> 0) then q + sinal else q))
             in if i64_max < q' \<or> q' < i64_min then None else Some (cast_i64 q'))"

section \<open>What the policies compute\<close>

text \<open>The meaning of "nearest, ties to even", over the integers: \<open>q\<close> is \<open>n / d\<close> rounded.\<close>

definition nearest_even :: "int \<Rightarrow> int \<Rightarrow> int \<Rightarrow> bool" where
  "nearest_even n d q \<longleftrightarrow> 2 * \<bar>n - q * d\<bar> \<le> d \<and> (2 * \<bar>n - q * d\<bar> = d \<longrightarrow> even q)"

definition nearest_away :: "int \<Rightarrow> int \<Rightarrow> int \<Rightarrow> bool" where
  "nearest_away n d q \<longleftrightarrow> 2 * \<bar>n - q * d\<bar> \<le> d \<and> (2 * \<bar>n - q * d\<bar> = d \<longrightarrow> \<bar>n\<bar> \<le> \<bar>q\<bar> * d)"

lemma nearest_even_unique:
  assumes "0 < d" and "nearest_even n d q" and "nearest_even n d p"
  shows "q = p"
proof -
  have a: "2 * \<bar>n - q * d\<bar> \<le> d" and b: "2 * \<bar>n - p * d\<bar> \<le> d"
    using assms(2,3) by (simp_all add: nearest_even_def)
  have "2 * \<bar>(q - p) * d\<bar> \<le> 2 * d"
  proof -
    have "(q - p) * d = (n - p * d) - (n - q * d)" by (simp add: algebra_simps)
    then have "\<bar>(q - p) * d\<bar> \<le> \<bar>n - p * d\<bar> + \<bar>n - q * d\<bar>" by (metis abs_triangle_ineq4)
    moreover have "2 * C \<le> 2 * d" if "C \<le> A + B" "2 * A \<le> d" "2 * B \<le> d" for A B C :: int
      using that by linarith
    ultimately show ?thesis using a b by blast
  qed
  then have le: "\<bar>q - p\<bar> \<le> 1" using assms(1) by (simp add: abs_mult)
  show ?thesis
  proof (rule ccontr)
    assume ne: "q \<noteq> p"
    with le have one: "\<bar>q - p\<bar> = 1" by linarith
    then have "q = p + 1 \<or> q = p - 1" by linarith
    then have qd: "q * d = p * d + d \<or> q * d = p * d - d" by (auto simp: algebra_simps)
    have edge: "2 * \<bar>x\<bar> = e \<and> 2 * \<bar>y\<bar> = e"
      if "2 * \<bar>x\<bar> \<le> e" "2 * \<bar>y\<bar> \<le> e" "y = x + e \<or> y = x - e" for x y e :: int
      using that by (auto split: abs_split)
    have "2 * \<bar>n - q * d\<bar> = d" and "2 * \<bar>n - p * d\<bar> = d"
      using edge [of "n - q * d" d "n - p * d"] qd a b by auto
    then have "even q" and "even p" using assms(2,3) by (simp_all add: nearest_even_def)
    with one show False by presburger
  qed
qed

text \<open>Quotient and remainder of the truncated division, split by the sign of the dividend.\<close>

lemma trunc_decomp:
  assumes "0 < (d::int)"
  shows "n = (n sdiv d) * d + n smod d" and "\<bar>n smod d\<bar> < d"
    and "0 \<le> n \<Longrightarrow> 0 \<le> n smod d" and "n < 0 \<Longrightarrow> n smod d \<le> 0"
proof -
  show "n = (n sdiv d) * d + n smod d" by (simp add: smod_sdiv)
  show "\<bar>n smod d\<bar> < d" using assms smod_int_range [where a = n and b = d] by auto
  show "0 \<le> n \<Longrightarrow> 0 \<le> n smod d" "n < 0 \<Longrightarrow> n smod d \<le> 0"
    using assms smod_int_compares [of n d] by simp_all
qed

lemma trunc_neg_strict:
  assumes "0 < (d::int)" and "n smod d \<noteq> 0"
  shows "n smod d < 0 \<longleftrightarrow> n < 0"
  using assms trunc_decomp [OF assms(1), of n] by (metis linorder_not_le order_le_less order_less_le)

text \<open>The unrounded quotient stays in range exactly when nothing is narrowed away.\<close>

lemma mul_div_toward_zero:
  assumes "0 < d" and "in_i64 (a * b sdiv d)"
  shows "mul_div TowardZero a b d = Some (a * b sdiv d)"
  using assms by (simp add: mul_div_def Let_def cast_i64_id)

lemma mul_div_half_even_spec:
  assumes d: "0 < d" and r: "in_i64 (a * b sdiv d)" and q: "mul_div HalfEven a b d = Some q"
  shows "nearest_even (a * b) d q" and "in_i64 q"
proof -
  define n where "n = a * b"
  define t where "t = n sdiv d"
  define m where "m = n smod d"
  have n: "n = t * d + m" and m: "\<bar>m\<bar> < d" and s1: "0 \<le> n \<Longrightarrow> 0 \<le> m" and s2: "n < 0 \<Longrightarrow> m \<le> 0"
    using trunc_decomp [OF d, of n] by (simp_all add: t_def m_def)
  have ev: "t smod 2 = 0 \<longleftrightarrow> even t"
    by (metis dvd_eq_mod_eq_0 smod_int_alt_def abs_numeral dvd_abs_iff mult_eq_0_iff sgn_eq_0_iff
        abs_eq_0_iff mod_0)
  have tr: "in_i64 t" using r by (simp add: t_def n_def)
  have "nearest_even n d q \<and> in_i64 q"
  proof (cases "m = 0")
    case True
    then have "q = t" using q d tr by (simp add: mul_div_def Let_def n_def t_def m_def cast_i64_id)
    with n True d tr show ?thesis by (simp add: nearest_even_def)
  next
    case False
    define sg :: int where "sg = (if n < 0 then - 1 else 1)"
    define up where "up = (d < 2 * \<bar>m\<bar> \<or> 2 * \<bar>m\<bar> = d \<and> odd t)"
    have dob: "(if m < 0 then - m else m) * 2 = 2 * \<bar>m\<bar>" by simp
    have q': "q = (if up then t + sg else t)" and qr: "in_i64 q"
    proof -
      define q1 where "q1 = (if up then t + sg else t)"
      have "mul_div HalfEven a b d
          = (if i64_max < q1 \<or> q1 < i64_min then None else Some (cast_i64 q1))"
        using False d unfolding mul_div_def Let_def n_def [symmetric] t_def [symmetric]
          m_def [symmetric] dob ev sg_def [symmetric]
        by (simp add: up_def q1_def mult.commute)
      with q have "\<not> (i64_max < q1 \<or> q1 < i64_min)" and "q = cast_i64 q1"
        by (simp_all split: if_splits)
      then show "q = (if up then t + sg else t)" "in_i64 q"
        by (simp_all add: q1_def [symmetric] in_i64_def cast_i64_id)
    qed
    have sg: "m * sg = \<bar>m\<bar>" using s1 s2 False by (cases "n < 0") (simp_all add: sg_def)
    have near: "nearest_even n d q"
    proof (cases up)
      case True
      have "n - q * d = m - sg * d" using n q' True by (simp add: algebra_simps)
      also have "\<bar>\<dots>\<bar> = d - \<bar>m\<bar>" using s1 s2 m by (cases "n < 0") (simp_all add: sg_def)
      finally have e: "\<bar>n - q * d\<bar> = d - \<bar>m\<bar>" .
      have "even q" if "2 * (d - \<bar>m\<bar>) = d"
        using that True q' by (auto simp: up_def sg_def)
      with e True show ?thesis by (auto simp: nearest_even_def up_def)
    next
      case False
      then have "n - q * d = m" using n q' by simp
      with False q' show ?thesis by (auto simp: nearest_even_def up_def)
    qed
    with qr show ?thesis by simp
  qed
  then show "nearest_even (a * b) d q" "in_i64 q" by (simp_all add: n_def)
qed

text \<open>A quotient that stays clear of the ends of the range is always rounded, never narrowed.\<close>

lemma mul_div_returns:
  assumes "0 < d" and "\<bar>a * b\<bar> \<le> (i64_max - 1) * d"
  shows "\<exists>q. mul_div R a b d = Some q" and "in_i64 (a * b sdiv d)"
proof -
  have "\<bar>a * b sdiv d\<bar> * d \<le> (i64_max - 1) * d"
    using sdiv_bounds(1) [OF assms(1), of "a * b"] assms(2) by linarith
  then have q: "\<bar>a * b sdiv d\<bar> \<le> i64_max - 1" using assms(1) by simp
  then show "in_i64 (a * b sdiv d)" unfolding i64_bounds by (auto simp: i64_max_def abs_le_iff)
  have "\<not> i64_max < a * b sdiv d + 1" "\<not> a * b sdiv d - 1 < i64_min"
    "\<not> i64_max < a * b sdiv d" "\<not> a * b sdiv d < i64_min" "\<not> i64_max < a * b sdiv d - 1"
    "\<not> a * b sdiv d + 1 < i64_min"
    using q by (auto simp: i64_bounds abs_le_iff)
  then show "\<exists>q. mul_div R a b d = Some q"
    using assms(1) by (cases R) (auto simp: mul_div_def Let_def)
qed

lemma mul_div_half_up_spec:
  assumes d: "0 < d" and r: "in_i64 (a * b sdiv d)" and q: "mul_div HalfUp a b d = Some q"
  shows "nearest_away (a * b) d q"
proof -
  define n where "n = a * b"
  define t where "t = n sdiv d"
  define m where "m = n smod d"
  have n: "n = t * d + m" and m: "\<bar>m\<bar> < d" and s1: "0 \<le> n \<Longrightarrow> 0 \<le> m" and s2: "n < 0 \<Longrightarrow> m \<le> 0"
    using trunc_decomp [OF d, of n] by (simp_all add: t_def m_def)
  have tr: "in_i64 t" using r by (simp add: t_def n_def)
  show ?thesis
  proof (cases "m = 0")
    case True
    then have "q = t" using q d tr by (simp add: mul_div_def Let_def n_def t_def m_def cast_i64_id)
    with n True d show ?thesis by (simp add: nearest_away_def n_def abs_mult)
  next
    case False
    define sg :: int where "sg = (if n < 0 then - 1 else 1)"
    define q1 where "q1 = (if d \<le> 2 * \<bar>m\<bar> then t + sg else t)"
    have dob: "(if m < 0 then - m else m) * 2 = 2 * \<bar>m\<bar>" by simp
    have "mul_div HalfUp a b d = (if i64_max < q1 \<or> q1 < i64_min then None else Some (cast_i64 q1))"
      using False d unfolding mul_div_def Let_def n_def [symmetric] t_def [symmetric]
        m_def [symmetric] dob sg_def [symmetric] by (simp add: q1_def)
    with q have q': "q = q1" by (auto simp: in_i64_def cast_i64_id split: if_splits)
    show ?thesis
    proof (cases "d \<le> 2 * \<bar>m\<bar>")
      case True
      have diff: "n - q * d = m - sg * d" using n q' True by (simp add: q1_def algebra_simps)
      have "\<bar>m - sg * d\<bar> = d - \<bar>m\<bar>" using s1 s2 m by (cases "n < 0") (simp_all add: sg_def)
      moreover have "\<bar>n\<bar> \<le> \<bar>q\<bar> * d"
      proof -
        have "\<bar>n\<bar> = \<bar>q * d\<bar> - (d - \<bar>m\<bar>) \<or> \<bar>n\<bar> \<le> \<bar>q * d\<bar>"
          using diff s1 s2 m n by (cases "n < 0") (auto simp: sg_def)
        then show ?thesis using m d by (auto simp: abs_mult)
      qed
      ultimately show ?thesis
        using True unfolding nearest_away_def n_def [symmetric] diff by (intro conjI impI) simp_all
    next
      case False
      then have "n - q * d = m" using n q' by (simp add: q1_def)
      with False show ?thesis by (simp add: nearest_away_def n_def [symmetric])
    qed
  qed
qed

lemma mul_div_floor:
  assumes d: "0 < d" and q: "mul_div TowardNegInf a b d = Some q" and r: "in_i64 (a * b sdiv d)"
  shows "q = a * b div d"
proof -
  define n where "n = a * b"
  define t where "t = n sdiv d"
  define m where "m = n smod d"
  have n: "n = t * d + m" and m: "\<bar>m\<bar> < d" and s1: "0 \<le> n \<Longrightarrow> 0 \<le> m"
    using trunc_decomp [OF d, of n] by (simp_all add: t_def m_def)
  have tr: "in_i64 t" using r by (simp add: t_def n_def)
  have md: "mul_div TowardNegInf a b d = (if m = 0 then Some (cast_i64 t)
      else let q' = (if n < 0 then t - 1 else t) in
        if i64_max < q' \<or> q' < i64_min then None else Some (cast_i64 q'))"
    using d unfolding mul_div_def Let_def n_def [symmetric] t_def [symmetric] m_def [symmetric]
    by simp
  have "q = n div d"
  proof (cases "m = 0 \<or> 0 \<le> n")
    case True
    have "q = t" using True q md tr by (auto simp: cast_i64_id split: if_splits)
    moreover have "n = d * t + m" using n by (simp add: mult.commute)
    then have "n div d = t"
      by (rule int_div_pos_eq) (use True s1 m in auto)
    ultimately show ?thesis by simp
  next
    case False
    have "m < 0" using False trunc_neg_strict [OF d, of n] by (simp add: m_def)
    have "q = t - 1"
      using False q md by (auto simp: Let_def in_i64_def cast_i64_id split: if_splits)
    moreover have "n = d * (t - 1) + (m + d)" using n by (simp add: algebra_simps)
    then have "n div d = t - 1"
      by (rule int_div_pos_eq) (use m \<open>m < 0\<close> in auto)
    ultimately show ?thesis by simp
  qed
  then show ?thesis by (simp add: n_def)
qed

section \<open>Operations of the domain\<close>

definition kQtyPriceToMoney :: int where
  "kQtyPriceToMoney = 1000000000000"

definition kMoneyToQtyPrice :: int where
  "kMoneyToQtyPrice = 1000000000000"

lemmas scale_defs = kQtyPriceToMoney_def kMoneyToQtyPrice_def

definition notional_half_even :: "Qty \<Rightarrow> Price \<Rightarrow> u32 \<Rightarrow> Money option" where
  "notional_half_even q p price_factor =
     (if price_factor = 0 then None
      else let d = kQtyPriceToMoney * uint price_factor in
        if \<not> in_i64 d then None else mul_div HalfEven q p d)"

definition fee_half_up :: "Money \<Rightarrow> u32 \<Rightarrow> Money option" where
  "fee_half_up base rate_ppm = mul_div HalfUp base (uint rate_ppm) 1000000"

definition withhold_trunc :: "Money \<Rightarrow> u32 \<Rightarrow> Money option" where
  "withhold_trunc gross rate_bp = mul_div TowardZero gross (uint rate_bp) 10000"

definition position_cost_half_even :: "Qty \<Rightarrow> Price \<Rightarrow> Money option" where
  "position_cost_half_even q p = mul_div HalfEven q p kQtyPriceToMoney"

definition average_price_half_even :: "Qty \<Rightarrow> Price \<Rightarrow> Qty \<Rightarrow> Money \<Rightarrow> Price option" where
  "average_price_half_even q_old p_old q_add cost_add =
     do {
       custo_antigo \<leftarrow> position_cost_half_even q_old p_old;
       custo_total \<leftarrow> fx_add custo_antigo cost_add;
       q_nova \<leftarrow> fx_add q_old q_add;
       if q_nova \<le> 0 then Some 0
       else mul_div HalfEven custo_total kMoneyToQtyPrice q_nova
     }"

text \<open>The scaled whole quantity and, second, the fraction the C++ leaves in \<^verbatim>\<open>leftover\<close>.\<close>

definition scale_qty_trunc :: "Qty \<Rightarrow> u32 \<Rightarrow> u32 \<Rightarrow> (Qty \<times> Qty) option" where
  "scale_qty_trunc q num den =
     (if num = 0 \<or> den = 0 then None
      else do {
        total \<leftarrow> mul_div TowardZero q (uint num) (uint den);
        let inteiras = (total sdiv qty_one) * qty_one;
        Some (inteiras, total - inteiras)
      })"

definition scale_qty_keep_fraction :: "Qty \<Rightarrow> u32 \<Rightarrow> u32 \<Rightarrow> Qty option" where
  "scale_qty_keep_fraction q num den =
     (if num = 0 \<or> den = 0 then None else mul_div TowardZero q (uint num) (uint den))"

definition scale_price_half_even :: "Price \<Rightarrow> u32 \<Rightarrow> u32 \<Rightarrow> Price option" where
  "scale_price_half_even p num den =
     (if num = 0 \<or> den = 0 then None else mul_div HalfEven p (uint den) (uint num))"

subsection \<open>Notional\<close>

text \<open>
  Inside the event ranges, and with a price factor whose scaled divisor fits in 64 bits, the
  notional is computed, correctly rounded, and bounded.
\<close>

lemma abs_mult_mono: "\<bar>(a::int)\<bar> \<le> x \<Longrightarrow> \<bar>b\<bar> \<le> y \<Longrightarrow> \<bar>a * b\<bar> \<le> x * y"
  unfolding abs_mult by (intro mult_mono) simp_all

lemma uint_pos_iff: "0 < uint (w :: 'a::len word) \<longleftrightarrow> w \<noteq> 0"
  by (metis uint_0_iff uint_ge_0 order_le_less less_irrefl)

lemma notional_ok:
  assumes "qty_in_range q" and "price_in_range p" and "pf \<noteq> 0" and "uint pf \<le> 9223372"
  shows "\<exists>m. notional_half_even q p pf = Some m \<and> nearest_even (q * p) (kQtyPriceToMoney * uint pf) m
             \<and> \<bar>m\<bar> \<le> 1000000000000000000"
proof -
  define d where "d = kQtyPriceToMoney * uint pf"
  have pf: "1 \<le> uint pf" using assms(3) uint_pos_iff [of pf] by simp
  have d: "0 < d" "1000000000000 \<le> d" "in_i64 d"
    using pf assms(4) by (simp_all add: d_def scale_defs i64_bounds)
  have "\<bar>q\<bar> \<le> kMaxQtyRaw" and "\<bar>p\<bar> \<le> kMaxPriceRaw"
    using assms(1,2) by (auto simp: qty_in_range_def price_in_range_def abs_le_iff max_raw_defs)
  then have qp: "\<bar>q * p\<bar> \<le> 1000000000000000000 * 1000000000000"
    by (rule order_trans [OF abs_mult_mono]) (simp add: max_raw_defs)
  also have "\<dots> \<le> 1000000000000000000 * d" using d(2) by simp
  finally have lim: "\<bar>q * p\<bar> \<le> 1000000000000000000 * d" .
  then have lim': "\<bar>q * p\<bar> \<le> (i64_max - 1) * d"
    by (rule order_trans) (use d(1) in \<open>simp add: i64_max_def\<close>)
  have r: "in_i64 (q * p sdiv d)" by (rule mul_div_returns(2) [OF d(1) lim'])
  obtain m where m: "mul_div HalfEven q p d = Some m"
    using mul_div_returns(1) [OF d(1) lim'] by blast
  have ne: "nearest_even (q * p) d m" by (rule mul_div_half_even_spec [OF d(1) r m])
  have "\<bar>m\<bar> \<le> 1000000000000000000"
  proof (rule ccontr)
    assume "\<not> ?thesis"
    then have "1000000000000000001 * d \<le> \<bar>m\<bar> * d" using d(1) by (intro mult_right_mono) simp_all
    also have "\<dots> = \<bar>m * d\<bar>" using d(1) by (simp add: abs_mult)
    finally have "d \<le> \<bar>m * d\<bar> - \<bar>q * p\<bar>" using lim by linarith
    also have "\<dots> \<le> \<bar>q * p - m * d\<bar>" by linarith
    finally show False using ne d(1) by (simp add: nearest_even_def)
  qed
  with m ne d assms(3) show ?thesis
    by (simp add: notional_half_even_def Let_def d_def [symmetric])
qed

text \<open>A larger price factor makes the divisor overflow, and the computation aborts.\<close>

lemma notional_panics: "9223372 < uint pf \<Longrightarrow> notional_half_even q p pf = None"
  by (simp add: notional_half_even_def Let_def scale_defs i64_bounds)

subsection \<open>Scaling quantities\<close>

lemma scale_qty_trunc_spec:
  assumes "num \<noteq> 0" and "den \<noteq> 0" and "in_i64 (q * uint num sdiv uint den)"
  shows "\<exists>w l. scale_qty_trunc q num den = Some (w, l) \<and> w + l = q * uint num sdiv uint den
               \<and> qty_one dvd w \<and> \<bar>l\<bar> < qty_one \<and> (0 \<le> q \<longrightarrow> 0 \<le> w \<and> 0 \<le> l)"
proof -
  define t where "t = q * uint num sdiv uint den"
  have den: "0 < uint den" using assms(2) uint_pos_iff by blast
  have md: "mul_div TowardZero q (uint num) (uint den) = Some t"
    using mul_div_toward_zero [OF den assms(3)] by (simp add: t_def)
  have one: "0 < qty_one" by (simp add: qty_one_def)
  have l: "t - (t sdiv qty_one) * qty_one = t smod qty_one" by (simp add: smod_sdiv)
  have nn: "0 \<le> (t sdiv qty_one) * qty_one \<and> 0 \<le> t smod qty_one" if "0 \<le> q"
  proof -
    have "0 \<le> q * uint num" using that by simp
    then have "0 \<le> t" using den by (simp add: t_def pos_imp_zdiv_nonneg_iff)
    then show ?thesis using one trunc_decomp(3) [OF one] by (simp add: pos_imp_zdiv_nonneg_iff)
  qed
  show ?thesis
    using assms(1,2) md nn trunc_decomp(2) [OF one, of t] trunc_decomp(1) [OF one, of t, symmetric]
    by (simp add: scale_qty_trunc_def Let_def l t_def [symmetric])
qed

lemma scale_qty_keep_fraction_spec:
  assumes "num \<noteq> 0" and "den \<noteq> 0" and "in_i64 (q * uint num sdiv uint den)"
  shows "scale_qty_keep_fraction q num den = Some (q * uint num sdiv uint den)"
  using assms uint_pos_iff [of den] by (simp add: scale_qty_keep_fraction_def mul_div_toward_zero)

lemma sdiv_scale_nonneg: "0 \<le> q \<Longrightarrow> 0 < den \<Longrightarrow> 0 \<le> num \<Longrightarrow> 0 \<le> (q * num) sdiv (den::int)"
  by (simp add: pos_imp_zdiv_nonneg_iff)

text \<open>The average price of a position that is not positive is zero, whatever the cost.\<close>

lemma average_price_nonpos:
  "average_price_half_even q p a c = Some r \<Longrightarrow> q + a \<le> 0 \<Longrightarrow> r = 0"
  by (auto simp: average_price_half_even_def fx_simps bind_eq_Some_conv split: if_splits)

end
