(* ===== verification/RV_Ids.thy ===== *)
theory RV_Ids
  imports RV_Prelude
begin

text \<open>
  \<^verbatim>\<open>src/base/ids.hpp\<close> and \<^verbatim>\<open>src/ingress/partitioner.hpp\<close>: documents, log sequence
  numbers, calendar dates packed as \<^verbatim>\<open>AAAAMMDD\<close> with their day numbers, the frozen mixing
  function and the routing of a document to a partition.  The lemmas show that a packed document
  gives back its digits and its kind, that the day number of the date of a day number is that day
  number (so distinct days have distinct dates), and that the mixing function is injective.
\<close>

section \<open>Documents and sequence numbers\<close>

type_synonym DocumentId = u64
type_synonym Lsn = u64

definition kCnpjBit :: u64 where
  "kCnpjBit = push_bit 63 1"

definition cpf :: "u64 \<Rightarrow> DocumentId" where
  "cpf digitos = digitos"

definition cnpj :: "u64 \<Rightarrow> DocumentId" where
  "cnpj digitos = digitos OR kCnpjBit"

definition is_cnpj :: "DocumentId \<Rightarrow> bool" where
  "is_cnpj d \<longleftrightarrow> d AND kCnpjBit \<noteq> 0"

definition digits_of :: "DocumentId \<Rightarrow> u64" where
  "digits_of d = d AND NOT kCnpjBit"

definition lsn_next :: "Lsn \<Rightarrow> Lsn" where
  "lsn_next v = v + 1"

lemma bit_kCnpjBit: "bit kCnpjBit n \<longleftrightarrow> n = 63"
proof -
  have "kCnpjBit = (2::u64) ^ 63" by (simp add: kCnpjBit_def)
  then have "bit kCnpjBit n \<longleftrightarrow> bit ((2::u64) ^ 63) n" by (rule arg_cong)
  also have "\<dots> \<longleftrightarrow> n = 63" unfolding bit_exp_iff by auto
  finally show ?thesis .
qed

lemma bit63_iff: "bit (d::u64) 63 \<longleftrightarrow> 2 ^ 63 \<le> uint d"
proof -
  have "uint d < 2 ^ 64" using uint_lt2p [of d] by simp
  then have q: "uint d div 2 ^ 63 < 2" by (simp add: div_less_iff_less_mult)
  have "bit d 63 \<longleftrightarrow> odd (uint d div 2 ^ 63)" 
    by (metis bit_iff_odd bit_uint_iff bit_imp_le_length)
  also have "\<dots> \<longleftrightarrow> uint d div 2 ^ 63 = 1"
    using q by (smt (verit) odd_one even_zero pos_imp_zdiv_nonneg_iff uint_ge_0 zero_less_power)
  also have "\<dots> \<longleftrightarrow> 2 ^ 63 \<le> uint d" using \<open>uint d < 2 ^ 64\<close> by simp linarith
  finally show ?thesis .
qed

lemma is_cnpj_bit: "is_cnpj d \<longleftrightarrow> bit d 63"
proof
  assume "is_cnpj d"
  then obtain n where "bit (d AND kCnpjBit) n" 
    unfolding is_cnpj_def by (metis bit_word_eqI bit_0_eq bot_apply bot_bool_def)
  then show "bit d 63" by (auto simp: bit_and_iff bit_kCnpjBit)
next
  assume "bit d 63"
  then have "bit (d AND kCnpjBit) 63" by (simp add: bit_and_iff bit_kCnpjBit)
  then show "is_cnpj d" by (metis is_cnpj_def bit_0_eq bot_apply bot_bool_def)
qed

lemma document_roundtrip:
  assumes "d < 9223372036854775808"
  shows "digits_of (cpf d) = d" and "digits_of (cnpj d) = d"
    and "\<not> is_cnpj (cpf d)" and "is_cnpj (cnpj d)"
proof -
  have "uint d < 2 ^ 63" using assms by (simp add: word_less_def)
  then have nb: "\<not> bit d 63" by (simp add: bit63_iff)
  show "digits_of (cpf d) = d" "digits_of (cnpj d) = d"
    using nb by (auto simp: digits_of_def cpf_def cnpj_def bit_and_iff bit_or_iff
        bit_not_iff bit_kCnpjBit intro!: bit_word_eqI)
  show "\<not> is_cnpj (cpf d)" "is_cnpj (cnpj d)"
    using nb by (auto simp: is_cnpj_bit cpf_def cnpj_def bit_or_iff bit_kCnpjBit)
qed

section \<open>Dates\<close>

text \<open>A date is \<^verbatim>\<open>AAAAMMDD\<close> in 32 bits; \<open>0\<close> is "absent".\<close>

type_synonym DateYmd = u32

definition from_ymd :: "int \<Rightarrow> int \<Rightarrow> int \<Rightarrow> DateYmd" where
  "from_ymd y m d = word_of_int (y * 10000 + m * 100 + d)"

definition year :: "DateYmd \<Rightarrow> int" where
  "year v = uint v div 10000"

definition month :: "DateYmd \<Rightarrow> int" where
  "month v = (uint v div 100) mod 100"

definition day :: "DateYmd \<Rightarrow> int" where
  "day v = uint v mod 100"

definition date_empty :: "DateYmd \<Rightarrow> bool" where
  "date_empty v \<longleftrightarrow> v = 0"

text \<open>
  Hinnant's day numbers.  The unsigned intermediates of the source wrap at 32 bits
  (\<open>cast_u32\<close>), which matters only for words that are not dates.
\<close>

definition day_index :: "DateYmd \<Rightarrow> int" where
  "day_index v =
     (let m = month v; d = day v;
          y = year v - (if m \<le> 2 then 1 else 0);
          era = (if 0 \<le> y then y else y - 399) sdiv 400;
          yoe = cast_u32 (y - era * 400);
          doy = cast_u32 ((153 * (m + (if m > 2 then - 3 else 9)) + 2) sdiv 5 + d - 1);
          doe = cast_u32 (yoe * 365 + yoe div 4 - yoe div 100 + doy)
      in era * 146097 + cast_i32 doe - 719468)"

definition from_day_index :: "int \<Rightarrow> DateYmd" where
  "from_day_index z0 =
     (let z = z0 + 719468;
          era = (if 0 \<le> z then z else z - 146096) sdiv 146097;
          doe = cast_u32 (z - era * 146097);
          yoe = cast_u32 (doe - doe div 1460 + doe div 36524 - doe div 146096) div 365;
          y = cast_i32 yoe + era * 400;
          doy = cast_u32 (doe - (365 * yoe + yoe div 4 - yoe div 100));
          mp = cast_u32 (5 * doy + 2) div 153;
          d = cast_u32 (doy - (153 * mp + 2) div 5 + 1);
          m = (if mp < 10 then mp + 3 else mp - 9)
      in from_ymd (y + (if m \<le> 2 then 1 else 0)) m d)"

text \<open>The first day of year \<open>k\<close> of a 400-year era, counted from the era's 1 March.\<close>

definition year_start :: "int \<Rightarrow> int" where
  "year_start k = 365 * k + k div 4 - k div 100"

definition year_of_era :: "int \<Rightarrow> int" where
  "year_of_era doe = (doe - doe div 1460 + doe div 36524 - doe div 146096) div 365"

lemma year_table:
  "list_all (\<lambda>k. year_of_era (year_start k) = k \<and> year_of_era (year_start (k + 1) - 1) = k)
     [0..399]"
  by code_simp

lemma year_of_era_mono:
  assumes "0 \<le> a" and "a \<le> b" and "b < 146096"
  shows "year_of_era a \<le> year_of_era b"
proof -
  have "a - a div 1460 \<le> b - b div 1460" using assms by linarith
  moreover have "a div 36524 \<le> b div 36524" using assms by (intro zdiv_mono1) simp_all
  moreover have "a div 146096 = 0" and "b div 146096 = 0" using assms by simp_all
  ultimately have "a - a div 1460 + a div 36524 - a div 146096
      \<le> b - b div 1460 + b div 36524 - b div 146096" by linarith
  then show ?thesis unfolding year_of_era_def by (rule zdiv_mono1) simp
qed

lemma year_cover:
  assumes "0 \<le> doe" and "doe < year_start (int n)"
  shows "\<exists>k<n. year_start (int k) \<le> doe \<and> doe < year_start (int k + 1)"
  using assms
proof (induction n)
  case 0
  then show ?case by (simp add: year_start_def)
next
  case (Suc n)
  show ?case
  proof (cases "doe < year_start (int n)")
    case True
    with Suc show ?thesis using less_SucI by blast
  next
    case False
    with Suc.prems show ?thesis by (intro exI [of _ n]) (simp add: add.commute)
  qed
qed

lemma year_of_era_correct:
  assumes "0 \<le> doe" and "doe < 146097"
  shows "0 \<le> year_of_era doe" and "year_of_era doe < 400"
    and "year_start (year_of_era doe) \<le> doe" and "doe \<le> year_start (year_of_era doe) + 365"
proof -
  have "0 \<le> year_of_era doe \<and> year_of_era doe < 400 \<and> year_start (year_of_era doe) \<le> doe
      \<and> doe \<le> year_start (year_of_era doe) + 365"
  proof (cases "doe = 146096")
    case True
    then show ?thesis by (simp add: year_of_era_def year_start_def)
  next
    case False
    with assms have lt: "doe < year_start (int 400)" by (simp add: year_start_def)
    from year_cover [OF assms(1) lt] obtain k where k: "k < 400"
      and lo: "year_start (int k) \<le> doe" and hi: "doe < year_start (int k + 1)" by blast
    from year_table k have t1: "year_of_era (year_start (int k)) = int k"
      and t2: "year_of_era (year_start (int k + 1) - 1) = int k"
      by (simp_all add: list_all_iff)
    have p: "0 \<le> year_start (int k)" by (simp add: year_start_def)
    have q: "year_start (int k + 1) - 1 < 146096" using k by (simp add: year_start_def)
    have "year_of_era (year_start (int k)) \<le> year_of_era doe"
      using p lo hi q by (intro year_of_era_mono) simp_all
    moreover have "year_of_era doe \<le> year_of_era (year_start (int k + 1) - 1)"
      using assms(1) hi q by (intro year_of_era_mono) simp_all
    ultimately have eq: "year_of_era doe = int k" using t1 t2 by simp
    have "year_start (int k + 1) \<le> year_start (int k) + 366" by (simp add: year_start_def)
    with eq k lo hi show ?thesis by simp
  qed
  then show "0 \<le> year_of_era doe" "year_of_era doe < 400"
    "year_start (year_of_era doe) \<le> doe" "doe \<le> year_start (year_of_era doe) + 365" by simp_all
qed

text \<open>Months of a year that starts in March: month number, day of the month and back.\<close>

lemma month_split:
  fixes doy :: int
  assumes "0 \<le> doy" and "doy \<le> 365"
  defines "mp \<equiv> (5 * doy + 2) div 153"
  defines "d \<equiv> doy - (153 * mp + 2) div 5 + 1"
  shows "0 \<le> mp" and "mp \<le> 11" and "1 \<le> d" and "d \<le> 31"
proof -
  show "0 \<le> mp" "mp \<le> 11" using assms(1,2) unfolding mp_def by linarith+
  have "153 * mp \<le> 5 * doy + 2" and "5 * doy + 2 < 153 * mp + 153"
    unfolding mp_def by linarith+
  then show "1 \<le> d" "d \<le> 31" unfolding d_def by linarith+
qed

lemma from_ymd_fields:
  assumes "0 \<le> y" and "y \<le> 400000" and "0 \<le> m" and "m < 100" and "0 \<le> d" and "d < 100"
  shows "year (from_ymd y m d) = y" and "month (from_ymd y m d) = m" and "day (from_ymd y m d) = d"
proof -
  have u: "uint (from_ymd y m d) = y * 10000 + m * 100 + d"
    unfolding from_ymd_def uint_word_of_int_eq using assms
    by (intro take_bit_int_eq_self) simp_all
  have a: "(y * 10000 + m * 100 + d) div 100 = y * 100 + m" using assms by linarith
  show "year (from_ymd y m d) = y" using assms unfolding year_def u by linarith
  show "month (from_ymd y m d) = m" unfolding month_def u a using assms by simp
  show "day (from_ymd y m d) = d" 
  proof -
    have "y * 10000 + m * 100 + d = d + 100 * (y * 100 + m)" by simp
    then show ?thesis unfolding day_def u using assms(5,6) by (simp only: mod_mult_self2) simp
  qed
qed

lemma day_index_march:
  assumes "0 \<le> era" and "era < 1000" and "0 \<le> k" and "k < 400" and "0 \<le> mp" and "mp \<le> 11"
    and "1 \<le> d" and "d \<le> 31"
  defines "m \<equiv> (if mp < 10 then mp + 3 else mp - 9)"
  shows "day_index (from_ymd (k + era * 400 + (if m \<le> 2 then 1 else 0)) m d)
         = era * 146097 + (year_start k + (153 * mp + 2) div 5 + d - 1) - 719468"
proof -
  let ?Y = "k + era * 400 + (if m \<le> 2 then 1 else 0)"
  have Y: "0 \<le> ?Y" "?Y \<le> 400000" using assms(1-4) by simp_all
  have M: "0 \<le> m" "m < 100" using assms(5,6) by (simp_all add: m_def)
  have D: "0 \<le> d" "d < 100" using assms(7,8) by simp_all
  note f = from_ymd_fields [OF Y M D]
  have y: "?Y - (if m \<le> 2 then 1 else 0) = k + era * 400" by simp
  have e: "(k + era * 400) sdiv 400 = era" using assms(1,3,4) by simp
  have mp: "m + (if 2 < m then - 3 else 9) = mp" using assms(5,6) by (simp add: m_def)
  have md: "0 \<le> (153 * mp + 2) div 5" "(153 * mp + 2) div 5 \<le> 337" using assms(5,6) by linarith+
  have s: "(153 * mp + 2) sdiv 5 = (153 * mp + 2) div 5" using assms(5) by simp
  have ys: "0 \<le> year_start k" "year_start k \<le> 146000"
    using assms(3,4) by (simp_all add: year_start_def)
  have doy: "cast_u32 ((153 * mp + 2) div 5 + d - 1) = (153 * mp + 2) div 5 + d - 1"
    using md assms(7,8) by (intro cast_u32_id) linarith+
  have doe: "cast_u32 (k * 365 + k div 4 - k div 100 + ((153 * mp + 2) div 5 + d - 1))
      = year_start k + (153 * mp + 2) div 5 + d - 1"
    using ys md assms(7,8) by (simp add: year_start_def cast_u32_id)
  have i: "cast_i32 (year_start k + (153 * mp + 2) div 5 + d - 1)
      = year_start k + (153 * mp + 2) div 5 + d - 1"
    using ys md assms(7,8) by (intro cast_i32_id) linarith+
  have yoe: "cast_u32 (k + era * 400 - era * 400) = k" using assms(3,4) by (simp add: cast_u32_id)
  show ?thesis
    unfolding day_index_def Let_def f y
    using assms(1,3) by (simp only: e yoe mp s doy doe i if_P add_nonneg_nonneg mult_nonneg_nonneg)
qed

lemma from_day_index_march:
  assumes "- 719468 \<le> z" and "z + 719468 < 146097000"
  defines "era \<equiv> (z + 719468) div 146097" and "doe \<equiv> (z + 719468) mod 146097"
  defines "k \<equiv> year_of_era doe"
  defines "mp \<equiv> (5 * (doe - year_start k) + 2) div 153"
  defines "d \<equiv> doe - year_start k - (153 * mp + 2) div 5 + 1"
  defines "m \<equiv> (if mp < 10 then mp + 3 else mp - 9)"
  shows "from_day_index z = from_ymd (k + era * 400 + (if m \<le> 2 then 1 else 0)) m d"
proof -
  have z: "0 \<le> z + 719468" using assms(1) by simp
  have doe: "0 \<le> doe" "doe < 146097" by (simp_all add: doe_def)
  note yk = year_of_era_correct [OF doe, folded k_def]
  have doy: "0 \<le> doe - year_start k" "doe - year_start k \<le> 365" using yk(3,4) by simp_all
  note md = month_split [OF doy, folded mp_def, folded d_def]
  have e: "(z + 719468) sdiv 146097 = era" using z by (simp add: era_def)
  have c1: "cast_u32 (z + 719468 - era * 146097) = doe"
    using doe by (simp add: era_def doe_def minus_div_mult_eq_mod cast_u32_id)
  have c2: "cast_u32 (doe - doe div 1460 + doe div 36524 - doe div 146096) div 365 = k"
    using doe by (simp add: k_def year_of_era_def cast_u32_id)
  have c3: "cast_i32 k = k" using yk by (intro cast_i32_id) simp_all
  have c4: "cast_u32 (doe - (365 * k + k div 4 - k div 100)) = doe - year_start k"
    using doy by (simp add: year_start_def cast_u32_id)
  have c5: "cast_u32 (5 * (doe - year_start k) + 2) div 153 = mp"
    using doy by (simp add: mp_def cast_u32_id)
  have c6: "cast_u32 (doe - year_start k - (153 * mp + 2) div 5 + 1) = d"
    using md by (simp add: d_def cast_u32_id)
  show ?thesis
    unfolding from_day_index_def Let_def
    by (simp only: z if_P e c1 c2 c3 c4 c5 c6 m_def)
qed

lemma day_index_roundtrip:
  assumes "- 719468 \<le> z" and "z + 719468 < 146097000"
  shows "day_index (from_day_index z) = z"
proof -
  define era where "era = (z + 719468) div 146097"
  define doe where "doe = (z + 719468) mod 146097"
  define k where "k = year_of_era doe"
  define mp where "mp = (5 * (doe - year_start k) + 2) div 153"
  define d where "d = doe - year_start k - (153 * mp + 2) div 5 + 1"
  have doe: "0 \<le> doe" "doe < 146097" by (simp_all add: doe_def)
  note yk = year_of_era_correct [OF doe, folded k_def]
  have doy: "0 \<le> doe - year_start k" "doe - year_start k \<le> 365" using yk(3,4) by simp_all
  note md = month_split [OF doy, folded mp_def, folded d_def]
  have era: "0 \<le> era" "era < 1000" using assms by (simp_all add: era_def)
  have "day_index (from_day_index z)
      = era * 146097 + (year_start k + (153 * mp + 2) div 5 + d - 1) - 719468"
    using from_day_index_march [OF assms, folded era_def doe_def, folded k_def, folded mp_def,
        folded d_def] day_index_march [OF era yk(1,2) md] by simp
  also have "\<dots> = era * 146097 + doe - 719468" by (simp add: d_def)
  also have "\<dots> = z" by (simp add: era_def doe_def)
  finally show ?thesis .
qed

section \<open>The mixing function\<close>

definition mix64 :: "u64 \<Rightarrow> u64" where
  "mix64 x0 =
     (let x1 = x0 XOR drop_bit 30 x0;
          x2 = x1 * 0xbf58476d1ce4e5b9;
          x3 = x2 XOR drop_bit 27 x2;
          x4 = x3 * 0x94d049bb133111eb
      in x4 XOR drop_bit 31 x4)"

lemma mix64_inj: "mix64 x = mix64 y \<Longrightarrow> x = y"
proof -
  assume "mix64 x = mix64 y"
  then have "(let a = x XOR drop_bit 30 x; b = a * 0xbf58476d1ce4e5b9; c = b XOR drop_bit 27 b
               in c * 0x94d049bb133111eb)
           = (let a = y XOR drop_bit 30 y; b = a * 0xbf58476d1ce4e5b9; c = b XOR drop_bit 27 b
               in c * 0x94d049bb133111eb)"
    unfolding mix64_def Let_def by (rule xor_shift_inj) simp
  then have "(let a = x XOR drop_bit 30 x; b = a * 0xbf58476d1ce4e5b9 in b XOR drop_bit 27 b)
           = (let a = y XOR drop_bit 30 y; b = a * 0xbf58476d1ce4e5b9 in b XOR drop_bit 27 b)"
    unfolding Let_def by (rule odd_mult_inj [where d = "0x319642b2d24d8ec3"]) simp
  then have "(x XOR drop_bit 30 x) * 0xbf58476d1ce4e5b9 = (y XOR drop_bit 30 y) * 0xbf58476d1ce4e5b9"
    unfolding Let_def by (rule xor_shift_inj) simp
  then have "x XOR drop_bit 30 x = y XOR drop_bit 30 y"
    by (rule odd_mult_inj [where d = "0x96de1b173f119089"]) simp
  then show "x = y" by (rule xor_shift_inj) simp
qed

section \<open>Routing\<close>

text \<open>\<^verbatim>\<open>Partitioner\<close>: the number of partitions and its mask.\<close>

record Partitioner =
  p_n :: u32
  p_mask :: u32

definition partitioner :: "u32 \<Rightarrow> Partitioner" where
  "partitioner n = \<lparr>p_n = n, p_mask = n - 1\<rparr>"

definition partition_of :: "Partitioner \<Rightarrow> DocumentId \<Rightarrow> u16" where
  "partition_of p doc = ucast (mix64 doc AND ucast (p_mask p))"

definition is_valid_count :: "u32 \<Rightarrow> bool" where
  "is_valid_count n \<longleftrightarrow> 0 < n \<and> n AND (n - 1) = 0 \<and> n \<le> 65536"

lemma partition_of_in_range:
  assumes "is_valid_count n"
  shows "unat (partition_of (partitioner n) doc) < unat n"
proof -
  have n: "0 < n" "n \<le> 65536" using assms by (simp_all add: is_valid_count_def)
  have "unat (mix64 doc AND ucast (n - 1)) \<le> unat (ucast (n - 1) :: u64)"
    by (rule word_and_le1 [THEN word_le_nat_alt [THEN iffD1]])
  also have "\<dots> = unat (n - 1)"
  proof -
    have "unat (n - 1) < 2 ^ 32" using unsigned_less [of "n - 1", where 'a = nat] by simp
    then show ?thesis by (simp add: unsigned_ucast_eq take_bit_nat_eq_self)
  qed
  also have "\<dots> = unat n - 1"
    using n(1) by (intro unat_minus_one) auto
  finally have le: "unat (mix64 doc AND ucast (n - 1)) \<le> unat n - 1" .
  have "unat n \<le> 65536" using n(2) by (simp add: word_le_nat_alt)
  then have "unat (mix64 doc AND ucast (n - 1)) < 2 ^ 16" using le by simp
  then have "unat (ucast (mix64 doc AND ucast (n - 1)) :: u16) = unat (mix64 doc AND ucast (n - 1))"
    by (simp add: unsigned_ucast_eq take_bit_nat_eq_self)
  moreover have "0 < unat n" using n(1) by (simp add: unat_gt_0)
  ultimately show ?thesis using le by (simp add: partition_of_def partitioner_def)
qed

lemma partition_golden:
  "partition_of (partitioner 4) (cpf 11122233344) = 2"
  "partition_of (partitioner 8) (cpf 11122233344) = 6"
  "partition_of (partitioner 1) (cpf 99999999999) = 0"
  by (simp_all add: partition_of_def partitioner_def cpf_def mix64_def)

end
