(* ===== verification/RV_Status.thy ===== *)
theory RV_Status
  imports RV_Prelude
begin

text \<open>
  \<^verbatim>\<open>src/base/status.hpp\<close> and \<^verbatim>\<open>src/base/status.cpp\<close>: the error codes with their stable
  numbers, the classification of a code as fatal, the eight-byte \<^verbatim>\<open>Status\<close> and the texts.
  The lemmas show that the numbers are unambiguous, which codes are fatal, and that every code has
  a text of its own.
\<close>

section \<open>Error codes\<close>

datatype Err =
    Ok
  | OutOfRange
  | ArenaExhausted
  | Overflow
  | NotFound
  | WouldBlock
  | InvalidArgument
  | UnknownTemplate
  | ShortPayload
  | BadBlockLength
  | GroupTooLarge
  | Misaligned
  | InvalidTransition
  | AlreadyApplied
  | NegativeBucket
  | QtyMismatch
  | UnknownBatch
  | AmountMismatch
  | ShortSaleNotAllowed
  | InstrumentNotDescribed
  | OutsideSettlementWindow
  | UnknownInstrument
  | UnknownAccount
  | LedgerOverflow
  | StateCorrupt
  | WalFull
  | ShortWrite
  | IoError
  | BadCrc
  | BadMagic
  | LsnGap
  | EpochMismatch
  | SegmentFull
  | MissingInteractionId
  | BadSignature
  | TokenExpired
  | CertBindingMismatch
  | ConsentNotAuthorised
  | ScopeMissing
  | OperationalLimit
  | RateLimited
  | MalformedRequest
  | ResourceNotFound
  | TlsProfileViolation

fun err_code :: "Err \<Rightarrow> nat" where
  "err_code Ok = 0"
| "err_code OutOfRange = 1"
| "err_code ArenaExhausted = 2"
| "err_code Overflow = 3"
| "err_code NotFound = 4"
| "err_code WouldBlock = 5"
| "err_code InvalidArgument = 6"
| "err_code UnknownTemplate = 100"
| "err_code ShortPayload = 101"
| "err_code BadBlockLength = 102"
| "err_code GroupTooLarge = 103"
| "err_code Misaligned = 104"
| "err_code InvalidTransition = 200"
| "err_code AlreadyApplied = 201"
| "err_code NegativeBucket = 202"
| "err_code QtyMismatch = 203"
| "err_code UnknownBatch = 204"
| "err_code AmountMismatch = 205"
| "err_code ShortSaleNotAllowed = 206"
| "err_code InstrumentNotDescribed = 207"
| "err_code OutsideSettlementWindow = 208"
| "err_code UnknownInstrument = 250"
| "err_code UnknownAccount = 251"
| "err_code LedgerOverflow = 252"
| "err_code StateCorrupt = 253"
| "err_code WalFull = 300"
| "err_code ShortWrite = 350"
| "err_code IoError = 351"
| "err_code BadCrc = 352"
| "err_code BadMagic = 353"
| "err_code LsnGap = 354"
| "err_code EpochMismatch = 355"
| "err_code SegmentFull = 356"
| "err_code MissingInteractionId = 400"
| "err_code BadSignature = 401"
| "err_code TokenExpired = 402"
| "err_code CertBindingMismatch = 403"
| "err_code ConsentNotAuthorised = 404"
| "err_code ScopeMissing = 405"
| "err_code OperationalLimit = 406"
| "err_code RateLimited = 407"
| "err_code MalformedRequest = 408"
| "err_code ResourceNotFound = 409"
| "err_code TlsProfileViolation = 410"

text \<open>\<^verbatim>\<open>is_fatal(Err)\<close>: the two fatal ranges, and the one code outside them.\<close>

definition is_fatal :: "Err \<Rightarrow> bool" where
  "is_fatal e \<longleftrightarrow>
     (let v = err_code e in
      if 250 \<le> v \<and> v < 300 then True
      else if 350 \<le> v \<and> v < 400 then True
      else e = ArenaExhausted)"

fun err_to_string :: "Err \<Rightarrow> string" where
  "err_to_string Ok = ''Ok''"
| "err_to_string OutOfRange = ''OutOfRange''"
| "err_to_string ArenaExhausted = ''ArenaExhausted''"
| "err_to_string Overflow = ''Overflow''"
| "err_to_string NotFound = ''NotFound''"
| "err_to_string WouldBlock = ''WouldBlock''"
| "err_to_string InvalidArgument = ''InvalidArgument''"
| "err_to_string UnknownTemplate = ''UnknownTemplate''"
| "err_to_string ShortPayload = ''ShortPayload''"
| "err_to_string BadBlockLength = ''BadBlockLength''"
| "err_to_string GroupTooLarge = ''GroupTooLarge''"
| "err_to_string Misaligned = ''Misaligned''"
| "err_to_string InvalidTransition = ''InvalidTransition(I5)''"
| "err_to_string AlreadyApplied = ''AlreadyApplied(I6)''"
| "err_to_string NegativeBucket = ''NegativeBucket(I3)''"
| "err_to_string QtyMismatch = ''QtyMismatch''"
| "err_to_string UnknownBatch = ''UnknownBatch''"
| "err_to_string AmountMismatch = ''AmountMismatch''"
| "err_to_string ShortSaleNotAllowed = ''ShortSaleNotAllowed(I3)''"
| "err_to_string InstrumentNotDescribed = ''InstrumentNotDescribed''"
| "err_to_string OutsideSettlementWindow = ''OutsideSettlementWindow''"
| "err_to_string UnknownInstrument = ''UnknownInstrument[FATAL]''"
| "err_to_string UnknownAccount = ''UnknownAccount[FATAL]''"
| "err_to_string LedgerOverflow = ''LedgerOverflow[FATAL]''"
| "err_to_string StateCorrupt = ''StateCorrupt[FATAL]''"
| "err_to_string WalFull = ''WalFull''"
| "err_to_string ShortWrite = ''ShortWrite[FATAL]''"
| "err_to_string IoError = ''IoError[FATAL]''"
| "err_to_string BadCrc = ''BadCrc[FATAL]''"
| "err_to_string BadMagic = ''BadMagic[FATAL]''"
| "err_to_string LsnGap = ''LsnGap[FATAL]''"
| "err_to_string EpochMismatch = ''EpochMismatch[FATAL]''"
| "err_to_string SegmentFull = ''SegmentFull[FATAL]''"
| "err_to_string MissingInteractionId = ''MissingInteractionId(R1)''"
| "err_to_string BadSignature = ''BadSignature(R7)''"
| "err_to_string TokenExpired = ''TokenExpired(R2)''"
| "err_to_string CertBindingMismatch = ''CertBindingMismatch(R3)''"
| "err_to_string ConsentNotAuthorised = ''ConsentNotAuthorised(R4)''"
| "err_to_string ScopeMissing = ''ScopeMissing(R5)''"
| "err_to_string OperationalLimit = ''OperationalLimit(R16)''"
| "err_to_string RateLimited = ''RateLimited(R16)''"
| "err_to_string MalformedRequest = ''MalformedRequest''"
| "err_to_string ResourceNotFound = ''ResourceNotFound''"
| "err_to_string TlsProfileViolation = ''TlsProfileViolation(R6)''"

section \<open>Status\<close>

record Status =
  code :: Err
  detail :: u32

definition kOk :: Status where
  "kOk = \<lparr>code = Ok, detail = 0\<rparr>"

definition fail :: "Err \<Rightarrow> u32 \<Rightarrow> Status" where
  "fail e d = \<lparr>code = e, detail = d\<rparr>"

definition is_ok :: "Status \<Rightarrow> bool" where
  "is_ok st \<longleftrightarrow> code st = Ok"

definition is_error :: "Status \<Rightarrow> bool" where
  "is_error st \<longleftrightarrow> code st \<noteq> Ok"

definition status_is_fatal :: "Status \<Rightarrow> bool" where
  "status_is_fatal st \<longleftrightarrow> is_fatal (code st)"

lemma code_simps [simp]: "code kOk = Ok" "code (fail e d) = e" "detail kOk = 0" "detail (fail e d) = d"
  by (simp_all add: kOk_def fail_def)

lemma is_ok_simps [simp]: "is_ok kOk" "is_ok (fail e d) \<longleftrightarrow> e = Ok" "is_error st \<longleftrightarrow> \<not> is_ok st"
  by (simp_all add: is_ok_def is_error_def)

lemma status_is_fatal_simps [simp]: "\<not> status_is_fatal kOk" "status_is_fatal (fail e d) \<longleftrightarrow> is_fatal e"
  by (simp_all add: status_is_fatal_def is_fatal_def)

section \<open>The classification\<close>

lemma is_fatal_simps [simp]:
  "is_fatal Ok = False"
  "is_fatal OutOfRange = False"
  "is_fatal ArenaExhausted = True"
  "is_fatal Overflow = False"
  "is_fatal NotFound = False"
  "is_fatal WouldBlock = False"
  "is_fatal InvalidArgument = False"
  "is_fatal UnknownTemplate = False"
  "is_fatal ShortPayload = False"
  "is_fatal BadBlockLength = False"
  "is_fatal GroupTooLarge = False"
  "is_fatal Misaligned = False"
  "is_fatal InvalidTransition = False"
  "is_fatal AlreadyApplied = False"
  "is_fatal NegativeBucket = False"
  "is_fatal QtyMismatch = False"
  "is_fatal UnknownBatch = False"
  "is_fatal AmountMismatch = False"
  "is_fatal ShortSaleNotAllowed = False"
  "is_fatal InstrumentNotDescribed = False"
  "is_fatal OutsideSettlementWindow = False"
  "is_fatal UnknownInstrument = True"
  "is_fatal UnknownAccount = True"
  "is_fatal LedgerOverflow = True"
  "is_fatal StateCorrupt = True"
  "is_fatal WalFull = False"
  "is_fatal ShortWrite = True"
  "is_fatal IoError = True"
  "is_fatal BadCrc = True"
  "is_fatal BadMagic = True"
  "is_fatal LsnGap = True"
  "is_fatal EpochMismatch = True"
  "is_fatal SegmentFull = True"
  "is_fatal MissingInteractionId = False"
  "is_fatal BadSignature = False"
  "is_fatal TokenExpired = False"
  "is_fatal CertBindingMismatch = False"
  "is_fatal ConsentNotAuthorised = False"
  "is_fatal ScopeMissing = False"
  "is_fatal OperationalLimit = False"
  "is_fatal RateLimited = False"
  "is_fatal MalformedRequest = False"
  "is_fatal ResourceNotFound = False"
  "is_fatal TlsProfileViolation = False"
  by (simp_all add: is_fatal_def)

text \<open>The fatal codes, one by one: nothing else stops a partition.\<close>

lemma is_fatal_iff:
  "is_fatal e \<longleftrightarrow> e \<in> {ArenaExhausted, UnknownInstrument, UnknownAccount, LedgerOverflow, StateCorrupt, ShortWrite, IoError, BadCrc, BadMagic, LsnGap, EpochMismatch, SegmentFull}"
  by (cases e) simp_all

text \<open>A code in the rejection range 200..249 or a transient WAL code 300..349 never stops a partition.\<close>

lemma reject_range_not_fatal: "200 \<le> err_code e \<Longrightarrow> err_code e < 250 \<Longrightarrow> \<not> is_fatal e"
  by (cases e) simp_all

lemma transient_range_not_fatal: "300 \<le> err_code e \<Longrightarrow> err_code e < 350 \<Longrightarrow> \<not> is_fatal e"
  by (cases e) simp_all

text \<open>The inverse of the numbering, used to show that the numbers are unambiguous.\<close>

definition all_errs :: "Err list" where
  "all_errs = [Ok, OutOfRange, ArenaExhausted, Overflow, NotFound, WouldBlock, InvalidArgument, UnknownTemplate, ShortPayload, BadBlockLength, GroupTooLarge, Misaligned, InvalidTransition, AlreadyApplied, NegativeBucket, QtyMismatch, UnknownBatch, AmountMismatch, ShortSaleNotAllowed, InstrumentNotDescribed, OutsideSettlementWindow, UnknownInstrument, UnknownAccount, LedgerOverflow, StateCorrupt, WalFull, ShortWrite, IoError, BadCrc, BadMagic, LsnGap, EpochMismatch, SegmentFull, MissingInteractionId, BadSignature, TokenExpired, CertBindingMismatch, ConsentNotAuthorised, ScopeMissing, OperationalLimit, RateLimited, MalformedRequest, ResourceNotFound, TlsProfileViolation]"

lemma all_errs_complete: "e \<in> set all_errs"
  by (cases e) (simp_all add: all_errs_def)

lemma err_code_distinct: "distinct (map err_code all_errs)"
  by (simp add: all_errs_def)

lemma err_text_distinct: "distinct (map err_to_string all_errs)"
  by code_simp

lemma err_code_inj: "err_code a = err_code b \<Longrightarrow> a = b"
  using err_code_distinct all_errs_complete by (metis distinct_map inj_on_def)

lemma err_text_inj: "err_to_string a = err_to_string b \<Longrightarrow> a = b"
  using err_text_distinct all_errs_complete by (metis distinct_map inj_on_def)

lemma err_code_bound: "err_code e < 512"
  by (cases e) simp_all

end
