(* ===== verification/RV_Bytes.thy ===== *)
theory RV_Bytes
  imports RV_Status
begin

text \<open>
  \<^verbatim>\<open>src/base/bytes.hpp\<close> and the hand-written part of \<^verbatim>\<open>src/codec/sbe_runtime.hpp\<close>: byte
  slices, little-endian loads and stores, the checked zero-copy view, the group header.

  A slice carries the address of its first byte, because \<^verbatim>\<open>view_bytes\<close> refuses a misaligned one.
  The typed pointer that the C++ returns is represented by the bytes it points to; reading a field
  through it is the reader of the field's type at the field's offset.
\<close>

record ByteSpan =
  bs_addr :: nat
  bs_bytes :: "u8 list"

type_synonym 'a Result = "Status + 'a"

definition subspan :: "ByteSpan \<Rightarrow> nat \<Rightarrow> ByteSpan" where
  "subspan b off = \<lparr>bs_addr = bs_addr b + off, bs_bytes = drop off (bs_bytes b)\<rparr>"

section \<open>Little-endian integers\<close>

text \<open>The \<open>n\<close> bytes of a value, least significant first, and the value of a run of bytes.\<close>

primrec store_le :: "nat \<Rightarrow> nat \<Rightarrow> u8 list" where
  "store_le 0 v = []"
| "store_le (Suc n) v = of_nat (v mod 256) # store_le n (v div 256)"

primrec load_le :: "nat \<Rightarrow> u8 list \<Rightarrow> nat" where
  "load_le 0 bs = 0"
| "load_le (Suc n) bs = unat (hd bs) + 256 * load_le n (tl bs)"

lemma length_store_le [simp]: "length (store_le n v) = n"
  by (induction n arbitrary: v) simp_all

lemma unat_of_nat_byte: "unat (of_nat (v mod 256) :: u8) = v mod 256"
  by (simp add: unat_of_nat take_bit_nat_eq_self)

lemma load_store_le: "v < 256 ^ n \<Longrightarrow> load_le n (store_le n v @ rest) = v"
proof (induction n arbitrary: v)
  case 0
  then show ?case by simp
next
  case (Suc n)
  have "v div 256 < 256 ^ n" using Suc.prems by (simp add: div_less_iff_less_mult mult.commute)
  with Suc.IH show ?case by (simp add: unat_of_nat_byte)
qed

lemma load_le_bound: "load_le n bs < 256 ^ n"
proof (induction n arbitrary: bs)
  case 0
  show ?case by simp
next
  case (Suc n)
  have "unat (hd bs) < 256" using unsigned_less [of "hd bs", where 'a = nat] by simp
  moreover have "256 * load_le n (tl bs) + 256 \<le> 256 * 256 ^ n" using Suc.IH [of "tl bs"] by simp
  ultimately show ?case by simp
qed

lemma store_load_le: "length bs = n \<Longrightarrow> store_le n (load_le n bs) = bs"
proof (induction n arbitrary: bs)
  case 0
  then show ?case by simp
next
  case (Suc n)
  then obtain b bs' where bs: "bs = b # bs'" by (cases bs) auto
  have b: "unat b < 256" using unsigned_less [of b, where 'a = nat] by simp
  have "(unat b + 256 * load_le n bs') mod 256 = unat b"
    "(unat b + 256 * load_le n bs') div 256 = load_le n bs'" using b by simp_all
  then have "of_nat ((unat b + 256 * load_le n bs') mod 256) = b" by simp
  with Suc bs show ?case
    using \<open>(unat b + 256 * load_le n bs') div 256 = load_le n bs'\<close> by simp
qed

text \<open>A signed 64-bit field is stored in two's complement.\<close>

definition store_i64 :: "i64 \<Rightarrow> u8 list" where
  "store_i64 v = store_le 8 (nat (v mod 18446744073709551616))"

definition load_i64 :: "u8 list \<Rightarrow> i64" where
  "load_i64 bs = cast_i64 (int (load_le 8 bs))"

lemma load_store_i64: "in_i64 v \<Longrightarrow> load_i64 (store_i64 v @ rest) = v"
proof -
  assume v: "in_i64 v"
  define w where "w = v mod 18446744073709551616"
  have w: "0 \<le> w" "w < 18446744073709551616" by (simp_all add: w_def)
  then have "nat w < 256 ^ 8" by simp
  then have "load_le 8 (store_le 8 (nat w) @ rest) = nat w" by (rule load_store_le)
  with w have "load_i64 (store_i64 v @ rest) = cast_i64 w"
    by (simp add: load_i64_def store_i64_def w_def [symmetric] del: store_le.simps load_le.simps)
  also have "\<dots> = cast_i64 v" by (simp add: cast_i64_def w_def mod_simps)
  finally show ?thesis using v by (simp add: cast_i64_id)
qed

section \<open>Checked views\<close>

definition is_aligned :: "nat \<Rightarrow> nat \<Rightarrow> bool" where
  "is_aligned p a \<longleftrightarrow> p AND (a - 1) = 0"

text \<open>\<^verbatim>\<open>view_bytes<T>\<close> for a type of size \<open>sz\<close> and alignment \<open>al\<close>.\<close>

definition view_bytes :: "nat \<Rightarrow> nat \<Rightarrow> ByteSpan \<Rightarrow> u8 list Result" where
  "view_bytes sz al b =
     (if length (bs_bytes b) < sz then Inl (fail ShortPayload (of_nat (length (bs_bytes b))))
      else if \<not> is_aligned (bs_addr b) al then Inl (fail Misaligned 0)
      else Inr (take sz (bs_bytes b)))"

text \<open>\<^verbatim>\<open>GroupHeader\<close>: two \<^verbatim>\<open>uint16\<close> and a reserved \<^verbatim>\<open>uint32\<close>.\<close>

record GroupHeader =
  gh_block_length :: nat
  gh_num_in_group :: nat
  gh_reserved :: nat

definition group_header_of :: "u8 list \<Rightarrow> GroupHeader" where
  "group_header_of bs = \<lparr>gh_block_length = load_le 2 bs, gh_num_in_group = load_le 2 (drop 2 bs),
                         gh_reserved = load_le 4 (drop 4 bs)\<rparr>"

text \<open>\<^verbatim>\<open>view_group<Elem>\<close>: the validated elements, each as its own bytes.\<close>

definition view_group :: "nat \<Rightarrow> nat \<Rightarrow> nat \<Rightarrow> ByteSpan \<Rightarrow> u8 list list Result" where
  "view_group sz al max_ocorrencias apos_bloco =
     (case view_bytes 8 4 apos_bloco of
        Inl e \<Rightarrow> Inl e
      | Inr hb \<Rightarrow>
          let gh = group_header_of hb; n = gh_num_in_group gh; corpo = subspan apos_bloco 8 in
          if gh_block_length gh \<noteq> sz then Inl (fail BadBlockLength 0)
          else if n > max_ocorrencias then Inl (fail GroupTooLarge 0)
          else if length (bs_bytes corpo) < n * sz then Inl (fail ShortPayload 0)
          else if \<not> is_aligned (bs_addr corpo) al then Inl (fail Misaligned 0)
          else Inr (map (\<lambda>i. take sz (drop (i * sz) (bs_bytes corpo))) [0..<n]))"

text \<open>A view never reads past the end of its slice, and an accepted group is within its ceiling.\<close>

lemma view_bytes_Inr: "view_bytes sz al b = Inr bs \<Longrightarrow> sz \<le> length (bs_bytes b) \<and> bs = take sz (bs_bytes b)"
  by (auto simp: view_bytes_def split: if_splits)

lemma view_group_Inr:
  assumes "view_group sz al mx b = Inr es"
  shows "length es \<le> mx" and "\<forall>x\<in>set es. length x = sz" and "8 + length es * sz \<le> length (bs_bytes b)"
proof -
  obtain hb where hb: "view_bytes 8 4 b = Inr hb"
    using assms by (auto simp: view_group_def split: sum.splits)
  define n where "n = gh_num_in_group (group_header_of hb)"
  have n: "n \<le> mx" "n * sz \<le> length (bs_bytes b) - 8"
    and es: "es = map (\<lambda>i. take sz (drop (i * sz) (drop 8 (bs_bytes b)))) [0..<n]"
    using assms hb unfolding view_group_def Let_def n_def [symmetric]
    by (auto simp: subspan_def not_less n_def split: if_splits)
  have "8 \<le> length (bs_bytes b)" using view_bytes_Inr [OF hb] by simp
  have "sz \<le> length (bs_bytes b) - 8 - i * sz" if "i < n" for i
  proof -
    have "Suc i * sz \<le> n * sz" using that by (intro mult_le_mono1) simp
    with n(2) show ?thesis by simp
  qed
  with es show "\<forall>x\<in>set es. length x = sz" by (auto simp: min_absorb2 add.commute)
  show "length es \<le> mx" "8 + length es * sz \<le> length (bs_bytes b)"
    using n es \<open>8 \<le> length (bs_bytes b)\<close> by simp_all
qed

end
