(* ===== verification/RV_Arena.thy ===== *)
theory RV_Arena
  imports RV_Prelude
begin

text \<open>
  \<^verbatim>\<open>src/base/arena.hpp\<close>: the bump arena every table of a partition is carved from, and the
  \<^verbatim>\<open>coluna\<close> helper of \<^verbatim>\<open>src/core/ledger.cpp\<close> and \<^verbatim>\<open>src/core/partition_state.cpp\<close>
  that allocates one zeroed column.  Offsets are \<^verbatim>\<open>size_t\<close>, a 64-bit word; the value returned
  by \<open>allocate\<close> is the offset from the base address, \<open>None\<close> for \<^verbatim>\<open>nullptr\<close>.
\<close>

record Arena =
  ar_cap :: u64
  ar_used :: u64
  ar_blocks :: u32
  ar_sealed :: bool
  ar_overflowed :: bool

definition arena_new :: "u64 \<Rightarrow> Arena" where
  "arena_new bytes =
     \<lparr>ar_cap = bytes, ar_used = 0, ar_blocks = 0, ar_sealed = False, ar_overflowed = False\<rparr>"

definition allocate :: "u64 \<Rightarrow> u64 \<Rightarrow> Arena \<Rightarrow> u64 option \<times> Arena" where
  "allocate n align a =
     (if ar_sealed a \<or> n = 0 then (None, a)
      else let off = (ar_used a + align - 1) AND NOT (align - 1) in
        if ar_cap a < off + n then (None, a\<lparr>ar_overflowed := True\<rparr>)
        else (Some off, a\<lparr>ar_used := off + n, ar_blocks := ar_blocks a + 1\<rparr>))"

text \<open>\<^verbatim>\<open>alloc_array<T>(count)\<close>: the element size and alignment of \<^verbatim>\<open>T\<close> are arguments.\<close>

definition alloc_array :: "nat \<Rightarrow> nat \<Rightarrow> nat \<Rightarrow> Arena \<Rightarrow> u64 option \<times> Arena" where
  "alloc_array size_T align_T count a = allocate (of_nat size_T * of_nat count) (of_nat align_T) a"

definition seal :: "Arena \<Rightarrow> Arena" where
  "seal a = a\<lparr>ar_sealed := True\<rparr>"

definition remaining :: "Arena \<Rightarrow> u64" where
  "remaining a = ar_cap a - ar_used a"

text \<open>One column of \<open>n\<close> copies of the zero of its type; \<open>None\<close> when the arena has no room.\<close>

definition coluna :: "nat \<Rightarrow> nat \<Rightarrow> 'a \<Rightarrow> nat \<Rightarrow> Arena \<Rightarrow> 'a list option \<times> Arena" where
  "coluna size_T align_T zero n a =
     (case alloc_array size_T align_T n a of
        (None, a') \<Rightarrow> (None, a')
      | (Some _, a') \<Rightarrow> (Some (replicate n zero), a'))"

text \<open>The \<^verbatim>\<open>&&\<close> of a chain of allocations: the next one is tried only when this one worked.\<close>

definition and_then :: "'a option \<times> Arena \<Rightarrow> ('a \<Rightarrow> Arena \<Rightarrow> 'b option \<times> Arena) \<Rightarrow> 'b option \<times> Arena" where
  "and_then r f = (case r of (x, a) \<Rightarrow> (case x of None \<Rightarrow> (None, a) | Some c \<Rightarrow> f c a))"

section \<open>What an allocation guarantees\<close>

lemma and_not_mask_mod:
  fixes x :: "'a::len word"
  shows "uint (x AND NOT (2 ^ k - 1)) = uint x - uint x mod 2 ^ k"
proof -
  have m: "(2 ^ k - 1 :: 'a word) = mask k" by (simp add: mask_eq_exp_minus_1)
  have "uint (x AND NOT (mask k)) = push_bit k (drop_bit k (uint x))"
    by (rule bit_eqI) (auto simp: bit_uint_iff bit_push_bit_iff bit_drop_bit_eq bit_and_iff
        bit_not_iff bit_mask_iff)
  also have "\<dots> = uint x - uint x mod 2 ^ k"
    by (simp add: push_bit_eq_mult drop_bit_eq_div minus_mod_eq_div_mult)
  finally show ?thesis by (simp add: m)
qed

text \<open>
  Bytes already handed out lie below \<^verbatim>\<open>used_\<close>; the invariant says that stays inside the block.
\<close>

definition arena_inv :: "Arena \<Rightarrow> bool" where
  "arena_inv a \<longleftrightarrow> ar_used a \<le> ar_cap a"

text \<open>
  A block returned by \<open>allocate\<close> is aligned, starts at or after everything handed out before, and
  ends inside the arena; a failed call moves nothing.  The hypothesis on the sizes rules out the
  wrap-around of \<^verbatim>\<open>size_t\<close>, which no caller comes near.
\<close>

lemma allocate_ok:
  assumes "arena_inv a" and "align = 2 ^ k" and "k < 64"
    and "uint (ar_used a) + uint align + uint n < 2 ^ 64"
    and "allocate n align a = (r, a')"
  shows "arena_inv a' \<and> ar_used a \<le> ar_used a'
       \<and> (case r of None \<Rightarrow> ar_used a' = ar_used a
           | Some off \<Rightarrow> \<not> ar_sealed a \<and> uint off mod 2 ^ k = 0
               \<and> uint (ar_used a) \<le> uint off \<and> uint off + uint n = uint (ar_used a')
               \<and> uint (ar_used a') \<le> uint (ar_cap a))"
proof -
  define off where "off = (ar_used a + align - 1) AND NOT (align - 1)"
  define A where "A = uint (ar_used a)"
  define P :: int where "P = 2 ^ k"
  have P: "0 < P" by (simp add: P_def)
  have al: "uint align = P" using assms(2,3) by (simp add: P_def uint_2p word_gt_0 exp_eq_zero_iff)
  have ng: "0 \<le> A" "0 \<le> uint n" by (simp_all add: A_def)
  have sum: "uint (ar_used a + align - 1) = A + P - 1"
  proof -
    have "A + P < 2 ^ 64" using assms(4) al ng unfolding A_def by linarith
    then have "uint (ar_used a + align) = A + P"
      using uint_add_lem [of "ar_used a" align] al by (simp add: A_def)
    moreover have "1 \<le> A + P" using ng P by linarith
    ultimately show ?thesis using uint_sub_lem [of 1 "ar_used a + align"] by simp
  qed
  define X where "X = A + P - 1"
  have o: "uint off = X - X mod P"
    using and_not_mask_mod [of "ar_used a + align - 1" k] sum assms(2)
    by (simp add: off_def X_def P_def)
  have r: "0 \<le> X mod P" "X mod P < P" using P by simp_all
  then have lo: "A \<le> uint off" and hi: "uint off < A + P" by (simp_all add: o X_def)
  have dv: "uint off mod P = 0" by (simp add: o minus_mod_eq_mult_div)
  have "uint off + uint n < 2 ^ 64" using hi assms(4) al unfolding A_def by linarith
  then have sumn: "uint (off + n) = uint off + uint n" using uint_add_lem [of off n] by simp
  have le: "ar_used a \<le> off + n" using lo sumn ng(2) unfolding word_le_def A_def by linarith
  show ?thesis
  proof (cases "ar_sealed a \<or> n = 0 \<or> ar_cap a < off + n")
    case True
    then have "r = None \<and> ar_used a' = ar_used a \<and> ar_cap a' = ar_cap a"
      using assms(5) unfolding allocate_def off_def Let_def by (auto split: if_splits)
    with assms(1) show ?thesis by (simp add: arena_inv_def)
  next
    case False
    then have "r = Some off" and "a' = a\<lparr>ar_used := off + n, ar_blocks := ar_blocks a + 1\<rparr>"
      using assms(5) unfolding allocate_def off_def Let_def by (auto split: if_splits)
    with False le lo dv sumn show ?thesis
      by (simp add: arena_inv_def A_def P_def word_le_def not_less)
  qed
qed

lemma and_then_Some: "and_then r f = (Some y, a') \<Longrightarrow> \<exists>x a. r = (Some x, a) \<and> f x a = (Some y, a')"
  by (auto simp: and_then_def split: prod.splits option.splits)

lemma coluna_Some: "coluna sz al z n a = (Some c, a') \<Longrightarrow> c = replicate n z"
  by (auto simp: coluna_def split: prod.splits option.splits)

lemma allocate_sealed: "ar_sealed a \<Longrightarrow> allocate n align a = (None, a)"
  by (simp add: allocate_def)

end
