(* ===== verification/RV_Ledger.thy ===== *)
theory RV_Ledger
  imports RV_Fixed RV_Ids RV_Arena
begin

text \<open>
  \<^verbatim>\<open>src/core/ledger.hpp\<close> and \<^verbatim>\<open>src/core/ledger.cpp\<close>: the custody ledger, the cash ledger
  and the settlement window.

  Each array of the structure-of-arrays layout is a list; the pending buckets of row \<open>i\<close> are the
  three cells \<open>3 * i\<close>, \<open>3 * i + 1\<close>, \<open>3 * i + 2\<close>, as in the source.  Sums that abort on overflow
  have an option result.
\<close>

definition kSettlementSlots :: nat where
  "kSettlementSlots = 3"

lemmas slots3 = kSettlementSlots_def

section \<open>Custody\<close>

record CustodyLedger =
  available :: "Qty list"
  pending_buy :: "Qty list"
  pending_sell :: "Qty list"
  overdue_buy :: "Qty list"
  overdue_sell :: "Qty list"
  blocked :: "Qty list"
  leftovers :: "Qty list"
  avg_price :: "Price list"
  cu_account :: "nat list"
  cu_instrument :: "nat list"
  cu_flags :: "u8 list"
  cu_count :: nat
  cu_capacity :: nat

definition kShortAllowed :: u8 where
  "kShortAllowed = 1"

definition custody_init :: "Arena \<Rightarrow> nat \<Rightarrow> CustodyLedger option \<times> Arena" where
  "custody_init a cap =
    (let np = cap * kSettlementSlots mod 4294967296 in
     and_then (coluna 8 8 0 cap a) (\<lambda>av a.
     and_then (coluna 8 8 0 np a) (\<lambda>pb a.
     and_then (coluna 8 8 0 np a) (\<lambda>ps a.
     and_then (coluna 8 8 0 cap a) (\<lambda>ob a.
     and_then (coluna 8 8 0 cap a) (\<lambda>os a.
     and_then (coluna 8 8 0 cap a) (\<lambda>bl a.
     and_then (coluna 8 8 0 cap a) (\<lambda>lf a.
     and_then (coluna 8 8 0 cap a) (\<lambda>ap a.
     and_then (coluna 4 4 0 cap a) (\<lambda>ac a.
     and_then (coluna 4 4 0 cap a) (\<lambda>ins a.
     and_then (coluna 1 1 0 cap a) (\<lambda>fl a.
     (Some \<lparr>available = av, pending_buy = pb, pending_sell = ps, overdue_buy = ob, overdue_sell = os,
            blocked = bl, leftovers = lf, avg_price = ap, cu_account = ac, cu_instrument = ins,
            cu_flags = fl, cu_count = 0, cu_capacity = cap\<rparr>, a)))))))))))))"

text \<open>The three pending cells of a row, added one by one onto \<open>s\<close>.\<close>

primrec add_slots :: "Qty list \<Rightarrow> nat \<Rightarrow> nat \<Rightarrow> Qty \<Rightarrow> Qty option" where
  "add_slots col base 0 s = Some s"
| "add_slots col base (Suc n) s = do { s' \<leftarrow> fx_add s (col ! base); add_slots col (base + 1) n s' }"

definition custody_today :: "CustodyLedger \<Rightarrow> nat \<Rightarrow> Qty option" where
  "custody_today c i =
     do {
       s1 \<leftarrow> fx_add (available c ! i) (blocked c ! i);
       s2 \<leftarrow> fx_add s1 (leftovers c ! i);
       s3 \<leftarrow> fx_add s2 (overdue_sell c ! i);
       add_slots (pending_sell c) (i * kSettlementSlots) kSettlementSlots s3
     }"

definition custody_projected :: "CustodyLedger \<Rightarrow> nat \<Rightarrow> Qty option" where
  "custody_projected c i =
     do {
       s1 \<leftarrow> fx_add (available c ! i) (blocked c ! i);
       s2 \<leftarrow> fx_add s1 (leftovers c ! i);
       s3 \<leftarrow> fx_add s2 (overdue_buy c ! i);
       add_slots (pending_buy c) (i * kSettlementSlots) kSettlementSlots s3
     }"

definition buckets_non_negative :: "CustodyLedger \<Rightarrow> nat \<Rightarrow> bool" where
  "buckets_non_negative c i \<longleftrightarrow>
     (if available c ! i < 0 \<and> cu_flags c ! i AND kShortAllowed = 0 then False
      else if blocked c ! i < 0 \<or> leftovers c ! i < 0 then False
      else if overdue_buy c ! i < 0 \<or> overdue_sell c ! i < 0 then False
      else \<not> list_ex (\<lambda>k. pending_buy c ! (i * kSettlementSlots + k) < 0
                      \<or> pending_sell c ! (i * kSettlementSlots + k) < 0) [0..<kSettlementSlots])"

text \<open>Overwriting the three pending cells of row \<open>i\<close>.\<close>

definition set_slots :: "'a list \<Rightarrow> nat \<Rightarrow> 'a \<Rightarrow> 'a \<Rightarrow> 'a \<Rightarrow> 'a list" where
  "set_slots col i x y z = col[i * kSettlementSlots := x, i * kSettlementSlots + 1 := y,
                               i * kSettlementSlots + 2 := z]"

definition custody_clear_row :: "CustodyLedger \<Rightarrow> nat \<Rightarrow> CustodyLedger" where
  "custody_clear_row c i =
     c\<lparr>available := (available c)[i := 0], overdue_buy := (overdue_buy c)[i := 0],
       overdue_sell := (overdue_sell c)[i := 0], blocked := (blocked c)[i := 0],
       leftovers := (leftovers c)[i := 0], avg_price := (avg_price c)[i := 0],
       cu_flags := (cu_flags c)[i := 0],
       pending_buy := set_slots (pending_buy c) i 0 0 0,
       pending_sell := set_slots (pending_sell c) i 0 0 0\<rparr>"

section \<open>Cash\<close>

record CashLedger =
  cash :: "Money list"
  pending :: "Money list"
  overdue :: "Money list"
  income_receivable :: "Money list"
  ca_count :: nat
  ca_capacity :: nat

definition cash_init :: "Arena \<Rightarrow> nat \<Rightarrow> CashLedger option \<times> Arena" where
  "cash_init a cap =
     and_then (coluna 8 8 0 cap a) (\<lambda>ca a.
     and_then (coluna 8 8 0 (cap * kSettlementSlots mod 4294967296) a) (\<lambda>pe a.
     and_then (coluna 8 8 0 cap a) (\<lambda>ov a.
     and_then (coluna 8 8 0 cap a) (\<lambda>ir a.
     (Some \<lparr>cash = ca, pending = pe, overdue = ov, income_receivable = ir, ca_count = 0,
             ca_capacity = cap\<rparr>, a)))))"

definition cash_clear_row :: "CashLedger \<Rightarrow> nat \<Rightarrow> CashLedger" where
  "cash_clear_row c i =
     c\<lparr>cash := (cash c)[i := 0], overdue := (overdue c)[i := 0],
       income_receivable := (income_receivable c)[i := 0],
       pending := set_slots (pending c) i 0 0 0\<rparr>"

section \<open>The settlement window\<close>

type_synonym SettlementWindow = "DateYmd list"

definition window_empty :: SettlementWindow where
  "window_empty = [0, 0, 0]"

definition kNoSlot :: nat where
  "kNoSlot = sentinel32"

primrec slot_of_from :: "nat \<Rightarrow> DateYmd list \<Rightarrow> DateYmd \<Rightarrow> nat" where
  "slot_of_from k [] d = kNoSlot"
| "slot_of_from k (x # xs) d = (if x = d then k else slot_of_from (Suc k) xs d)"

definition slot_of :: "SettlementWindow \<Rightarrow> DateYmd \<Rightarrow> nat" where
  "slot_of w d = slot_of_from 0 w d"

definition is_past :: "SettlementWindow \<Rightarrow> DateYmd \<Rightarrow> bool" where
  "is_past w d \<longleftrightarrow> \<not> date_empty d \<and> \<not> date_empty (w ! 0) \<and> d < w ! 0"

section \<open>Shape and sums\<close>

definition custody_shape :: "CustodyLedger \<Rightarrow> bool" where
  "custody_shape c \<longleftrightarrow>
     (let n = cu_capacity c in
      length (available c) = n \<and> length (pending_buy c) = 3 * n \<and> length (pending_sell c) = 3 * n
      \<and> length (overdue_buy c) = n \<and> length (overdue_sell c) = n \<and> length (blocked c) = n
      \<and> length (leftovers c) = n \<and> length (avg_price c) = n \<and> length (cu_account c) = n
      \<and> length (cu_instrument c) = n \<and> length (cu_flags c) = n \<and> cu_count c \<le> n)"

definition cash_shape :: "CashLedger \<Rightarrow> bool" where
  "cash_shape c \<longleftrightarrow>
     (let n = ca_capacity c in
      length (cash c) = n \<and> length (pending c) = 3 * n \<and> length (overdue c) = n
      \<and> length (income_receivable c) = n \<and> ca_count c \<le> n)"

text \<open>The exact sums behind the two positions: no overflow, no order.\<close>

definition slots_sum :: "int list \<Rightarrow> nat \<Rightarrow> int" where
  "slots_sum col i = col ! (3 * i) + col ! (3 * i + 1) + col ! (3 * i + 2)"

definition today_sum :: "CustodyLedger \<Rightarrow> nat \<Rightarrow> int" where
  "today_sum c i = available c ! i + blocked c ! i + leftovers c ! i + overdue_sell c ! i
                   + slots_sum (pending_sell c) i"

definition projected_sum :: "CustodyLedger \<Rightarrow> nat \<Rightarrow> int" where
  "projected_sum c i = available c ! i + blocked c ! i + leftovers c ! i + overdue_buy c ! i
                       + slots_sum (pending_buy c) i"

text \<open>Everything an account is owed or owes, settled or not.\<close>

definition cash_sum :: "CashLedger \<Rightarrow> nat \<Rightarrow> int" where
  "cash_sum c i = cash c ! i + overdue c ! i + slots_sum (pending c) i"

lemmas sum_defs = slots_sum_def today_sum_def projected_sum_def cash_sum_def

lemma custody_today_sum: "custody_today c i = Some q \<Longrightarrow> q = today_sum c i \<and> in_i64 q"
  by (auto simp: custody_today_def fx_simps bind_eq_Some_conv sum_defs slots3 numeral_3_eq_3 mult.commute)

lemma custody_projected_sum: "custody_projected c i = Some q \<Longrightarrow> q = projected_sum c i \<and> in_i64 q"
  by (auto simp: custody_projected_def fx_simps bind_eq_Some_conv sum_defs slots3 numeral_3_eq_3 mult.commute)

lemma buckets_non_negative_iff:
  "buckets_non_negative c i \<longleftrightarrow>
     (0 \<le> available c ! i \<or> cu_flags c ! i AND kShortAllowed \<noteq> 0) \<and> 0 \<le> blocked c ! i
     \<and> 0 \<le> leftovers c ! i \<and> 0 \<le> overdue_buy c ! i \<and> 0 \<le> overdue_sell c ! i
     \<and> (\<forall>k<3. 0 \<le> pending_buy c ! (3 * i + k) \<and> 0 \<le> pending_sell c ! (3 * i + k))"
  by (auto simp: buckets_non_negative_def slots3 list_ex_iff mult.commute not_less)

text \<open>Without a short position both sums are non-negative: what a depository can hold.\<close>

lemma non_negative_sums:
  assumes "buckets_non_negative c i" and "0 \<le> available c ! i"
  shows "0 \<le> today_sum c i" and "0 \<le> projected_sum c i"
proof -
  have "0 \<le> pending_sell c ! (3 * i + k)" "0 \<le> pending_buy c ! (3 * i + k)" if "k < 3" for k
    using assms(1) that by (simp_all add: buckets_non_negative_iff)
  from this [of 0] this [of 1] this [of 2] assms show "0 \<le> today_sum c i" "0 \<le> projected_sum c i"
    by (simp_all add: sum_defs buckets_non_negative_iff)
qed

lemma slot_of_from_spec:
  "slot_of_from k w d = (if d \<in> set w then k + length (takeWhile (\<lambda>x. x \<noteq> d) w) else kNoSlot)"
  by (induction w arbitrary: k) auto

text \<open>A slot that is found holds the date; no slot means the date is not in flight.\<close>

lemma slot_of_cases:
  assumes "length w < kNoSlot"
  shows "slot_of w d = kNoSlot \<longleftrightarrow> d \<notin> set w"
    and "slot_of w d \<noteq> kNoSlot \<Longrightarrow> slot_of w d < length w \<and> w ! slot_of w d = d"
proof -
  have lt: "length (takeWhile (\<lambda>x. x \<noteq> d) w) < length w" if "d \<in> set w"
    using that by (metis (mono_tags, lifting) length_takeWhile_le nat_less_le takeWhile_eq_all_conv takeWhile_eq_take take_all)
  show "slot_of w d = kNoSlot \<longleftrightarrow> d \<notin> set w"
    using lt assms by (auto simp: slot_of_def slot_of_from_spec)
  show "slot_of w d \<noteq> kNoSlot \<Longrightarrow> slot_of w d < length w \<and> w ! slot_of w d = d"
    using lt nth_length_takeWhile [of "\<lambda>x. x \<noteq> d" w] by (auto simp: slot_of_def slot_of_from_spec split: if_splits)
qed

lemma slot_of_less: "length w = 3 \<Longrightarrow> slot_of w d \<noteq> kNoSlot \<Longrightarrow> slot_of w d < 3"
  using slot_of_cases(2) [of w d] by (simp add: kNoSlot_def sentinel32_def)

section \<open>The three slots of a row\<close>

definition row_slots :: "int list \<Rightarrow> nat \<Rightarrow> int list" where
  "row_slots col i = [col ! (3 * i), col ! (3 * i + 1), col ! (3 * i + 2)]"

lemma set_slots_nth:
  assumes "3 * i + 2 < length col"
  shows "set_slots col i x y z ! m = (if m = 3 * i then x else if m = 3 * i + 1 then y else if m = 3 * i + 2 then z else col ! m)"
  using assms by (simp add: set_slots_def slots3 nth_list_update mult.commute)

lemma slots_sum_set:
  assumes "3 * i + 2 < length col"
  shows "slots_sum (set_slots col i x y z) j = (if j = i then x + y + z else slots_sum col j)"
proof -
  have "3 * j + a = 3 * i + b \<longleftrightarrow> j = i \<and> a = b" if "a < 3" "b < 3" for a b using that by presburger
  from this [of 0 0] this [of 0 1] this [of 0 2] this [of 1 0] this [of 1 1] this [of 1 2]
    this [of 2 0] this [of 2 1] this [of 2 2]
  show ?thesis by (auto simp: slots_sum_def set_slots_nth [OF assms])
qed

lemma row_slots_set:
  assumes "3 * i + 2 < length col"
  shows "row_slots (set_slots col i x y z) j = (if j = i then [x, y, z] else row_slots col j)"
proof -
  have "3 * j + a = 3 * i + b \<longleftrightarrow> j = i \<and> a = b" if "a < 3" "b < 3" for a b using that by presburger
  from this [of 0 0] this [of 0 1] this [of 0 2] this [of 1 0] this [of 1 1] this [of 1 2]
    this [of 2 0] this [of 2 1] this [of 2 2]
  show ?thesis by (auto simp: row_slots_def set_slots_nth [OF assms])
qed

lemma length_set_slots [simp]: "length (set_slots col i x y z) = length col"
  by (simp add: set_slots_def)

end
