(* ===== verification/RV_Probe.thy ===== *)
theory RV_Probe
  imports RV_Prelude
begin

text \<open>
  Open addressing with linear probing, the technique behind \<^verbatim>\<open>src/base/dense_index.hpp\<close> and
  \<^verbatim>\<open>src/base/pair_index.hpp\<close>.

  \<^item> \<open>probe\<close> is the walk both classes write out as a loop: from the home slot, one slot at a
    time around the table, until the key or an empty slot is found.
  \<^item> The locale \<open>map_table\<close> is the contract a client relies on: a finite map with a bounded
    number of entries.
  \<^item> The locale \<open>probe_table\<close> says what a concrete table has to provide (a home slot per key, a
    write to one slot, a load limit) for its probing loops to implement that contract; the
    \<open>sublocale\<close> declaration carries the proof, once for both classes.
\<close>

section \<open>The walk\<close>

primrec probe :: "(nat \<Rightarrow> 'k option) \<Rightarrow> nat \<Rightarrow> 'k \<Rightarrow> nat \<Rightarrow> nat \<Rightarrow> nat option" where
  "probe at cap k i 0 = None"
| "probe at cap k i (Suc n) =
     (if at i = None \<or> at i = Some k then Some i else probe at cap k ((i + 1) mod cap) n)"

lemma probe_Some:
  assumes "probe at cap k i n = Some j" and "i < cap"
  shows "\<exists>m<n. j = (i + m) mod cap \<and> (at j = None \<or> at j = Some k)
           \<and> (\<forall>l<m. at ((i + l) mod cap) \<noteq> None \<and> at ((i + l) mod cap) \<noteq> Some k)"
  using assms
proof (induction n arbitrary: i)
  case 0
  then show ?case by simp
next
  case (Suc n)
  show ?case
  proof (cases "at i = None \<or> at i = Some k")
    case True
    with Suc.prems show ?thesis by (intro exI [of _ 0]) auto
  next
    case False
    let ?i = "(i + 1) mod cap"
    have "probe at cap k ?i n = Some j" and "?i < cap" using False Suc.prems by auto
    from Suc.IH [OF this] obtain m where m: "m < n" "j = (?i + m) mod cap"
      "at j = None \<or> at j = Some k"
      "\<forall>l<m. at ((?i + l) mod cap) \<noteq> None \<and> at ((?i + l) mod cap) \<noteq> Some k" by blast
    have sh: "(?i + l) mod cap = (i + Suc l) mod cap" for l by (simp add: mod_simps)
    have "at ((i + l) mod cap) \<noteq> None \<and> at ((i + l) mod cap) \<noteq> Some k" if "l < Suc m" for l
      using that False m(4) Suc.prems(2) sh by (cases l) auto
    then show ?thesis using m sh by (intro exI [of _ "Suc m"]) auto
  qed
qed

lemma probe_None:
  assumes "probe at cap k i n = None" and "i < cap" and "m < n"
  shows "at ((i + m) mod cap) \<noteq> None \<and> at ((i + m) mod cap) \<noteq> Some k"
  using assms
proof (induction n arbitrary: i m)
  case 0
  then show ?case by simp
next
  case (Suc n)
  then have ne: "\<not> (at i = None \<or> at i = Some k)"
    and IH: "probe at cap k ((i + 1) mod cap) n = None" and lt: "(i + 1) mod cap < cap"
    by (auto split: if_splits)
  show ?case
  proof (cases m)
    case 0
    with ne Suc.prems show ?thesis by simp
  next
    case (Suc l)
    with Suc.IH [OF IH lt, of l] Suc.prems(3) show ?thesis by (simp add: mod_simps)
  qed
qed

lemma probe_cover:
  assumes "(i::nat) < cap" and "j < cap"
  shows "\<exists>m<cap. j = (i + m) mod cap"
proof (cases "i \<le> j")
  case True
  with assms show ?thesis by (intro exI [of _ "j - i"]) auto
next
  case False
  with assms show ?thesis by (intro exI [of _ "cap - i + j"]) auto
qed

section \<open>The shape of a table\<close>

text \<open>Every stored key is reachable from its home slot without crossing a hole or itself.\<close>

definition chained :: "(nat \<Rightarrow> 'k option) \<Rightarrow> nat \<Rightarrow> ('k \<Rightarrow> nat) \<Rightarrow> bool" where
  "chained at cap home \<longleftrightarrow>
     (\<forall>j<cap. \<forall>k. at j = Some k \<longrightarrow>
        (\<exists>m<cap. j = (home k + m) mod cap
           \<and> (\<forall>l<m. at ((home k + l) mod cap) \<noteq> None \<and> at ((home k + l) mod cap) \<noteq> Some k)))"

definition occupied :: "(nat \<Rightarrow> 'k option) \<Rightarrow> nat \<Rightarrow> nat set" where
  "occupied at cap = {j. j < cap \<and> at j \<noteq> None}"

text \<open>The finite map a table stands for.\<close>

definition slots_map :: "nat \<Rightarrow> (nat \<Rightarrow> 'k option) \<Rightarrow> (nat \<Rightarrow> 'v) \<Rightarrow> 'k \<Rightarrow> 'v option" where
  "slots_map cap at val k =
     map_option val (List.find (\<lambda>j. at j = Some k) [0..<cap])"

lemma find_Some_upt:
  "List.find P [0..<n] = Some j \<Longrightarrow> j < n \<and> P j"
  by (auto simp: find_Some_iff)

lemma slots_map_None: "slots_map cap at val k = None \<longleftrightarrow> (\<forall>j<cap. at j \<noteq> Some k)"
  by (auto simp: slots_map_def find_None_iff)

lemma chainedE:
  assumes "chained at cap home" and "j < cap" and "at j = Some k"
  obtains m where "m < cap" and "j = (home k + m) mod cap"
    and "\<forall>l<m. at ((home k + l) mod cap) \<noteq> None \<and> at ((home k + l) mod cap) \<noteq> Some k"
  using assms unfolding chained_def by blast

lemma chained_unique:
  assumes "chained at cap home" and "i < cap" "at i = Some k" and "j < cap" "at j = Some k"
  shows "i = j"
proof -
  obtain m where m: "m < cap" "i = (home k + m) mod cap"
      "\<forall>l<m. at ((home k + l) mod cap) \<noteq> None \<and> at ((home k + l) mod cap) \<noteq> Some k"
    by (rule chainedE [OF assms(1-3)])
  obtain n where n: "n < cap" "j = (home k + n) mod cap"
      "\<forall>l<n. at ((home k + l) mod cap) \<noteq> None \<and> at ((home k + l) mod cap) \<noteq> Some k"
    by (rule chainedE [OF assms(1,4,5)])
  have "m = n" using m n assms(3,5) by (metis linorder_neqE_nat)
  with m n show ?thesis by simp
qed

lemma slots_map_at:
  assumes "chained at cap home" and "j < cap" and "at j = Some k"
  shows "slots_map cap at val k = Some (val j)"
proof -
  have "List.find (\<lambda>j. at j = Some k) [0..<cap] \<noteq> None"
    using assms(2,3) by (auto simp: find_None_iff)
  then obtain i where i: "List.find (\<lambda>j. at j = Some k) [0..<cap] = Some i" by blast
  then have "i = j" using chained_unique [OF assms(1)] assms(2,3) find_Some_upt by blast
  with i show ?thesis by (simp add: slots_map_def)
qed

lemma chained_put:
  assumes ch: "chained at cap home" and j: "j < cap" "at j = None"
    and walk: "m < cap" "j = (home k + m) mod cap"
      "\<forall>l<m. at ((home k + l) mod cap) \<noteq> None \<and> at ((home k + l) mod cap) \<noteq> Some k"
    and fresh: "\<forall>i<cap. at i \<noteq> Some k"
  shows "chained (at(j := Some k)) cap home"
  unfolding chained_def
proof (intro allI impI)
  fix i k' assume i: "i < cap" "(at(j := Some k)) i = Some k'"
  show "\<exists>m<cap. i = (home k' + m) mod cap \<and> (\<forall>l<m. (at(j := Some k)) ((home k' + l) mod cap) \<noteq> None
          \<and> (at(j := Some k)) ((home k' + l) mod cap) \<noteq> Some k')"
  proof (cases "i = j")
    case True
    with i have "k' = k" by simp
    have "(home k + l) mod cap \<noteq> j" if "l < m" for l using that walk(3) j(2) by metis
    with True \<open>k' = k\<close> walk show ?thesis by (intro exI [of _ m]) auto
  next
    case False
    with i have at: "at i = Some k'" by simp
    with fresh i have ne: "k' \<noteq> k" by auto
    obtain n where n: "n < cap" "i = (home k' + n) mod cap"
      "\<forall>l<n. at ((home k' + l) mod cap) \<noteq> None \<and> at ((home k' + l) mod cap) \<noteq> Some k'"
      using ch i(1) at unfolding chained_def by blast
    with ne show ?thesis by (intro exI [of _ n]) auto
  qed
qed

lemma occupied_put:
  assumes "j < cap" and "at j = None"
  shows "card (occupied (at(j := Some k)) cap) = Suc (card (occupied at cap))"
proof -
  have "occupied (at(j := Some k)) cap = insert j (occupied at cap)" and "j \<notin> occupied at cap"
    using assms by (auto simp: occupied_def)
  moreover have "finite (occupied at cap)" by (simp add: occupied_def)
  ultimately show ?thesis by simp
qed

lemma hole_exists:
  assumes "card (occupied at cap) < cap"
  shows "\<exists>j<cap. at j = None"
proof (rule ccontr)
  assume "\<not> ?thesis"
  then have "occupied at cap = {..<cap}" by (auto simp: occupied_def)
  with assms show False by simp
qed

section \<open>The contract of a bounded map\<close>

text \<open>
  \<open>ins t k v\<close> returns the value now stored under \<open>k\<close> (\<open>None\<close> when there was no room), whether it
  was inserted by this call, and the table.
\<close>

locale map_table =
  fixes inv :: "'t \<Rightarrow> bool"
    and abs :: "'t \<Rightarrow> 'k \<Rightarrow> 'v option"
    and find :: "'t \<Rightarrow> 'k \<Rightarrow> 'v option"
    and ins :: "'t \<Rightarrow> 'k \<Rightarrow> 'v \<Rightarrow> 'v option \<times> bool \<times> 't"
    and count :: "'t \<Rightarrow> nat"
    and limit :: "'t \<Rightarrow> nat"
    and okv :: "'v \<Rightarrow> bool"
  assumes find_abs: "inv t \<Longrightarrow> find t k = abs t k"
    and ins_present: "inv t \<Longrightarrow> abs t k = Some w \<Longrightarrow> ins t k v = (Some w, False, t)"
    and ins_full: "inv t \<Longrightarrow> abs t k = None \<Longrightarrow> limit t \<le> count t \<Longrightarrow> ins t k v = (None, False, t)"
    and ins_fresh: "inv t \<Longrightarrow> abs t k = None \<Longrightarrow> count t < limit t \<Longrightarrow> okv v \<Longrightarrow>
          \<exists>t'. ins t k v = (Some v, True, t') \<and> inv t' \<and> abs t' = (abs t)(k \<mapsto> v)
             \<and> count t' = Suc (count t) \<and> limit t' = limit t"
begin

text \<open>An insertion, whatever branch it takes, keeps the invariant and only ever adds its own key.\<close>

lemma ins_cases:
  assumes "inv t" and "okv v" and "ins t k v = (r, b, t')"
  shows "inv t' \<and> limit t' = limit t \<and>
         (abs t k = Some (the r) \<and> r \<noteq> None \<and> \<not> b \<and> t' = t
          \<or> abs t k = None \<and> r = None \<and> \<not> b \<and> t' = t \<and> limit t \<le> count t
          \<or> abs t k = None \<and> r = Some v \<and> b \<and> count t < limit t
            \<and> abs t' = (abs t)(k \<mapsto> v) \<and> count t' = Suc (count t))"
proof (cases "abs t k")
  case None
  show ?thesis
  proof (cases "count t < limit t")
    case True
    with ins_fresh [OF assms(1) None True assms(2)] assms(3) None assms(1) show ?thesis by auto
  next
    case False
    with ins_full [OF assms(1) None] assms(3) None assms(1) show ?thesis by auto
  qed
next
  case (Some w)
  have "r = Some w" and "\<not> b" and "t' = t" using ins_present [OF assms(1) Some, of v] assms(3) by simp_all
  with Some assms(1) show ?thesis by simp
qed

lemma ins_inv: "inv t \<Longrightarrow> okv v \<Longrightarrow> inv (snd (snd (ins t k v)))"
  using ins_cases [of t v k] by (metis prod.collapse)

lemma find_ins_same:
  assumes "inv t" and "okv v" and "ins t k v = (Some w, b, t')"
  shows "find t' k = Some w"
  using ins_cases [OF assms] find_abs by auto

lemma find_ins_other:
  assumes "inv t" and "okv v" and "ins t k v = (r, b, t')" and "k' \<noteq> k"
  shows "find t' k' = find t k'"
  using ins_cases [OF assms(1-3)] assms(1,4) find_abs by auto

text \<open>Inserting the same key again returns what the first insertion returned.\<close>

lemma ins_idem:
  assumes "inv t" and "okv v" and "ins t k v = (Some w, b, t')"
  shows "ins t' k u = (Some w, False, t')"
  using ins_cases [OF assms] ins_present by auto

end

section \<open>Probing implements the contract\<close>

locale probe_table =
  fixes inv :: "'t \<Rightarrow> bool"
    and cap :: "'t \<Rightarrow> nat"
    and home :: "'t \<Rightarrow> 'k \<Rightarrow> nat"
    and at :: "'t \<Rightarrow> nat \<Rightarrow> 'k option"
    and val :: "'t \<Rightarrow> nat \<Rightarrow> 'v"
    and count :: "'t \<Rightarrow> nat"
    and limit :: "'t \<Rightarrow> nat"
    and put :: "'t \<Rightarrow> nat \<Rightarrow> 'k \<Rightarrow> 'v \<Rightarrow> 't"
    and find :: "'t \<Rightarrow> 'k \<Rightarrow> 'v option"
    and ins :: "'t \<Rightarrow> 'k \<Rightarrow> 'v \<Rightarrow> 'v option \<times> bool \<times> 't"
    and okv :: "'v \<Rightarrow> bool"
  assumes inv_home: "inv t \<Longrightarrow> home t k < cap t"
    and inv_chain: "inv t \<Longrightarrow> chained (at t) (cap t) (home t)"
    and inv_count: "inv t \<Longrightarrow> count t = card (occupied (at t) (cap t))"
    and inv_limit: "inv t \<Longrightarrow> count t < cap t"
    and find_probe: "inv t \<Longrightarrow> find t k =
          (case probe (at t) (cap t) k (home t k) (cap t) of
             None \<Rightarrow> None | Some j \<Rightarrow> if at t j = None then None else Some (val t j))"
    and ins_probe: "inv t \<Longrightarrow> ins t k v =
          (case probe (at t) (cap t) k (home t k) (cap t) of
             None \<Rightarrow> (None, False, t)
           | Some j \<Rightarrow>
               if at t j = None
               then if limit t \<le> count t then (None, False, t) else (Some v, True, put t j k v)
               else (Some (val t j), False, t))"
    and put_at: "inv t \<Longrightarrow> j < cap t \<Longrightarrow> okv v \<Longrightarrow> at (put t j k v) = (at t)(j := Some k)"
    and put_val: "inv t \<Longrightarrow> j < cap t \<Longrightarrow> val (put t j k v) i = (if i = j then v else val t i)"
    and put_cap: "cap (put t j k v) = cap t"
    and put_count: "count (put t j k v) = Suc (count t)"
    and put_limit: "limit (put t j k v) = limit t"
    and put_inv: "inv t \<Longrightarrow> okv v \<Longrightarrow> count t < limit t \<Longrightarrow> j < cap t \<Longrightarrow> at t j = None \<Longrightarrow>
          chained (at (put t j k v)) (cap t) (home t) \<Longrightarrow>
          card (occupied (at (put t j k v)) (cap t)) = Suc (count t) \<Longrightarrow> inv (put t j k v)"
begin

lemma probe_present:
  assumes "inv t" and "j < cap t" and "at t j = Some k"
  shows "probe (at t) (cap t) k (home t k) (cap t) = Some j"
proof (cases "probe (at t) (cap t) k (home t k) (cap t)")
  case None
  obtain m where "m < cap t" and "j = (home t k + m) mod cap t"
    by (rule chainedE [OF inv_chain [OF assms(1)] assms(2,3)])
  then have "at t j \<noteq> Some k" using probe_None [OF None inv_home [OF assms(1)]] by blast
  with assms(3) show ?thesis by simp
next
  case (Some i)
  from probe_Some [OF Some inv_home [OF assms(1)]] obtain m where m: "m < cap t"
    "i = (home t k + m) mod cap t" "at t i = None \<or> at t i = Some k"
    "\<forall>l<m. at t ((home t k + l) mod cap t) \<noteq> Some k" by blast
  obtain n where n: "n < cap t" "j = (home t k + n) mod cap t"
    "\<forall>l<n. at t ((home t k + l) mod cap t) \<noteq> None \<and> at t ((home t k + l) mod cap t) \<noteq> Some k"
    by (rule chainedE [OF inv_chain [OF assms(1)] assms(2,3)])
  have "m = n" using m n assms(3) by (metis linorder_neqE_nat)
  with m n Some show ?thesis by simp
qed

lemma probe_absent:
  assumes "inv t" and "\<forall>j<cap t. at t j \<noteq> Some k"
  shows "\<exists>j m. probe (at t) (cap t) k (home t k) (cap t) = Some j \<and> j < cap t \<and> at t j = None
           \<and> m < cap t \<and> j = (home t k + m) mod cap t
           \<and> (\<forall>l<m. at t ((home t k + l) mod cap t) \<noteq> None \<and> at t ((home t k + l) mod cap t) \<noteq> Some k)"
proof (cases "probe (at t) (cap t) k (home t k) (cap t)")
  case None
  obtain j where j: "j < cap t" "at t j = None"
    using hole_exists inv_limit [OF assms(1)] inv_count [OF assms(1)] by metis
  then obtain m where "m < cap t" "j = (home t k + m) mod cap t"
    using probe_cover [OF inv_home [OF assms(1)]] by blast
  then have "at t j \<noteq> None" using probe_None [OF None inv_home [OF assms(1)]] by blast
  with j show ?thesis by simp
next
  case (Some j)
  have lt: "(home t k + m) mod cap t < cap t" for m
    using inv_limit [OF assms(1)] by simp
  from probe_Some [OF Some inv_home [OF assms(1)]] Some assms(2) lt show ?thesis by metis
qed

end

sublocale probe_table \<subseteq> map_table inv "\<lambda>t. slots_map (cap t) (at t) (val t)" find ins count limit okv
proof (unfold_locales, goal_cases)
  case (1 t k)
  show ?case
  proof (cases "\<exists>j<cap t. at t j = Some k")
    case True
    then obtain j where j: "j < cap t" "at t j = Some k" by blast
    then show ?thesis
      using probe_present [OF 1 j] slots_map_at [OF inv_chain [OF 1] j, of "val t"]
      by (simp add: find_probe [OF 1])
  next
    case False
    with probe_absent [OF 1, of k] have "find t k = None" by (auto simp: find_probe [OF 1])
    with False slots_map_None [of "cap t" "at t" "val t" k] show ?thesis by auto
  qed
next
  case (2 t k w v)
  then obtain j where j: "j < cap t" "at t j = Some k"
    using slots_map_None [of "cap t" "at t" "val t" k] by auto
  with 2 probe_present [OF 2(1) j] slots_map_at [OF inv_chain [OF 2(1)] j, of "val t"]
  show ?case by (simp add: ins_probe)
next
  case (3 t k v)
  then have "\<forall>j<cap t. at t j \<noteq> Some k" by (simp add: slots_map_None)
  from probe_absent [OF 3(1) this] 3 show ?case by (auto simp: ins_probe)
next
  case (4 t k v)
  then have fresh: "\<forall>j<cap t. at t j \<noteq> Some k" by (simp add: slots_map_None)
  from probe_absent [OF 4(1) fresh] obtain j m where
    pr: "probe (at t) (cap t) k (home t k) (cap t) = Some j" and j: "j < cap t" "at t j = None"
    and walk: "m < cap t" "j = (home t k + m) mod cap t"
      "\<forall>l<m. at t ((home t k + l) mod cap t) \<noteq> None \<and> at t ((home t k + l) mod cap t) \<noteq> Some k"
    by blast
  let ?t = "put t j k v"
  have at': "at ?t = (at t)(j := Some k)" by (rule put_at [OF 4(1) j(1) 4(4)])
  have ch: "chained (at ?t) (cap t) (home t)"
    unfolding at' by (rule chained_put [OF inv_chain [OF 4(1)] j walk fresh])
  have "card (occupied (at ?t) (cap t)) = Suc (count t)"
    unfolding at' inv_count [OF 4(1)] by (rule occupied_put) (fact j)+
  then have inv': "inv ?t" by (rule put_inv [OF 4(1,4,3) j ch])
  have "slots_map (cap ?t) (at ?t) (val ?t) = (slots_map (cap t) (at t) (val t))(k \<mapsto> v)"
  proof
    fix k'
    show "slots_map (cap ?t) (at ?t) (val ?t) k' = ((slots_map (cap t) (at t) (val t))(k \<mapsto> v)) k'"
    proof (cases "\<exists>i<cap t. at ?t i = Some k'")
      case True
      then obtain i where i: "i < cap t" "at ?t i = Some k'" by blast
      then have "slots_map (cap ?t) (at ?t) (val ?t) k' = Some (val ?t i)"
        using slots_map_at [OF ch] by (simp add: put_cap)
      moreover have "i = j \<Longrightarrow> k' = k" and "i \<noteq> j \<Longrightarrow> k' \<noteq> k \<and> at t i = Some k'"
        using i fresh at' by auto
      moreover have "i \<noteq> j \<Longrightarrow> slots_map (cap t) (at t) (val t) k' = Some (val t i)"
        using slots_map_at [OF inv_chain [OF 4(1)] i(1), of k' "val t"] calculation(3) by simp
      ultimately show ?thesis by (auto simp: put_val [OF 4(1) j(1)])
    next
      case False
      have "at ?t j = Some k" by (simp add: at')
      with False j have "k' \<noteq> k" by blast
      have "at t i \<noteq> Some k'" if "i < cap t" for i
      proof
        assume "at t i = Some k'"
        then have "at ?t i = Some k'" using j by (cases "i = j") (simp_all add: at')
        with False that show False by blast
      qed
      with False \<open>k' \<noteq> k\<close> show ?thesis
        using slots_map_None [of "cap t" "at t" "val t" k'] slots_map_None [of "cap ?t" "at ?t" "val ?t" k']
        by (simp add: put_cap)
    qed
  qed
  with pr j 4 inv' show ?case by (simp add: ins_probe put_count put_limit)
qed

end
