(* ===== verification/RV_Dense_Index.thy ===== *)
theory RV_Dense_Index
  imports RV_Probe RV_Arena RV_Ids
begin

text \<open>
  \<^verbatim>\<open>src/base/dense_index.hpp\<close>: the open-addressing index from \<^verbatim>\<open>uint64\<close> keys to
  \<^verbatim>\<open>uint32\<close> rows.  Keys, values, capacity, mask and size are the class's own fields; the two
  arrays are lists as long as the capacity.  The table is an instance of \<open>probe_table\<close>, and through
  it of the bounded-map contract \<open>map_table\<close>.
\<close>

section \<open>The class\<close>

record DenseIndex =
  di_keys :: "u64 list"
  di_vals :: "nat list"
  di_cap :: nat
  di_mask :: nat
  di_size :: nat

definition kEmpty :: nat where
  "kEmpty = sentinel32"

text \<open>\<^verbatim>\<open>while (cap < minimo) cap <<= 1U;\<close> on a \<^verbatim>\<open>uint32_t\<close>: past \<open>2^31\<close> the shift gives 0.\<close>

partial_function (option) grow_cap :: "nat \<Rightarrow> nat \<Rightarrow> nat option" where
  "grow_cap cap minimo =
     (if cap < minimo then grow_cap ((cap * 2) mod 4294967296) minimo else Some cap)"

declare grow_cap.simps [code]

definition table_minimum :: "nat \<Rightarrow> nat" where
  "table_minimum max_elements = (max_elements * 10 + 6) div 7"

definition di_new :: "nat \<Rightarrow> DenseIndex" where
  "di_new cap = \<lparr>di_keys = replicate cap 0, di_vals = replicate cap kEmpty, di_cap = cap,
                 di_mask = cap - 1, di_size = 0\<rparr>"

text \<open>
  \<open>None\<close>: the growth loop never ends; \<open>Some (None, _)\<close>: \<^verbatim>\<open>init\<close> returned false.
\<close>

definition di_init :: "Arena \<Rightarrow> nat \<Rightarrow> (DenseIndex option \<times> Arena) option" where
  "di_init arena max_elements =
     do {
       cap \<leftarrow> grow_cap 16 (table_minimum max_elements);
       let (keys, a1) = alloc_array 8 8 cap arena;
       let (vals, a2) = alloc_array 4 4 cap a1;
       Some (if keys = None \<or> vals = None then (None, a2) else (Some (di_new cap), a2))
     }"

definition di_home :: "DenseIndex \<Rightarrow> u64 \<Rightarrow> nat" where
  "di_home t key = unat (ucast (mix64 key) :: u32) AND di_mask t"

primrec di_insert_loop :: "DenseIndex \<Rightarrow> u64 \<Rightarrow> nat \<Rightarrow> nat \<Rightarrow> nat \<Rightarrow> nat \<times> bool \<times> DenseIndex" where
  "di_insert_loop t key value i 0 = (kEmpty, False, t)"
| "di_insert_loop t key value i (Suc passos) =
     (if di_vals t ! i = kEmpty then
        if di_size t * 10 \<ge> di_cap t * 7 then (kEmpty, False, t)
        else (value, True, t\<lparr>di_keys := (di_keys t)[i := key], di_vals := (di_vals t)[i := value],
                             di_size := di_size t + 1\<rparr>)
      else if di_keys t ! i = key then (di_vals t ! i, False, t)
      else di_insert_loop t key value ((i + 1) AND di_mask t) passos)"

definition insert_or_get :: "DenseIndex \<Rightarrow> u64 \<Rightarrow> nat \<Rightarrow> nat \<times> bool \<times> DenseIndex" where
  "insert_or_get t key value = di_insert_loop t key value (di_home t key) (di_mask t + 1)"

primrec di_find_loop :: "DenseIndex \<Rightarrow> u64 \<Rightarrow> nat \<Rightarrow> nat \<Rightarrow> nat" where
  "di_find_loop t key i 0 = kEmpty"
| "di_find_loop t key i (Suc passos) =
     (if di_vals t ! i = kEmpty then kEmpty
      else if di_keys t ! i = key then di_vals t ! i
      else di_find_loop t key ((i + 1) AND di_mask t) passos)"

definition di_find :: "DenseIndex \<Rightarrow> u64 \<Rightarrow> nat" where
  "di_find t key = di_find_loop t key (di_home t key) (di_mask t + 1)"

definition di_contains :: "DenseIndex \<Rightarrow> u64 \<Rightarrow> bool" where
  "di_contains t key \<longleftrightarrow> di_find t key \<noteq> kEmpty"

definition di_capacity :: "DenseIndex \<Rightarrow> nat" where
  "di_capacity t = di_cap t * 7 div 10"

definition di_clear :: "DenseIndex \<Rightarrow> DenseIndex" where
  "di_clear t = t\<lparr>di_keys := replicate (di_cap t) 0, di_vals := replicate (di_cap t) kEmpty,
                  di_size := 0\<rparr>"

text \<open>The entries in the order \<^verbatim>\<open>for_each_slot\<close> visits them.\<close>

definition di_for_each_slot :: "DenseIndex \<Rightarrow> (u64 \<times> nat) list" where
  "di_for_each_slot t = [(di_keys t ! i, di_vals t ! i). i \<leftarrow> [0..<di_cap t], di_vals t ! i \<noteq> kEmpty]"

section \<open>The table as a bounded map\<close>

definition di_at :: "DenseIndex \<Rightarrow> nat \<Rightarrow> u64 option" where
  "di_at t j = (if di_vals t ! j = kEmpty then None else Some (di_keys t ! j))"

definition di_val :: "DenseIndex \<Rightarrow> nat \<Rightarrow> nat" where
  "di_val t j = di_vals t ! j"

definition di_map :: "DenseIndex \<Rightarrow> u64 \<Rightarrow> nat option" where
  "di_map t = slots_map (di_cap t) (di_at t) (di_val t)"

text \<open>The number of entries under the load limit: the next one is refused.\<close>

definition load_limit :: "nat \<Rightarrow> nat" where
  "load_limit cap = (cap * 7 + 9) div 10"

definition pow2_cap :: "nat \<Rightarrow> bool" where
  "pow2_cap cap \<longleftrightarrow> cap \<in> (\<lambda>b. 2 ^ b) ` {4..31}"

definition di_inv :: "DenseIndex \<Rightarrow> bool" where
  "di_inv t \<longleftrightarrow> pow2_cap (di_cap t) \<and> di_mask t = di_cap t - 1
     \<and> length (di_keys t) = di_cap t \<and> length (di_vals t) = di_cap t
     \<and> chained (di_at t) (di_cap t) (di_home t)
     \<and> di_size t = card (occupied (di_at t) (di_cap t)) \<and> di_size t \<le> load_limit (di_cap t)"

definition opt_row :: "nat \<Rightarrow> nat option" where
  "opt_row r = (if r = kEmpty then None else Some r)"

definition di_put :: "DenseIndex \<Rightarrow> nat \<Rightarrow> u64 \<Rightarrow> nat \<Rightarrow> DenseIndex" where
  "di_put t i key value = t\<lparr>di_keys := (di_keys t)[i := key], di_vals := (di_vals t)[i := value],
                            di_size := di_size t + 1\<rparr>"

lemma opt_row_simps [simp]: "opt_row kEmpty = None" "r \<noteq> kEmpty \<Longrightarrow> opt_row r = Some r"
  by (simp_all add: opt_row_def)

lemma pow2_capI: "4 \<le> b \<Longrightarrow> b \<le> 31 \<Longrightarrow> pow2_cap (2 ^ b)"
  by (simp add: pow2_cap_def)

lemma pow2_cap_mask:
  assumes "pow2_cap c"
  shows "i AND (c - 1) = i mod c" and "16 \<le> c" and "c \<le> 2147483648"
proof -
  obtain b where b: "c = 2 ^ b" "4 \<le> b" "b \<le> 31" using assms by (auto simp: pow2_cap_def)
  have "(2::nat) ^ 4 \<le> 2 ^ b" "(2::nat) ^ b \<le> 2 ^ 31"
    using b(2,3) power_increasing [of 4 b "2::nat"] power_increasing [of b 31 "2::nat"] by simp_all
  then show "i AND (c - 1) = i mod c" "16 \<le> c" "c \<le> 2147483648"
    using b(1) and_mask_nat [of i b] by simp_all
qed

lemma pow2_cap_step: "pow2_cap c \<Longrightarrow> Suc i AND (c - Suc 0) = Suc i mod c"
  using pow2_cap_mask(1) [of c "Suc i"] by simp

lemma load_limit_less: "16 \<le> c \<Longrightarrow> load_limit c < c"
  by (simp add: load_limit_def)

lemma load_limit_iff: "load_limit c \<le> n \<longleftrightarrow> c * 7 \<le> n * 10"
proof -
  have "load_limit c \<le> n \<longleftrightarrow> (c * 7 + 9) div 10 < Suc n" by (simp add: load_limit_def less_Suc_eq_le)
  also have "\<dots> \<longleftrightarrow> c * 7 + 9 < Suc n * 10" by (rule div_less_iff_less_mult) simp
  also have "\<dots> \<longleftrightarrow> c * 7 \<le> n * 10" by auto
  finally show ?thesis .
qed

lemma di_find_loop_probe:
  assumes "di_mask t = di_cap t - 1" and "pow2_cap (di_cap t)"
  shows "opt_row (di_find_loop t key i n) =
           (case probe (di_at t) (di_cap t) key i n of
              None \<Rightarrow> None | Some j \<Rightarrow> if di_at t j = None then None else Some (di_val t j))"
  by (induction n arbitrary: i)
    (auto simp: di_at_def di_val_def opt_row_simps assms(1) pow2_cap_step [OF assms(2)])

lemma di_insert_loop_probe:
  assumes "di_mask t = di_cap t - 1" and "pow2_cap (di_cap t)"
  shows "di_insert_loop t key value i n =
           (case probe (di_at t) (di_cap t) key i n of
              None \<Rightarrow> (kEmpty, False, t)
            | Some j \<Rightarrow>
                if di_at t j = None
                then if load_limit (di_cap t) \<le> di_size t then (kEmpty, False, t)
                     else (value, True, di_put t j key value)
                else (di_val t j, False, t))"
  by (induction n arbitrary: i)
    (auto simp: di_at_def di_val_def di_put_def load_limit_iff assms(1) pow2_cap_step [OF assms(2)])

lemma di_home_less: "di_mask t = di_cap t - 1 \<Longrightarrow> pow2_cap (di_cap t) \<Longrightarrow> di_home t key < di_cap t"
  using pow2_cap_mask [of "di_cap t"] by (simp add: di_home_def mod_less_divisor)

lemma di_put_at:
  assumes "length (di_keys t) = di_cap t" "length (di_vals t) = di_cap t" and "j < di_cap t" and "v \<noteq> kEmpty"
  shows "di_at (di_put t j k v) = (di_at t)(j := Some k)"
  using assms by (auto simp: fun_eq_iff di_at_def di_put_def nth_list_update)

definition di_insert :: "DenseIndex \<Rightarrow> u64 \<Rightarrow> nat \<Rightarrow> nat option \<times> bool \<times> DenseIndex" where
  "di_insert t k v = (case insert_or_get t k v of (r, b, t') \<Rightarrow> (if b then Some r else opt_row r, b, t'))"

interpretation dense: probe_table di_inv di_cap di_home di_at di_val di_size
  "\<lambda>t. load_limit (di_cap t)" di_put "\<lambda>t k. opt_row (di_find t k)" di_insert "\<lambda>v. v \<noteq> kEmpty"
proof (unfold_locales, goal_cases)
  case (1 t k)
  then show ?case by (simp add: di_inv_def di_home_less)
next
  case (4 t)
  then show ?case
    using pow2_cap_mask(2) [of "di_cap t"] load_limit_less [of "di_cap t"] by (simp add: di_inv_def)
next
  case (5 t k)
  then have c: "di_mask t = di_cap t - 1" "pow2_cap (di_cap t)" by (simp_all add: di_inv_def)
  then have "di_mask t + 1 = di_cap t" using pow2_cap_mask(2) [of "di_cap t"] by simp
  then show ?case by (simp add: di_find_def di_find_loop_probe [OF c])
next
  case (6 t k v)
  then have c: "di_mask t = di_cap t - 1" "pow2_cap (di_cap t)" by (simp_all add: di_inv_def)
  then have "di_mask t + 1 = di_cap t" using pow2_cap_mask(2) [of "di_cap t"] by simp
  then show ?case
    by (auto simp: di_insert_def insert_or_get_def di_insert_loop_probe [OF c] di_at_def di_val_def
        split: option.splits)
next
  case (7 t j v k)
  then show ?case by (simp add: di_inv_def di_put_at)
next
  case (12 t v j k)
  then show ?case by (simp add: di_inv_def di_put_def di_home_def [abs_def] not_le)
qed (auto simp: di_inv_def di_put_def di_val_def nth_list_update)

section \<open>Initialisation and clearing\<close>

lemma grow_cap_step: "cap < m \<Longrightarrow> grow_cap cap m = grow_cap ((cap * 2) mod 4294967296) m"
  by (subst grow_cap.simps) simp

lemma grow_cap_done: "m \<le> cap \<Longrightarrow> grow_cap cap m = Some cap"
  by (subst grow_cap.simps) simp

text \<open>The growth loop ends as long as the minimum fits in \<open>2^31\<close>, at a power of two that covers it.\<close>

lemma grow_cap_returns:
  assumes "m \<le> 2147483648" and "b \<le> 31" and "4 \<le> b"
  shows "\<exists>c. grow_cap (2 ^ b) m = Some c \<and> pow2_cap c \<and> m \<le> c"
  using assms(2,3)
proof (induction "31 - b" arbitrary: b)
  case 0
  then have "b = 31" by simp
  with assms(1) have "m \<le> 2 ^ b" by simp
  with grow_cap_done [OF this] pow2_capI [of b] 0 show ?case by blast
next
  case (Suc n)
  show ?case
  proof (cases "2 ^ b < m")
    case True
    have "(2::nat) ^ b < 2 ^ 31" using True assms(1) by simp
    then have "(2 ^ b * 2) mod 4294967296 = (2::nat) ^ Suc b" by simp
    with True have "grow_cap (2 ^ b) m = grow_cap (2 ^ Suc b) m" by (simp add: grow_cap_step)
    moreover have "n = 31 - Suc b" "Suc b \<le> 31" "4 \<le> Suc b" using Suc.hyps(2) Suc.prems by auto
    ultimately show ?thesis using Suc.hyps(1) [of "Suc b"] by simp
  next
    case False
    with Suc.prems show ?thesis by (intro exI [of _ "2 ^ b"]) (simp add: grow_cap_done pow2_capI)
  qed
qed

lemma di_new_inv: "pow2_cap c \<Longrightarrow> di_inv (di_new c) \<and> di_map (di_new c) = Map.empty"
proof -
  assume c: "pow2_cap c"
  have at: "j < c \<Longrightarrow> di_at (di_new c) j = None" for j by (simp add: di_at_def di_new_def)
  have cap: "di_cap (di_new c) = c" by (simp add: di_new_def)
  have occ: "occupied (di_at (di_new c)) c = {}" using at by (auto simp: occupied_def)
  have "chained (di_at (di_new c)) c (di_home (di_new c))" using at by (simp add: chained_def)
  with c occ have "di_inv (di_new c)" by (simp add: di_inv_def cap) (simp add: di_new_def)
  moreover have "di_map (di_new c) k = None" for k
    unfolding di_map_def slots_map_None cap using at by simp
  ultimately show ?thesis by (auto simp: fun_eq_iff)
qed

lemma di_clear_new: "di_inv t \<Longrightarrow> di_clear t = di_new (di_cap t)"
  by (simp add: di_clear_def di_new_def di_inv_def)

lemma table_minimum_limit: "table_minimum n \<le> c \<Longrightarrow> n \<le> load_limit c"
  by (simp add: table_minimum_def load_limit_def)

text \<open>
  An index initialised for \<open>n\<close> elements, when the arena had room for it, is empty and accepts at
  least \<open>n\<close> distinct keys.
\<close>

lemma di_init_ok:
  assumes "di_init a n = Some (Some t, a')" and "n \<le> 1503238553"
  shows "di_inv t" and "di_map t = Map.empty" and "n \<le> load_limit (di_cap t)" and "di_size t = 0"
proof -
  have "table_minimum n \<le> 2147483648" using assms(2) by (simp add: table_minimum_def)
  from grow_cap_returns [OF this, of 4] obtain c
    where c: "grow_cap 16 (table_minimum n) = Some c" "pow2_cap c" "table_minimum n \<le> c" by auto
  then have "t = di_new c"
    using assms(1) by (auto simp: di_init_def Let_def split: prod.splits if_splits)
  then show "di_inv t" "di_map t = Map.empty" "n \<le> load_limit (di_cap t)" "di_size t = 0"
    using di_new_inv [OF c(2)] table_minimum_limit [OF c(3)] by (simp_all add: di_new_def)
qed

section \<open>The facts clients use\<close>

lemma di_find_map: "di_inv t \<Longrightarrow> opt_row (di_find t k) = di_map t k"
  unfolding di_map_def by (rule dense.find_abs)

lemma di_insert_loop_cap: "di_cap (snd (snd (di_insert_loop t k v i n))) = di_cap t"
  by (induction n arbitrary: i) auto

lemma insert_or_get_cases:
  assumes "di_inv t" and "v \<noteq> kEmpty" and "insert_or_get t k v = (r, b, t')"
  shows "di_inv t'" and "di_cap t' = di_cap t"
    and "di_map t k = Some r \<and> r \<noteq> kEmpty \<and> \<not> b \<and> t' = t
       \<or> di_map t k = None \<and> r = kEmpty \<and> \<not> b \<and> t' = t \<and> load_limit (di_cap t) \<le> di_size t
       \<or> di_map t k = None \<and> r = v \<and> b \<and> di_size t < load_limit (di_cap t)
         \<and> di_map t' = (di_map t)(k \<mapsto> v) \<and> di_size t' = Suc (di_size t)"
proof -
  have ins: "di_insert t k v = (if b then Some r else opt_row r, b, t')"
    using assms(3) by (simp add: di_insert_def)
  show cap: "di_cap t' = di_cap t"
    using di_insert_loop_cap assms(3) by (metis insert_or_get_def snd_conv)
  note cs = dense.ins_cases [OF assms(1,2) ins, folded di_map_def]
  from cs show "di_inv t'" by simp
  from cs show "di_map t k = Some r \<and> r \<noteq> kEmpty \<and> \<not> b \<and> t' = t
       \<or> di_map t k = None \<and> r = kEmpty \<and> \<not> b \<and> t' = t \<and> load_limit (di_cap t) \<le> di_size t
       \<or> di_map t k = None \<and> r = v \<and> b \<and> di_size t < load_limit (di_cap t)
         \<and> di_map t' = (di_map t)(k \<mapsto> v) \<and> di_size t' = Suc (di_size t)"
    by (cases b; cases "r = kEmpty") (auto simp: opt_row_def)
qed

text \<open>Size and domain of the represented map agree.\<close>

lemma di_map_dom: "di_inv t \<Longrightarrow> finite (dom (di_map t)) \<and> card (dom (di_map t)) = di_size t"
proof -
  assume inv: "di_inv t"
  then have ch: "chained (di_at t) (di_cap t) (di_home t)" by (simp add: di_inv_def)
  let ?O = "occupied (di_at t) (di_cap t)"
  have "dom (di_map t) = (\<lambda>j. the (di_at t j)) ` ?O"
  proof (intro set_eqI iffI)
    fix k assume "k \<in> dom (di_map t)"
    then obtain j where "j < di_cap t" "di_at t j = Some k"
      using slots_map_None [of "di_cap t" "di_at t" "di_val t" k] by (auto simp: di_map_def)
    then show "k \<in> (\<lambda>j. the (di_at t j)) ` ?O" by (force simp: occupied_def)
  next
    fix k assume "k \<in> (\<lambda>j. the (di_at t j)) ` ?O"
    then obtain j where "j < di_cap t" "di_at t j = Some k" by (auto simp: occupied_def)
    then show "k \<in> dom (di_map t)" using slots_map_at [OF ch, of j k "di_val t"] by (auto simp: di_map_def)
  qed
  moreover have "inj_on (\<lambda>j. the (di_at t j)) ?O"
    by (rule inj_onI) (use chained_unique [OF ch] in \<open>auto simp: occupied_def\<close>)
  moreover have "finite ?O" by (simp add: occupied_def)
  ultimately show ?thesis using inv by (simp add: card_image di_inv_def)
qed

end
