(* ===== verification/RV_Pair_Index.thy ===== *)
theory RV_Pair_Index
  imports RV_Dense_Index
begin

text \<open>
  \<^verbatim>\<open>src/base/pair_index.hpp\<close>: \<^verbatim>\<open>PairIndex\<close>, the open-addressing set of
  \<^verbatim>\<open>(uint64, uint32)\<close> pairs compared exactly, and \<^verbatim>\<open>TwoGenSet\<close>, the idempotency set of
  two generations rotated by the date of the event.

  \<^verbatim>\<open>PairIndex\<close> is an instance of \<open>probe_table\<close> with no value; both classes are then instances of
  the contract \<open>bounded_set\<close>, which is what the corporate-action and dividend handlers rely on for
  invariant I6.
\<close>

section \<open>PairIndex\<close>

record PairIndex =
  pi_hi :: "u64 list"
  pi_lo :: "u32 list"
  pi_ocupado :: "u8 list"
  pi_cap :: nat
  pi_mask :: nat
  pi_size :: nat

definition pi_new :: "nat \<Rightarrow> PairIndex" where
  "pi_new cap = \<lparr>pi_hi = replicate cap 0, pi_lo = replicate cap 0, pi_ocupado = replicate cap 0,
                 pi_cap = cap, pi_mask = cap - 1, pi_size = 0\<rparr>"

definition pi_clear :: "PairIndex \<Rightarrow> PairIndex" where
  "pi_clear t = t\<lparr>pi_hi := replicate (pi_cap t) 0, pi_lo := replicate (pi_cap t) 0,
                  pi_ocupado := replicate (pi_cap t) 0, pi_size := 0\<rparr>"

definition pi_init :: "Arena \<Rightarrow> nat \<Rightarrow> (PairIndex option \<times> Arena) option" where
  "pi_init arena max_elements =
     do {
       cap \<leftarrow> grow_cap 16 (table_minimum max_elements);
       let (hi, a1) = alloc_array 8 8 cap arena;
       let (lo, a2) = alloc_array 4 4 cap a1;
       let (oc, a3) = alloc_array 1 1 cap a2;
       Some (if hi = None \<or> lo = None \<or> oc = None then (None, a3) else (Some (pi_new cap), a3))
     }"

definition pi_slot :: "PairIndex \<Rightarrow> u64 \<times> u32 \<Rightarrow> nat" where
  "pi_slot t k = (case k of (hi, lo) \<Rightarrow>
     unat (ucast (mix64 (hi XOR (ucast lo * 0x9E3779B97F4A7C15))) :: u32) AND pi_mask t)"

text \<open>The result is (inserted, overflow, table).\<close>

primrec pi_insert_loop :: "PairIndex \<Rightarrow> u64 \<Rightarrow> u32 \<Rightarrow> nat \<Rightarrow> nat \<Rightarrow> bool \<times> bool \<times> PairIndex" where
  "pi_insert_loop t hi lo i 0 = (False, True, t)"
| "pi_insert_loop t hi lo i (Suc passos) =
     (if pi_ocupado t ! i = 0 then
        if pi_size t * 10 \<ge> pi_cap t * 7 then (False, True, t)
        else (True, False, t\<lparr>pi_hi := (pi_hi t)[i := hi], pi_lo := (pi_lo t)[i := lo],
                             pi_ocupado := (pi_ocupado t)[i := 1], pi_size := pi_size t + 1\<rparr>)
      else if pi_hi t ! i = hi \<and> pi_lo t ! i = lo then (False, False, t)
      else pi_insert_loop t hi lo ((i + 1) AND pi_mask t) passos)"

definition pi_insert :: "PairIndex \<Rightarrow> u64 \<Rightarrow> u32 \<Rightarrow> bool \<times> bool \<times> PairIndex" where
  "pi_insert t hi lo = pi_insert_loop t hi lo (pi_slot t (hi, lo)) (pi_mask t + 1)"

primrec pi_contains_loop :: "PairIndex \<Rightarrow> u64 \<Rightarrow> u32 \<Rightarrow> nat \<Rightarrow> nat \<Rightarrow> bool" where
  "pi_contains_loop t hi lo i 0 = False"
| "pi_contains_loop t hi lo i (Suc passos) =
     (if pi_ocupado t ! i = 0 then False
      else if pi_hi t ! i = hi \<and> pi_lo t ! i = lo then True
      else pi_contains_loop t hi lo ((i + 1) AND pi_mask t) passos)"

definition pi_contains :: "PairIndex \<Rightarrow> u64 \<Rightarrow> u32 \<Rightarrow> bool" where
  "pi_contains t hi lo = pi_contains_loop t hi lo (pi_slot t (hi, lo)) (pi_mask t + 1)"

definition pi_for_each :: "PairIndex \<Rightarrow> (u64 \<times> u32) list" where
  "pi_for_each t = [(pi_hi t ! i, pi_lo t ! i). i \<leftarrow> [0..<pi_cap t], pi_ocupado t ! i \<noteq> 0]"

section \<open>TwoGenSet\<close>

text \<open>\<^verbatim>\<open>gen_[0]\<close>, \<^verbatim>\<open>gen_[1]\<close>, the index of the current generation and the date of the last rotation.\<close>

record TwoGenSet =
  tg_gen0 :: PairIndex
  tg_gen1 :: PairIndex
  tg_atual :: nat
  tg_rotacao :: DateYmd

definition tg_gen :: "TwoGenSet \<Rightarrow> nat \<Rightarrow> PairIndex" where
  "tg_gen s g = (if g = 0 then tg_gen0 s else tg_gen1 s)"

definition tg_set_gen :: "TwoGenSet \<Rightarrow> nat \<Rightarrow> PairIndex \<Rightarrow> TwoGenSet" where
  "tg_set_gen s g t = (if g = 0 then s\<lparr>tg_gen0 := t\<rparr> else s\<lparr>tg_gen1 := t\<rparr>)"

definition tg_init :: "Arena \<Rightarrow> nat \<Rightarrow> (TwoGenSet option \<times> Arena) option" where
  "tg_init a max_por_geracao =
     do {
       (g0, a1) \<leftarrow> pi_init a max_por_geracao;
       case g0 of None \<Rightarrow> Some (None, a1)
       | Some t0 \<Rightarrow> do {
           (g1, a2) \<leftarrow> pi_init a1 max_por_geracao;
           case g1 of None \<Rightarrow> Some (None, a2)
           | Some t1 \<Rightarrow> Some (Some \<lparr>tg_gen0 = t0, tg_gen1 = t1, tg_atual = 0, tg_rotacao = 0\<rparr>, a2)
         }
     }"

definition tg_contains :: "TwoGenSet \<Rightarrow> u64 \<Rightarrow> u32 \<Rightarrow> bool" where
  "tg_contains s hi lo \<longleftrightarrow>
     pi_contains (tg_gen s (tg_atual s)) hi lo \<or> pi_contains (tg_gen s (1 - tg_atual s)) hi lo"

definition tg_insert :: "TwoGenSet \<Rightarrow> u64 \<Rightarrow> u32 \<Rightarrow> bool \<times> bool \<times> TwoGenSet" where
  "tg_insert s hi lo =
     (if tg_contains s hi lo then (False, False, s)
      else case pi_insert (tg_gen s (tg_atual s)) hi lo of
        (ok, overflow, t) \<Rightarrow> (ok, overflow, tg_set_gen s (tg_atual s) t))"

definition maybe_rotate :: "TwoGenSet \<Rightarrow> DateYmd \<Rightarrow> int \<Rightarrow> TwoGenSet" where
  "maybe_rotate s hoje janela_dias =
     (if date_empty (tg_rotacao s) then s\<lparr>tg_rotacao := hoje\<rparr>
      else if day_index hoje - day_index (tg_rotacao s) < janela_dias then s
      else let atual = 1 - tg_atual s in
        (tg_set_gen s atual (pi_clear (tg_gen s atual)))\<lparr>tg_atual := atual, tg_rotacao := hoje\<rparr>)"

definition tg_size :: "TwoGenSet \<Rightarrow> nat" where
  "tg_size s = pi_size (tg_gen0 s) + pi_size (tg_gen1 s)"

definition tg_for_each :: "TwoGenSet \<Rightarrow> (u64 \<times> u32 \<times> nat) list" where
  "tg_for_each s = map (\<lambda>(hi, lo). (hi, lo, 0)) (pi_for_each (tg_gen0 s))
                   @ map (\<lambda>(hi, lo). (hi, lo, 1)) (pi_for_each (tg_gen1 s))"

definition tg_insert_into :: "TwoGenSet \<Rightarrow> nat \<Rightarrow> u64 \<Rightarrow> u32 \<Rightarrow> bool \<times> TwoGenSet" where
  "tg_insert_into s geracao hi lo =
     (let g = geracao AND 1 in
      case pi_insert (tg_gen s g) hi lo of
        (ok, cheio, t) \<Rightarrow> (ok \<and> \<not> cheio, tg_set_gen s g t))"

definition tg_set_state :: "TwoGenSet \<Rightarrow> nat \<Rightarrow> DateYmd \<Rightarrow> TwoGenSet" where
  "tg_set_state s atual rotacao = s\<lparr>tg_atual := atual AND 1, tg_rotacao := rotacao\<rparr>"

section \<open>The contract of a bounded set\<close>

locale bounded_set =
  fixes inv :: "'t \<Rightarrow> bool"
    and members :: "'t \<Rightarrow> 'k set"
    and contains :: "'t \<Rightarrow> 'k \<Rightarrow> bool"
    and ins :: "'t \<Rightarrow> 'k \<Rightarrow> bool \<times> bool \<times> 't"
    and room :: "'t \<Rightarrow> bool"
  assumes contains_members: "inv t \<Longrightarrow> contains t k \<longleftrightarrow> k \<in> members t"
    and ins_old: "inv t \<Longrightarrow> k \<in> members t \<Longrightarrow> ins t k = (False, False, t)"
    and ins_no_room: "inv t \<Longrightarrow> k \<notin> members t \<Longrightarrow> \<not> room t \<Longrightarrow> \<exists>t'. ins t k = (False, True, t')
          \<and> inv t' \<and> members t' = members t"
    and ins_new: "inv t \<Longrightarrow> k \<notin> members t \<Longrightarrow> room t \<Longrightarrow>
          \<exists>t'. ins t k = (True, False, t') \<and> inv t' \<and> members t' = insert k (members t)"
begin

text \<open>The first result is true exactly when the key was new and there was room: the answer of I6.\<close>

lemma ins_result:
  assumes "inv t" and "ins t k = (ok, cheio, t')"
  shows "inv t'" and "ok \<longleftrightarrow> k \<notin> members t \<and> room t" and "cheio \<longleftrightarrow> k \<notin> members t \<and> \<not> room t"
    and "members t' = (if ok then insert k (members t) else members t)"
proof -
  have "inv t' \<and> (ok \<longleftrightarrow> k \<notin> members t \<and> room t) \<and> (cheio \<longleftrightarrow> k \<notin> members t \<and> \<not> room t)
        \<and> members t' = (if ok then insert k (members t) else members t)"
  proof (cases "k \<in> members t")
    case True
    with ins_old [OF assms(1)] assms show ?thesis by simp
  next
    case False
    show ?thesis
    proof (cases "room t")
      case True
      with ins_new [OF assms(1) False] assms(2) False show ?thesis by auto
    next
      case False': False
      with ins_no_room [OF assms(1) False] assms(2) False show ?thesis by auto
    qed
  qed
  then show "inv t'" "ok \<longleftrightarrow> k \<notin> members t \<and> room t" "cheio \<longleftrightarrow> k \<notin> members t \<and> \<not> room t"
    "members t' = (if ok then insert k (members t) else members t)" by blast+
qed

text \<open>A key accepted once is never accepted again while it is retained.\<close>

lemma ins_twice:
  assumes "inv t" and "ins t k = (True, cheio, t')"
  shows "ins t' k = (False, False, t')"
  using ins_result [OF assms] ins_old by simp

end

section \<open>PairIndex implements the contracts\<close>

definition pi_at :: "PairIndex \<Rightarrow> nat \<Rightarrow> (u64 \<times> u32) option" where
  "pi_at t j = (if pi_ocupado t ! j = 0 then None else Some (pi_hi t ! j, pi_lo t ! j))"

definition pi_members :: "PairIndex \<Rightarrow> (u64 \<times> u32) set" where
  "pi_members t = {k. \<exists>j<pi_cap t. pi_at t j = Some k}"

definition pi_inv :: "PairIndex \<Rightarrow> bool" where
  "pi_inv t \<longleftrightarrow> pow2_cap (pi_cap t) \<and> pi_mask t = pi_cap t - 1
     \<and> length (pi_hi t) = pi_cap t \<and> length (pi_lo t) = pi_cap t \<and> length (pi_ocupado t) = pi_cap t
     \<and> chained (pi_at t) (pi_cap t) (pi_slot t)
     \<and> pi_size t = card (occupied (pi_at t) (pi_cap t)) \<and> pi_size t \<le> load_limit (pi_cap t)"

definition pi_put :: "PairIndex \<Rightarrow> nat \<Rightarrow> u64 \<times> u32 \<Rightarrow> unit \<Rightarrow> PairIndex" where
  "pi_put t i k u = t\<lparr>pi_hi := (pi_hi t)[i := fst k], pi_lo := (pi_lo t)[i := snd k],
                      pi_ocupado := (pi_ocupado t)[i := 1], pi_size := pi_size t + 1\<rparr>"

definition pi_find_unit :: "PairIndex \<Rightarrow> u64 \<times> u32 \<Rightarrow> unit option" where
  "pi_find_unit t k = (if pi_contains t (fst k) (snd k) then Some () else None)"

definition pi_insert_unit :: "PairIndex \<Rightarrow> u64 \<times> u32 \<Rightarrow> unit \<Rightarrow> unit option \<times> bool \<times> PairIndex" where
  "pi_insert_unit t k u = (case pi_insert t (fst k) (snd k) of
     (ok, cheio, t') \<Rightarrow> (if cheio then None else Some (), ok, t'))"

lemma pi_contains_loop_probe:
  assumes "pi_mask t = pi_cap t - 1" and "pow2_cap (pi_cap t)"
  shows "pi_contains_loop t hi lo i n \<longleftrightarrow>
           (case probe (pi_at t) (pi_cap t) (hi, lo) i n of
              None \<Rightarrow> False | Some j \<Rightarrow> pi_at t j \<noteq> None)"
  by (induction n arbitrary: i) (auto simp: pi_at_def assms(1) pow2_cap_step [OF assms(2)])

lemma pi_insert_loop_probe:
  assumes "pi_mask t = pi_cap t - 1" and "pow2_cap (pi_cap t)"
  shows "pi_insert_loop t hi lo i n =
           (case probe (pi_at t) (pi_cap t) (hi, lo) i n of
              None \<Rightarrow> (False, True, t)
            | Some j \<Rightarrow>
                if pi_at t j = None
                then if load_limit (pi_cap t) \<le> pi_size t then (False, True, t)
                     else (True, False, pi_put t j (hi, lo) ())
                else (False, False, t))"
  by (induction n arbitrary: i)
    (auto simp: pi_at_def pi_put_def load_limit_iff assms(1) pow2_cap_step [OF assms(2)])

lemma pi_slot_less: "pi_mask t = pi_cap t - 1 \<Longrightarrow> pow2_cap (pi_cap t) \<Longrightarrow> pi_slot t k < pi_cap t"
  using pow2_cap_mask [of "pi_cap t"] by (simp add: pi_slot_def mod_less_divisor split: prod.split)

lemma pi_put_at:
  assumes "length (pi_hi t) = pi_cap t" "length (pi_lo t) = pi_cap t" "length (pi_ocupado t) = pi_cap t"
    and "j < pi_cap t"
  shows "pi_at (pi_put t j k u) = (pi_at t)(j := Some k)"
  using assms by (auto simp: fun_eq_iff pi_at_def pi_put_def nth_list_update)

interpretation pairs: probe_table pi_inv pi_cap pi_slot pi_at "\<lambda>t j. ()" pi_size
  "\<lambda>t. load_limit (pi_cap t)" pi_put pi_find_unit pi_insert_unit "\<lambda>u. True"
proof (unfold_locales, goal_cases)
  case (1 t k)
  then show ?case by (simp add: pi_inv_def pi_slot_less)
next
  case (4 t)
  then show ?case
    using pow2_cap_mask(2) [of "pi_cap t"] load_limit_less [of "pi_cap t"] by (simp add: pi_inv_def)
next
  case (5 t k)
  then have c: "pi_mask t = pi_cap t - 1" "pow2_cap (pi_cap t)" by (simp_all add: pi_inv_def)
  then have "pi_mask t + 1 = pi_cap t" using pow2_cap_mask(2) [of "pi_cap t"] by simp
  then show ?case
    by (auto simp: pi_find_unit_def pi_contains_def pi_contains_loop_probe [OF c] split: option.splits)
next
  case (6 t k v)
  then have c: "pi_mask t = pi_cap t - 1" "pow2_cap (pi_cap t)" by (simp_all add: pi_inv_def)
  then have "pi_mask t + 1 = pi_cap t" using pow2_cap_mask(2) [of "pi_cap t"] by simp
  then show ?case
    by (auto simp: pi_insert_unit_def pi_insert_def pi_insert_loop_probe [OF c] split: option.splits)
next
  case (7 t j v k)
  then show ?case by (simp add: pi_inv_def pi_put_at)
next
  case (12 t v j k)
  then show ?case by (simp add: pi_inv_def pi_put_def pi_slot_def [abs_def] not_le)
qed (auto simp: pi_inv_def pi_put_def)

lemma pi_members_dom: "k \<in> pi_members t \<longleftrightarrow> slots_map (pi_cap t) (pi_at t) (\<lambda>j. ()) k \<noteq> None"
  by (auto simp: pi_members_def slots_map_None)

definition pi_room :: "PairIndex \<Rightarrow> bool" where
  "pi_room t \<longleftrightarrow> pi_size t < load_limit (pi_cap t)"

lemma pi_insert_of_unit:
  assumes "pi_insert_unit t k () = (r, b, t')" and "b \<longrightarrow> r \<noteq> None"
  shows "pi_insert t (fst k) (snd k) = (b, r = None, t')"
  using assms by (auto simp: pi_insert_unit_def split: prod.splits if_splits)

interpretation pair_set: bounded_set pi_inv pi_members "\<lambda>t k. pi_contains t (fst k) (snd k)"
  "\<lambda>t k. pi_insert t (fst k) (snd k)" pi_room
proof (unfold_locales, goal_cases)
  case (1 t k)
  then show ?case using pairs.find_abs [OF 1, of k] pi_members_dom [of k t]
    by (auto simp: pi_find_unit_def split: if_splits)
next
  case (2 t k)
  then have "slots_map (pi_cap t) (pi_at t) (\<lambda>j. ()) k = Some ()" by (simp add: pi_members_dom)
  from pairs.ins_present [OF 2(1) this, of "()"] show ?case
    using pi_insert_of_unit by fastforce
next
  case (3 t k)
  then have "slots_map (pi_cap t) (pi_at t) (\<lambda>j. ()) k = None" using pi_members_dom [of k t] by blast
  from pairs.ins_full [OF 3(1) this, of "()"] 3 have "pi_insert_unit t k () = (None, False, t)"
    by (simp add: pi_room_def)
  from pi_insert_of_unit [OF this] 3 show ?case by simp
next
  case (4 t k)
  then have n: "slots_map (pi_cap t) (pi_at t) (\<lambda>j. ()) k = None" using pi_members_dom [of k t] by blast
  from pairs.ins_fresh [OF 4(1) n, of "()"] 4(3) obtain t' where
    t': "pi_insert_unit t k () = (Some (), True, t')" "pi_inv t'"
      "slots_map (pi_cap t') (pi_at t') (\<lambda>j. ()) = (slots_map (pi_cap t) (pi_at t) (\<lambda>j. ()))(k \<mapsto> ())"
    by (auto simp: pi_room_def)
  have "pi_members t' = insert k (pi_members t)"
    by (rule set_eqI) (simp add: pi_members_dom t'(3))
  with t' pi_insert_of_unit [OF t'(1)] show ?case by simp
qed

section \<open>TwoGenSet implements the set contract\<close>

definition tg_inv :: "TwoGenSet \<Rightarrow> bool" where
  "tg_inv s \<longleftrightarrow> pi_inv (tg_gen0 s) \<and> pi_inv (tg_gen1 s) \<and> tg_atual s \<le> 1"

definition tg_members :: "TwoGenSet \<Rightarrow> (u64 \<times> u32) set" where
  "tg_members s = pi_members (tg_gen0 s) \<union> pi_members (tg_gen1 s)"

definition tg_room :: "TwoGenSet \<Rightarrow> bool" where
  "tg_room s \<longleftrightarrow> pi_room (tg_gen s (tg_atual s))"

lemma tg_gen_other: "tg_inv s \<Longrightarrow> {tg_gen s (tg_atual s), tg_gen s (1 - tg_atual s)} = {tg_gen0 s, tg_gen1 s}"
  by (cases "tg_atual s = 0") (auto simp: tg_inv_def tg_gen_def)

lemma tg_contains_members: "tg_inv s \<Longrightarrow> tg_contains s hi lo \<longleftrightarrow> (hi, lo) \<in> tg_members s"
  using pair_set.contains_members [of "tg_gen0 s" "(hi, lo)"]
    pair_set.contains_members [of "tg_gen1 s" "(hi, lo)"]
  by (cases "tg_atual s = 0") (auto simp: tg_inv_def tg_gen_def tg_contains_def tg_members_def)

lemma tg_set_gen_inv:
  "tg_inv s \<Longrightarrow> pi_inv t \<Longrightarrow> tg_inv (tg_set_gen s g t)"
  by (simp add: tg_inv_def tg_set_gen_def)

lemma tg_set_gen_members:
  "pi_members t = insert k (pi_members (tg_gen s g)) \<Longrightarrow> tg_members (tg_set_gen s g t) = insert k (tg_members s)"
  "pi_members t = pi_members (tg_gen s g) \<Longrightarrow> tg_members (tg_set_gen s g t) = tg_members s"
  by (auto simp: tg_members_def tg_set_gen_def tg_gen_def)

interpretation two_gen: bounded_set tg_inv tg_members "\<lambda>s k. tg_contains s (fst k) (snd k)"
  "\<lambda>s k. tg_insert s (fst k) (snd k)" tg_room
proof (unfold_locales, goal_cases)
  case (1 s k)
  then show ?case by (simp add: tg_contains_members)
next
  case (2 s k)
  then show ?case by (simp add: tg_insert_def tg_contains_members)
next
  case (3 s k)
  let ?g = "tg_gen s (tg_atual s)"
  have g: "pi_inv ?g" and k: "k \<notin> pi_members ?g"
    using 3(1,2) by (auto simp: tg_inv_def tg_gen_def tg_members_def)
  from pair_set.ins_no_room [OF g k] 3(3) obtain t where
    "pi_insert ?g (fst k) (snd k) = (False, True, t)" "pi_inv t" "pi_members t = pi_members ?g"
    by (auto simp: tg_room_def)
  with 3 show ?case
    by (simp add: tg_insert_def tg_contains_members tg_set_gen_inv tg_set_gen_members(2))
next
  case (4 s k)
  let ?g = "tg_gen s (tg_atual s)"
  have g: "pi_inv ?g" and k: "k \<notin> pi_members ?g"
    using 4(1,2) by (auto simp: tg_inv_def tg_gen_def tg_members_def)
  from pair_set.ins_new [OF g k] 4(3) obtain t where
    "pi_insert ?g (fst k) (snd k) = (True, False, t)" "pi_inv t" "pi_members t = insert k (pi_members ?g)"
    by (auto simp: tg_room_def)
  with 4 show ?case
    by (simp add: tg_insert_def tg_contains_members tg_set_gen_inv tg_set_gen_members(1) [of _ k])
qed

section \<open>Initialisation and rotation\<close>

lemma pi_new_inv:
  assumes "pow2_cap c"
  shows "pi_inv (pi_new c)" and "pi_members (pi_new c) = {}"
proof -
  have at: "j < c \<Longrightarrow> pi_at (pi_new c) j = None" for j by (simp add: pi_at_def pi_new_def)
  have cap: "pi_cap (pi_new c) = c" by (simp add: pi_new_def)
  have occ: "occupied (pi_at (pi_new c)) c = {}" using at by (auto simp: occupied_def)
  have "chained (pi_at (pi_new c)) c (pi_slot (pi_new c))" using at by (simp add: chained_def)
  with assms occ show "pi_inv (pi_new c)" by (simp add: pi_inv_def cap) (simp add: pi_new_def)
  show "pi_members (pi_new c) = {}" using at by (simp add: pi_members_def cap)
qed

lemma pi_clear_new: "pi_inv t \<Longrightarrow> pi_clear t = pi_new (pi_cap t)"
  by (simp add: pi_clear_def pi_new_def pi_inv_def)

lemma pi_clear_inv: "pi_inv t \<Longrightarrow> pi_inv (pi_clear t) \<and> pi_members (pi_clear t) = {}"
  using pi_new_inv [of "pi_cap t"] by (simp add: pi_clear_new) (simp add: pi_inv_def)

lemma pi_init_ok:
  assumes "pi_init a n = Some (Some t, a')" and "n \<le> 1503238553"
  shows "pi_inv t" and "pi_members t = {}" and "n \<le> load_limit (pi_cap t)" and "pi_size t = 0"
proof -
  have "table_minimum n \<le> 2147483648" using assms(2) by (simp add: table_minimum_def)
  from grow_cap_returns [OF this, of 4] obtain c
    where c: "grow_cap 16 (table_minimum n) = Some c" "pow2_cap c" "table_minimum n \<le> c" by auto
  then have "t = pi_new c"
    using assms(1) by (auto simp: pi_init_def Let_def split: prod.splits if_splits)
  then show "pi_inv t" "pi_members t = {}" "n \<le> load_limit (pi_cap t)" "pi_size t = 0"
    using pi_new_inv [OF c(2)] table_minimum_limit [OF c(3)] by (simp_all add: pi_new_def)
qed

lemma tg_init_ok:
  assumes "tg_init a n = Some (Some s, a')" and "n \<le> 1503238553"
  shows "tg_inv s" and "tg_members s = {}"
proof -
  from assms(1) obtain t0 a1 t1 where "pi_init a n = Some (Some t0, a1)"
    and "pi_init a1 n = Some (Some t1, a')"
    and s: "s = \<lparr>tg_gen0 = t0, tg_gen1 = t1, tg_atual = 0, tg_rotacao = 0\<rparr>"
    by (auto simp: tg_init_def split: bind_splits option.splits)
  then have "pi_inv t0" "pi_members t0 = {}" "pi_inv t1" "pi_members t1 = {}"
    using pi_init_ok assms(2) by blast+
  then show "tg_inv s" "tg_members s = {}" by (simp_all add: s tg_inv_def tg_members_def)
qed

text \<open>
  What a rotation keeps: everything written to the current generation since the previous rotation.
  What it drops: the generation that was already one window old.
\<close>

lemma maybe_rotate_inv:
  assumes "tg_inv s"
  shows "tg_inv (maybe_rotate s d w)"
  using assms pi_clear_inv [of "tg_gen0 s"] pi_clear_inv [of "tg_gen1 s"]
  by (cases "tg_atual s = 0") (auto simp: maybe_rotate_def tg_inv_def tg_set_gen_def tg_gen_def Let_def)

lemma maybe_rotate_members:
  assumes "tg_inv s"
  shows "tg_members (maybe_rotate s d w) =
           (if date_empty (tg_rotacao s) \<or> day_index d - day_index (tg_rotacao s) < w then tg_members s
            else pi_members (tg_gen s (tg_atual s)))"
  using assms pi_clear_inv [of "tg_gen0 s"] pi_clear_inv [of "tg_gen1 s"]
  by (cases "tg_atual s = 0")
    (auto simp: maybe_rotate_def tg_inv_def tg_set_gen_def tg_gen_def Let_def tg_members_def)

end
