(* ===== verification/RV_Trade_State.thy ===== *)
theory RV_Trade_State
  imports RV_Prelude
begin

text \<open>
  \<^verbatim>\<open>src/core/trade_state.hpp\<close>: the life of a trade (invariant I5).  The dense table is built
  from the single list \<open>kEdges\<close>, as in the source; the lemmas show that the table and the list
  say the same, and which histories of triggers lead to which state, written out as a pattern.

  The \<^verbatim>\<open>Count\<close> enumerators are the two dimensions of the table.
\<close>

datatype TradeState = TsNone | TsExecuted | TsAllocated | TsNetted | TsSettled | TsDeliveryFailed | TsClosed

datatype TradeTrigger = TgExecute | TgAllocate | TgNet | TgSettle | TgFail | TgBuyIn | TgClose

fun ts_code :: "TradeState \<Rightarrow> nat" where
  "ts_code TsNone = 0"
| "ts_code TsExecuted = 1"
| "ts_code TsAllocated = 2"
| "ts_code TsNetted = 3"
| "ts_code TsSettled = 4"
| "ts_code TsDeliveryFailed = 5"
| "ts_code TsClosed = 6"

fun tg_code :: "TradeTrigger \<Rightarrow> nat" where
  "tg_code TgExecute = 0"
| "tg_code TgAllocate = 1"
| "tg_code TgNet = 2"
| "tg_code TgSettle = 3"
| "tg_code TgFail = 4"
| "tg_code TgBuyIn = 5"
| "tg_code TgClose = 6"

definition kTradeStateCount :: nat where "kTradeStateCount = 7"

definition kTradeTriggerCount :: nat where "kTradeTriggerCount = 7"

record Edge =
  ed_de :: TradeState
  ed_gatilho :: TradeTrigger
  ed_para :: TradeState

definition kEdges :: "Edge list" where
  "kEdges =
    [\<lparr>ed_de = TsNone,           ed_gatilho = TgExecute,  ed_para = TsExecuted\<rparr>,
     \<lparr>ed_de = TsExecuted,       ed_gatilho = TgAllocate, ed_para = TsAllocated\<rparr>,
     \<lparr>ed_de = TsAllocated,      ed_gatilho = TgNet,      ed_para = TsNetted\<rparr>,
     \<lparr>ed_de = TsNetted,         ed_gatilho = TgSettle,   ed_para = TsSettled\<rparr>,
     \<lparr>ed_de = TsNetted,         ed_gatilho = TgFail,     ed_para = TsDeliveryFailed\<rparr>,
     \<lparr>ed_de = TsDeliveryFailed, ed_gatilho = TgBuyIn,    ed_para = TsNetted\<rparr>,
     \<lparr>ed_de = TsDeliveryFailed, ed_gatilho = TgClose,    ed_para = TsClosed\<rparr>,
     \<lparr>ed_de = TsSettled,        ed_gatilho = TgClose,    ed_para = TsClosed\<rparr>]"

definition build_table :: "TradeState list list" where
  "build_table =
     fold (\<lambda>e t. t[ts_code (ed_de e) := (t ! ts_code (ed_de e))[tg_code (ed_gatilho e) := ed_para e]]) kEdges
       (replicate kTradeStateCount (replicate kTradeTriggerCount TsNone))"

definition next_state :: "TradeState \<Rightarrow> TradeTrigger \<Rightarrow> TradeState" where
  "next_state s g = build_table ! ts_code s ! tg_code g"

definition is_valid :: "TradeState \<Rightarrow> TradeTrigger \<Rightarrow> bool" where
  "is_valid s g \<longleftrightarrow> next_state s g \<noteq> TsNone"

fun trade_state_to_string :: "TradeState \<Rightarrow> string" where
  "trade_state_to_string TsNone = ''None''"
| "trade_state_to_string TsExecuted = ''Executed''"
| "trade_state_to_string TsAllocated = ''Allocated''"
| "trade_state_to_string TsNetted = ''Netted''"
| "trade_state_to_string TsSettled = ''Settled''"
| "trade_state_to_string TsDeliveryFailed = ''DeliveryFailed''"
| "trade_state_to_string TsClosed = ''Closed''"

section \<open>Table and list agree\<close>

lemma build_table_eval:
  "build_table =
    [[TsExecuted, TsNone, TsNone, TsNone, TsNone, TsNone, TsNone],
     [TsNone, TsAllocated, TsNone, TsNone, TsNone, TsNone, TsNone],
     [TsNone, TsNone, TsNetted, TsNone, TsNone, TsNone, TsNone],
     [TsNone, TsNone, TsNone, TsSettled, TsDeliveryFailed, TsNone, TsNone],
     [TsNone, TsNone, TsNone, TsNone, TsNone, TsNone, TsClosed],
     [TsNone, TsNone, TsNone, TsNone, TsNone, TsNetted, TsClosed],
     [TsNone, TsNone, TsNone, TsNone, TsNone, TsNone, TsNone]]"
  by code_simp

lemma next_state_simps [simp]:
  "next_state TsNone g = (if g = TgExecute then TsExecuted else TsNone)"
  "next_state TsExecuted g = (if g = TgAllocate then TsAllocated else TsNone)"
  "next_state TsAllocated g = (if g = TgNet then TsNetted else TsNone)"
  "next_state TsNetted g = (if g = TgSettle then TsSettled else if g = TgFail then TsDeliveryFailed else TsNone)"
  "next_state TsSettled g = (if g = TgClose then TsClosed else TsNone)"
  "next_state TsDeliveryFailed g = (if g = TgBuyIn then TsNetted else if g = TgClose then TsClosed else TsNone)"
  "next_state TsClosed g = TsNone"
  by (cases g; simp add: next_state_def build_table_eval numeral_eq_Suc)+

lemma next_state_cases:
  assumes "next_state s g \<noteq> TsNone"
  obtains "s = TsNone" "g = TgExecute" | "s = TsExecuted" "g = TgAllocate" | "s = TsAllocated" "g = TgNet"
    | "s = TsNetted" "g = TgSettle" | "s = TsNetted" "g = TgFail" | "s = TsDeliveryFailed" "g = TgBuyIn"
    | "s = TsDeliveryFailed" "g = TgClose" | "s = TsSettled" "g = TgClose"
  using assms by (cases s) (auto split: if_splits)

section \<open>Histories\<close>

text \<open>One step of the machine, and the histories a trade can have from its creation.\<close>

inductive trade_step :: "TradeState \<Rightarrow> TradeTrigger \<Rightarrow> TradeState \<Rightarrow> bool" where
  edge: "e \<in> set kEdges \<Longrightarrow> trade_step (ed_de e) (ed_gatilho e) (ed_para e)"

inductive trade_run :: "TradeTrigger list \<Rightarrow> TradeState \<Rightarrow> bool" where
  born: "trade_run [] TsNone"
| step: "trade_run gs s \<Longrightarrow> trade_step s g s' \<Longrightarrow> trade_run (gs @ [g]) s'"

inductive_simps trade_step_iff: "trade_step s g s'"

lemma trade_step_next: "trade_step s g s' \<longleftrightarrow> is_valid s g \<and> s' = next_state s g"
proof
  assume "trade_step s g s'"
  then show "is_valid s g \<and> s' = next_state s g"
    by (auto simp: trade_step_iff kEdges_def is_valid_def)
next
  assume "is_valid s g \<and> s' = next_state s g"
  then have "next_state s g \<noteq> TsNone" and s': "s' = next_state s g" by (simp_all add: is_valid_def)
  then have "\<lparr>ed_de = s, ed_gatilho = g, ed_para = s'\<rparr> \<in> set kEdges"
    by (cases rule: next_state_cases) (simp_all add: kEdges_def)
  then show "trade_step s g s'" using trade_step.edge by fastforce
qed

text \<open>The machine run as a function, for evaluating concrete histories.\<close>

primrec run_triggers :: "TradeState \<Rightarrow> TradeTrigger list \<Rightarrow> TradeState option" where
  "run_triggers s [] = Some s"
| "run_triggers s (g # gs) = (if is_valid s g then run_triggers (next_state s g) gs else None)"

lemma run_triggers_append:
  "run_triggers s (gs @ hs) = Option.bind (run_triggers s gs) (\<lambda>s'. run_triggers s' hs)"
  by (induction gs arbitrary: s) simp_all

lemma trade_run_iff: "trade_run gs s \<longleftrightarrow> run_triggers TsNone gs = Some s"
proof
  show "trade_run gs s \<Longrightarrow> run_triggers TsNone gs = Some s"
    by (induction rule: trade_run.induct) (simp_all add: run_triggers_append trade_step_next)
next
  show "run_triggers TsNone gs = Some s \<Longrightarrow> trade_run gs s"
  proof (induction gs arbitrary: s rule: rev_induct)
    case Nil
    then show ?case by (simp add: trade_run.born)
  next
    case (snoc g gs)
    then obtain s0 where "run_triggers TsNone gs = Some s0" "is_valid s0 g" "s = next_state s0 g"
      by (auto simp: run_triggers_append split: bind_splits if_splits)
    with snoc.IH show ?case by (auto intro!: trade_run.step simp: trade_step_next)
  qed
qed

section \<open>The histories written out\<close>

text \<open>
  The life of a trade as a pattern of triggers, without the list of edges: executed, allocated, netted;
  then any number of failures each followed by a buy-in; then nothing more, a settlement, or a failure,
  and after the last two possibly the close.
\<close>

definition life_endings :: "(TradeTrigger list \<times> TradeState) list" where
  "life_endings =
     [([], TsNetted), ([TgSettle], TsSettled), ([TgSettle, TgClose], TsClosed),
      ([TgFail], TsDeliveryFailed), ([TgFail, TgClose], TsClosed)]"

definition trade_life :: "TradeTrigger list \<Rightarrow> TradeState \<Rightarrow> bool" where
  "trade_life gs s \<longleftrightarrow>
     (gs, s) \<in> {([], TsNone), ([TgExecute], TsExecuted), ([TgExecute, TgAllocate], TsAllocated)}
     \<or> (\<exists>n ending. (ending, s) \<in> set life_endings
          \<and> gs = [TgExecute, TgAllocate, TgNet] @ concat (replicate n [TgFail, TgBuyIn]) @ ending)"

lemma trade_life_early: "trade_life [] TsNone" "trade_life [TgExecute] TsExecuted" "trade_life [TgExecute, TgAllocate] TsAllocated"
  by (simp_all add: trade_life_def)

lemma trade_lifeI:
  "(ending, s) \<in> set life_endings \<Longrightarrow> trade_life ([TgExecute, TgAllocate, TgNet] @ concat (replicate n [TgFail, TgBuyIn]) @ ending) s"
  unfolding trade_life_def by blast

lemma run_buy_ins: "run_triggers TsNetted (concat (replicate n [TgFail, TgBuyIn]) @ gs) = run_triggers TsNetted gs"
  by (induction n) (simp_all add: is_valid_def)

lemma run_endings: "(ending, s) \<in> set life_endings \<Longrightarrow> run_triggers TsNetted ending = Some s"
  by (auto simp: life_endings_def is_valid_def)

lemma trade_life_run: "trade_life gs s \<Longrightarrow> run_triggers TsNone gs = Some s"
  by (auto simp: trade_life_def run_buy_ins run_endings is_valid_def)

text \<open>A trade past netting is in one of the endings, and a valid trigger leads to another one.\<close>

lemma late_life:
  assumes "trade_life gs s" and "s \<notin> {TsNone, TsExecuted, TsAllocated}"
  obtains n ending where "(ending, s) \<in> set life_endings" "gs = [TgExecute, TgAllocate, TgNet] @ concat (replicate n [TgFail, TgBuyIn]) @ ending"
  using assms unfolding trade_life_def by auto

lemma replicate_snoc: "concat (replicate n xs) @ xs @ ys = concat (replicate (Suc n) xs) @ ys"
  by (induction n) simp_all

lemma trade_life_step:
  assumes "trade_life gs s" and "is_valid s g"
  shows "trade_life (gs @ [g]) (next_state s g)"
proof -
  let ?pre = "[TgExecute, TgAllocate, TgNet]" and ?loop = "\<lambda>n. concat (replicate n [TgFail, TgBuyIn])"
  show ?thesis
  proof (cases "s \<in> {TsNone, TsExecuted, TsAllocated}")
    case True
    then have "gs = (if s = TsNone then [] else if s = TsExecuted then [TgExecute] else [TgExecute, TgAllocate])"
      using assms(1) by (auto simp: trade_life_def life_endings_def)
    then show ?thesis using True assms(2) trade_life_early trade_lifeI [of "[]" TsNetted 0]
      by (auto simp: is_valid_def life_endings_def)
  next
    case False
    obtain n ending where e: "(ending, s) \<in> set life_endings" "gs = ?pre @ ?loop n @ ending" using late_life [OF assms(1) False] .
    show ?thesis
    proof (cases "g = TgBuyIn")
      case True
      then have "s = TsDeliveryFailed" "ending = [TgFail]" using assms(2) e(1) by (cases s; auto simp: is_valid_def life_endings_def)+
      then show ?thesis using trade_lifeI [of "[]" TsNetted "Suc n"] e(2) True replicate_snoc [of n "[TgFail, TgBuyIn]" "[]"]
        by (simp add: life_endings_def)
    next
      case other: False
      have "(ending @ [g], next_state s g) \<in> set life_endings" using assms(2) e(1) other by (cases s) (auto simp: is_valid_def life_endings_def split: if_splits)
      from trade_lifeI [OF this, of n] e(2) show ?thesis by simp
    qed
  qed
qed

lemma run_trade_life: "run_triggers TsNone gs = Some s \<Longrightarrow> trade_life gs s"
proof (induction gs arbitrary: s rule: rev_induct)
  case Nil
  then show ?case by (simp add: trade_life_early)
next
  case (snoc g gs)
  then obtain s0 where "run_triggers TsNone gs = Some s0" "is_valid s0 g" "s = next_state s0 g"
    by (auto simp: run_triggers_append split: bind_splits if_splits)
  with snoc.IH trade_life_step show ?case by blast
qed

end
