(* ===== verification/RV_Metrics.thy ===== *)
theory RV_Metrics
  imports RV_Status
begin

text \<open>
  \<^verbatim>\<open>src/base/metrics.hpp\<close>: the fixed-size log-linear histogram and the counters of the engine.
  The \<^verbatim>\<open>uint64_t\<close> counters are naturals here; the table of rejections by code is \<^verbatim>\<open>uint32_t\<close> and
  wraps, as in the source.  \<^verbatim>\<open>Histogram::quantile\<close> works on \<^verbatim>\<open>double\<close> and is not modelled.
\<close>

section \<open>Histogram\<close>

definition kSubBuckets :: nat where "kSubBuckets = 64"

definition kOctaves :: nat where "kOctaves = 40"

definition kBuckets :: nat where "kBuckets = kSubBuckets * kOctaves"

lemmas bucket_defs = kSubBuckets_def kOctaves_def kBuckets_def

record Histogram =
  hg_buckets :: "nat list"
  hg_count :: nat
  hg_sum :: nat
  hg_max :: nat

definition hg_new :: Histogram where
  "hg_new = \<lparr>hg_buckets = replicate kBuckets 0, hg_count = 0, hg_sum = 0, hg_max = 0\<rparr>"

text \<open>\<^verbatim>\<open>63 - countl_zero(v)\<close>: the position of the highest set bit of a non-zero value.\<close>

fun highest_bit :: "nat \<Rightarrow> nat" where
  "highest_bit v = (if v < 2 then 0 else Suc (highest_bit (v div 2)))"

declare highest_bit.simps [simp del]

definition index_of :: "nat \<Rightarrow> nat" where
  "index_of v =
     (if v < kSubBuckets then v
      else let oitava = highest_bit v; desl = oitava - 6;
               sub = drop_bit desl v AND (kSubBuckets - 1);
               i = (desl + 1) * kSubBuckets + sub
           in if i < kBuckets then i else kBuckets - 1)"

definition value_of :: "nat \<Rightarrow> nat" where
  "value_of i =
     (if i < kSubBuckets then i
      else let oitava = i div kSubBuckets; sub = i mod kSubBuckets; desl = oitava - 1
           in push_bit desl (kSubBuckets + sub))"

definition hg_record :: "Histogram \<Rightarrow> nat \<Rightarrow> Histogram" where
  "hg_record h v =
     h\<lparr>hg_count := hg_count h + 1, hg_sum := hg_sum h + v, hg_max := max (hg_max h) v,
       hg_buckets := (hg_buckets h)[index_of v := hg_buckets h ! index_of v + 1]\<rparr>"

definition hg_reset :: "Histogram \<Rightarrow> Histogram" where
  "hg_reset h = h\<lparr>hg_count := 0, hg_sum := 0, hg_max := 0,
                  hg_buckets := map (\<lambda>_. 0) (hg_buckets h)\<rparr>"

lemma highest_bit_bounds: "0 < v \<Longrightarrow> 2 ^ highest_bit v \<le> v \<and> v < 2 ^ Suc (highest_bit v)"
proof (induction v rule: highest_bit.induct)
  case (1 v)
  show ?case
  proof (cases "v < 2")
    case True
    with 1(2) show ?thesis by (simp add: highest_bit.simps [of v])
  next
    case False
    define p :: nat where "p = 2 ^ highest_bit (v div 2)"
    have "p \<le> v div 2" "v div 2 < 2 * p" using 1(1) False by (simp_all add: p_def)
    then have "2 * p \<le> v" "v < 4 * p" by presburger+
    with False show ?thesis by (simp add: highest_bit.simps [of v] p_def)
  qed
qed

lemma highest_bit_ge: "2 ^ k \<le> v \<Longrightarrow> k \<le> highest_bit v"
proof (rule ccontr)
  assume v: "2 ^ k \<le> v" and "\<not> k \<le> highest_bit v"
  then have "(2::nat) ^ Suc (highest_bit v) \<le> 2 ^ k" by (intro power_increasing) simp_all
  moreover have "v < 2 ^ Suc (highest_bit v)"
    using highest_bit_bounds [of v] v by (simp add: order_less_le_trans [OF _ v])
  ultimately show False using v by simp
qed

text \<open>Every value falls in a bucket of the array.\<close>

lemma index_of_less: "index_of v < kBuckets"
  by (simp add: index_of_def Let_def bucket_defs)

text \<open>The lower bound of a bucket past the first octave, and that bounds grow from bucket to bucket.\<close>

lemma value_of_octave:
  assumes "64 \<le> w" and "w \<le> 128"
  shows "value_of (64 * d + w) = 2 ^ d * w"
proof (cases "w = 128")
  case True
  then have "64 * d + w = 64 * (d + 2)" by simp
  then show ?thesis using True by (simp add: value_of_def Let_def bucket_defs push_bit_eq_mult)
next
  case False
  then have "w div 64 = 1" "w mod 64 = w - 64" using assms by (simp_all add: div_if mod_if)
  then show ?thesis using assms by (simp add: value_of_def Let_def bucket_defs push_bit_eq_mult)
qed

lemma value_of_mono: "value_of i < value_of (Suc i)"
proof (cases "i < 64")
  case True
  then consider "i = 63" | "Suc i < 64" by linarith
  then show ?thesis using value_of_octave [of 64 0] by cases (simp_all add: value_of_def bucket_defs)
next
  case False
  define d w where "d = i div 64 - 1" and "w = i mod 64 + 64"
  have i: "i = 64 * d + w" "64 \<le> w" "w < 128"
  proof -
    have "1 \<le> i div 64" using False by (simp add: less_eq_div_iff_mult_less_eq)
    then have "64 * d + 64 = 64 * (i div 64)" by (simp add: d_def)
    then show "i = 64 * d + w" using mult_div_mod_eq [of 64 i] unfolding w_def by linarith
  qed (simp_all add: w_def)
  have "value_of i = 2 ^ d * w" using value_of_octave [of w d] i by simp
  moreover have "value_of (Suc i) = 2 ^ d * Suc w" using value_of_octave [of "Suc w" d] i by simp
  ultimately show ?thesis by simp
qed

lemma value_of_strict: "i < j \<Longrightarrow> value_of i < value_of j"
  using lift_Suc_mono_less [of value_of i j] value_of_mono by blast

text \<open>
  Below the last octave the lower bound of a value's bucket is at most the value, misses it by
  less than one part in 64 of it, and the bound of the next bucket is above the value.
\<close>

lemma index_value_bound:
  assumes "v < 2 ^ 45"
  shows "value_of (index_of v) \<le> v" and "64 * (v - value_of (index_of v)) \<le> v" and "v < value_of (Suc (index_of v))"
proof -
  have "value_of (index_of v) \<le> v \<and> 64 * (v - value_of (index_of v)) \<le> v \<and> v < value_of (Suc (index_of v))"
  proof (cases "v < 64")
    case True
    then have "index_of v = v" "value_of v = v" by (simp_all add: index_of_def value_of_def bucket_defs)
    then show ?thesis using value_of_mono [of v] by simp
  next
    case False
    define b where "b = highest_bit v"
    define d where "d = b - 6"
    have b: "2 ^ b \<le> v" "v < 2 ^ Suc b"
      using highest_bit_bounds [of v] False by (simp_all add: b_def)
    have b6: "6 \<le> b" using highest_bit_ge [of 6 v] False by (simp add: b_def)
    have b44: "b \<le> 44"
    proof (rule ccontr)
      assume "\<not> b \<le> 44"
      then have "(2::nat) ^ 45 \<le> 2 ^ b" by (intro power_increasing) simp_all
      with b(1) assms show False by simp
    qed
    have pw: "2 ^ b = 64 * (2::nat) ^ d" using b6 power_add [of "2::nat" 6 d] by (simp add: d_def)
    define w where "w = v div 2 ^ d"
    have w: "64 \<le> w" "w < 128"
      using b pw by (simp_all add: w_def less_eq_div_iff_mult_less_eq div_less_iff_less_mult)
    have sub: "drop_bit d v AND 63 = w - 64"
    proof -
      have "drop_bit d v AND 63 = w mod 64" using and_mask_nat [of w 6] by (simp add: drop_bit_eq_div w_def)
      also have "\<dots> = w - 64" using w by (simp add: mod_if)
      finally show ?thesis .
    qed
    have i: "index_of v = (d + 1) * 64 + (w - 64)"
    proof -
      have "(d + 1) * 64 + (w - 64) < 2560" using b44 b6 w by (simp add: d_def)
      with False show ?thesis
        by (simp add: index_of_def Let_def bucket_defs b_def [symmetric] d_def [symmetric] sub)
    qed
    have "index_of v = 64 * d + w" using i w by simp
    then have "value_of (index_of v) = 2 ^ d * w" "value_of (Suc (index_of v)) = 2 ^ d * w + 2 ^ d"
      using value_of_octave [of w d] value_of_octave [of "Suc w" d] w by simp_all
    moreover have "v = 2 ^ d * w + v mod 2 ^ d" by (simp add: w_def)
    moreover have "v mod 2 ^ d < 2 ^ d" by simp
    moreover have "64 * 2 ^ d \<le> v" using b pw by simp
    ultimately show ?thesis by linarith
  qed
  then show "value_of (index_of v) \<le> v" "64 * (v - value_of (index_of v)) \<le> v" "v < value_of (Suc (index_of v))" by simp_all
qed

text \<open>So the bucket of a value is the one whose interval holds it.\<close>

lemma index_of_iff:
  assumes "v < 2 ^ 45"
  shows "index_of v = i \<longleftrightarrow> value_of i \<le> v \<and> v < value_of (Suc i)"
proof
  assume "value_of i \<le> v \<and> v < value_of (Suc i)"
  moreover have "value_of (Suc i) \<le> value_of j" if "i < j" for j
    using that value_of_strict [of "Suc i" j] by (cases "Suc i = j") auto
  moreover have "value_of (Suc (index_of v)) \<le> value_of i" if "index_of v < i"
    using that value_of_strict [of "Suc (index_of v)" i] by (cases "Suc (index_of v) = i") auto
  ultimately show "index_of v = i" using index_value_bound [OF assms] by (meson linorder_neqE_nat not_less order_trans)
qed (use index_value_bound [OF assms] in auto)

definition hg_inv :: "Histogram \<Rightarrow> bool" where
  "hg_inv h \<longleftrightarrow> length (hg_buckets h) = kBuckets \<and> sum_list (hg_buckets h) = hg_count h"

lemma hg_record_inv: "hg_inv h \<Longrightarrow> hg_inv (hg_record h v)"
  using index_of_less [of v] sum_list_update_add [of "index_of v" "hg_buckets h" 1] by (simp add: hg_inv_def hg_record_def)

section \<open>Metrics\<close>

record Metrics =
  apply_accepted :: nat
  apply_rejected :: nat
  apply_fatal :: nat
  trades_closed :: nat
  rejected_by_code :: "u32 list"
  wal_appends :: nat
  wal_groups :: nat
  wal_bytes :: nat
  wal_full :: nat
  group_bytes :: Histogram
  inflight :: Histogram
  durable_latency_ns :: Histogram
  outbox_staged :: nat
  outbox_released :: nat
  outbox_full :: nat

definition kMaxErrCode :: nat where "kMaxErrCode = 512"

definition metrics_new :: Metrics where
  "metrics_new =
     \<lparr>apply_accepted = 0, apply_rejected = 0, apply_fatal = 0, trades_closed = 0,
      rejected_by_code = replicate kMaxErrCode 0, wal_appends = 0, wal_groups = 0, wal_bytes = 0,
      wal_full = 0, group_bytes = hg_new, inflight = hg_new, durable_latency_ns = hg_new,
      outbox_staged = 0, outbox_released = 0, outbox_full = 0\<rparr>"

definition count_reject :: "Metrics \<Rightarrow> nat \<Rightarrow> Metrics" where
  "count_reject m err =
     (let m' = m\<lparr>apply_rejected := apply_rejected m + 1\<rparr> in
      if err < kMaxErrCode
      then m'\<lparr>rejected_by_code := (rejected_by_code m')[err := rejected_by_code m' ! err + 1]\<rparr>
      else m')"

text \<open>
  The per-code table accounts for every rejection, because every error code is below its size; its
  counters add up to the total modulo two to the thirty-two.
\<close>

definition rejects_ok :: "Metrics \<Rightarrow> bool" where
  "rejects_ok m \<longleftrightarrow> length (rejected_by_code m) = kMaxErrCode
                    \<and> sum_list (rejected_by_code m) = of_nat (apply_rejected m)"

lemma count_reject_ok: "rejects_ok m \<Longrightarrow> rejects_ok (count_reject m (err_code e))"
  using err_code_bound [of e] sum_list_update_add [of "err_code e" "rejected_by_code m" 1]
  by (simp add: rejects_ok_def count_reject_def Let_def kMaxErrCode_def)

end
