(* ===== verification/RV_Partition_State.thy ===== *)
theory RV_Partition_State
  imports RV_Ledger RV_Pair_Index RV_Trade_State RV_Metrics RV_Bytes
begin

text \<open>
  \<^verbatim>\<open>src/core/partition_state.hpp\<close> and \<^verbatim>\<open>src/core/partition_state.cpp\<close>: everything one
  partition's \<^verbatim>\<open>apply\<close> can read and write, the interning of accounts, instruments and positions,
  the daily compaction of the trade table, the rebuilding of the indexes, the checksums that anchor
  I11 and the circular exception queue.

  A column of the C++ is a list of the table's capacity; rows at or above the count are unused.
\<close>

section \<open>Tables\<close>

record InstrumentTable =
  external_id :: "u32 list"
  symbol :: "u8 list list"
  isin :: "u8 list list"
  in_type :: "u8 list"
  price_factor :: "u32 list"
  lot_size :: "u32 list"
  closing_price :: "Price list"
  previous_close :: "Price list"
  closing_date :: "DateYmd list"
  in_count :: nat
  in_capacity :: nat

record TradeTable =
  trade_id :: "u64 list"
  broker_note_id :: "u64 list"
  tr_account :: "nat list"
  tr_instrument :: "nat list"
  tr_qty :: "Qty list"
  tr_price :: "Price list"
  tr_cash :: "Money list"
  settlement_date :: "DateYmd list"
  tr_side :: "u8 list"
  tr_state :: "TradeState list"
  next_of_account :: "nat list"
  tr_count :: nat
  tr_capacity :: nat

definition kNil :: nat where
  "kNil = sentinel32"

record ExceptionRecord =
  ex_document :: u64
  ex_qty_delta_raw :: i64
  ex_instrument :: u32
  ex_date :: u32
  ex_err_code :: nat
  ex_reserved :: nat

record PartitionCapacity =
  cp_accounts :: nat
  cp_instruments :: nat
  cp_positions :: nat
  cp_trades :: nat
  cp_corporate_actions_per_gen :: nat
  cp_exceptions :: nat
  cp_outbox_slots :: nat
  cp_outbox_payload_bytes :: nat
  cp_idempotency_window_days :: int

text \<open>The default member initialisers of the struct.\<close>

definition default_capacity :: PartitionCapacity where
  "default_capacity =
     \<lparr>cp_accounts = 65536, cp_instruments = 4096, cp_positions = 262144, cp_trades = 1048576,
      cp_corporate_actions_per_gen = 65536, cp_exceptions = 4096, cp_outbox_slots = 16384,
      cp_outbox_payload_bytes = 4194304, cp_idempotency_window_days = 60\<rparr>"

record PartitionState =
  pid :: u16
  business_date :: DateYmd
  prev_business_date :: DateYmd
  window :: SettlementWindow
  applied_lsn :: Lsn
  custody :: CustodyLedger
  cash_ledger :: CashLedger
  instruments :: InstrumentTable
  trades :: TradeTable
  account_index :: DenseIndex
  position_index :: DenseIndex
  instrument_index :: DenseIndex
  trade_index :: DenseIndex
  applied_actions :: TwoGenSet
  applied_income :: TwoGenSet
  account_first_trade :: "nat list"
  account_document :: "u64 list"
  exceptions :: "ExceptionRecord list"
  exception_count :: u32
  exception_dropped :: u32
  exception_capacity :: nat
  ps_flags :: u32
  ps_cap :: PartitionCapacity
  arena_bytes :: u64

definition kFlagReconDivergence :: u32 where
  "kFlagReconDivergence = 1"

section \<open>Initialisation\<close>

definition instruments_init :: "Arena \<Rightarrow> nat \<Rightarrow> InstrumentTable option \<times> Arena" where
  "instruments_init a cap =
     and_then (coluna 4 4 0 cap a) (\<lambda>ext a.
     and_then (coluna 12 1 (replicate 12 0) cap a) (\<lambda>sym a.
     and_then (coluna 12 1 (replicate 12 0) cap a) (\<lambda>isn a.
     and_then (coluna 1 1 0 cap a) (\<lambda>ty a.
     and_then (coluna 4 4 0 cap a) (\<lambda>pf a.
     and_then (coluna 4 4 0 cap a) (\<lambda>ls a.
     and_then (coluna 8 8 0 cap a) (\<lambda>cp a.
     and_then (coluna 8 8 0 cap a) (\<lambda>pc a.
     and_then (coluna 4 4 0 cap a) (\<lambda>cd a.
     (Some \<lparr>external_id = ext, symbol = sym, isin = isn, in_type = ty, price_factor = pf,
            lot_size = ls, closing_price = cp, previous_close = pc, closing_date = cd,
            in_count = 0, in_capacity = cap\<rparr>, a))))))))))"

definition trades_init :: "Arena \<Rightarrow> nat \<Rightarrow> TradeTable option \<times> Arena" where
  "trades_init a cap =
     and_then (coluna 8 8 0 cap a) (\<lambda>ti a.
     and_then (coluna 8 8 0 cap a) (\<lambda>bn a.
     and_then (coluna 4 4 0 cap a) (\<lambda>ac a.
     and_then (coluna 4 4 0 cap a) (\<lambda>ins a.
     and_then (coluna 8 8 0 cap a) (\<lambda>q a.
     and_then (coluna 8 8 0 cap a) (\<lambda>pr a.
     and_then (coluna 8 8 0 cap a) (\<lambda>ca a.
     and_then (coluna 4 4 0 cap a) (\<lambda>sd a.
     and_then (coluna 1 1 0 cap a) (\<lambda>si a.
     and_then (coluna 1 1 TsNone cap a) (\<lambda>st a.
     and_then (coluna 4 4 0 cap a) (\<lambda>nx a.
     (Some \<lparr>trade_id = ti, broker_note_id = bn, tr_account = ac, tr_instrument = ins, tr_qty = q,
            tr_price = pr, tr_cash = ca, settlement_date = sd, tr_side = si, tr_state = st,
            next_of_account = nx, tr_count = 0, tr_capacity = cap\<rparr>, a))))))))))))"

text \<open>
  A step of \<^verbatim>\<open>init\<close> that may loop forever in the growth of a table (\<open>None\<close>), fail (inner
  \<open>None\<close>), or go on.
\<close>

definition init_then ::
    "('a option \<times> Arena) option \<Rightarrow> ('a \<Rightarrow> Arena \<Rightarrow> ('b option \<times> Arena) option) \<Rightarrow> ('b option \<times> Arena) option" where
  "init_then r f = do { (x, a) \<leftarrow> r; case x of None \<Rightarrow> Some (None, a) | Some c \<Rightarrow> f c a }"

definition ex_zero :: ExceptionRecord where
  "ex_zero = \<lparr>ex_document = 0, ex_qty_delta_raw = 0, ex_instrument = 0, ex_date = 0,
              ex_err_code = 0, ex_reserved = 0\<rparr>"

text \<open>
  The exception records start as zeros here; the code leaves their memory as it is and reads a record
  only after writing it.
\<close>

definition ps_init :: "Arena \<Rightarrow> u16 \<Rightarrow> PartitionCapacity \<Rightarrow> (PartitionState option \<times> Arena) option" where
  "ps_init a part c =
     init_then (Some (custody_init a (cp_positions c))) (\<lambda>cu a.
     init_then (Some (cash_init a (cp_accounts c))) (\<lambda>ca a.
     init_then (Some (instruments_init a (cp_instruments c))) (\<lambda>ins a.
     init_then (Some (trades_init a (cp_trades c))) (\<lambda>tr a.
     init_then (di_init a (cp_accounts c)) (\<lambda>ai a.
     init_then (di_init a (cp_positions c)) (\<lambda>poi a.
     init_then (di_init a (cp_instruments c)) (\<lambda>ii a.
     init_then (di_init a (cp_trades c)) (\<lambda>ti a.
     init_then (tg_init a (cp_corporate_actions_per_gen c)) (\<lambda>aa a.
     init_then (tg_init a (cp_corporate_actions_per_gen c)) (\<lambda>ain a.
     init_then (Some (coluna 4 4 kNil (cp_accounts c) a)) (\<lambda>aft a.
     init_then (Some (coluna 8 8 0 (cp_accounts c) a)) (\<lambda>ad a.
     init_then (Some (coluna 32 8 ex_zero (cp_exceptions c) a)) (\<lambda>ex a.
     Some (if ar_overflowed a then None else
       Some \<lparr>pid = part, business_date = 0, prev_business_date = 0, window = window_empty,
             applied_lsn = 0, custody = cu, cash_ledger = ca, instruments = ins, trades = tr,
             account_index = ai, position_index = poi, instrument_index = ii, trade_index = ti,
             applied_actions = aa, applied_income = ain, account_first_trade = aft,
             account_document = ad, exceptions = ex, exception_count = 0, exception_dropped = 0,
             exception_capacity = cp_exceptions c, ps_flags = 0, ps_cap = c,
             arena_bytes = ar_used a\<rparr>, a))))))))))))))"

section \<open>Interning\<close>

definition intern_account :: "PartitionState \<Rightarrow> u64 \<Rightarrow> nat \<times> PartitionState" where
  "intern_account s doc =
     (let n = ca_count (cash_ledger s) in
      if n \<ge> ca_capacity (cash_ledger s) then (kEmpty, s)
      else case insert_or_get (account_index s) doc n of (r, novo, ix) \<Rightarrow>
        if r = kEmpty then (kEmpty, s\<lparr>account_index := ix\<rparr>)
        else if novo then
          (r, s\<lparr>account_index := ix,
                cash_ledger := (cash_clear_row (cash_ledger s) n)\<lparr>ca_count := n + 1\<rparr>,
                account_document := (account_document s)[n := doc],
                account_first_trade := (account_first_trade s)[n := kNil]\<rparr>)
        else (r, s\<lparr>account_index := ix\<rparr>))"

definition intern_instrument :: "PartitionState \<Rightarrow> u32 \<Rightarrow> nat \<times> PartitionState" where
  "intern_instrument s ext =
     (let t = instruments s; n = in_count t in
      if n \<ge> in_capacity t then (kEmpty, s)
      else case insert_or_get (instrument_index s) (ucast ext) n of (r, novo, ix) \<Rightarrow>
        if r = kEmpty then (kEmpty, s\<lparr>instrument_index := ix\<rparr>)
        else if novo then
          (r, s\<lparr>instrument_index := ix,
                instruments := t\<lparr>external_id := (external_id t)[n := ext],
                                 price_factor := (price_factor t)[n := 0],
                                 lot_size := (lot_size t)[n := 0], in_count := n + 1\<rparr>\<rparr>)
        else (r, s\<lparr>instrument_index := ix\<rparr>))"

definition position_key :: "nat \<Rightarrow> nat \<Rightarrow> u64" where
  "position_key account instrument = push_bit 32 (of_nat account) OR of_nat instrument"

definition intern_position :: "PartitionState \<Rightarrow> nat \<Rightarrow> nat \<Rightarrow> nat \<times> PartitionState" where
  "intern_position s account instrument =
     (let chave = position_key account instrument; c = custody s; n = cu_count c in
      if n \<ge> cu_capacity c then (kEmpty, s)
      else case insert_or_get (position_index s) chave n of (r, novo, ix) \<Rightarrow>
        if r = kEmpty then (kEmpty, s\<lparr>position_index := ix\<rparr>)
        else if novo then
          (r, s\<lparr>position_index := ix,
                custody := (custody_clear_row c n)\<lparr>cu_account := (cu_account c)[n := account],
                              cu_instrument := (cu_instrument c)[n := instrument],
                              cu_count := n + 1\<rparr>\<rparr>)
        else (r, s\<lparr>position_index := ix\<rparr>))"

definition find_position :: "PartitionState \<Rightarrow> nat \<Rightarrow> nat \<Rightarrow> nat" where
  "find_position s account instrument = di_find (position_index s) (position_key account instrument)"

section \<open>Closing and compacting trades\<close>

definition copy_trade_row :: "TradeTable \<Rightarrow> nat \<Rightarrow> nat \<Rightarrow> TradeTable" where
  "copy_trade_row t destino i =
     t\<lparr>trade_id := (trade_id t)[destino := trade_id t ! i],
       broker_note_id := (broker_note_id t)[destino := broker_note_id t ! i],
       tr_account := (tr_account t)[destino := tr_account t ! i],
       tr_instrument := (tr_instrument t)[destino := tr_instrument t ! i],
       tr_qty := (tr_qty t)[destino := tr_qty t ! i],
       tr_price := (tr_price t)[destino := tr_price t ! i],
       tr_cash := (tr_cash t)[destino := tr_cash t ! i],
       settlement_date := (settlement_date t)[destino := settlement_date t ! i],
       tr_side := (tr_side t)[destino := tr_side t ! i],
       tr_state := (tr_state t)[destino := tr_state t ! i]\<rparr>"

definition finished_trade :: "SettlementWindow \<Rightarrow> TradeTable \<Rightarrow> nat \<Rightarrow> bool" where
  "finished_trade w t i \<longleftrightarrow>
     tr_state t ! i = TsSettled \<and> slot_of w (settlement_date t ! i) = kNoSlot
     \<and> next_state (tr_state t ! i) TgClose = TsClosed"

text \<open>The first loop, over the rows \<open>is\<close> still to visit; the result is (destino, baixados, table).\<close>

primrec compact_loop :: "SettlementWindow \<Rightarrow> nat list \<Rightarrow> nat \<Rightarrow> nat \<Rightarrow> TradeTable \<Rightarrow> nat \<times> nat \<times> TradeTable" where
  "compact_loop w [] destino baixados t = (destino, baixados, t)"
| "compact_loop w (i # is) destino baixados t =
     (if finished_trade w t i then compact_loop w is destino (baixados + 1) t
      else compact_loop w is (destino + 1) baixados
             (if destino \<noteq> i then copy_trade_row t destino i else t))"

text \<open>The backward loop that rebuilds the list of each account, over the rows still to visit.\<close>

primrec relink_loop :: "nat list \<Rightarrow> TradeTable \<Rightarrow> nat list \<Rightarrow> TradeTable \<times> nat list" where
  "relink_loop [] t first = (t, first)"
| "relink_loop (i # is) t first =
     relink_loop is (t\<lparr>next_of_account := (next_of_account t)[i := first ! (tr_account t ! i)]\<rparr>)
       (first[tr_account t ! i := i])"

primrec index_loop :: "nat list \<Rightarrow> u64 list \<Rightarrow> DenseIndex \<Rightarrow> DenseIndex" where
  "index_loop [] ids ix = ix"
| "index_loop (i # is) ids ix = index_loop is ids (snd (snd (insert_or_get ix (ids ! i) i)))"

definition close_and_compact_trades :: "PartitionState \<Rightarrow> nat \<times> PartitionState" where
  "close_and_compact_trades s =
     (case compact_loop (window s) [0..<tr_count (trades s)] 0 0 (trades s) of (destino, baixados, t) \<Rightarrow>
      if baixados = 0 then (0, s\<lparr>trades := t\<rparr>)
      else
        let first = map (\<lambda>(a, x). if a < ca_count (cash_ledger s) then kNil else x)
                        (enumerate 0 (account_first_trade s)) in
        case relink_loop (rev [0..<destino]) (t\<lparr>tr_count := destino\<rparr>) first of (t', first') \<Rightarrow>
          (baixados,
           s\<lparr>trades := t', account_first_trade := first',
             trade_index := index_loop [0..<destino] (trade_id t') (di_clear (trade_index s))\<rparr>))"

section \<open>Rebuilding the indexes\<close>

text \<open>One of the four loops of \<^verbatim>\<open>rebuild_indexes\<close>; \<open>None\<close> when an insertion failed.\<close>

primrec rebuild_loop :: "(nat \<Rightarrow> u64) \<Rightarrow> nat list \<Rightarrow> DenseIndex \<Rightarrow> DenseIndex option" where
  "rebuild_loop key [] ix = Some ix"
| "rebuild_loop key (i # is) ix =
     (case insert_or_get ix (key i) i of (r, novo, ix') \<Rightarrow>
        if r = kEmpty then None else rebuild_loop key is ix')"

definition rebuild_indexes :: "PartitionState \<Rightarrow> PartitionState option" where
  "rebuild_indexes s =
     do {
       ai \<leftarrow> rebuild_loop (\<lambda>i. account_document s ! i) [0..<ca_count (cash_ledger s)] (account_index s);
       poi \<leftarrow> rebuild_loop (\<lambda>i. position_key (cu_account (custody s) ! i) (cu_instrument (custody s) ! i))
               [0..<cu_count (custody s)] (position_index s);
       ii \<leftarrow> rebuild_loop (\<lambda>i. ucast (external_id (instruments s) ! i))
               [0..<in_count (instruments s)] (instrument_index s);
       ti \<leftarrow> rebuild_loop (\<lambda>i. trade_id (trades s) ! i) [0..<tr_count (trades s)] (trade_index s);
       Some (s\<lparr>account_index := ai, position_index := poi, instrument_index := ii, trade_index := ti\<rparr>)
     }"

section \<open>Checksums and exceptions\<close>

definition custody_row_words :: "CustodyLedger \<Rightarrow> nat \<Rightarrow> u64 list" where
  "custody_row_words c i =
     map word_of_int
       ([available c ! i, blocked c ! i, leftovers c ! i, overdue_buy c ! i, overdue_sell c ! i,
         avg_price c ! i]
        @ concat (map (\<lambda>k. [pending_buy c ! (i * kSettlementSlots + k),
                            pending_sell c ! (i * kSettlementSlots + k)]) [0..<kSettlementSlots]))"

definition custody_checksum :: "PartitionState \<Rightarrow> u64" where
  "custody_checksum s =
     fold (\<lambda>i acc. fold (\<lambda>w acc. acc + w) (custody_row_words (custody s) i) acc)
       [0..<cu_count (custody s)] 0"

definition cash_row_words :: "CashLedger \<Rightarrow> nat \<Rightarrow> u64 list" where
  "cash_row_words c i =
     map word_of_int
       ([cash c ! i, overdue c ! i, income_receivable c ! i]
        @ map (\<lambda>k. pending c ! (i * kSettlementSlots + k)) [0..<kSettlementSlots])"

definition cash_checksum :: "PartitionState \<Rightarrow> u64" where
  "cash_checksum s =
     fold (\<lambda>i acc. fold (\<lambda>w acc. acc + w) (cash_row_words (cash_ledger s) i) acc)
       [0..<ca_count (cash_ledger s)] 0"

definition push_exception :: "PartitionState \<Rightarrow> ExceptionRecord \<Rightarrow> bool \<Rightarrow> PartitionState" where
  "push_exception s r marca_divergencia =
     (if exception_capacity s = 0 then s
      else let s1 = (if unat (exception_count s) \<ge> exception_capacity s
                     then s\<lparr>exception_dropped := exception_dropped s + 1\<rparr> else s);
               s2 = s1\<lparr>exceptions := (exceptions s1)[unat (exception_count s1) mod exception_capacity s1 := r],
                       exception_count := exception_count s1 + 1\<rparr>
           in if marca_divergencia then s2\<lparr>ps_flags := ps_flags s2 OR kFlagReconDivergence\<rparr> else s2)"

section \<open>Indexes agree with the columns\<close>

text \<open>The index maps exactly the keys \<open>ks\<close>, each to its row.\<close>

definition indexed :: "DenseIndex \<Rightarrow> u64 list \<Rightarrow> bool" where
  "indexed ix ks \<longleftrightarrow> di_inv ix \<and> (\<forall>k r. di_map ix k = Some r \<longleftrightarrow> r < length ks \<and> ks ! r = k)"

lemma indexed_distinct: "indexed ix ks \<Longrightarrow> distinct ks"
  unfolding distinct_conv_nth indexed_def by (metis option.inject)

lemma indexed_dom: "indexed ix ks \<Longrightarrow> dom (di_map ix) = set ks"
  by (auto simp: indexed_def dom_def in_set_conv_nth)

lemma indexed_size: "indexed ix ks \<Longrightarrow> di_size ix = length ks"
  using di_map_dom [of ix] indexed_dom [of ix ks] indexed_distinct [of ix ks]
  by (simp add: indexed_def distinct_card)

lemma indexed_known:
  assumes "indexed ix ks" and "i < length ks" and "length ks < kEmpty"
  shows "insert_or_get ix (ks ! i) v = (i, False, ix)" and "di_find ix (ks ! i) = i"
proof -
  have inv: "di_inv ix" and m: "di_map ix (ks ! i) = Some i" using assms by (auto simp: indexed_def)
  have "di_insert ix (ks ! i) v = (Some i, False, ix)"
    using dense.ins_present [OF inv, of "ks ! i" i v] m by (simp add: di_map_def)
  then show "insert_or_get ix (ks ! i) v = (i, False, ix)"
    by (auto simp: di_insert_def opt_row_def split: prod.splits if_splits)
  show "di_find ix (ks ! i) = i"
    using di_find_map [OF inv, of "ks ! i"] m by (auto simp: opt_row_def split: if_splits)
qed

lemma indexed_absent: "indexed ix ks \<Longrightarrow> k \<notin> set ks \<Longrightarrow> di_map ix k = None"
  using indexed_dom [of ix ks] by blast

lemma indexed_find_none: "indexed ix ks \<Longrightarrow> k \<notin> set ks \<Longrightarrow> di_find ix k = kEmpty"
  using di_find_map [of ix k] indexed_absent [of ix ks k]
  by (auto simp: indexed_def opt_row_def split: if_splits)

lemma indexed_find:
  assumes "indexed ix ks" and "length ks < kEmpty" and "di_find ix k = r" and "r \<noteq> kEmpty"
  shows "r < length ks" and "ks ! r = k"
proof -
  have "k \<in> set ks" using indexed_find_none [OF assms(1)] assms(3,4) by blast
  then obtain i where "i < length ks" "ks ! i = k" by (auto simp: in_set_conv_nth)
  with indexed_known(2) [OF assms(1) _ assms(2), of i] assms(3) show "r < length ks" "ks ! r = k" by auto
qed

lemma indexed_fresh:
  assumes "indexed ix ks" and "k \<notin> set ks" and "length ks < load_limit (di_cap ix)" and "length ks < kEmpty"
  shows "\<exists>ix'. insert_or_get ix k (length ks) = (length ks, True, ix') \<and> indexed ix' (ks @ [k])
            \<and> di_cap ix' = di_cap ix"
proof -
  obtain r b ix' where ins: "insert_or_get ix k (length ks) = (r, b, ix')" by (cases "insert_or_get ix k (length ks)")
  have inv: "di_inv ix" using assms(1) by (simp add: indexed_def)
  have none: "di_map ix k = None" by (rule indexed_absent [OF assms(1,2)])
  have ne: "length ks \<noteq> kEmpty" using assms(4) by simp
  from insert_or_get_cases [OF inv ne ins] none assms(3) indexed_size [OF assms(1)]
  have new: "di_inv ix'" "di_cap ix' = di_cap ix" "r = length ks" b "di_map ix' = (di_map ix)(k \<mapsto> length ks)"
    by auto
  have "di_map ix' k' = Some r' \<longleftrightarrow> r' < length (ks @ [k]) \<and> (ks @ [k]) ! r' = k'" for k' r'
    using assms(1,2) new(5) by (auto simp: indexed_def nth_append less_Suc_eq split: if_splits)
  with new ins show ?thesis by (simp add: indexed_def)
qed

lemma indexed_full:
  assumes "indexed ix ks" and "k \<notin> set ks" and "load_limit (di_cap ix) \<le> length ks"
  shows "insert_or_get ix k v = (kEmpty, False, ix)"
proof -
  have inv: "di_inv ix" using assms(1) by (simp add: indexed_def)
  have "di_insert ix k v = (None, False, ix)"
    using dense.ins_full [OF inv, of k v] indexed_absent [OF assms(1,2)] indexed_size [OF assms(1)] assms(3)
    by (simp add: di_map_def)
  then show ?thesis by (auto simp: di_insert_def opt_row_def split: prod.splits if_splits)
qed

lemma indexed_empty: "di_inv ix \<Longrightarrow> di_map ix = Map.empty \<Longrightarrow> indexed ix []"
  by (simp add: indexed_def)

section \<open>The contract of interning\<close>

text \<open>
  A table of rows named by keys: \<open>rows\<close> are the keys in row order, \<open>intern\<close> returns the row of a
  key, adding it at the end when it is new.  When the table is full even a known key is refused:
  that is what the source does, because it tests the capacity before it looks the key up.
\<close>

locale interning =
  fixes inv :: "'s \<Rightarrow> bool"
    and rows :: "'s \<Rightarrow> 'k list"
    and cap :: "'s \<Rightarrow> nat"
    and intern :: "'s \<Rightarrow> 'k \<Rightarrow> nat \<times> 's"
    and ok :: "'s \<Rightarrow> 'k \<Rightarrow> bool"
  assumes rows_distinct: "inv s \<Longrightarrow> distinct (rows s)"
    and rows_bound: "inv s \<Longrightarrow> length (rows s) \<le> cap s \<and> cap s < kEmpty"
    and intern_full: "inv s \<Longrightarrow> cap s \<le> length (rows s) \<Longrightarrow> intern s k = (kEmpty, s)"
    and intern_known: "inv s \<Longrightarrow> length (rows s) < cap s \<Longrightarrow> i < length (rows s) \<Longrightarrow>
          intern s (rows s ! i) = (i, s)"
    and intern_new: "inv s \<Longrightarrow> length (rows s) < cap s \<Longrightarrow> k \<notin> set (rows s) \<Longrightarrow> ok s k \<Longrightarrow>
          \<exists>s'. intern s k = (length (rows s), s') \<and> inv s' \<and> rows s' = rows s @ [k] \<and> cap s' = cap s"
    and intern_ok: "inv s \<Longrightarrow> ok s k \<Longrightarrow> ok s j \<Longrightarrow> ok (snd (intern s j)) k"
begin

text \<open>The row returned holds the key; rows already given are never moved.\<close>

lemma intern_row:
  assumes "inv s" and "intern s k = (r, s')" and "r \<noteq> kEmpty" and "ok s k"
  shows "inv s'" and "r < length (rows s')" and "rows s' ! r = k"
    and "rows s' = (if k \<in> set (rows s) then rows s else rows s @ [k])" and "cap s' = cap s"
proof -
  have lt: "length (rows s) < cap s"
    using intern_full [OF assms(1), of k] assms(2,3) by force
  have "inv s' \<and> r < length (rows s') \<and> rows s' ! r = k \<and> cap s' = cap s
        \<and> rows s' = (if k \<in> set (rows s) then rows s else rows s @ [k])"
  proof (cases "k \<in> set (rows s)")
    case True
    then obtain i where "i < length (rows s)" "rows s ! i = k" by (auto simp: in_set_conv_nth)
    with intern_known [OF assms(1) lt, of i] assms True show ?thesis by auto
  next
    case False
    with intern_new [OF assms(1) lt False assms(4)] assms(2) show ?thesis by (auto simp: nth_append)
  qed
  then show "inv s'" "r < length (rows s')" "rows s' ! r = k" "cap s' = cap s"
    "rows s' = (if k \<in> set (rows s) then rows s else rows s @ [k])" by blast+
qed

lemma intern_refused:
  assumes "inv s" and "intern s k = (kEmpty, s')" and "ok s k"
  shows "s' = s" and "length (rows s) = cap s"
proof -
  have b: "length (rows s) \<le> cap s" "cap s < kEmpty" using rows_bound [OF assms(1)] by simp_all
  have "\<not> length (rows s) < cap s"
  proof
    assume lt: "length (rows s) < cap s"
    show False
    proof (cases "k \<in> set (rows s)")
      case True
      then obtain i where "i < length (rows s)" "rows s ! i = k" by (auto simp: in_set_conv_nth)
      with intern_known [OF assms(1) lt, of i] assms(2) b show False by auto
    next
      case False
      from intern_new [OF assms(1) lt False assms(3)] assms(2) b lt show False by auto
    qed
  qed
  with b intern_full [OF assms(1), of k] assms(2) show "s' = s" "length (rows s) = cap s" by auto
qed

lemma intern_inv: "inv s \<Longrightarrow> ok s k \<Longrightarrow> inv (snd (intern s k))"
  by (metis intern_refused(1) intern_row(1) prod.collapse)

text \<open>Interning a key twice gives the same row.\<close>

lemma intern_again:
  assumes "inv s" and "intern s k = (r, s')" and "r \<noteq> kEmpty" and "ok s k" and "length (rows s') < cap s'"
  shows "intern s' k = (r, s')"
  using intern_row [OF assms(1-4)] intern_known [of s' r] assms(5) by auto

text \<open>
  A sequence of keys: the rows are the keys in order of first appearance, whatever the rest of the
  state is.  This is what makes row numbers the same in every replay of the same log.
\<close>

lemma intern_sequence:
  assumes "inv s" and "length (rows s) + length ks < cap s" and "list_all (ok s) ks"
  shows "rows (fold (\<lambda>k s. snd (intern s k)) ks s)
         = fold (\<lambda>k rs. if k \<in> set rs then rs else rs @ [k]) ks (rows s)"
  using assms
proof (induction ks arbitrary: s)
  case Nil
  then show ?case by simp
next
  case (Cons k ks)
  obtain r s' where i: "intern s k = (r, s')" by (cases "intern s k")
  have "length (rows s) < cap s" using Cons.prems(2) by simp
  moreover have k: "ok s k" "list_all (ok s') ks"
    using Cons.prems(1,3) intern_ok [of s _ k] i by (auto simp: list_all_iff)
  ultimately have r: "r \<noteq> kEmpty" using intern_refused(2) [OF Cons.prems(1)] i by force
  note row = intern_row [OF Cons.prems(1) i r k(1)]
  have "length (rows s') + length ks < cap s'" using row(4,5) Cons.prems(2) by (simp split: if_splits)
  from Cons.IH [OF row(1) this k(2)] row(4) i show ?case by simp
qed

end

section \<open>The invariant of the state\<close>

definition account_rows :: "PartitionState \<Rightarrow> u64 list" where
  "account_rows s = take (ca_count (cash_ledger s)) (account_document s)"

definition instrument_rows :: "PartitionState \<Rightarrow> u32 list" where
  "instrument_rows s = take (in_count (instruments s)) (external_id (instruments s))"

definition position_rows :: "PartitionState \<Rightarrow> (nat \<times> nat) list" where
  "position_rows s = take (cu_count (custody s)) (zip (cu_account (custody s)) (cu_instrument (custody s)))"

definition trade_rows :: "PartitionState \<Rightarrow> u64 list" where
  "trade_rows s = take (tr_count (trades s)) (trade_id (trades s))"

definition instruments_shape :: "InstrumentTable \<Rightarrow> bool" where
  "instruments_shape t \<longleftrightarrow>
     (let n = in_capacity t in
      length (external_id t) = n \<and> length (symbol t) = n \<and> length (isin t) = n \<and> length (in_type t) = n
      \<and> length (price_factor t) = n \<and> length (lot_size t) = n \<and> length (closing_price t) = n
      \<and> length (previous_close t) = n \<and> length (closing_date t) = n \<and> in_count t \<le> n)"

definition trades_shape :: "TradeTable \<Rightarrow> bool" where
  "trades_shape t \<longleftrightarrow>
     (let n = tr_capacity t in
      length (trade_id t) = n \<and> length (broker_note_id t) = n \<and> length (tr_account t) = n
      \<and> length (tr_instrument t) = n \<and> length (tr_qty t) = n \<and> length (tr_price t) = n
      \<and> length (tr_cash t) = n \<and> length (settlement_date t) = n \<and> length (tr_side t) = n
      \<and> length (tr_state t) = n \<and> length (next_of_account t) = n \<and> tr_count t \<le> n)"

lemmas shape_defs = custody_shape_def cash_shape_def instruments_shape_def trades_shape_def Let_def

text \<open>Columns have the length of their table; every table is below the sentinel.\<close>

definition tables_ok :: "PartitionState \<Rightarrow> bool" where
  "tables_ok s \<longleftrightarrow> custody_shape (custody s) \<and> cash_shape (cash_ledger s)
     \<and> instruments_shape (instruments s) \<and> trades_shape (trades s) \<and> length (window s) = 3
     \<and> length (account_document s) = ca_capacity (cash_ledger s)
     \<and> length (account_first_trade s) = ca_capacity (cash_ledger s)
     \<and> length (exceptions s) = exception_capacity s
     \<and> cu_capacity (custody s) < kEmpty \<and> ca_capacity (cash_ledger s) < kEmpty
     \<and> in_capacity (instruments s) < kEmpty \<and> tr_capacity (trades s) < kEmpty"

text \<open>Each index maps exactly the keys of its column, and can hold as many as the column.\<close>

definition indexes_ok :: "PartitionState \<Rightarrow> bool" where
  "indexes_ok s \<longleftrightarrow>
     indexed (account_index s) (account_rows s)
     \<and> ca_capacity (cash_ledger s) \<le> load_limit (di_cap (account_index s))
     \<and> indexed (position_index s) (map (\<lambda>(a, i). position_key a i) (position_rows s))
     \<and> cu_capacity (custody s) \<le> load_limit (di_cap (position_index s))
     \<and> indexed (instrument_index s) (map ucast (instrument_rows s))
     \<and> in_capacity (instruments s) \<le> load_limit (di_cap (instrument_index s))
     \<and> indexed (trade_index s) (trade_rows s)
     \<and> tr_capacity (trades s) \<le> load_limit (di_cap (trade_index s))
     \<and> tg_inv (applied_actions s) \<and> tg_inv (applied_income s)"

text \<open>Row numbers stored in one table exist in the other.\<close>

definition refs_ok :: "PartitionState \<Rightarrow> bool" where
  "refs_ok s \<longleftrightarrow>
     (\<forall>i<cu_count (custody s). cu_account (custody s) ! i < ca_count (cash_ledger s)
        \<and> cu_instrument (custody s) ! i < in_count (instruments s))
     \<and> (\<forall>i<tr_count (trades s). tr_account (trades s) ! i < ca_count (cash_ledger s)
        \<and> tr_instrument (trades s) ! i < in_count (instruments s))"

definition ps_inv :: "PartitionState \<Rightarrow> bool" where
  "ps_inv s \<longleftrightarrow> tables_ok s \<and> indexes_ok s \<and> refs_ok s"

lemmas ps_inv_defs = ps_inv_def tables_ok_def indexes_ok_def refs_ok_def shape_defs
lemmas rows_defs = account_rows_def instrument_rows_def position_rows_def trade_rows_def

lemma length_rows [simp]:
  "tables_ok s \<Longrightarrow> length (account_rows s) = ca_count (cash_ledger s)"
  "tables_ok s \<Longrightarrow> length (instrument_rows s) = in_count (instruments s)"
  "tables_ok s \<Longrightarrow> length (position_rows s) = cu_count (custody s)"
  "tables_ok s \<Longrightarrow> length (trade_rows s) = tr_count (trades s)"
  by (simp_all add: rows_defs tables_ok_def shape_defs)

lemma position_rows_nth:
  "tables_ok s \<Longrightarrow> i < cu_count (custody s) \<Longrightarrow>
   position_rows s ! i = (cu_account (custody s) ! i, cu_instrument (custody s) ! i)"
  by (simp add: rows_defs tables_ok_def shape_defs)

lemma position_key_inj:
  assumes "position_key a i = position_key b j"
    and "a < 4294967296" "i < 4294967296" "b < 4294967296" "j < 4294967296"
  shows "a = b \<and> i = j"
proof -
  have val: "unat (position_key x y) = x * 4294967296 + y" if "x < 4294967296" "y < 4294967296" for x y
  proof -
    have "position_key x y = of_nat (x * 4294967296 + y)"
    proof -
      have "push_bit 32 (of_nat x :: u64) OR of_nat y = push_bit 32 (of_nat x) + of_nat y"
      proof (rule disjunctive_add [symmetric])
        fix n
        have "\<not> bit y n" if "32 \<le> n"
        proof -
          have "(4294967296::nat) \<le> 2 ^ n" using that power_increasing [of 32 n "2::nat"] by simp
          then have "y < 2 ^ n" using \<open>y < 4294967296\<close> by simp
          then show ?thesis by (simp add: bit_iff_odd)
        qed
        then show "\<not> bit (push_bit 32 (of_nat x :: u64)) n \<or> \<not> bit (of_nat y :: u64) n"
          by (cases "32 \<le> n") (auto simp: bit_push_bit_iff bit_of_nat_iff)
      qed
      also have "\<dots> = of_nat (x * 4294967296 + y)" by (simp add: push_bit_eq_mult)
      finally show ?thesis by (simp add: position_key_def)
    qed
    moreover have "x * 4294967296 + y < 2 ^ 64" using that by simp
    moreover have "unat (of_nat z :: u64) = z" if "z < 2 ^ 64" for z
      using that by (simp add: unat_of_nat take_bit_nat_eq_self)
    ultimately show ?thesis by metis
  qed
  have eq: "a * 4294967296 + i = b * 4294967296 + j"
    using val [OF assms(2,3)] val [OF assms(4,5)] assms(1) by simp
  have "(a * 4294967296 + i) div 4294967296 = a" "(b * 4294967296 + j) div 4294967296 = b"
    using assms(3,5) by simp_all
  with eq have "a = b" by simp
  with eq show ?thesis by simp
qed

section \<open>Interning keeps the invariant\<close>

lemma take_Suc_update: "n < length xs \<Longrightarrow> take (Suc n) (xs[n := x]) = take n xs @ [x]"
  by (simp add: take_Suc_conv_app_nth)

lemma ps_inv_account:
  assumes "ps_inv s" and "n = ca_count (cash_ledger s)" and "n < ca_capacity (cash_ledger s)"
    and "indexed ix (account_rows s @ [doc])" and "di_cap ix = di_cap (account_index s)"
  shows "ps_inv (s\<lparr>account_index := ix,
                   cash_ledger := (cash_clear_row (cash_ledger s) n)\<lparr>ca_count := n + 1\<rparr>,
                   account_document := (account_document s)[n := doc],
                   account_first_trade := (account_first_trade s)[n := kNil]\<rparr>)" (is "ps_inv ?s")
    and "account_rows (s\<lparr>account_index := ix,
                   cash_ledger := (cash_clear_row (cash_ledger s) n)\<lparr>ca_count := n + 1\<rparr>,
                   account_document := (account_document s)[n := doc],
                   account_first_trade := (account_first_trade s)[n := kNil]\<rparr>) = account_rows s @ [doc]"
proof -
  have "n < length (account_document s)" using assms by (simp add: ps_inv_defs)
  then show r: "account_rows ?s = account_rows s @ [doc]"
    using assms(2) by (simp add: account_rows_def take_Suc_update)
  have t: "tables_ok ?s" using assms(1,3) unfolding ps_inv_def tables_ok_def shape_defs
    by (simp add: cash_clear_row_def)
  have i: "indexes_ok ?s" using assms(1,4,5) r unfolding ps_inv_def indexes_ok_def
    by (simp add: cash_clear_row_def instrument_rows_def position_rows_def trade_rows_def)
  have "refs_ok ?s" using assms(1,2) unfolding ps_inv_def refs_ok_def
    by (auto simp: cash_clear_row_def)
  with t i show "ps_inv ?s" by (simp add: ps_inv_def)
qed

interpretation accounts: interning ps_inv account_rows "\<lambda>s. ca_capacity (cash_ledger s)" intern_account "\<lambda>_ _. True"
proof (unfold_locales, goal_cases)
  case (1 s)
  then show ?case using indexed_distinct by (auto simp: ps_inv_def indexes_ok_def)
next
  case (2 s)
  then show ?case by (simp add: ps_inv_defs account_rows_def)
next
  case (3 s k)
  then show ?case by (simp add: intern_account_def Let_def ps_inv_def)
next
  case (4 s i)
  then have ix: "indexed (account_index s) (account_rows s)" and "length (account_rows s) < kEmpty"
    and n: "length (account_rows s) = ca_count (cash_ledger s)"
    by (simp_all add: ps_inv_def indexes_ok_def) (simp add: tables_ok_def)
  note known = indexed_known(1) [OF ix 4(3) this(2)]
  have "i \<noteq> kEmpty" using 4(3) \<open>length (account_rows s) < kEmpty\<close> by simp
  with 4 n known show ?case by (simp add: intern_account_def Let_def)
next
  case (5 s k)
  then have n: "length (account_rows s) = ca_count (cash_ledger s)" by (simp add: ps_inv_def)
  have ix: "indexed (account_index s) (account_rows s)"
    and lim: "length (account_rows s) < load_limit (di_cap (account_index s))"
    and lt: "length (account_rows s) < kEmpty"
    using 5(1,2) by (auto simp: ps_inv_def indexes_ok_def tables_ok_def)
  from indexed_fresh [OF ix 5(3) lim lt] obtain ix' where
    ins: "insert_or_get (account_index s) k (length (account_rows s)) = (length (account_rows s), True, ix')"
      "indexed ix' (account_rows s @ [k])" "di_cap ix' = di_cap (account_index s)" by blast
  from ps_inv_account [OF 5(1) n, of ix' k] 5(2) n ins lt show ?case
    by (simp add: intern_account_def Let_def) (simp add: cash_clear_row_def)
qed simp

lemma ucast_eq_iff: "(ucast (x::u32) :: u64) = ucast y \<longleftrightarrow> x = y"
proof
  have u: "uint (ucast w :: u64) = uint w" for w :: u32
    using unsigned_less [of w, where 'a = int] by (simp add: unsigned_ucast_eq take_bit_int_eq_self)
  assume "(ucast x :: u64) = ucast y"
  then have "uint x = uint y" using u [of x] u [of y] by simp
  then show "x = y" by (simp add: word_uint_eq_iff)
qed simp

lemma ucast_mem: "(ucast (k::u32) :: u64) \<in> ucast ` set xs \<longleftrightarrow> k \<in> set xs"
  by (auto simp: ucast_eq_iff)

lemma ps_inv_instrument:
  assumes "ps_inv s" and "n = in_count (instruments s)" and "n < in_capacity (instruments s)"
    and "indexed ix (map ucast (instrument_rows s @ [ext]))" and "di_cap ix = di_cap (instrument_index s)"
    and "s' = s\<lparr>instrument_index := ix, instruments := (instruments s)\<lparr>
                 external_id := (external_id (instruments s))[n := ext],
                 price_factor := (price_factor (instruments s))[n := 0],
                 lot_size := (lot_size (instruments s))[n := 0], in_count := n + 1\<rparr>\<rparr>"
  shows "ps_inv s'" and "instrument_rows s' = instrument_rows s @ [ext]"
proof -
  have "n < length (external_id (instruments s))" using assms by (simp add: ps_inv_defs)
  then show r: "instrument_rows s' = instrument_rows s @ [ext]"
    using assms(2,6) by (simp add: instrument_rows_def take_Suc_update)
  have t: "tables_ok s'" using assms(1,3) unfolding ps_inv_def tables_ok_def shape_defs assms(6) by simp
  have i: "indexes_ok s'" using assms(1,4,5) r unfolding ps_inv_def indexes_ok_def assms(6)
    by (simp add: account_rows_def position_rows_def trade_rows_def)
  have "refs_ok s'" using assms(1,2) unfolding ps_inv_def refs_ok_def assms(6) by auto
  with t i show "ps_inv s'" by (simp add: ps_inv_def)
qed

interpretation instrs: interning ps_inv instrument_rows "\<lambda>s. in_capacity (instruments s)" intern_instrument "\<lambda>_ _. True"
proof (unfold_locales, goal_cases)
  case (1 s)
  then have "distinct (map (ucast :: u32 \<Rightarrow> u64) (instrument_rows s))"
    using indexed_distinct by (auto simp: ps_inv_def indexes_ok_def)
  then show ?case by (simp add: distinct_map)
next
  case (2 s)
  then show ?case by (simp add: ps_inv_defs instrument_rows_def)
next
  case (3 s k)
  then show ?case by (simp add: intern_instrument_def Let_def ps_inv_def)
next
  case (4 s i)
  then have ix: "indexed (instrument_index s) (map ucast (instrument_rows s))"
    and lt: "length (map ucast (instrument_rows s) :: u64 list) < kEmpty"
    and n: "length (instrument_rows s) = in_count (instruments s)"
    by (simp_all add: ps_inv_def indexes_ok_def) (simp add: tables_ok_def)
  from 4(3) have i: "i < length (map ucast (instrument_rows s) :: u64 list)" by simp
  note known = indexed_known(1) [OF ix i lt]
  have "i \<noteq> kEmpty" using i lt by simp
  with 4 n known show ?case by (simp add: intern_instrument_def Let_def)
next
  case (5 s k)
  then have n: "length (instrument_rows s) = in_count (instruments s)" by (simp add: ps_inv_def)
  let ?ks = "map ucast (instrument_rows s) :: u64 list"
  have ix: "indexed (instrument_index s) ?ks" and lim: "length ?ks < load_limit (di_cap (instrument_index s))"
    and lt: "length ?ks < kEmpty"
    using 5(1,2) by (auto simp: ps_inv_def indexes_ok_def tables_ok_def)
  have "ucast k \<notin> set ?ks" using 5(3) by (simp add: ucast_mem)
  from indexed_fresh [OF ix this lim lt] obtain ix' where
    ins: "insert_or_get (instrument_index s) (ucast k) (length ?ks) = (length ?ks, True, ix')"
      "indexed ix' (?ks @ [ucast k])" "di_cap ix' = di_cap (instrument_index s)" by blast
  define s' where "s' = s\<lparr>instrument_index := ix', instruments := (instruments s)\<lparr>
                 external_id := (external_id (instruments s))[length ?ks := k],
                 price_factor := (price_factor (instruments s))[length ?ks := 0],
                 lot_size := (lot_size (instruments s))[length ?ks := 0], in_count := length ?ks + 1\<rparr>\<rparr>"
  have "intern_instrument s k = (length ?ks, s')"
    using 5(2) n ins(1) lt unfolding intern_instrument_def Let_def s'_def by simp
  moreover have "ps_inv s'" "instrument_rows s' = instrument_rows s @ [k]"
    using ps_inv_instrument [OF 5(1) _ _ _ ins(3), of "length ?ks" k s'] ins(2) n 5(2) by (simp_all add: s'_def)
  ultimately show ?case by (simp add: s'_def)
qed simp

text \<open>A position is a pair of existing rows.\<close>

lemma ps_inv_position:
  assumes "ps_inv s" and "n = cu_count (custody s)" and "n < cu_capacity (custody s)"
    and "indexed ix (map (\<lambda>(a, i). position_key a i) (position_rows s @ [(acct, inst)]))"
    and "di_cap ix = di_cap (position_index s)"
    and "acct < ca_count (cash_ledger s)" and "inst < in_count (instruments s)"
    and "s' = s\<lparr>position_index := ix, custody := (custody_clear_row (custody s) n)\<lparr>
                 cu_account := (cu_account (custody s))[n := acct],
                 cu_instrument := (cu_instrument (custody s))[n := inst], cu_count := n + 1\<rparr>\<rparr>"
  shows "ps_inv s'" and "position_rows s' = position_rows s @ [(acct, inst)]"
proof -
  have "n < length (zip (cu_account (custody s)) (cu_instrument (custody s)))"
    using assms by (simp add: ps_inv_defs)
  then show r: "position_rows s' = position_rows s @ [(acct, inst)]"
    using assms(2,8) by (simp add: position_rows_def zip_update take_Suc_update custody_clear_row_def)
  have t: "tables_ok s'" using assms(1,3) unfolding ps_inv_def tables_ok_def shape_defs assms(8)
    by (simp add: custody_clear_row_def)
  have i: "indexes_ok s'" using assms(1,4,5) r unfolding ps_inv_def indexes_ok_def assms(8)
    by (simp add: account_rows_def instrument_rows_def trade_rows_def custody_clear_row_def)
  have "refs_ok s'" using assms(1,2,3,6,7) unfolding ps_inv_def refs_ok_def assms(8)
    by (auto simp: tables_ok_def shape_defs custody_clear_row_def nth_list_update)
  with t i show "ps_inv s'" by (simp add: ps_inv_def)
qed

definition position_ok :: "PartitionState \<Rightarrow> nat \<times> nat \<Rightarrow> bool" where
  "position_ok s k \<longleftrightarrow> fst k < ca_count (cash_ledger s) \<and> snd k < in_count (instruments s)"

lemma position_rows_ok: "ps_inv s \<Longrightarrow> k \<in> set (position_rows s) \<Longrightarrow> position_ok s k"
  by (auto simp: in_set_conv_nth ps_inv_def refs_ok_def position_ok_def position_rows_nth)

lemma position_ok_small: "ps_inv s \<Longrightarrow> position_ok s k \<Longrightarrow> fst k < 4294967296 \<and> snd k < 4294967296"
  by (auto simp: ps_inv_defs position_ok_def kEmpty_def sentinel32_def)

lemma position_key_fresh:
  assumes "ps_inv s" and "position_ok s k" and "k \<notin> set (position_rows s)"
  shows "position_key (fst k) (snd k) \<notin> set (map (\<lambda>(a, i). position_key a i) (position_rows s))"
proof
  assume "position_key (fst k) (snd k) \<in> set (map (\<lambda>(a, i). position_key a i) (position_rows s))"
  then obtain j where j: "j \<in> set (position_rows s)" "position_key (fst k) (snd k) = position_key (fst j) (snd j)"
    by auto
  then have "fst k = fst j \<and> snd k = snd j"
    using position_key_inj [OF j(2)] position_ok_small [OF assms(1,2)]
      position_ok_small [OF assms(1) position_rows_ok [OF assms(1) j(1)]] by simp
  with j(1) assms(3) show False by (metis prod.collapse)
qed

interpretation positions: interning ps_inv position_rows "\<lambda>s. cu_capacity (custody s)"
  "\<lambda>s k. intern_position s (fst k) (snd k)" position_ok
proof (unfold_locales, goal_cases)
  case (1 s)
  then have "distinct (map (\<lambda>(a, i). position_key a i) (position_rows s))"
    using indexed_distinct by (auto simp: ps_inv_def indexes_ok_def)
  then show ?case by (simp add: distinct_map)
next
  case (2 s)
  then show ?case by (simp add: ps_inv_defs position_rows_def)
next
  case (3 s k)
  then show ?case by (simp add: intern_position_def Let_def ps_inv_def)
next
  case (4 s i)
  let ?ks = "map (\<lambda>(a, i). position_key a i) (position_rows s)"
  have ix: "indexed (position_index s) ?ks" and lt: "length ?ks < kEmpty"
    and n: "length (position_rows s) = cu_count (custody s)"
    using 4 by (simp_all add: ps_inv_def indexes_ok_def) (simp add: tables_ok_def)
  from 4(3) have i: "i < length ?ks" by simp
  have "?ks ! i = position_key (fst (position_rows s ! i)) (snd (position_rows s ! i))"
    using 4(3) by (simp add: case_prod_beta)
  with indexed_known(1) [OF ix i lt] have
    "insert_or_get (position_index s) (position_key (fst (position_rows s ! i)) (snd (position_rows s ! i))) v
     = (i, False, position_index s)" for v by simp
  moreover have "i \<noteq> kEmpty" using i lt by simp
  ultimately show ?case using 4 n by (simp add: intern_position_def Let_def)
next
  case (5 s k)
  let ?ks = "map (\<lambda>(a, i). position_key a i) (position_rows s)"
  have n: "length (position_rows s) = cu_count (custody s)" using 5 by (simp add: ps_inv_def)
  have ix: "indexed (position_index s) ?ks" and lim: "length ?ks < load_limit (di_cap (position_index s))"
    and lt: "length ?ks < kEmpty"
    using 5(1,2) by (auto simp: ps_inv_def indexes_ok_def tables_ok_def)
  from indexed_fresh [OF ix position_key_fresh [OF 5(1,4,3)] lim lt] obtain ix' where
    ins: "insert_or_get (position_index s) (position_key (fst k) (snd k)) (length ?ks) = (length ?ks, True, ix')"
      "indexed ix' (?ks @ [position_key (fst k) (snd k)])" "di_cap ix' = di_cap (position_index s)" by blast
  define s' where "s' = s\<lparr>position_index := ix', custody := (custody_clear_row (custody s) (length ?ks))\<lparr>
                 cu_account := (cu_account (custody s))[length ?ks := fst k],
                 cu_instrument := (cu_instrument (custody s))[length ?ks := snd k], cu_count := length ?ks + 1\<rparr>\<rparr>"
  have "intern_position s (fst k) (snd k) = (length ?ks, s')"
    using 5(2) n ins(1) lt unfolding intern_position_def Let_def s'_def by simp
  moreover have "indexed ix' (map (\<lambda>(a, i). position_key a i) (position_rows s @ [(fst k, snd k)]))"
    using ins(2) by (simp add: case_prod_beta)
  from ps_inv_position [OF 5(1) _ _ this ins(3) _ _ s'_def] n 5(2,4)
  have "ps_inv s'" "position_rows s' = position_rows s @ [(fst k, snd k)]"
    by (simp_all add: position_ok_def)
  ultimately show ?case by (simp add: s'_def custody_clear_row_def)
next
  case (6 s k j)
  then show ?case
    by (auto simp: position_ok_def intern_position_def Let_def split: prod.splits)
qed

end
