(* ===== verification/RV_State_Ops.thy ===== *)
theory RV_State_Ops
  imports RV_Partition_State
begin

text \<open>
  What the operations of \<^verbatim>\<open>src/core/partition_state.cpp\<close> that work on whole tables achieve:
  initialisation establishes the invariant, the daily compaction keeps exactly the unfinished trades
  in their order and rebuilds the per-account lists and the index, and the rebuilding of the indexes
  restores the correspondence between indexes and columns.

  The per-account lists are chains of row numbers; \<open>lseg\<close> reads a chain back as a list, in the
  style of the classical proofs about pointer programs.
\<close>

section \<open>Chains of trades\<close>

primrec lseg :: "nat list \<Rightarrow> nat \<Rightarrow> nat list \<Rightarrow> bool" where
  "lseg nxt p [] \<longleftrightarrow> p = kNil"
| "lseg nxt p (x # xs) \<longleftrightarrow> p = x \<and> x < length nxt \<and> x \<noteq> kNil \<and> lseg nxt (nxt ! x) xs"

lemma lseg_fun: "lseg nxt p xs \<Longrightarrow> lseg nxt p ys \<Longrightarrow> xs = ys"
proof (induction xs arbitrary: p ys)
  case Nil
  then show ?case by (cases ys) auto
next
  case (Cons x xs)
  then show ?case by (cases ys) auto
qed

lemma lseg_update: "y \<notin> set xs \<Longrightarrow> lseg (nxt[y := z]) p xs \<longleftrightarrow> lseg nxt p xs"
  by (induction xs arbitrary: p) auto

lemma lseg_bound: "lseg nxt p xs \<Longrightarrow> x \<in> set xs \<Longrightarrow> x < length nxt"
  by (induction xs arbitrary: p) auto

definition trades_of :: "TradeTable \<Rightarrow> nat \<Rightarrow> nat set" where
  "trades_of t a = {i. i < tr_count t \<and> tr_account t ! i = a}"

text \<open>Every account's chain visits each of its trades once, and nothing else.\<close>

definition lists_ok :: "PartitionState \<Rightarrow> bool" where
  "lists_ok s \<longleftrightarrow> (\<forall>a<ca_count (cash_ledger s). \<exists>xs. lseg (next_of_account (trades s)) (account_first_trade s ! a) xs
                    \<and> distinct xs \<and> set xs = trades_of (trades s) a)"

section \<open>Compaction\<close>

text \<open>The columns of one trade, without its link.\<close>

record TradeRow =
  row_id :: u64
  row_note :: u64
  row_account :: nat
  row_instrument :: nat
  row_qty :: Qty
  row_price :: Price
  row_cash :: Money
  row_date :: DateYmd
  row_side :: u8
  row_state :: TradeState

definition trade_row :: "TradeTable \<Rightarrow> nat \<Rightarrow> TradeRow" where
  "trade_row t i =
     \<lparr>row_id = trade_id t ! i, row_note = broker_note_id t ! i, row_account = tr_account t ! i,
      row_instrument = tr_instrument t ! i, row_qty = tr_qty t ! i, row_price = tr_price t ! i,
      row_cash = tr_cash t ! i, row_date = settlement_date t ! i, row_side = tr_side t ! i,
      row_state = tr_state t ! i\<rparr>"

definition trade_list :: "TradeTable \<Rightarrow> TradeRow list" where
  "trade_list t = map (trade_row t) [0..<tr_count t]"

text \<open>A trade is finished when it is settled and its date has left the window.\<close>

definition row_finished :: "SettlementWindow \<Rightarrow> TradeRow \<Rightarrow> bool" where
  "row_finished w r \<longleftrightarrow> row_state r = TsSettled \<and> row_date r \<notin> set w"

lemma finished_trade_row:
  "length w = 3 \<Longrightarrow> finished_trade w t i \<longleftrightarrow> row_finished w (trade_row t i)"
  using slot_of_cases(1) [of w "settlement_date t ! i"]
  by (auto simp: finished_trade_def row_finished_def trade_row_def kNoSlot_def sentinel32_def)

lemma copy_trade_row_shape [simp]:
  "trades_shape (copy_trade_row t d i) = trades_shape t"
  "tr_count (copy_trade_row t d i) = tr_count t" "tr_capacity (copy_trade_row t d i) = tr_capacity t"
  "next_of_account (copy_trade_row t d i) = next_of_account t"
  by (simp_all add: copy_trade_row_def shape_defs)

lemma trade_row_copy:
  "trades_shape t \<Longrightarrow> d < tr_capacity t \<Longrightarrow> trade_row (copy_trade_row t d i) j = trade_row t (if j = d then i else j)"
  by (simp add: trade_row_def copy_trade_row_def shape_defs nth_list_update)

lemma compact_loop_spec:
  assumes "length w = 3" and "trades_shape t" and "d \<le> k" and "k \<le> n" and "n \<le> tr_capacity t"
    and "compact_loop w [k..<n] d b t = (d', b', t')"
  shows "map (trade_row t') [0..<d'] = map (trade_row t) [0..<d]
            @ filter (\<lambda>r. \<not> row_finished w r) (map (trade_row t) [k..<n])"
    and "b' = b + length (filter (row_finished w) (map (trade_row t) [k..<n]))"
    and "trades_shape t'" and "tr_capacity t' = tr_capacity t" and "tr_count t' = tr_count t"
    and "next_of_account t' = next_of_account t"
    and "b' = b \<Longrightarrow> d = k \<Longrightarrow> t' = t"
proof -
  have "map (trade_row t') [0..<d'] = map (trade_row t) [0..<d]
            @ filter (\<lambda>r. \<not> row_finished w r) (map (trade_row t) [k..<n])
    \<and> b' = b + length (filter (row_finished w) (map (trade_row t) [k..<n]))
    \<and> trades_shape t' \<and> tr_capacity t' = tr_capacity t \<and> tr_count t' = tr_count t
    \<and> next_of_account t' = next_of_account t \<and> (b' = b \<longrightarrow> d = k \<longrightarrow> t' = t)"
    using assms(2-6)
  proof (induction "n - k" arbitrary: k d b t)
    case 0
    then show ?case by simp
  next
    case (Suc m)
    then have up: "[k..<n] = k # [Suc k..<n]" by (simp add: upt_conv_Cons)
    show ?case
    proof (cases "finished_trade w t k")
      case True
      then have "compact_loop w [Suc k..<n] d (Suc b) t = (d', b', t')" using Suc.prems(5) up by simp
      from Suc.hyps(1) [of "Suc k" t d "Suc b", OF _ Suc.prems(1) _ _ Suc.prems(4) this] Suc.hyps(2) Suc.prems(2,3)
      show ?thesis using True by (simp add: up finished_trade_row [OF assms(1)])
    next
      case False
      let ?t = "if d \<noteq> k then copy_trade_row t d k else t"
      have lt: "d < tr_capacity t" "k < n" using Suc.prems(2,4) Suc.hyps(2) by simp_all
      have sh: "trades_shape ?t" "tr_capacity ?t = tr_capacity t" "tr_count ?t = tr_count t"
        "next_of_account ?t = next_of_account t" using Suc.prems(1) by simp_all
      have row: "trade_row ?t j = trade_row t (if j = d then k else j)" for j
        using trade_row_copy [OF Suc.prems(1) lt(1)] by simp
      have run: "compact_loop w [Suc k..<n] (Suc d) b ?t = (d', b', t')" using Suc.prems(5) up False by simp
      have a: "map (trade_row ?t) [0..<Suc d] = map (trade_row t) [0..<d] @ [trade_row t k]"
        by (simp add: row)
      have c: "map (trade_row ?t) [Suc k..<n] = map (trade_row t) [Suc k..<n]"
        using Suc.prems(2) by (auto simp: row)
      from Suc.hyps(1) [of "Suc k" ?t "Suc d" b, OF _ sh(1) _ _ _ run] Suc.hyps(2) Suc.prems(2,4) lt(2) sh(2)
      have IH: "map (trade_row t') [0..<d'] = map (trade_row ?t) [0..<Suc d]
            @ filter (\<lambda>r. \<not> row_finished w r) (map (trade_row ?t) [Suc k..<n])
        \<and> b' = b + length (filter (row_finished w) (map (trade_row ?t) [Suc k..<n]))
        \<and> trades_shape t' \<and> tr_capacity t' = tr_capacity ?t \<and> tr_count t' = tr_count ?t
        \<and> next_of_account t' = next_of_account ?t
        \<and> (b' = b \<longrightarrow> Suc d = Suc k \<longrightarrow> t' = ?t)" by simp
      have nf: "\<not> row_finished w (trade_row t k)" using False finished_trade_row [OF assms(1)] by simp
      show ?thesis using IH lt(2) unfolding a c sh up by (simp add: nf) 
    qed
  qed
  then show "map (trade_row t') [0..<d'] = map (trade_row t) [0..<d]
            @ filter (\<lambda>r. \<not> row_finished w r) (map (trade_row t) [k..<n])"
    "b' = b + length (filter (row_finished w) (map (trade_row t) [k..<n]))" "trades_shape t'"
    "tr_capacity t' = tr_capacity t" "tr_count t' = tr_count t" "next_of_account t' = next_of_account t"
    "b' = b \<Longrightarrow> d = k \<Longrightarrow> t' = t" by blast+
qed

lemma relink_spec:
  assumes "\<forall>a<m. lseg (next_of_account t) (first ! a) (filter (\<lambda>j. tr_account t ! j = a) [i..<n])"
    and "i \<le> n" and "n \<le> length (next_of_account t)" and "n < kNil" and "m \<le> length first"
    and "\<forall>j<n. tr_account t ! j < m"
    and "relink_loop (rev [0..<i]) t first = (t', first')"
  shows "\<forall>a<m. lseg (next_of_account t') (first' ! a) (filter (\<lambda>j. tr_account t ! j = a) [0..<n])"
    and "\<exists>nx. t' = t\<lparr>next_of_account := nx\<rparr> \<and> length nx = length (next_of_account t)"
    and "length first' = length first"
proof -
  have "(\<forall>a<m. lseg (next_of_account t') (first' ! a) (filter (\<lambda>j. tr_account t ! j = a) [0..<n]))
    \<and> (\<exists>nx. t' = t\<lparr>next_of_account := nx\<rparr> \<and> length nx = length (next_of_account t)) \<and> length first' = length first"
    using assms
  proof (induction i arbitrary: t first)
    case 0
    then show ?case by (auto intro!: exI [of _ "next_of_account t"])
  next
    case (Suc i)
    let ?a = "tr_account t ! i"
    let ?t = "t\<lparr>next_of_account := (next_of_account t)[i := first ! ?a]\<rparr>" and ?f = "first[?a := i]"
    have run: "relink_loop (rev [0..<i]) ?t ?f = (t', first')" using Suc.prems(7) by simp
    have am: "?a < m" using Suc.prems(2,6) by simp
    have seg: "lseg (next_of_account ?t) (?f ! a) (filter (\<lambda>j. tr_account ?t ! j = a) [i..<n])" if "a < m" for a
    proof -
      let ?xs = "filter (\<lambda>j. tr_account t ! j = a) [Suc i..<n]"
      have up: "[i..<n] = i # [Suc i..<n]" using Suc.prems(2) by (simp add: upt_conv_Cons)
      have old: "lseg ((next_of_account t)[i := first ! ?a]) (first ! a) ?xs"
        using Suc.prems(1) that by (simp add: lseg_update)
      show ?thesis
      proof (cases "a = ?a")
        case True
        with old Suc.prems(2-5) am show ?thesis by (simp add: up)
      next
        case False
        with old show ?thesis by (simp add: up)
      qed
    qed
    from Suc.IH [of ?t ?f, OF _ _ _ Suc.prems(4) _ _ run] seg Suc.prems(2,3,5,6) show ?case by auto
  qed
  then show "\<forall>a<m. lseg (next_of_account t') (first' ! a) (filter (\<lambda>j. tr_account t ! j = a) [0..<n])"
    "\<exists>nx. t' = t\<lparr>next_of_account := nx\<rparr> \<and> length nx = length (next_of_account t)"
    "length first' = length first" by blast+
qed

lemma index_loop_spec:
  assumes "indexed ix (take k ids)" and "k \<le> n" and "n \<le> length ids" and "distinct (take n ids)"
    and "n \<le> load_limit (di_cap ix)" and "n < kEmpty"
  shows "indexed (index_loop [k..<n] ids ix) (take n ids)" and "di_cap (index_loop [k..<n] ids ix) = di_cap ix"
proof -
  have "indexed (index_loop [k..<n] ids ix) (take n ids) \<and> di_cap (index_loop [k..<n] ids ix) = di_cap ix"
    using assms(1,2,5)
  proof (induction "n - k" arbitrary: k ix)
    case 0
    then show ?case by simp
  next
    case (Suc m)
    then have up: "[k..<n] = k # [Suc k..<n]" and k: "k < n" by (simp_all add: upt_conv_Cons)
    have "ids ! k \<notin> set (take k ids)"
    proof -
      have "distinct (take (Suc k) (take n ids))" by (rule distinct_take [OF assms(4)])
      then have "distinct (take (Suc k) ids)" using k by (simp add: min_def)
      then show ?thesis using k assms(3) by (simp add: take_Suc_conv_app_nth)
    qed
    moreover have len: "length (take k ids) = k" using k assms(3) by simp
    ultimately obtain ix' where ix': "insert_or_get ix (ids ! k) k = (k, True, ix')"
      "indexed ix' (take k ids @ [ids ! k])" "di_cap ix' = di_cap ix"
      using indexed_fresh [OF Suc.prems(1), of "ids ! k"] Suc.prems(3) k assms(6) by auto
    then have "indexed ix' (take (Suc k) ids)" using k assms(3) by (simp add: take_Suc_conv_app_nth)
    from Suc.hyps(1) [of "Suc k" ix', OF _ this] Suc.hyps(2) k Suc.prems(3) ix'(3)
    have "indexed (index_loop [Suc k..<n] ids ix') (take n ids) \<and> di_cap (index_loop [Suc k..<n] ids ix') = di_cap ix'"
      by simp
    with ix' show ?case by (simp add: up)
  qed
  then show "indexed (index_loop [k..<n] ids ix) (take n ids)" "di_cap (index_loop [k..<n] ids ix) = di_cap ix"
    by simp_all
qed

lemma trade_list_ids: "trades_shape t \<Longrightarrow> map row_id (trade_list t) = take (tr_count t) (trade_id t)"
  by (rule nth_equalityI) (simp_all add: trade_list_def trade_row_def shape_defs)

lemma first_reset:
  "map (\<lambda>(a, x). if a < n then kNil else x) (enumerate 0 xs) ! a = (if a < n then kNil else xs ! a)"
  if "a < length xs" for a
  using that by (simp add: nth_enumerate_eq)

text \<open>The compaction as a whole.\<close>

lemma close_and_compact_spec:
  assumes "ps_inv s" and "close_and_compact_trades s = (b, s')"
  shows "trade_list (trades s') = filter (\<lambda>r. \<not> row_finished (window s) r) (trade_list (trades s))"
    and "b = length (filter (row_finished (window s)) (trade_list (trades s)))"
    and "ps_inv s'" and "b = 0 \<Longrightarrow> s' = s" and "b \<noteq> 0 \<Longrightarrow> lists_ok s'"
    and "\<exists>t f ix. s' = s\<lparr>trades := t, account_first_trade := f, trade_index := ix\<rparr>"
proof -
  define w where "w = window s"
  define t where "t = trades s"
  define n where "n = tr_count t"
  have w3: "length w = 3" and sh: "trades_shape t" and n: "n \<le> tr_capacity t" "tr_capacity t < kEmpty"
    using assms(1) by (simp_all add: ps_inv_def tables_ok_def w_def t_def n_def) (simp add: trades_shape_def Let_def)
  obtain d b0 t1 where cl: "compact_loop w [0..<n] 0 0 t = (d, b0, t1)" by (cases "compact_loop w [0..<n] 0 0 t")
  note spec = compact_loop_spec [OF w3 sh _ _ n(1) cl]
  have rows: "map (trade_row t1) [0..<d] = filter (\<lambda>r. \<not> row_finished w r) (trade_list t)"
    and b0: "b0 = length (filter (row_finished w) (trade_list t))"
    and sh1: "trades_shape t1" "tr_capacity t1 = tr_capacity t" "tr_count t1 = tr_count t"
      "next_of_account t1 = next_of_account t" and same: "b0 = 0 \<Longrightarrow> t1 = t"
    using spec by (simp_all add: trade_list_def n_def)
  have "trade_list (trades s') = filter (\<lambda>r. \<not> row_finished w r) (trade_list t) \<and> b = b0 \<and> ps_inv s'
    \<and> (b = 0 \<longrightarrow> s' = s) \<and> (b \<noteq> 0 \<longrightarrow> lists_ok s')
    \<and> (\<exists>t f ix. s' = s\<lparr>trades := t, account_first_trade := f, trade_index := ix\<rparr>)"
  proof (cases "b0 = 0")
    case True
    then have "s' = s" "b = 0"
      using assms(2) cl same unfolding close_and_compact_trades_def w_def t_def n_def by auto
    moreover have "filter (\<lambda>r. \<not> row_finished w r) (trade_list t) = trade_list t"
      using b0 True by (auto simp: filter_empty_conv filter_id_conv)
    moreover have "s = s\<lparr>trades := t, account_first_trade := account_first_trade s, trade_index := trade_index s\<rparr>"
      by (simp add: t_def)
    ultimately show ?thesis using True assms(1) by (metis t_def)
  next
    case False
    define c where "c = ca_count (cash_ledger s)"
    define first where "first = map (\<lambda>(a, x). if a < c then kNil else x) (enumerate 0 (account_first_trade s))"
    obtain t2 first' where rl: "relink_loop (rev [0..<d]) (t1\<lparr>tr_count := d\<rparr>) first = (t2, first')"
      by (cases "relink_loop (rev [0..<d]) (t1\<lparr>tr_count := d\<rparr>) first")
    define ix where "ix = index_loop [0..<d] (trade_id t2) (di_clear (trade_index s))"
    have b: "b = b0" and s': "s' = s\<lparr>trades := t2, account_first_trade := first', trade_index := ix\<rparr>"
      using assms(2) cl False rl unfolding close_and_compact_trades_def w_def t_def n_def first_def c_def ix_def
      by auto
    have dn: "d \<le> n"
      using arg_cong [OF rows, of length] length_filter_le [of "\<lambda>r. \<not> row_finished w r" "trade_list t"]
      by (simp add: trade_list_def n_def)
    have len1: "length first = ca_capacity (cash_ledger s)" and cc: "c \<le> ca_capacity (cash_ledger s)"
      using assms(1) by (simp_all add: first_def c_def ps_inv_defs)
    have acct: "tr_account t1 ! j < c \<and> tr_instrument t1 ! j < in_count (instruments s)" if "j < d" for j
    proof -
      have "trade_row t1 j \<in> set (map (trade_row t1) [0..<d])" using that by simp
      then have "trade_row t1 j \<in> set (trade_list t)" unfolding rows by simp
      then obtain i where "i < n" "trade_row t1 j = trade_row t i" by (auto simp: trade_list_def n_def)
      then show ?thesis using assms(1)
        by (auto simp: trade_row_def ps_inv_def refs_ok_def n_def t_def c_def)
    qed
    have "\<forall>a<c. lseg (next_of_account (t1\<lparr>tr_count := d\<rparr>)) (first ! a)
        (filter (\<lambda>j. tr_account (t1\<lparr>tr_count := d\<rparr>) ! j = a) [d..<d])"
      using cc len1 first_reset [of _ "account_first_trade s" c] by (simp add: first_def)
    note relink = relink_spec [OF this order_refl _ _ _ _ rl]
    have nl: "d \<le> length (next_of_account t1)" "d < kNil"
      using sh1 n dn by (auto simp: trades_shape_def Let_def kNil_def kEmpty_def)
    from relink nl cc len1 acct obtain nx where
      seg: "\<forall>a<c. lseg (next_of_account t2) (first' ! a) (filter (\<lambda>j. tr_account t1 ! j = a) [0..<d])"
      and t2: "t2 = t1\<lparr>tr_count := d, next_of_account := nx\<rparr>" "length nx = length (next_of_account t1)"
      and lf: "length first' = length first" by auto
    have view: "trade_row t2 = trade_row t1" by (simp add: fun_eq_iff trade_row_def t2)
    have sh2: "trades_shape t2" using sh1 dn n t2 by (simp add: shape_defs)
    have tl: "trade_list t2 = filter (\<lambda>r. \<not> row_finished w r) (trade_list t)"
      using rows by (simp add: trade_list_def [of t2] view) (simp add: t2)
    have ids: "take d (trade_id t2) = map row_id (trade_list t2)"
      using trade_list_ids [OF sh2] by (simp add: t2)
    have old: "indexed (trade_index s) (take n (trade_id t))"
      using assms(1) by (simp add: ps_inv_def indexes_ok_def trade_rows_def n_def t_def)
    have "distinct (map row_id (trade_list t))"
      using indexed_distinct [OF old] trade_list_ids [OF sh] by (simp add: n_def)
    then have dist: "distinct (take d (trade_id t2))"
      unfolding ids tl by (rule distinct_map_filter)
    have inv: "di_inv (trade_index s)" using old by (simp add: indexed_def)
    have clr: "indexed (di_clear (trade_index s)) (take 0 (trade_id t2))" "di_cap (di_clear (trade_index s)) = di_cap (trade_index s)"
      using di_new_inv [of "di_cap (trade_index s)"] inv
      by (auto simp: di_clear_new indexed_def di_inv_def [of "trade_index s"]) (simp_all add: di_new_def)
    have lim: "d \<le> load_limit (di_cap (trade_index s))"
      using assms(1) dn n(1) by (simp add: ps_inv_def indexes_ok_def t_def)
    have dl: "d \<le> length (trade_id t2)" and dk: "d < kEmpty"
      using sh2 dn n t2 sh1 by (auto simp: trades_shape_def Let_def)
    have ixs: "indexed ix (take d (trade_id t2))" "di_cap ix = di_cap (trade_index s)"
      using index_loop_spec [OF clr(1) _ dl dist _ dk] lim clr(2) by (simp_all add: ix_def)
    have "tables_ok s'" using assms(1) sh2 sh1 t2 lf len1 n
      unfolding ps_inv_def tables_ok_def s' by (simp add: t_def)
    moreover have "indexes_ok s'" using assms(1) ixs sh1 t2
      unfolding ps_inv_def indexes_ok_def s' by (simp add: rows_defs t_def)
    moreover have "refs_ok s'" using assms(1) acct
      unfolding ps_inv_def refs_ok_def s' by (simp add: t2 c_def)
    moreover have "lists_ok s'"
      unfolding lists_ok_def
    proof (intro allI impI)
      fix a assume a: "a < ca_count (cash_ledger s')"
      let ?xs = "filter (\<lambda>j. tr_account t1 ! j = a) [0..<d]"
      have "lseg (next_of_account (trades s')) (account_first_trade s' ! a) ?xs"
        using seg a by (simp add: s' c_def)
      moreover have "set ?xs = trades_of (trades s') a" by (auto simp: trades_of_def s' t2)
      moreover have "distinct ?xs" by simp
      ultimately show "\<exists>xs. lseg (next_of_account (trades s')) (account_first_trade s' ! a) xs
          \<and> distinct xs \<and> set xs = trades_of (trades s') a" by blast
    qed
    ultimately show ?thesis using b False tl s' by (auto simp: ps_inv_def)
  qed
  then show "trade_list (trades s') = filter (\<lambda>r. \<not> row_finished (window s) r) (trade_list (trades s))"
    "b = length (filter (row_finished (window s)) (trade_list (trades s)))"
    "ps_inv s'" "b = 0 \<Longrightarrow> s' = s" "b \<noteq> 0 \<Longrightarrow> lists_ok s'"
    "\<exists>t f ix. s' = s\<lparr>trades := t, account_first_trade := f, trade_index := ix\<rparr>"
    using b0 by (simp_all add: w_def t_def)
qed

section \<open>Initialisation\<close>

lemma init_then_Some:
  "init_then r f = Some (Some y, a') \<Longrightarrow> \<exists>x a. r = Some (Some x, a) \<and> f x a = Some (Some y, a')"
  by (auto simp: init_then_def split: bind_splits option.splits)

lemma custody_init_shape:
  assumes "custody_init a n = (Some c, a')" and "n * 3 < 4294967296"
  shows "custody_shape c \<and> cu_count c = 0 \<and> cu_capacity c = n"
  using assms unfolding custody_init_def Let_def
  by (auto dest!: and_then_Some coluna_Some simp: custody_shape_def slots3)

lemma cash_init_shape:
  assumes "cash_init a n = (Some c, a')" and "n * 3 < 4294967296"
  shows "cash_shape c \<and> ca_count c = 0 \<and> ca_capacity c = n"
  using assms unfolding cash_init_def
  by (auto dest!: and_then_Some coluna_Some simp: cash_shape_def slots3)

lemma instruments_init_shape:
  assumes "instruments_init a n = (Some c, a')"
  shows "instruments_shape c \<and> in_count c = 0 \<and> in_capacity c = n"
  using assms unfolding instruments_init_def
  by (auto dest!: and_then_Some coluna_Some simp: instruments_shape_def)

lemma trades_init_shape:
  assumes "trades_init a n = (Some c, a')"
  shows "trades_shape c \<and> tr_count c = 0 \<and> tr_capacity c = n"
  using assms unfolding trades_init_def
  by (auto dest!: and_then_Some coluna_Some simp: trades_shape_def)

definition capacity_ok :: "PartitionCapacity \<Rightarrow> bool" where
  "capacity_ok c \<longleftrightarrow> cp_accounts c < 1431655766 \<and> cp_positions c < 1431655766 \<and> cp_instruments c < 1431655766
     \<and> cp_trades c < 1431655766 \<and> cp_corporate_actions_per_gen c < 1431655766"

lemma ps_init_fields:
  assumes "ps_init a part c = Some (Some s, a')"
  shows "\<exists>a1 a2. custody_init a1 (cp_positions c) = (Some (custody s), a2)"
    and "\<exists>a1 a2. cash_init a1 (cp_accounts c) = (Some (cash_ledger s), a2)"
    and "\<exists>a1 a2. instruments_init a1 (cp_instruments c) = (Some (instruments s), a2)"
    and "\<exists>a1 a2. trades_init a1 (cp_trades c) = (Some (trades s), a2)"
    and "\<exists>a1 a2. di_init a1 (cp_accounts c) = Some (Some (account_index s), a2)"
    and "\<exists>a1 a2. di_init a1 (cp_positions c) = Some (Some (position_index s), a2)"
    and "\<exists>a1 a2. di_init a1 (cp_instruments c) = Some (Some (instrument_index s), a2)"
    and "\<exists>a1 a2. di_init a1 (cp_trades c) = Some (Some (trade_index s), a2)"
    and "\<exists>a1 a2. tg_init a1 (cp_corporate_actions_per_gen c) = Some (Some (applied_actions s), a2)"
    and "\<exists>a1 a2. tg_init a1 (cp_corporate_actions_per_gen c) = Some (Some (applied_income s), a2)"
    and "account_first_trade s = replicate (cp_accounts c) kNil" and "account_document s = replicate (cp_accounts c) 0"
    and "exceptions s = replicate (cp_exceptions c) ex_zero" and "exception_capacity s = cp_exceptions c"
    and "window s = window_empty" and "exception_count s = 0"
  using assms unfolding ps_init_def
  by (auto dest!: init_then_Some coluna_Some split: if_splits) blast+

lemma ps_init_ok:
  assumes "ps_init a part c = Some (Some s, a')" and "capacity_ok c"
  shows "ps_inv s" and "lists_ok s" and "account_rows s = []" and "instrument_rows s = []"
    and "position_rows s = []" and "trade_list (trades s) = []"
proof -
  note f = ps_init_fields [OF assms(1)]
  have cu: "custody_shape (custody s)" "cu_count (custody s) = 0" "cu_capacity (custody s) = cp_positions c"
    using f(1) custody_init_shape assms(2) by (fastforce simp: capacity_ok_def)+
  have ca: "cash_shape (cash_ledger s)" "ca_count (cash_ledger s) = 0" "ca_capacity (cash_ledger s) = cp_accounts c"
    using f(2) cash_init_shape assms(2) by (fastforce simp: capacity_ok_def)+
  have ins: "instruments_shape (instruments s)" "in_count (instruments s) = 0" "in_capacity (instruments s) = cp_instruments c"
    using f(3) instruments_init_shape by blast+
  have tr: "trades_shape (trades s)" "tr_count (trades s) = 0" "tr_capacity (trades s) = cp_trades c"
    using f(4) trades_init_shape by blast+
  show rows: "account_rows s = []" "instrument_rows s = []" "position_rows s = []" "trade_list (trades s) = []"
    using ca(2) ins(2) cu(2) tr(2) by (simp_all add: rows_defs trade_list_def)
  have empty: "indexed ix []" "n \<le> load_limit (di_cap ix)"
    if "\<exists>a1 a2. di_init a1 n = Some (Some ix, a2)" "n < 1431655766" for ix n
    using that di_init_ok [of _ n ix] by (auto intro: indexed_empty)
  have sets: "tg_inv (applied_actions s)" "tg_inv (applied_income s)"
    using f(9,10) tg_init_ok(1) assms(2) by (fastforce simp: capacity_ok_def)+
  have "tables_ok s" using cu ca ins tr f(11-16) assms(2)
    by (simp add: tables_ok_def window_empty_def capacity_ok_def kEmpty_def sentinel32_def)
  moreover have "indexes_ok s"
    using empty [OF f(5)] empty [OF f(6)] empty [OF f(7)] empty [OF f(8)] sets assms(2) rows cu ca ins tr
    by (simp add: indexes_ok_def capacity_ok_def trade_rows_def)
  moreover have "refs_ok s" using cu tr by (simp add: refs_ok_def)
  ultimately show "ps_inv s" by (simp add: ps_inv_def)
  show "lists_ok s" using ca by (simp add: lists_ok_def)
qed

section \<open>Rebuilding the indexes\<close>

lemma rebuild_loop_spec:
  assumes "indexed ix (map key [0..<k])" and "k \<le> n" and "distinct (map key [0..<n])"
    and "n \<le> load_limit (di_cap ix)" and "n < kEmpty"
  shows "\<exists>ix'. rebuild_loop key [k..<n] ix = Some ix' \<and> indexed ix' (map key [0..<n]) \<and> di_cap ix' = di_cap ix"
  using assms(1,2,4)
proof (induction "n - k" arbitrary: k ix)
  case 0
  then show ?case by simp
next
  case (Suc m)
  then have up: "[k..<n] = k # [Suc k..<n]" and k: "k < n" by (simp_all add: upt_conv_Cons)
  have "[0..<n] = [0..<k] @ k # [Suc k..<n]" using k upt_add_eq_append [of 0 k "n - k"] up by simp
  then have "key k \<notin> set (map key [0..<k])" using assms(3) by auto
  then obtain ix' where ix': "insert_or_get ix (key k) k = (k, True, ix')"
    "indexed ix' (map key [0..<Suc k])" "di_cap ix' = di_cap ix"
    using indexed_fresh [OF Suc.prems(1), of "key k"] Suc.prems(3) k assms(5) by auto
  have "k \<noteq> kEmpty" using k assms(5) by simp
  with Suc.hyps(1) [of "Suc k" ix', OF _ ix'(2)] Suc.hyps(2) k Suc.prems(3) ix' show ?case by (simp add: up)
qed

text \<open>
  From cleared indexes and intact columns, the rebuild succeeds and restores the invariant: the
  indexes hold no information of their own.
\<close>

lemma rebuild_indexes_ok:
  assumes "ps_inv s"
  shows "\<exists>s'. rebuild_indexes (s\<lparr>account_index := di_clear (account_index s), position_index := di_clear (position_index s),
             instrument_index := di_clear (instrument_index s), trade_index := di_clear (trade_index s)\<rparr>) = Some s'
           \<and> ps_inv s' \<and> di_map (account_index s') = di_map (account_index s)
           \<and> di_map (position_index s') = di_map (position_index s)
           \<and> di_map (instrument_index s') = di_map (instrument_index s)
           \<and> di_map (trade_index s') = di_map (trade_index s)"
proof -
  have t: "tables_ok s" and i: "indexes_ok s" using assms by (simp_all add: ps_inv_def)
  have clr: "indexed (di_clear ix) [] \<and> di_cap (di_clear ix) = di_cap ix" if "indexed ix ks" for ix ks
    using that di_new_inv [of "di_cap ix"] by (auto simp: indexed_def di_clear_new di_inv_def [of ix])
      (simp_all add: di_new_def)
  have re: "\<exists>ix'. rebuild_loop key [0..<n] (di_clear ix) = Some ix' \<and> indexed ix' (map key [0..<n])
      \<and> di_cap ix' = di_cap ix \<and> di_map ix' = di_map ix"
    if "indexed ix (map key [0..<n])" "n \<le> load_limit (di_cap ix)" "n < kEmpty" for ix key n
  proof -
    from rebuild_loop_spec [of "di_clear ix" key 0 n] clr [OF that(1)] indexed_distinct [OF that(1)] that(2,3)
    obtain ix' where ix': "rebuild_loop key [0..<n] (di_clear ix) = Some ix'" "indexed ix' (map key [0..<n])"
      "di_cap ix' = di_cap ix" by auto
    have "di_map ix' k = di_map ix k" for k
      using ix'(2) that(1) unfolding indexed_def by (metis not_None_eq)
    with ix' show ?thesis by auto
  qed
  have ks: "map (\<lambda>i. account_document s ! i) [0..<ca_count (cash_ledger s)] = account_rows s"
    "map (\<lambda>i. position_key (cu_account (custody s) ! i) (cu_instrument (custody s) ! i)) [0..<cu_count (custody s)]
       = map (\<lambda>(a, i). position_key a i) (position_rows s)"
    "map (\<lambda>i. ucast (external_id (instruments s) ! i) :: u64) [0..<in_count (instruments s)] = map ucast (instrument_rows s)"
    "map (\<lambda>i. trade_id (trades s) ! i) [0..<tr_count (trades s)] = trade_rows s"
    using t by (auto intro!: nth_equalityI simp: rows_defs tables_ok_def shape_defs)
  have lim: "ca_count (cash_ledger s) \<le> load_limit (di_cap (account_index s))" "ca_count (cash_ledger s) < kEmpty"
    "cu_count (custody s) \<le> load_limit (di_cap (position_index s))" "cu_count (custody s) < kEmpty"
    "in_count (instruments s) \<le> load_limit (di_cap (instrument_index s))" "in_count (instruments s) < kEmpty"
    "tr_count (trades s) \<le> load_limit (di_cap (trade_index s))" "tr_count (trades s) < kEmpty"
    using t i by (auto simp: tables_ok_def indexes_ok_def shape_defs)
  obtain ai where ai: "rebuild_loop (\<lambda>i. account_document s ! i) [0..<ca_count (cash_ledger s)] (di_clear (account_index s)) = Some ai"
    "indexed ai (account_rows s)" "di_cap ai = di_cap (account_index s)" "di_map ai = di_map (account_index s)"
    using re [of "account_index s" "\<lambda>i. account_document s ! i" "ca_count (cash_ledger s)"] i lim(1,2) ks(1)
    by (auto simp: indexes_ok_def)
  obtain po where po: "rebuild_loop (\<lambda>i. position_key (cu_account (custody s) ! i) (cu_instrument (custody s) ! i))
      [0..<cu_count (custody s)] (di_clear (position_index s)) = Some po"
    "indexed po (map (\<lambda>(a, i). position_key a i) (position_rows s))" "di_cap po = di_cap (position_index s)"
    "di_map po = di_map (position_index s)"
    using re [of "position_index s" "\<lambda>i. position_key (cu_account (custody s) ! i) (cu_instrument (custody s) ! i)"
        "cu_count (custody s)"] i lim(3,4) ks(2) by (auto simp: indexes_ok_def)
  obtain ii where ii: "rebuild_loop (\<lambda>i. ucast (external_id (instruments s) ! i)) [0..<in_count (instruments s)]
      (di_clear (instrument_index s)) = Some ii" "indexed ii (map ucast (instrument_rows s))"
    "di_cap ii = di_cap (instrument_index s)" "di_map ii = di_map (instrument_index s)"
    using re [of "instrument_index s" "\<lambda>i. ucast (external_id (instruments s) ! i)" "in_count (instruments s)"]
      i lim(5,6) ks(3) by (auto simp: indexes_ok_def)
  obtain ti where ti: "rebuild_loop (\<lambda>i. trade_id (trades s) ! i) [0..<tr_count (trades s)] (di_clear (trade_index s)) = Some ti"
    "indexed ti (trade_rows s)" "di_cap ti = di_cap (trade_index s)" "di_map ti = di_map (trade_index s)"
    using re [of "trade_index s" "\<lambda>i. trade_id (trades s) ! i" "tr_count (trades s)"] i lim(7,8) ks(4)
    by (auto simp: indexes_ok_def)
  let ?s = "s\<lparr>account_index := ai, position_index := po, instrument_index := ii, trade_index := ti\<rparr>"
  have "ps_inv ?s" using assms ai po ii ti unfolding ps_inv_def tables_ok_def indexes_ok_def refs_ok_def
    by (simp add: rows_defs)
  with ai po ii ti show ?thesis by (simp add: rebuild_indexes_def)
qed

section \<open>The exception queue\<close>

lemma push_exception_inv: "ps_inv (push_exception s r m) = ps_inv s"
  by (simp add: push_exception_def Let_def ps_inv_def tables_ok_def indexes_ok_def refs_ok_def rows_defs)

lemma push_exception_fields [simp]:
  "custody (push_exception s r m) = custody s" "cash_ledger (push_exception s r m) = cash_ledger s"
  "trades (push_exception s r m) = trades s" "instruments (push_exception s r m) = instruments s"
  "account_first_trade (push_exception s r m) = account_first_trade s"
  "account_document (push_exception s r m) = account_document s" "window (push_exception s r m) = window s"
  "applied_actions (push_exception s r m) = applied_actions s" "applied_income (push_exception s r m) = applied_income s"
  "trade_index (push_exception s r m) = trade_index s" "position_index (push_exception s r m) = position_index s"
  "account_index (push_exception s r m) = account_index s" "instrument_index (push_exception s r m) = instrument_index s"
  "business_date (push_exception s r m) = business_date s" "applied_lsn (push_exception s r m) = applied_lsn s"
  by (simp_all add: push_exception_def Let_def)

text \<open>
  The queue keeps the last \<open>exception_capacity\<close> records and counts the ones it overwrote: entered
  minus overwritten is what is still there, until the 32-bit counter of entries wraps.
\<close>

definition exceptions_kept :: "PartitionState \<Rightarrow> nat" where
  "exceptions_kept s = min (unat (exception_count s)) (exception_capacity s)"

definition exceptions_ok :: "PartitionState \<Rightarrow> bool" where
  "exceptions_ok s \<longleftrightarrow> unat (exception_count s) = exceptions_kept s + unat (exception_dropped s)"

lemma unat_Suc_u32: "unat (x :: u32) < 2 ^ 32 - 1 \<Longrightarrow> unat (x + 1) = Suc (unat x)"
  by (simp add: unat_word_ariths)

lemma push_exception_ok:
  assumes "exceptions_ok s" and "unat (exception_count s) < 2 ^ 32 - 1"
  shows "exceptions_ok (push_exception s r m)"
proof -
  have "unat (exception_dropped s) < 2 ^ 32 - 1" using assms by (simp add: exceptions_ok_def)
  then show ?thesis using assms unat_Suc_u32 [OF assms(2)] unat_Suc_u32 [of "exception_dropped s"]
    by (auto simp: exceptions_ok_def exceptions_kept_def push_exception_def Let_def)
qed

lemma push_exception_last:
  assumes "length (exceptions s) = exception_capacity s" and "0 < exception_capacity s"
  shows "exceptions (push_exception s r m) ! (unat (exception_count s) mod exception_capacity s) = r"
  using assms by (simp add: push_exception_def Let_def)

end
