(* ===== verification/RV_Spsc_Ring.thy ===== *)
theory RV_Spsc_Ring
  imports RV_Prelude
begin

unbundle bit_operations_syntax

text \<open>
  \<^verbatim>\<open>src/base/spsc_ring.hpp\<close>: the ring between one producer and one consumer.

  Each method reads the cursor of the other side at most once, so it takes effect at one point and is
  one step here; an interleaving of the two threads is a sequence of such steps.  The producer owns
  \<open>rg_head\<close> and \<open>rg_tail_cache\<close>, the consumer owns \<open>rg_tail\<close> and \<open>rg_head_cache\<close>, and each cache is an
  old value of the cursor of the other side.  The invariant says how old it may be, and the contract
  \<open>spsc_queue\<close> is the queue both sides see.
\<close>

section \<open>The ring\<close>

record 'a SpscRing =
  rg_head :: u64
  rg_tail :: u64
  rg_tail_cache :: u64
  rg_head_cache :: u64
  rg_slots :: "'a list"

definition rg_cap :: "'a SpscRing \<Rightarrow> u64" where
  "rg_cap t = of_nat (length (rg_slots t))"

definition rg_slot :: "'a SpscRing \<Rightarrow> u64 \<Rightarrow> nat" where
  "rg_slot t c = unat (c AND (rg_cap t - 1))"

definition rg_claim :: "'a SpscRing \<Rightarrow> nat option \<times> 'a SpscRing" where
  "rg_claim t =
     (let h = rg_head t in
      if rg_cap t \<le> h - rg_tail_cache t then
        let t1 = t\<lparr>rg_tail_cache := rg_tail t\<rparr> in
        if rg_cap t \<le> h - rg_tail_cache t1 then (None, t1) else (Some (rg_slot t h), t1)
      else (Some (rg_slot t h), t))"

text \<open>The producer writes in place, through the pointer \<^verbatim>\<open>claim\<close> returned.\<close>

definition rg_write :: "'a SpscRing \<Rightarrow> nat \<Rightarrow> 'a \<Rightarrow> 'a SpscRing" where
  "rg_write t i x = t\<lparr>rg_slots := (rg_slots t)[i := x]\<rparr>"

definition rg_publish :: "'a SpscRing \<Rightarrow> 'a SpscRing" where
  "rg_publish t = t\<lparr>rg_head := rg_head t + 1\<rparr>"

definition rg_peek :: "'a SpscRing \<Rightarrow> 'a option \<times> 'a SpscRing" where
  "rg_peek t =
     (let c = rg_tail t in
      if rg_head_cache t \<le> c then
        let t1 = t\<lparr>rg_head_cache := rg_head t\<rparr> in
        if rg_head_cache t1 \<le> c then (None, t1) else (Some (rg_slots t ! rg_slot t c), t1)
      else (Some (rg_slots t ! rg_slot t c), t))"

definition rg_pop :: "'a SpscRing \<Rightarrow> 'a SpscRing" where
  "rg_pop t = t\<lparr>rg_tail := rg_tail t + 1\<rparr>"

definition rg_available :: "'a SpscRing \<Rightarrow> u64 \<times> 'a SpscRing" where
  "rg_available t = (rg_head t - rg_tail t, t\<lparr>rg_head_cache := rg_head t\<rparr>)"

definition rg_produced :: "'a SpscRing \<Rightarrow> u64" where
  "rg_produced t = rg_head t"

definition rg_consumed :: "'a SpscRing \<Rightarrow> u64" where
  "rg_consumed t = rg_tail t"

definition rg_new :: "'a list \<Rightarrow> 'a SpscRing" where
  "rg_new slots = \<lparr>rg_head = 0, rg_tail = 0, rg_tail_cache = 0, rg_head_cache = 0, rg_slots = slots\<rparr>"

section \<open>The contract of a queue of one producer and one consumer\<close>

locale spsc_queue =
  fixes inv :: "'t \<Rightarrow> bool"
    and items :: "'t \<Rightarrow> 'a list"
    and peek :: "'t \<Rightarrow> 'a option \<times> 't"
    and pop :: "'t \<Rightarrow> 't"
  assumes peek_result: "inv t \<Longrightarrow> peek t = (r, t') \<Longrightarrow> r = (case items t of [] \<Rightarrow> None | x # xs \<Rightarrow> Some x)"
    and peek_keeps: "inv t \<Longrightarrow> peek t = (r, t') \<Longrightarrow> inv t' \<and> items t' = items t"
    and pop_items: "inv t \<Longrightarrow> peek t = (Some x, t') \<Longrightarrow> inv (pop t') \<and> items (pop t') = tl (items t)"
begin

text \<open>A consumer that peeks and pops until nothing is left sees every item once, in order.\<close>

primrec drain :: "nat \<Rightarrow> 't \<Rightarrow> 'a list \<times> 't" where
  "drain 0 t = ([], t)"
| "drain (Suc n) t = (case peek t of (None, t') \<Rightarrow> ([], t') | (Some x, t') \<Rightarrow>
     (case drain n (pop t') of (xs, t'') \<Rightarrow> (x # xs, t'')))"

lemma drain_take: "inv t \<Longrightarrow> drain n t = (xs, t') \<Longrightarrow> xs = take n (items t) \<and> items t' = drop n (items t) \<and> inv t'"
proof (induction n arbitrary: t t' xs)
  case 0
  then show ?case by simp
next
  case (Suc n)
  obtain r t1 where p: "peek t = (r, t1)" by (cases "peek t")
  note res = peek_result [OF Suc.prems(1) p] peek_keeps [OF Suc.prems(1) p]
  show ?case
  proof (cases r)
    case None
    with Suc.prems(2) p res show ?thesis by (auto split: list.splits)
  next
    case (Some x)
    note q = pop_items [OF Suc.prems(1) p [unfolded Some]]
    obtain ys t2 where d: "drain n (pop t1) = (ys, t2)" by (cases "drain n (pop t1)")
    from Suc.IH [of "pop t1", OF _ d] q Some Suc.prems(2) p d res show ?thesis
      by (cases "items t") auto
  qed
qed

end

section \<open>The ring implements the contract\<close>

text \<open>
  The live items, oldest first.  A cache of the producer lies between the tail and what would make
  the ring look full, a cache of the consumer between the tail and the head.  Cursors count events
  and do not wrap: \<open>unat\<close> is exact on them.
\<close>

definition rg_items :: "'a SpscRing \<Rightarrow> 'a list" where
  "rg_items t = map (\<lambda>c. rg_slots t ! (c mod length (rg_slots t))) [unat (rg_tail t)..<unat (rg_head t)]"

definition rg_inv :: "'a SpscRing \<Rightarrow> bool" where
  "rg_inv t \<longleftrightarrow> (\<exists>k<64. length (rg_slots t) = 2 ^ k) \<and> rg_tail_cache t \<le> rg_tail t \<and> rg_tail t \<le> rg_head t
     \<and> rg_head_cache t \<le> rg_head t
     \<and> unat (rg_head t) \<le> unat (rg_tail t) + length (rg_slots t)
     \<and> unat (rg_head t) \<le> unat (rg_tail_cache t) + length (rg_slots t)"

lemma rg_cap_unat: "rg_inv t \<Longrightarrow> unat (rg_cap t) = length (rg_slots t)"
proof -
  assume "rg_inv t"
  then obtain k where "k < 64" "length (rg_slots t) = 2 ^ k" by (auto simp: rg_inv_def)
  then have "length (rg_slots t) < 2 ^ 64" using power_strict_increasing [of k 64 "2 :: nat"] by simp
  then show ?thesis by (simp add: rg_cap_def unat_of_nat take_bit_nat_eq_self)
qed

lemma rg_slot_mod:
  assumes "rg_inv t"
  shows "rg_slot t c = unat c mod length (rg_slots t)"
proof -
  obtain k where k: "k < 64" "length (rg_slots t) = 2 ^ k" using assms by (auto simp: rg_inv_def)
  have "rg_cap t = push_bit k 1" using k(2) by (simp add: rg_cap_def push_bit_eq_mult)
  then have "rg_cap t - 1 = mask k" by (simp add: mask_eq_decr_exp push_bit_eq_mult)
  then have "c AND (rg_cap t - 1) = take_bit k c" by (simp add: take_bit_eq_mask)
  then have "rg_slot t c = take_bit k (unat c)" by (simp add: rg_slot_def unsigned_take_bit_eq)
  then show ?thesis using k by (simp add: take_bit_eq_mod)
qed

lemma unat_sub_le: "b \<le> a \<Longrightarrow> unat (a - b :: u64) = unat a - unat b"
  by (simp add: unat_sub)

lemma rg_full_iff:
  assumes "rg_inv t" and "c \<le> rg_head t"
  shows "rg_cap t \<le> rg_head t - c \<longleftrightarrow> unat c + length (rg_slots t) \<le> unat (rg_head t)"
  using assms unat_sub_le [OF assms(2)] rg_cap_unat [OF assms(1)] by (auto simp: word_le_nat_alt)

lemma length_rg_items: "length (rg_items t) = unat (rg_head t) - unat (rg_tail t)"
  by (simp add: rg_items_def)

text \<open>\<^verbatim>\<open>claim\<close> refuses exactly when the queue holds as many items as the ring has slots.\<close>

lemma rg_claim_spec:
  assumes "rg_inv t" and "rg_claim t = (r, t')"
  shows "rg_inv t'" and "rg_items t' = rg_items t" and "rg_slots t' = rg_slots t" and "rg_head t' = rg_head t" and "rg_tail t' = rg_tail t"
    and "r = (if length (rg_items t) = length (rg_slots t) then None else Some (unat (rg_head t) mod length (rg_slots t)))"
    and "r \<noteq> None \<Longrightarrow> unat (rg_head t') < unat (rg_tail_cache t') + length (rg_slots t')"
proof -
  have le: "rg_tail_cache t \<le> rg_tail t" "rg_tail t \<le> rg_head t" "rg_tail_cache t \<le> rg_head t"
    "unat (rg_head t) \<le> unat (rg_tail t) + length (rg_slots t)" "unat (rg_head t) \<le> unat (rg_tail_cache t) + length (rg_slots t)"
    using assms(1) by (auto simp: rg_inv_def)
  then have n: "unat (rg_tail_cache t) \<le> unat (rg_tail t)" "unat (rg_tail t) \<le> unat (rg_head t)" by (simp_all add: word_le_nat_alt)
  have full: "rg_cap t \<le> rg_head t - rg_tail_cache t \<longleftrightarrow> unat (rg_tail_cache t) + length (rg_slots t) \<le> unat (rg_head t)"
    "rg_cap t \<le> rg_head t - rg_tail t \<longleftrightarrow> unat (rg_tail t) + length (rg_slots t) \<le> unat (rg_head t)"
    using rg_full_iff [OF assms(1)] le by simp_all
  have s: "rg_slot t (rg_head t) = unat (rg_head t) mod length (rg_slots t)" by (rule rg_slot_mod [OF assms(1)])
  have t': "t' = t \<or> t' = t\<lparr>rg_tail_cache := rg_tail t\<rparr>"
    using assms(2) by (auto simp: rg_claim_def Let_def split: if_splits)
  then show "rg_inv t'" using assms(1) by (auto simp: rg_inv_def)
  show "rg_items t' = rg_items t" "rg_slots t' = rg_slots t" "rg_head t' = rg_head t" "rg_tail t' = rg_tail t"
    using t' by (auto simp: rg_items_def)
  show "r = (if length (rg_items t) = length (rg_slots t) then None else Some (unat (rg_head t) mod length (rg_slots t)))"
    using assms(2) full le(4,5) n s by (auto simp: rg_claim_def Let_def length_rg_items split: if_splits)
  show "r \<noteq> None \<Longrightarrow> unat (rg_head t') < unat (rg_tail_cache t') + length (rg_slots t')"
    using assms(2) full le(4,5) n by (auto simp: rg_claim_def Let_def split: if_splits)
qed

text \<open>
  Writing the claimed slot disturbs no live item, whatever the consumer has done since the claim, and
  publishing appends what was written.
\<close>

lemma mod_window:
  assumes "a \<le> c" and "c < h" and "h < a + n"
  shows "c mod n \<noteq> h mod (n :: nat)"
proof
  assume eq: "c mod n = h mod n"
  then have "n dvd h - c" using assms(2) mod_eq_dvd_iff_nat [of c h n] by simp
  moreover have "0 < h - c" "h - c < n" using assms by linarith+
  ultimately show False using nat_dvd_not_less by blast
qed

lemma rg_produce:
  assumes "rg_inv t" and "unat (rg_head t) < unat (rg_tail_cache t) + length (rg_slots t)" and "unat (rg_head t) + 1 < 2 ^ 64"
    and "i = unat (rg_head t) mod length (rg_slots t)"
  shows "rg_items (rg_write t i x) = rg_items t" and "rg_inv (rg_publish (rg_write t i x))"
    and "rg_items (rg_publish (rg_write t i x)) = rg_items t @ [x]"
proof -
  let ?n = "length (rg_slots t)" and ?h = "unat (rg_head t)" and ?a = "unat (rg_tail t)"
  have pos: "0 < ?n" using assms(1) by (auto simp: rg_inv_def)
  have le: "unat (rg_tail_cache t) \<le> ?a" "?a \<le> ?h" using assms(1) by (auto simp: rg_inv_def word_le_nat_alt)
  have i: "i < ?n" using pos assms(4) by simp
  have h1: "unat (rg_head t + 1) = ?h + 1" using assms(3) by (simp add: unat_word_ariths)
  have old: "(rg_slots t)[i := x] ! (c mod ?n) = rg_slots t ! (c mod ?n)" if "?a \<le> c" "c < ?h" for c
  proof -
    have "c mod ?n \<noteq> i" using mod_window [of ?a c ?h ?n] that assms(2,4) le by linarith
    then show ?thesis by simp
  qed
  then show w: "rg_items (rg_write t i x) = rg_items t" by (simp add: rg_items_def rg_write_def)
  show "rg_inv (rg_publish (rg_write t i x))"
    using assms(1,2) le h1 by (auto simp: rg_inv_def rg_publish_def rg_write_def word_le_nat_alt)
  have "[?a..<?h + 1] = [?a..<?h] @ [?h]" using le by simp
  then show "rg_items (rg_publish (rg_write t i x)) = rg_items t @ [x]"
    using old i assms(4) h1 by (simp add: rg_items_def rg_publish_def rg_write_def)
qed

lemma rg_peek_spec:
  assumes "rg_inv t" and "rg_peek t = (r, t')"
  shows "rg_inv t'" and "rg_items t' = rg_items t" and "r = (case rg_items t of [] \<Rightarrow> None | x # xs \<Rightarrow> Some x)"
    and "t' = t\<lparr>rg_head_cache := rg_head_cache t'\<rparr>"
proof -
  have le: "rg_tail t \<le> rg_head t" "rg_head_cache t \<le> rg_head t" using assms(1) by (auto simp: rg_inv_def)
  have s: "rg_slot t (rg_tail t) = unat (rg_tail t) mod length (rg_slots t)" by (rule rg_slot_mod [OF assms(1)])
  have t': "t' = t \<or> t' = t\<lparr>rg_head_cache := rg_head t\<rparr>"
    using assms(2) by (auto simp: rg_peek_def Let_def split: if_splits)
  then show "rg_inv t'" using assms(1) by (auto simp: rg_inv_def)
  show "rg_items t' = rg_items t" using t' by (auto simp: rg_items_def)
  show "t' = t\<lparr>rg_head_cache := rg_head_cache t'\<rparr>" using t' by auto
  have "r = (if rg_tail t < rg_head t then Some (rg_slots t ! rg_slot t (rg_tail t)) else None)"
    using assms(2) le by (auto simp: rg_peek_def Let_def split: if_splits)
  then show "r = (case rg_items t of [] \<Rightarrow> None | x # xs \<Rightarrow> Some x)"
    using s le by (auto simp: rg_items_def word_less_nat_alt word_le_nat_alt upt_conv_Cons)
qed

lemma rg_pop_spec:
  assumes "rg_inv t" and "rg_items t \<noteq> []"
  shows "rg_inv (rg_pop t)" and "rg_items (rg_pop t) = tl (rg_items t)"
proof -
  have lt: "unat (rg_tail t) < unat (rg_head t)" using assms(2) by (simp add: rg_items_def)
  have t1: "unat (rg_tail t + 1) = unat (rg_tail t) + 1"
    using lt unsigned_less [of "rg_head t", where 'a = nat] by (simp add: unat_word_ariths)
  show "rg_inv (rg_pop t)" using assms(1) lt t1 by (auto simp: rg_inv_def rg_pop_def word_le_nat_alt)
  show "rg_items (rg_pop t) = tl (rg_items t)"
    using lt t1 by (simp add: rg_items_def rg_pop_def upt_conv_Cons map_tl [symmetric])
qed

interpretation ring: spsc_queue rg_inv rg_items rg_peek rg_pop
proof (unfold_locales, goal_cases)
  case (1 t r t')
  then show ?case by (rule rg_peek_spec(3))
next
  case (2 t r t')
  then show ?case using rg_peek_spec(1,2) by blast
next
  case (3 t x t')
  then have "rg_items t' = rg_items t" "rg_inv t'" "rg_items t' \<noteq> []"
    using rg_peek_spec [OF 3] by (auto split: list.splits)
  then show ?case using rg_pop_spec [of t'] by simp
qed

lemma rg_new_inv: "k < 64 \<Longrightarrow> length slots = 2 ^ k \<Longrightarrow> rg_inv (rg_new slots) \<and> rg_items (rg_new slots) = []"
  by (auto simp: rg_inv_def rg_new_def rg_items_def)

end
