(* ===== verification/RV_Outbox.thy ===== *)
theory RV_Outbox
  imports RV_Bytes RV_Arena RV_Ids RV_Dense_Index
begin

text \<open>
  \<^verbatim>\<open>src/core/outbox.hpp\<close> and \<^verbatim>\<open>src/core/outbox.cpp\<close>: the single exit of the core.

  The ring of entries, the circular payload buffer and the counters are the class's fields.  The
  abstraction \<open>ob_queue\<close> reads the pending outputs back as a list of (LSN, kind, payload); under
  the invariant \<open>ob_inv\<close> every operation refines the corresponding list operation, and the class is
  an instance of the contract \<open>release_gate\<close> (invariant I10: nothing is released above the durable
  LSN).

  \<open>stage\<close> keeps the invariant when there is more room than the payload needs, which is what
  \<^verbatim>\<open>Partition::poll\<close> establishes with \<^verbatim>\<open>has_room\<close> before it applies an event.
\<close>

datatype OutKind = ReadModelUpdate | PartitionMessage | Confirmation | Audit | ExceptionOut

record PositionUpdate =
  pu_document :: u64
  pu_available_raw :: i64
  pu_avg_price_raw :: i64
  pu_instrument :: u32
  pu_reserved :: u32

text \<open>The 32 bytes of the struct, field by field.\<close>

definition position_update_bytes :: "PositionUpdate \<Rightarrow> u8 list" where
  "position_update_bytes u =
     store_le 8 (unat (pu_document u)) @ store_i64 (pu_available_raw u)
     @ store_i64 (pu_avg_price_raw u) @ store_le 4 (unat (pu_instrument u))
     @ store_le 4 (unat (pu_reserved u))"

record OutboxEntry =
  oe_lsn :: Lsn
  oe_offset :: nat
  oe_len :: nat
  oe_kind :: OutKind

record Outbox =
  ob_slots :: "OutboxEntry list"
  ob_buf :: "u8 list"
  ob_mask :: nat
  ob_buf_cap :: nat
  ob_buf_head :: nat
  ob_head :: nat
  ob_count :: nat
  ob_staged_total :: nat
  ob_released_total :: nat
  ob_frozen :: bool

definition oe_zero :: OutboxEntry where
  "oe_zero = \<lparr>oe_lsn = 0, oe_offset = 0, oe_len = 0, oe_kind = ReadModelUpdate\<rparr>"

text \<open>The arrays come from the arena uninitialised; no operation reads a cell before writing it.\<close>

definition ob_new :: "nat \<Rightarrow> nat \<Rightarrow> Outbox" where
  "ob_new n payload_bytes =
     \<lparr>ob_slots = replicate n oe_zero, ob_buf = replicate payload_bytes 0, ob_mask = n - 1,
      ob_buf_cap = payload_bytes, ob_buf_head = 0, ob_head = 0, ob_count = 0,
      ob_staged_total = 0, ob_released_total = 0, ob_frozen = False\<rparr>"

definition ob_init :: "Arena \<Rightarrow> nat \<Rightarrow> nat \<Rightarrow> (Outbox option \<times> Arena) option" where
  "ob_init a slots payload_bytes =
     do {
       n \<leftarrow> grow_cap 16 slots;
       let (sl, a1) = alloc_array 16 8 n a;
       let (bu, a2) = alloc_array 1 1 payload_bytes a1;
       Some (if sl = None \<or> bu = None then (None, a2) else (Some (ob_new n payload_bytes), a2))
     }"

definition u32_add :: "nat \<Rightarrow> nat \<Rightarrow> nat" where
  "u32_add x y = (x + y) mod 4294967296"

definition overwrite :: "'a list \<Rightarrow> nat \<Rightarrow> 'a list \<Rightarrow> 'a list" where
  "overwrite buf off bs = take off buf @ bs @ drop (off + length bs) buf"

text \<open>The part of \<open>stage\<close> after the place of the payload is decided.\<close>

definition stage_at :: "Outbox \<Rightarrow> nat \<Rightarrow> Lsn \<Rightarrow> OutKind \<Rightarrow> u8 list \<Rightarrow> Outbox" where
  "stage_at ob escrita lsn kind payload =
     (let len = length payload in
      ob\<lparr>ob_buf := overwrite (ob_buf ob) escrita payload,
         ob_slots := (ob_slots ob)[u32_add (ob_head ob) (ob_count ob) AND ob_mask ob :=
            \<lparr>oe_lsn = lsn, oe_offset = escrita, oe_len = len mod 65536, oe_kind = kind\<rparr>],
         ob_buf_head := u32_add escrita len, ob_count := ob_count ob + 1,
         ob_staged_total := ob_staged_total ob + 1\<rparr>)"

definition stage :: "Outbox \<Rightarrow> Lsn \<Rightarrow> OutKind \<Rightarrow> u8 list \<Rightarrow> Status \<times> Outbox" where
  "stage ob lsn kind payload =
     (let len = length payload; bh = ob_buf_head ob in
      if ob_count ob > ob_mask ob then (fail ArenaExhausted (of_nat (ob_count ob)), ob)
      else if len > ob_buf_cap ob then (fail OutOfRange (of_nat len), ob)
      else if ob_count ob = 0 then (kOk, stage_at ob 0 lsn kind payload)
      else let vivo = oe_offset (ob_slots ob ! ob_head ob) in
        if bh \<ge> vivo then
          if u32_add bh len > ob_buf_cap ob then
            if len > vivo then (fail ArenaExhausted (of_nat len), ob)
            else (kOk, stage_at ob 0 lsn kind payload)
          else (kOk, stage_at ob bh lsn kind payload)
        else if u32_add bh len > vivo then (fail ArenaExhausted (of_nat len), ob)
        else (kOk, stage_at ob bh lsn kind payload))"

definition has_room :: "Outbox \<Rightarrow> nat \<Rightarrow> nat \<Rightarrow> bool" where
  "has_room ob entries bytes =
     (if u32_add (ob_count ob) entries > ob_mask ob + 1 then False
      else if bytes > ob_buf_cap ob then False
      else if ob_count ob = 0 then True
      else let vivo = oe_offset (ob_slots ob ! ob_head ob);
               livre = (if ob_buf_head ob \<ge> vivo
                        then (if ob_buf_cap ob - ob_buf_head ob > vivo
                              then ob_buf_cap ob - ob_buf_head ob else vivo)
                        else vivo - ob_buf_head ob)
           in livre \<ge> bytes)"

definition ob_entry :: "Outbox \<Rightarrow> nat \<Rightarrow> OutboxEntry" where
  "ob_entry ob i = ob_slots ob ! (u32_add (ob_head ob) i AND ob_mask ob)"

definition ob_payload :: "Outbox \<Rightarrow> OutboxEntry \<Rightarrow> u8 list" where
  "ob_payload ob e = take (oe_len e) (drop (oe_offset e) (ob_buf ob))"

primrec ready_loop :: "Outbox \<Rightarrow> Lsn \<Rightarrow> nat \<Rightarrow> nat \<Rightarrow> nat" where
  "ready_loop ob durable n 0 = n"
| "ready_loop ob durable n (Suc k) =
     (if oe_lsn (ob_entry ob n) \<le> durable then ready_loop ob durable (n + 1) k else n)"

definition ready :: "Outbox \<Rightarrow> Lsn \<Rightarrow> nat" where
  "ready ob durable = (if ob_frozen ob then 0 else ready_loop ob durable 0 (ob_count ob))"

definition ob_commit :: "Outbox \<Rightarrow> nat \<Rightarrow> Outbox" where
  "ob_commit ob n =
     (let n = (if n > ob_count ob then ob_count ob else n) in
      ob\<lparr>ob_head := u32_add (ob_head ob) n AND ob_mask ob, ob_count := ob_count ob - n,
         ob_released_total := ob_released_total ob + n\<rparr>)"

definition freeze :: "Outbox \<Rightarrow> Outbox" where
  "freeze ob = ob\<lparr>ob_frozen := True\<rparr>"

section \<open>The contract of the gate\<close>

text \<open>
  \<open>pend\<close> is the queue of outputs with their LSNs, \<open>rdy t d\<close> how many may leave when the log is
  durable up to \<open>d\<close>, \<open>drp\<close> the removal of released outputs from the front.
\<close>

locale release_gate =
  fixes inv :: "'t \<Rightarrow> bool"
    and pend :: "'t \<Rightarrow> (u64 \<times> 'o) list"
    and rdy :: "'t \<Rightarrow> u64 \<Rightarrow> nat"
    and drp :: "'t \<Rightarrow> nat \<Rightarrow> 't"
    and closed :: "'t \<Rightarrow> bool"
  assumes rdy_open: "inv t \<Longrightarrow> \<not> closed t \<Longrightarrow> rdy t d = length (takeWhile (\<lambda>x. fst x \<le> d) (pend t))"
    and rdy_closed: "closed t \<Longrightarrow> rdy t d = 0"
    and drp_inv: "inv t \<Longrightarrow> inv (drp t n)"
    and drp_pend: "inv t \<Longrightarrow> pend (drp t n) = drop n (pend t)"
    and drp_closed: "closed (drp t n) = closed t"
begin

text \<open>One round of publication: what leaves, and what stays.\<close>

definition released :: "'t \<Rightarrow> u64 \<Rightarrow> (u64 \<times> 'o) list" where
  "released t d = take (rdy t d) (pend t)"

lemma released_durable:
  assumes "inv t" and "x \<in> set (released t d)"
  shows "fst x \<le> d"
proof (cases "closed t")
  case True
  with assms(2) show ?thesis by (simp add: released_def rdy_closed)
next
  case False
  then have "released t d = takeWhile (\<lambda>x. fst x \<le> d) (pend t)"
    by (simp add: released_def rdy_open [OF assms(1)] takeWhile_eq_take [symmetric])
  with assms(2) show ?thesis by (auto dest: set_takeWhileD)
qed

text \<open>Nothing durable is held back behind the front, nothing is lost or reordered.\<close>

lemma release_split:
  assumes "inv t"
  shows "released t d @ pend (drp t (rdy t d)) = pend t"
  by (simp add: released_def drp_pend [OF assms])

lemma release_maximal:
  assumes "inv t" and "\<not> closed t" and "pend (drp t (rdy t d)) = x # xs"
  shows "\<not> fst x \<le> d"
proof -
  have "drop (length (takeWhile (\<lambda>x. fst x \<le> d) (pend t))) (pend t) = x # xs"
    using assms by (simp add: drp_pend rdy_open)
  then have "dropWhile (\<lambda>x. fst x \<le> d) (pend t) = x # xs" by (simp add: dropWhile_eq_drop)
  then show ?thesis by (metis hd_dropWhile list.distinct(1) list.sel(1))
qed

end

section \<open>Layout of the live payloads\<close>

definition live :: "Outbox \<Rightarrow> OutboxEntry list" where
  "live ob = map (ob_entry ob) [0..<ob_count ob]"

definition ob_queue :: "Outbox \<Rightarrow> (u64 \<times> OutKind \<times> u8 list) list" where
  "ob_queue ob = map (\<lambda>e. (oe_lsn e, oe_kind e, ob_payload ob e)) (live ob)"

text \<open>The entries \<open>es\<close> lie end to end from offset \<open>a\<close> up to offset \<open>b\<close>.\<close>

primrec laid :: "nat \<Rightarrow> nat \<Rightarrow> OutboxEntry list \<Rightarrow> bool" where
  "laid a b [] \<longleftrightarrow> a = b"
| "laid a b (e # es) \<longleftrightarrow> oe_offset e = a \<and> 0 < oe_len e \<and> laid (a + oe_len e) b es"

definition vivo :: "Outbox \<Rightarrow> nat" where
  "vivo ob = oe_offset (ob_slots ob ! ob_head ob)"

text \<open>Either one run of payloads, or one that reaches towards the end and one from the start.\<close>

definition payloads_ok :: "Outbox \<Rightarrow> OutboxEntry list \<Rightarrow> bool" where
  "payloads_ok ob es \<longleftrightarrow>
     es = [] \<or> laid (oe_offset (hd es)) (ob_buf_head ob) es
     \<or> (\<exists>us vs e. es = us @ vs \<and> us \<noteq> [] \<and> vs \<noteq> [] \<and> laid (oe_offset (hd es)) e us
          \<and> e \<le> ob_buf_cap ob \<and> laid 0 (ob_buf_head ob) vs \<and> ob_buf_head ob < oe_offset (hd es))"

definition ob_inv :: "Outbox \<Rightarrow> bool" where
  "ob_inv ob \<longleftrightarrow> pow2_cap (ob_mask ob + 1) \<and> length (ob_slots ob) = ob_mask ob + 1
     \<and> length (ob_buf ob) = ob_buf_cap ob \<and> ob_buf_cap ob < 2147483648
     \<and> ob_head ob \<le> ob_mask ob \<and> ob_count ob \<le> ob_mask ob + 1 \<and> ob_buf_head ob \<le> ob_buf_cap ob
     \<and> payloads_ok ob (live ob)"

lemma laid_le: "laid a b es \<Longrightarrow> a \<le> b"
  by (induction es arbitrary: a) force+

lemma laid_pos: "laid a b es \<Longrightarrow> es \<noteq> [] \<Longrightarrow> a < b"
  by (cases es) (use laid_le in force)+

lemma laid_append: "laid a b (es @ fs) \<longleftrightarrow> (\<exists>c. laid a c es \<and> laid c b fs)"
  by (induction es arbitrary: a) auto

lemma laid_mem: "laid a b es \<Longrightarrow> e \<in> set es \<Longrightarrow> a \<le> oe_offset e \<and> oe_offset e + oe_len e \<le> b"
proof (induction es arbitrary: a)
  case Nil
  then show ?case by simp
next
  case (Cons x xs)
  then show ?case using laid_le [of "a + oe_len x" b xs] by (cases "e = x") force+
qed

lemma laid_hd: "laid a b es \<Longrightarrow> es \<noteq> [] \<Longrightarrow> oe_offset (hd es) = a"
  by (cases es) auto

lemma laid_drop:
  assumes "laid a b es" and "n < length es"
  shows "laid (oe_offset (hd (drop n es))) b (drop n es)"
proof -
  have "laid a b (take n es @ drop n es)" using assms(1) by simp
  then obtain c where "laid c b (drop n es)" unfolding laid_append by blast
  with laid_hd [OF this] assms(2) show ?thesis by simp
qed

section \<open>Staging refines appending\<close>

lemma ring_index:
  assumes "ob_inv ob" and "i \<le> ob_mask ob + 1"
  shows "u32_add (ob_head ob) i AND ob_mask ob = (ob_head ob + i) mod (ob_mask ob + 1)"
proof -
  have p: "pow2_cap (ob_mask ob + 1)" and "ob_head ob \<le> ob_mask ob" using assms(1) by (simp_all add: ob_inv_def)
  then have "ob_head ob + i < 4294967296" using pow2_cap_mask(3) [OF p] assms(2) by simp
  then show ?thesis using pow2_cap_mask(1) [OF p, of "ob_head ob + i"] by (simp add: u32_add_def)
qed

lemma ring_distinct:
  assumes "(i::nat) < j" and "j < n"
  shows "(h + i) mod n \<noteq> (h + j) mod n"
proof
  assume "(h + i) mod n = (h + j) mod n"
  then have "n dvd (h + j) - (h + i)" using assms by (metis add_le_cancel_left less_imp_le mod_eq_dvd_iff_nat)
  then have "n dvd j - i" by simp
  with assms show False by (auto dest: dvd_imp_le)
qed

lemma length_overwrite: "off + length bs \<le> length buf \<Longrightarrow> length (overwrite buf off bs) = length buf"
  by (simp add: overwrite_def)

lemma overwrite_same: "off + length bs \<le> length buf \<Longrightarrow> take (length bs) (drop off (overwrite buf off bs)) = bs"
  by (simp add: overwrite_def)

lemma overwrite_before:
  "off + length bs \<le> length buf \<Longrightarrow> p + l \<le> off \<Longrightarrow> take l (drop p (overwrite buf off bs)) = take l (drop p buf)"
  by (rule nth_equalityI) (auto simp: overwrite_def nth_append)

lemma overwrite_after:
  "off + length bs \<le> length buf \<Longrightarrow> off + length bs \<le> p \<Longrightarrow> take l (drop p (overwrite buf off bs)) = take l (drop p buf)"
  by (simp add: overwrite_def)

text \<open>The bytes from \<open>off\<close> on, \<open>len\<close> of them, belong to no live payload.\<close>

definition free_at :: "Outbox \<Rightarrow> nat \<Rightarrow> nat \<Rightarrow> bool" where
  "free_at ob off len \<longleftrightarrow> off + len \<le> ob_buf_cap ob
     \<and> (\<forall>e\<in>set (live ob). oe_offset e + oe_len e \<le> off \<or> off + len \<le> oe_offset e)"

lemma live_stage_at:
  assumes "ob_inv ob" and "ob_count ob \<le> ob_mask ob"
  shows "live (stage_at ob off lsn kind p)
         = live ob @ [\<lparr>oe_lsn = lsn, oe_offset = off, oe_len = length p mod 65536, oe_kind = kind\<rparr>]"
proof -
  let ?n = "ob_mask ob + 1" and ?new = "\<lparr>oe_lsn = lsn, oe_offset = off, oe_len = length p mod 65536, oe_kind = kind\<rparr>"
  let ?ob = "stage_at ob off lsn kind p"
  have ix: "u32_add (ob_head ob) i AND ob_mask ob = (ob_head ob + i) mod ?n" if "i \<le> ob_count ob" for i
    using ring_index [OF assms(1), of i] assms(2) that by simp
  have len: "length (ob_slots ob) = ?n" using assms(1) by (simp add: ob_inv_def)
  have old: "ob_entry ?ob i = ob_entry ob i" if "i < ob_count ob" for i
    using ring_distinct [of i "ob_count ob" ?n "ob_head ob"] that assms(2)
    by (simp add: ob_entry_def stage_at_def Let_def ix)
  have new: "ob_entry ?ob (ob_count ob) = ?new"
    by (simp add: ob_entry_def stage_at_def Let_def ix len)
  have "ob_count ?ob = Suc (ob_count ob)" by (simp add: stage_at_def Let_def)
  with old new show ?thesis by (simp add: live_def)
qed

lemma queue_stage_at:
  assumes "ob_inv ob" and "ob_count ob \<le> ob_mask ob" and "free_at ob off (length p)" and "length p < 65536"
  shows "ob_queue (stage_at ob off lsn kind p) = ob_queue ob @ [(lsn, kind, p)]"
proof -
  let ?ob = "stage_at ob off lsn kind p"
  have buf: "ob_buf ?ob = overwrite (ob_buf ob) off p" by (simp add: stage_at_def Let_def)
  have fit: "off + length p \<le> length (ob_buf ob)"
    using assms(1,3) by (simp add: ob_inv_def free_at_def)
  have "ob_payload ?ob e = ob_payload ob e" if "e \<in> set (live ob)" for e
  proof -
    have "oe_offset e + oe_len e \<le> off \<or> off + length p \<le> oe_offset e"
      using assms(3) that by (simp add: free_at_def)
    then show ?thesis
      using overwrite_before [OF fit] overwrite_after [OF fit] by (auto simp: ob_payload_def buf)
  qed
  moreover have "ob_payload ?ob \<lparr>oe_lsn = lsn, oe_offset = off, oe_len = length p, oe_kind = kind\<rparr> = p"
    using overwrite_same [OF fit] by (simp add: ob_payload_def buf)
  ultimately show ?thesis
    using assms(4) by (simp add: ob_queue_def live_stage_at [OF assms(1,2)])
qed

text \<open>
  More room than \<open>len\<close> bytes in the sense that matters: after the write the two ends of the live
  region do not meet.
\<close>

definition strict_room :: "Outbox \<Rightarrow> nat \<Rightarrow> bool" where
  "strict_room ob len \<longleftrightarrow> len \<le> ob_buf_cap ob \<and> ob_count ob \<le> ob_mask ob \<and>
     (ob_count ob = 0
      \<or> (if vivo ob \<le> ob_buf_head ob
          then ob_buf_head ob + len \<le> ob_buf_cap ob \<or> len < vivo ob
          else ob_buf_head ob + len < vivo ob))"

definition stage_place :: "Outbox \<Rightarrow> nat \<Rightarrow> nat" where
  "stage_place ob len =
     (if ob_count ob = 0 then 0
      else if vivo ob \<le> ob_buf_head ob \<and> ob_buf_cap ob < ob_buf_head ob + len then 0
      else ob_buf_head ob)"

lemma live_nonempty: "0 < ob_count ob \<Longrightarrow> ob_inv ob \<Longrightarrow> live ob \<noteq> [] \<and> oe_offset (hd (live ob)) = vivo ob"
  using ring_index [of ob 0]
  by (simp add: live_def hd_map ob_entry_def vivo_def ob_inv_def)

lemma stage_strict:
  assumes "ob_inv ob" and "strict_room ob (length p)"
  shows "stage ob lsn kind p = (kOk, stage_at ob (stage_place ob (length p)) lsn kind p)"
proof -
  have "ob_buf_head ob + length p < 4294967296"
    using assms by (simp add: ob_inv_def strict_room_def)
  then have "u32_add (ob_buf_head ob) (length p) = ob_buf_head ob + length p" by (simp add: u32_add_def)
  with assms(2) show ?thesis
    by (auto simp: stage_def Let_def strict_room_def stage_place_def vivo_def not_le)
qed

text \<open>In every case the chosen place is free, and the layout stays one or two runs.\<close>

lemma payloads_cases:
  assumes "ob_inv ob" and "0 < ob_count ob"
  obtains (one) "laid (vivo ob) (ob_buf_head ob) (live ob)" "vivo ob < ob_buf_head ob"
  | (two) us vs e where "live ob = us @ vs" "us \<noteq> []" "vs \<noteq> []" "laid (vivo ob) e us"
      "e \<le> ob_buf_cap ob" "laid 0 (ob_buf_head ob) vs" "ob_buf_head ob < vivo ob"
  using assms live_nonempty [OF assms(2,1)] laid_pos [of "vivo ob" "ob_buf_head ob" "live ob"]
  by (auto simp: ob_inv_def payloads_ok_def)

lemma stage_place_free:
  assumes "ob_inv ob" and "strict_room ob len"
  shows "free_at ob (stage_place ob len) len"
proof (cases "ob_count ob = 0")
  case True
  with assms(2) show ?thesis by (simp add: free_at_def stage_place_def strict_room_def live_def)
next
  case False
  then have "0 < ob_count ob" by simp
  with assms(1) show ?thesis
  proof (cases rule: payloads_cases)
    case one
    have "vivo ob \<le> oe_offset e \<and> oe_offset e + oe_len e \<le> ob_buf_head ob" if "e \<in> set (live ob)" for e
      using laid_mem [OF one(1) that] .
    with one(2) assms(2) False show ?thesis
      by (fastforce simp: free_at_def stage_place_def strict_room_def)
  next
    case (two us vs e)
    have us: "vivo ob \<le> oe_offset x" if "x \<in> set us" for x using laid_mem [OF two(4) that] by simp
    have vs: "oe_offset x + oe_len x \<le> ob_buf_head ob" if "x \<in> set vs" for x
      using laid_mem [OF two(6) that] by simp
    have "vivo ob \<le> ob_buf_cap ob" using laid_le [OF two(4)] two(5) by simp
    with us vs two assms(2) False show ?thesis
      by (fastforce simp: free_at_def stage_place_def strict_room_def)
  qed
qed

lemma stage_at_payloads:
  assumes "ob_inv ob" and "strict_room ob (length p)" and "0 < length p" and "length p < 65536"
    and ob'_def: "ob' = stage_at ob (stage_place ob (length p)) lsn kind p"
  shows "payloads_ok ob' (live ob')"
proof -
  let ?off = "stage_place ob (length p)"
  let ?new = "\<lparr>oe_lsn = lsn, oe_offset = ?off, oe_len = length p, oe_kind = kind\<rparr>"
  have cap: "?off + length p \<le> ob_buf_cap ob" using stage_place_free [OF assms(1,2)] by (simp add: free_at_def)
  then have bh: "ob_buf_head ob' = ?off + length p"
    using assms(1) by (simp add: ob'_def stage_at_def Let_def u32_add_def ob_inv_def)
  have bc: "ob_buf_cap ob' = ob_buf_cap ob" by (simp add: ob'_def stage_at_def Let_def)
  have cm: "ob_count ob \<le> ob_mask ob" using assms(2) by (simp add: strict_room_def)
  have lv: "live ob' = live ob @ [?new]"
    using live_stage_at [OF assms(1) cm] assms(4) by (simp add: ob'_def)
  have new: "laid ?off (?off + length p) [?new]" using assms(3) by simp
  show ?thesis
  proof (cases "ob_count ob = 0")
    case True
    then have "live ob' = [?new]" by (simp add: lv) (simp add: live_def)
    with new show ?thesis by (simp add: payloads_ok_def bh)
  next
    case False
    then have pos: "0 < ob_count ob" by simp
    have hd': "hd (live ob') = hd (live ob)" "oe_offset (hd (live ob)) = vivo ob" "live ob \<noteq> []"
      using live_nonempty [OF pos assms(1)] by (simp_all add: lv)
    from assms(1) pos show ?thesis
    proof (cases rule: payloads_cases)
      case one
      show ?thesis
      proof (cases "?off = ob_buf_head ob")
        case True
        then have "laid (vivo ob) (ob_buf_head ob') (live ob')"
          using one(1) new unfolding lv laid_append bh by auto
        then show ?thesis unfolding payloads_ok_def hd' by simp
      next
        case no: False
        then have "?off = 0" "length p < vivo ob"
          using assms(2) one(2) False by (auto simp: stage_place_def strict_room_def split: if_splits)
        then have "live ob' = live ob @ [?new]" "laid (vivo ob) (ob_buf_head ob) (live ob)"
          "ob_buf_head ob \<le> ob_buf_cap ob'" "laid 0 (ob_buf_head ob') [?new]" "ob_buf_head ob' < vivo ob"
          using lv one new assms(1) by (simp_all add: bh bc ob_inv_def)
        with hd'(3) show ?thesis unfolding payloads_ok_def hd' by blast
      qed
    next
      case (two us vs e)
      then have off: "?off = ob_buf_head ob" "ob_buf_head ob + length p < vivo ob"
        using assms(2) False by (auto simp: stage_place_def strict_room_def)
      then have "live ob' = us @ (vs @ [?new])" "laid 0 (ob_buf_head ob') (vs @ [?new])"
        "ob_buf_head ob' < vivo ob" "e \<le> ob_buf_cap ob'"
        using two lv new by (simp_all add: bh bc laid_append)
      with two show ?thesis unfolding payloads_ok_def hd' by blast
    qed
  qed
qed

lemma stage_ok:
  assumes "ob_inv ob" and "strict_room ob (length p)" and "0 < length p" and "length p < 65536"
  shows "\<exists>ob'. stage ob lsn kind p = (kOk, ob') \<and> ob_inv ob' \<and> ob_queue ob' = ob_queue ob @ [(lsn, kind, p)]
           \<and> ob_frozen ob' = ob_frozen ob \<and> ob_mask ob' = ob_mask ob \<and> ob_buf_cap ob' = ob_buf_cap ob
           \<and> ob_count ob' = Suc (ob_count ob)"
proof -
  let ?off = "stage_place ob (length p)"
  let ?ob = "stage_at ob ?off lsn kind p"
  have free: "free_at ob ?off (length p)" by (rule stage_place_free [OF assms(1,2)])
  have cm: "ob_count ob \<le> ob_mask ob" using assms(2) by (simp add: strict_room_def)
  have q: "ob_queue ?ob = ob_queue ob @ [(lsn, kind, p)]"
    by (rule queue_stage_at [OF assms(1) cm free assms(4)])
  have fit: "?off + length p \<le> ob_buf_cap ob" using free by (simp add: free_at_def)
  have pl: "payloads_ok ?ob (live ?ob)" by (rule stage_at_payloads [OF assms refl])
  have "ob_inv ?ob" unfolding ob_inv_def using assms(1) cm fit pl
    by (simp add: ob_inv_def) (simp add: stage_at_def Let_def length_overwrite u32_add_def)
  with q stage_strict [OF assms(1,2)] show ?thesis by (simp add: stage_at_def Let_def)
qed

text \<open>\<^verbatim>\<open>has_room\<close> with a margin gives the strict room, and leaves the rest of it afterwards.\<close>

lemma has_room_strict:
  assumes "ob_inv ob" and "has_room ob n bytes" and "0 < n" and "n < 2147483648" and "len < bytes"
  shows "strict_room ob len"
proof -
  have "ob_count ob + n < 4294967296"
    using assms(1,4) pow2_cap_mask(3) [of "ob_mask ob + 1"] by (simp add: ob_inv_def)
  then have "u32_add (ob_count ob) n = ob_count ob + n" by (simp add: u32_add_def)
  with assms show ?thesis
    by (auto simp: has_room_def strict_room_def Let_def vivo_def split: if_splits)
qed

section \<open>Releasing refines taking from the front\<close>

lemma ready_loop_spec:
  "n + k = ob_count ob \<Longrightarrow>
   ready_loop ob d n k = n + length (takeWhile (\<lambda>e. oe_lsn e \<le> d) (map (ob_entry ob) [n..<ob_count ob]))"
proof (induction k arbitrary: n)
  case 0
  then show ?case by simp
next
  case (Suc k)
  then have "[n..<ob_count ob] = n # [Suc n..<ob_count ob]" by (simp add: upt_conv_Cons)
  with Suc show ?case by simp
qed

lemma takeWhile_length_map:
  "(\<And>x. Q (f x) = P x) \<Longrightarrow> length (takeWhile P xs) = length (takeWhile Q (map f xs))"
  by (simp add: takeWhile_map comp_def)

lemma ready_queue:
  "\<not> ob_frozen ob \<Longrightarrow> ready ob d = length (takeWhile (\<lambda>x. fst x \<le> d) (ob_queue ob))"
  using ready_loop_spec [of 0 "ob_count ob" ob d]
  by (simp add: ready_def ob_queue_def live_def [symmetric] takeWhile_map comp_def)

lemma live_commit:
  assumes "ob_inv ob"
  shows "live (ob_commit ob n) = drop n (live ob)"
proof -
  let ?n = "min n (ob_count ob)" and ?N = "ob_mask ob + 1"
  have le: "?n \<le> ob_mask ob + 1" using assms by (simp add: ob_inv_def min.coboundedI2)
  have hd': "ob_head (ob_commit ob n) = (ob_head ob + ?n) mod ?N"
    using ring_index [OF assms le] by (simp add: ob_commit_def Let_def min_def split: if_splits)
  have cnt: "ob_count (ob_commit ob n) = ob_count ob - ?n" by (simp add: ob_commit_def Let_def min_def)
  have sl: "ob_slots (ob_commit ob n) = ob_slots ob" "ob_mask (ob_commit ob n) = ob_mask ob"
    by (simp_all add: ob_commit_def Let_def)
  have "ob_entry (ob_commit ob n) i = ob_entry ob (?n + i)" if "i < ob_count ob - ?n" for i
  proof -
    have p: "pow2_cap ?N" using assms by (simp add: ob_inv_def)
    have lt: "(ob_head ob + ?n) mod ?N < ?N" by simp
    have "ob_count ob \<le> ?N" using assms by (simp add: ob_inv_def)
    with that have "i \<le> ?N" by simp
    then have "(ob_head ob + ?n) mod ?N + i < 4294967296" using lt pow2_cap_mask(3) [OF p] by linarith
    then have "u32_add ((ob_head ob + ?n) mod ?N) i AND ob_mask ob = ((ob_head ob + ?n) mod ?N + i) mod ?N"
      using pow2_cap_mask(1) [OF p] by (simp add: u32_add_def)
    also have "\<dots> = (ob_head ob + (?n + i)) mod ?N" by (simp add: mod_simps add.assoc)
    also have "\<dots> = u32_add (ob_head ob) (?n + i) AND ob_mask ob"
      using ring_index [OF assms, of "?n + i"] that \<open>ob_count ob \<le> ?N\<close> by simp
    finally show ?thesis by (simp add: ob_entry_def hd' sl)
  qed
  then have "live (ob_commit ob n) = map (\<lambda>i. ob_entry ob (?n + i)) [0..<ob_count ob - ?n]"
    by (simp add: live_def cnt)
  also have "\<dots> = drop n (live ob)"
    by (rule nth_equalityI) (auto simp: live_def min_def)
  finally show ?thesis .
qed

lemma payloads_commit:
  assumes "payloads_ok ob es"
  shows "payloads_ok (ob_commit ob n) (drop n es)"
proof -
  have f: "ob_buf_head (ob_commit ob n) = ob_buf_head ob" "ob_buf_cap (ob_commit ob n) = ob_buf_cap ob"
    by (simp_all add: ob_commit_def Let_def)
  show ?thesis
  proof (cases "n < length es")
    case False
    then show ?thesis by (simp add: payloads_ok_def)
  next
    case n: True
    then have ne: "es \<noteq> []" by auto
    from assms consider (one) "laid (oe_offset (hd es)) (ob_buf_head ob) es"
      | (two) us vs e where "es = us @ vs" "us \<noteq> []" "vs \<noteq> []" "laid (oe_offset (hd es)) e us"
        "e \<le> ob_buf_cap ob" "laid 0 (ob_buf_head ob) vs" "ob_buf_head ob < oe_offset (hd es)"
      using ne unfolding payloads_ok_def by blast
    then show ?thesis
    proof cases
      case one
      from laid_drop [OF this n] show ?thesis by (simp add: payloads_ok_def f)
    next
      case (two us vs e)
      show ?thesis
      proof (cases "n < length us")
        case True
        have d: "drop n es = drop n us @ vs" using two(1) True by simp
        have h: "laid (oe_offset (hd (drop n us))) e (drop n us)" by (rule laid_drop [OF two(4) True])
        have "drop n us \<noteq> []" using True by simp
        moreover have "oe_offset (hd es) \<le> oe_offset (hd (drop n us))"
        proof -
          have "hd (drop n us) \<in> set us" using True by (metis hd_drop_conv_nth nth_mem)
          then show ?thesis using laid_mem [OF two(4)] by blast
        qed
        moreover have "hd (drop n us @ vs) = hd (drop n us)" using True by simp
        ultimately show ?thesis
          unfolding payloads_ok_def d f using h two by (metis order_less_le_trans)
      next
        case False
        then have d: "drop n es = drop (n - length us) vs" using two(1) by simp
        have "n - length us < length vs" using n two(1) False by simp
        from laid_drop [OF two(6) this] show ?thesis by (simp add: payloads_ok_def f d)
      qed
    qed
  qed
qed

lemma ob_commit_inv: "ob_inv ob \<Longrightarrow> ob_inv (ob_commit ob n)"
proof -
  assume inv: "ob_inv ob"
  have le: "min n (ob_count ob) \<le> ob_mask ob + 1" using inv by (simp add: ob_inv_def min.coboundedI2)
  have "ob_head (ob_commit ob n) = (ob_head ob + min n (ob_count ob)) mod (ob_mask ob + 1)"
    using ring_index [OF inv le] by (simp add: ob_commit_def Let_def min_def split: if_splits)
  also have "\<dots> < ob_mask ob + 1" by simp
  finally have "ob_head (ob_commit ob n) < ob_mask ob + 1" .
  moreover have "payloads_ok (ob_commit ob n) (live (ob_commit ob n))"
    using payloads_commit inv by (simp add: live_commit ob_inv_def)
  moreover have "ob_mask (ob_commit ob n) = ob_mask ob" "ob_slots (ob_commit ob n) = ob_slots ob"
    "ob_buf (ob_commit ob n) = ob_buf ob" "ob_buf_cap (ob_commit ob n) = ob_buf_cap ob"
    "ob_buf_head (ob_commit ob n) = ob_buf_head ob" "ob_count (ob_commit ob n) \<le> ob_count ob"
    by (simp_all add: ob_commit_def Let_def)
  ultimately show ?thesis using inv unfolding ob_inv_def by simp
qed

lemma ob_commit_queue: "ob_inv ob \<Longrightarrow> ob_queue (ob_commit ob n) = drop n (ob_queue ob)"
  by (simp add: ob_queue_def live_commit drop_map) (simp add: ob_payload_def ob_commit_def Let_def)

interpretation gate: release_gate ob_inv ob_queue ready ob_commit ob_frozen
proof (unfold_locales, goal_cases)
  case (1 t d)
  then show ?case by (simp add: ready_queue)
next
  case (2 t d)
  then show ?case by (simp add: ready_def)
next
  case (3 t n)
  then show ?case by (rule ob_commit_inv)
next
  case (4 t n)
  then show ?case by (rule ob_commit_queue)
next
  case (5 t n)
  then show ?case by (simp add: ob_commit_def Let_def)
qed

section \<open>Initialisation\<close>

lemma ob_new_inv: "pow2_cap n \<Longrightarrow> b < 2147483648 \<Longrightarrow> ob_inv (ob_new n b) \<and> ob_queue (ob_new n b) = []"
  using pow2_cap_mask(2) [of n] by (simp add: ob_inv_def ob_new_def live_def ob_queue_def payloads_ok_def)

lemma ob_init_ok:
  assumes "ob_init a slots bytes = Some (Some ob, a')" and "slots \<le> 2147483648" and "bytes < 2147483648"
  shows "ob_inv ob" and "ob_queue ob = []" and "slots \<le> ob_mask ob + 1" and "\<not> ob_frozen ob"
proof -
  from grow_cap_returns [OF assms(2), of 4] obtain n
    where n: "grow_cap 16 slots = Some n" "pow2_cap n" "slots \<le> n" by auto
  then have "ob = ob_new n bytes"
    using assms(1) by (auto simp: ob_init_def Let_def split: prod.splits if_splits)
  then show "ob_inv ob" "ob_queue ob = []" "slots \<le> ob_mask ob + 1" "\<not> ob_frozen ob"
    using ob_new_inv [OF n(2) assms(3)] n(3) pow2_cap_mask(2) [OF n(2)] by (simp_all add: ob_new_def)
qed

lemma freeze_inv: "ob_inv (freeze ob) = ob_inv ob" "ob_queue (freeze ob) = ob_queue ob"
  by (simp_all add: freeze_def ob_inv_def ob_queue_def live_def payloads_ok_def ob_entry_def [abs_def]
      ob_payload_def)

lemma length_position_update_bytes: "length (position_update_bytes u) = 32"
  by (simp add: position_update_bytes_def store_i64_def del: store_le.simps)

end
