(* ===== verification/RV_Base_Contracts.thy ===== *)
theory RV_Base_Contracts
  imports RV_Rounding RV_Ids RV_Bytes RV_State_Ops RV_Spsc_Ring RV_Metrics RV_Outbox "HOL-Library.Code_Target_Nat"
begin

text \<open>
  The contracts of the building blocks under \<^verbatim>\<open>src/base\<close>, \<^verbatim>\<open>src/codec\<close>,
  and the outbox, stated once for their clients: fixed-point rounding,
  identifiers and dates, the arena, the two hash tables, the trade state machine, the byte codec, the
  ring, the outbox and the histogram.  Each is a theorem about the definitions of the component's
  theory, followed by an application of it to concrete values.
\<close>

section \<open>Rounding\<close>

text \<open>
  C23: half-even rounding of a product by a positive divisor returns whenever the quotient has one unit
  of room in 64 bits, the result is the nearest integer with ties to even, and no other integer is.
\<close>

theorem mul_div_correct:
  assumes "0 < d" and "\<bar>a * b\<bar> \<le> (i64_max - 1) * d"
  shows "\<exists>q. mul_div HalfEven a b d = Some q \<and> in_i64 q \<and> nearest_even (a * b) d q
           \<and> (\<forall>p. nearest_even (a * b) d p \<longrightarrow> p = q)"
proof -
  obtain q where q: "mul_div HalfEven a b d = Some q" using mul_div_returns(1) [OF assms] by blast
  note spec = mul_div_half_even_spec [OF assms(1) mul_div_returns(2) [OF assms] q]
  with nearest_even_unique [OF assms(1)] q show ?thesis by blast
qed

theorem mul_div_correct_witness:
  "(\<exists>q. mul_div HalfEven 7 5 2 = Some q \<and> nearest_even 35 2 q) \<and> mul_div HalfEven 7 5 2 = Some 18"
  using mul_div_correct [of 2 7 5] by (simp add: i64_bounds) (simp add: mul_div_def Let_def in_i64_def i64_bounds cast_i64_def)

text \<open>
  C24: for a quantity and a price inside the event ranges and a price factor up to 9223372, the notional is
  computed without overflow, correctly rounded at the scale of money, and at most ten to the eighteen. No
  event check bounds the factor of an instrument: above this limit the product of the two divisors no
  longer fits.
\<close>

theorem notional_correct:
  assumes "qty_in_range q" and "price_in_range p" and "pf \<noteq> 0" and "uint pf \<le> 9223372"
  shows "\<exists>m. notional_half_even q p pf = Some m \<and> nearest_even (q * p) (kQtyPriceToMoney * uint pf) m
             \<and> \<bar>m\<bar> \<le> 1000000000000000000"
  using assms by (rule notional_ok)

theorem notional_correct_witness:
  "\<exists>m. notional_half_even 10000000000 2000000000 1 = Some m \<and> nearest_even 20000000000000000000 kQtyPriceToMoney m"
  using notional_correct [of 10000000000 2000000000 1]
  by (simp add: qty_in_range_def price_in_range_def kMaxQtyRaw_def kMaxPriceRaw_def) blast

text \<open>
  Scaling a quantity by a split factor keeps every fraction: the whole part and the leftover add up
  to the truncated product, the whole part is a multiple of one unit, the leftover is less than one
  unit, and both stay non-negative for a non-negative quantity.
\<close>

theorem scale_qty_conserves:
  assumes "num \<noteq> 0" and "den \<noteq> 0" and "in_i64 (q * uint num sdiv uint den)"
  shows "\<exists>w l. scale_qty_trunc q num den = Some (w, l) \<and> w + l = q * uint num sdiv uint den
               \<and> qty_one dvd w \<and> \<bar>l\<bar> < qty_one \<and> (0 \<le> q \<longrightarrow> 0 \<le> w \<and> 0 \<le> l)"
  using assms by (rule scale_qty_trunc_spec)

theorem scale_qty_conserves_witness:
  "\<exists>w l. scale_qty_trunc 1000000000 1 3 = Some (w, l) \<and> w + l = 333333333 \<and> qty_one dvd w"
  using scale_qty_conserves [of 1 3 1000000000] by (simp add: in_i64_def i64_bounds) blast

section \<open>Identifiers\<close>

text \<open>
  A document number below two to the sixty-three survives the tagging of its kind, and the kind can
  be read back.
\<close>

theorem document_kind_roundtrip:
  assumes "d < 9223372036854775808"
  shows "digits_of (cpf d) = d \<and> digits_of (cnpj d) = d \<and> \<not> is_cnpj (cpf d) \<and> is_cnpj (cnpj d)"
  using document_roundtrip [OF assms] by blast

theorem document_kind_roundtrip_witness:
  "digits_of (cnpj 12345678000199) = 12345678000199 \<and> is_cnpj (cnpj 12345678000199)"
  using document_kind_roundtrip [of 12345678000199] by simp

text \<open>
  C34: the conversion of a day number to a civil date and back is the identity over four hundred
  thousand years.
\<close>

theorem civil_date_roundtrip:
  assumes "- 719468 \<le> z" and "z + 719468 < 146097000"
  shows "day_index (from_day_index z) = z"
  using assms by (rule day_index_roundtrip)

theorem civil_date_roundtrip_witness: "day_index (from_day_index 20711) = 20711"
  using civil_date_roundtrip [of 20711] by simp

text \<open>The mixing function that spreads keys over partitions and tables is one-to-one.\<close>

theorem mix64_injective: "inj mix64"
  by (rule injI) (rule mix64_inj)

text \<open>Every document is routed to one of the partitions.\<close>

theorem partition_in_range:
  assumes "is_valid_count n"
  shows "unat (partition_of (partitioner n) doc) < unat n"
  using assms by (rule partition_of_in_range)

theorem partition_in_range_witness: "unat (partition_of (partitioner 8) (cpf 11122233344)) < 8"
  using partition_in_range [of 8 "cpf 11122233344"] by (simp add: is_valid_count_def)

section \<open>Memory\<close>

text \<open>
  C32: a block handed out by the arena is aligned, starts after every block handed out before and ends
  inside the arena; a refused request moves nothing, and a sealed arena hands out nothing.
\<close>

theorem arena_blocks_disjoint:
  assumes "arena_inv a" and "align = 2 ^ k" and "k < 64"
    and "uint (ar_used a) + uint align + uint n < 2 ^ 64"
    and "allocate n align a = (r, a')"
  shows "arena_inv a' \<and> ar_used a \<le> ar_used a'
       \<and> (case r of None \<Rightarrow> ar_used a' = ar_used a
           | Some off \<Rightarrow> \<not> ar_sealed a \<and> uint off mod 2 ^ k = 0
               \<and> uint (ar_used a) \<le> uint off \<and> uint off + uint n = uint (ar_used a')
               \<and> uint (ar_used a') \<le> uint (ar_cap a))"
  using assms by (rule allocate_ok)

theorem arena_blocks_disjoint_witness:
  "arena_inv (snd (allocate 24 8 ((arena_new 4096)\<lparr>ar_used := 5\<rparr>)))
   \<and> fst (allocate 24 8 ((arena_new 4096)\<lparr>ar_used := 5\<rparr>)) = Some 8"
  using arena_blocks_disjoint [of "(arena_new 4096)\<lparr>ar_used := 5\<rparr>" 8 3 24 "Some 8"
      "(arena_new 4096)\<lparr>ar_used := 32, ar_blocks := 1\<rparr>"]
  by (simp add: arena_inv_def arena_new_def allocate_def Let_def)

section \<open>Tables\<close>

text \<open>
  C25: the open-addressing index behaves as a finite map. Looking a key up returns the row of the map;
  insertion returns the row of a known key, refuses a new key exactly when the table is at seventy per
  cent, and otherwise adds the key and changes no other.
\<close>

theorem dense_index_refines_map:
  assumes "di_inv t" and "v \<noteq> kEmpty" and "insert_or_get t k v = (r, b, t')"
  shows "di_inv t' \<and> opt_row (di_find t k) = di_map t k \<and> opt_row (di_find t' k) = di_map t' k
       \<and> (di_map t k = Some r \<and> \<not> b \<and> t' = t
          \<or> di_map t k = None \<and> r = kEmpty \<and> \<not> b \<and> t' = t \<and> load_limit (di_cap t) \<le> di_size t
          \<or> di_map t k = None \<and> r = v \<and> b \<and> di_size t < load_limit (di_cap t)
             \<and> di_map t' = (di_map t)(k \<mapsto> v) \<and> di_size t' = Suc (di_size t))"
  using insert_or_get_cases [OF assms] di_find_map [OF assms(1)] di_find_map [of t'] by blast

theorem dense_index_refines_map_witness:
  "\<exists>t'. insert_or_get (di_new 16) 42 3 = (3, True, t') \<and> di_inv t' \<and> di_map t' = [42 \<mapsto> 3]"
proof -
  have new: "di_inv (di_new 16)" "di_map (di_new 16) = Map.empty"
    using di_new_inv [of 16] pow2_capI [of 4] by simp_all
  have size: "di_size (di_new 16) = 0" "load_limit (di_cap (di_new 16)) = 12"
    by (simp_all add: di_new_def load_limit_def)
  obtain r b t' where ins: "insert_or_get (di_new 16) 42 3 = (r, b, t')" by (cases "insert_or_get (di_new 16) 42 3")
  show ?thesis
    using dense_index_refines_map [OF new(1) _ ins] ins new(2) size by (auto simp: kEmpty_def sentinel32_def)
qed

text \<open>
  C26: the two-generation idempotency set is a bounded set. An insertion is accepted exactly when neither
  generation holds the key and the current one has room, it reports overflow exactly when the key is absent
  and there is no room, it adds the key when accepted and otherwise changes no member; and an accepted key
  is refused as already present when it comes again.
\<close>

theorem two_generations_once:
  assumes "tg_inv s" and "tg_insert s hi lo = (b, cheio, s')"
  shows "tg_inv s' \<and> (b \<longleftrightarrow> (hi, lo) \<notin> pi_members (tg_gen0 s) \<union> pi_members (tg_gen1 s) \<and> tg_room s)
       \<and> (cheio \<longleftrightarrow> (hi, lo) \<notin> pi_members (tg_gen0 s) \<union> pi_members (tg_gen1 s) \<and> \<not> tg_room s)
       \<and> tg_members s' = (if b then insert (hi, lo) (tg_members s) else tg_members s)
       \<and> (b \<longrightarrow> tg_insert s' hi lo = (False, False, s'))"
proof -
  have ins: "tg_insert s (fst (hi, lo)) (snd (hi, lo)) = (b, cheio, s')" using assms(2) by simp
  note res = two_gen.ins_result [OF assms(1) ins, unfolded tg_members_def [of s]]
  have "b \<longrightarrow> tg_insert s' hi lo = (False, False, s')" using two_gen.ins_twice [OF assms(1), of "(hi, lo)" cheio s'] assms(2) by auto
  with res show ?thesis unfolding tg_members_def [of s] by blast
qed

text \<open>
  C27: the idempotency set rotates exactly when it has a rotation date and the window has passed since.
  Without a rotation every key is kept; a rotation keeps exactly the keys of the generation that was
  current and starts an empty one, so the next rotation, due a window later, drops all of them: a key is
  retained for one to two windows. The date of the rotation, or the first date seen, is recorded.
\<close>

theorem rotation_keeps_current:
  assumes "tg_inv s" and "s' = maybe_rotate s d w" and "due \<longleftrightarrow> \<not> date_empty (tg_rotacao s) \<and> w \<le> day_index d - day_index (tg_rotacao s)"
  shows "tg_inv s' \<and> tg_members s' = (if due then pi_members (tg_gen s (tg_atual s)) else tg_members s)
       \<and> tg_rotacao s' = (if due \<or> date_empty (tg_rotacao s) then d else tg_rotacao s)
       \<and> (due \<longrightarrow> pi_members (tg_gen s' (tg_atual s')) = {} \<and> tg_gen s' (1 - tg_atual s') = tg_gen s (tg_atual s)
            \<and> (\<not> date_empty d \<and> w \<le> day_index d2 - day_index d \<longrightarrow> tg_members (maybe_rotate s' d2 w) = {}))"
proof -
  have inv: "tg_inv s'" using maybe_rotate_inv [OF assms(1)] assms(2) by simp
  have fresh: "pi_members (tg_gen s' (tg_atual s')) = {} \<and> tg_gen s' (1 - tg_atual s') = tg_gen s (tg_atual s)" if due
    using that assms pi_clear_inv [of "tg_gen0 s"] pi_clear_inv [of "tg_gen1 s"]
    by (cases "tg_atual s = 0") (auto simp: maybe_rotate_def Let_def tg_inv_def tg_set_gen_def tg_gen_def)
  have date: "tg_rotacao s' = (if due \<or> date_empty (tg_rotacao s) then d else tg_rotacao s)"
    using assms(2,3) by (auto simp: maybe_rotate_def Let_def)
  have "tg_members (maybe_rotate s' d2 w) = {}" if due "\<not> date_empty d" "w \<le> day_index d2 - day_index d"
    using maybe_rotate_members [OF inv, of d2 w] fresh [OF that(1)] date that by auto
  moreover have "tg_members s' = (if due then pi_members (tg_gen s (tg_atual s)) else tg_members s)"
    using maybe_rotate_members [OF assms(1), of d w] assms(2,3) by (auto split: if_splits)
  ultimately show ?thesis using inv fresh date by blast
qed

lemma two_new_sets: "tg_inv \<lparr>tg_gen0 = pi_new 16, tg_gen1 = pi_new 16, tg_atual = 0, tg_rotacao = 0\<rparr>"
  using pi_new_inv [of 16] pow2_capI [of 4] by (simp add: tg_inv_def)

theorem rotation_keeps_current_witness:
  "tg_members (maybe_rotate (maybe_rotate \<lparr>tg_gen0 = pi_new 16, tg_gen1 = pi_new 16, tg_atual = 0, tg_rotacao = 20260101\<rparr> 20260310 60) 20260520 60) = {}"
proof -
  let ?s = "\<lparr>tg_gen0 = pi_new 16, tg_gen1 = pi_new 16, tg_atual = 0, tg_rotacao = 20260101\<rparr>"
  have inv: "tg_inv ?s" using two_new_sets by (simp add: tg_inv_def)
  have "\<not> date_empty (20260101 :: DateYmd)" "\<not> date_empty (20260310 :: DateYmd)"
    "60 \<le> day_index 20260310 - day_index 20260101" "60 \<le> day_index 20260520 - day_index 20260310"
    by code_simp+
  with rotation_keeps_current [OF inv refl, of True 60 20260310 20260520] show ?thesis by simp
qed

theorem two_generations_once_witness:
  "\<exists>c s'. tg_insert \<lparr>tg_gen0 = pi_new 16, tg_gen1 = pi_new 16, tg_atual = 0, tg_rotacao = 0\<rparr> 9 0 = (True, c, s')
        \<and> tg_insert s' 9 0 = (False, False, s')"
proof -
  let ?s = "\<lparr>tg_gen0 = pi_new 16, tg_gen1 = pi_new 16, tg_atual = 0, tg_rotacao = 0\<rparr>"
  have "fst (tg_insert ?s 9 0)" by code_simp
  then obtain c s' where ins: "tg_insert ?s 9 0 = (True, c, s')" by (cases "tg_insert ?s 9 0") auto
  from two_generations_once [OF two_new_sets ins] ins show ?thesis by blast
qed

section \<open>The life of a trade\<close>

text \<open>
  C31: the transition table accepts exactly the life cycles of a trade, written out: execution, allocation
  and netting in this order, then any number of failed deliveries each repaired by a buy-in, then the trade
  is netted, settled, or failed, and a settled or a failed trade may be closed. In particular a failed
  delivery never settles without a buy-in, and nothing follows a closed trade.
\<close>

theorem trade_life_cycle:
  "(run_triggers TsNone gs = Some s \<longleftrightarrow> trade_life gs s) \<and> (trade_run gs s \<longleftrightarrow> trade_life gs s)"
  using trade_run_iff trade_life_run run_trade_life by blast

section \<open>Bytes\<close>

text \<open>
  C33: integers survive the little-endian encoding, unsigned of any width and signed of 64 bits, and
  decoding then encoding gives the bytes back.
\<close>

theorem bytes_roundtrip:
  assumes "v < 256 ^ n" and "in_i64 w" and "length bs = n"
  shows "load_le n (store_le n v @ rest) = v \<and> load_i64 (store_i64 w @ rest) = w \<and> store_le n (load_le n bs) = bs"
  using load_store_le [OF assms(1)] load_store_i64 [OF assms(2)] store_load_le [OF assms(3)] by blast

theorem bytes_roundtrip_witness:
  "load_le 2 (store_le 2 4660 @ [7]) = 4660 \<and> load_i64 (store_i64 (- 5) @ [7]) = - 5 \<and> store_le 2 (load_le 2 [1, 2]) = [1, 2]"
  using bytes_roundtrip [of 4660 2 "- 5" "[1, 2]" "[7]"] by (simp add: in_i64_def i64_bounds)

text \<open>
  A repeating group is only read when all of it lies inside the payload: at most the allowed number
  of entries, each of the declared size.
\<close>

theorem group_within_payload:
  assumes "view_group sz al mx b = Inr es"
  shows "length es \<le> mx \<and> list_all (\<lambda>x. length x = sz) es \<and> 8 + length es * sz \<le> length (bs_bytes b)"
  using view_group_Inr [OF assms] by (simp add: list_all_iff)

definition group_bytes_example :: ByteSpan where
  "group_bytes_example = \<lparr>bs_addr = 16, bs_bytes = store_le 2 4 @ store_le 2 2 @ store_le 4 0 @ [1, 2, 3, 4, 5, 6, 7, 8]\<rparr>"

theorem group_within_payload_witness: "8 + 2 * 4 \<le> length (bs_bytes group_bytes_example)"
proof -
  have "view_group 4 4 8 group_bytes_example = Inr [[1, 2, 3, 4], [5, 6, 7, 8]]" by code_simp
  from group_within_payload [OF this] show ?thesis by simp
qed

section \<open>Queues\<close>

text \<open>
  C30: the single-producer ring is a bounded queue. A claim is refused exactly when the ring is full;
  writing the claimed slot disturbs no queued element, and publishing appends it.
\<close>

theorem ring_produce_appends:
  assumes "rg_inv t" and "rg_claim t = (r, t')" and "unat (rg_head t) + 1 < 2 ^ 64"
  shows "rg_inv t' \<and> rg_items t' = rg_items t
       \<and> (case r of
            None \<Rightarrow> length (rg_items t) = length (rg_slots t)
          | Some i \<Rightarrow> length (rg_items t) < length (rg_slots t) \<and> rg_items (rg_write t' i x) = rg_items t
              \<and> rg_inv (rg_publish (rg_write t' i x)) \<and> rg_items (rg_publish (rg_write t' i x)) = rg_items t @ [x])"
proof -
  note c = rg_claim_spec [OF assms(1,2)]
  have le: "length (rg_items t) \<le> length (rg_slots t)" using assms(1) by (auto simp: length_rg_items rg_inv_def)
  show ?thesis
  proof (cases r)
    case None
    with c show ?thesis by (auto split: if_splits)
  next
    case (Some i)
    then have "length (rg_items t) \<noteq> length (rg_slots t)" and i: "i = unat (rg_head t') mod length (rg_slots t')"
      using c by (auto split: if_splits)
    moreover have "unat (rg_head t') < unat (rg_tail_cache t') + length (rg_slots t')" using c(7) Some by simp
    ultimately show ?thesis
      using rg_produce [OF c(1) _ _ i, of x] c(1-4) Some le assms(3) by simp
  qed
qed

text \<open>
  Draining the ring takes the elements in the order they went in, as many as asked for or as there
  are, and leaves the rest.
\<close>

theorem ring_drain_fifo:
  assumes "rg_inv t" and "ring.drain n t = (xs, t')"
  shows "xs = take n (rg_items t) \<and> rg_items t' = drop n (rg_items t) \<and> rg_inv t'"
  using ring.drain_take [OF assms] .

definition ring_example :: "nat SpscRing" where
  "ring_example = \<lparr>rg_head = 3, rg_tail = 1, rg_tail_cache = 1, rg_head_cache = 3, rg_slots = [10, 20, 30, 40]\<rparr>"

lemma ring_example_inv: "rg_inv ring_example" "rg_items ring_example = [20, 30]"
proof -
  show "rg_inv ring_example" unfolding rg_inv_def ring_example_def by (intro conjI exI [of _ 2]) simp_all
  show "rg_items ring_example = [20, 30]" by code_simp
qed

theorem ring_produce_appends_witness: "rg_items (rg_publish (rg_write ring_example 3 99)) = [20, 30, 99]"
proof -
  have "rg_claim ring_example = (Some 3, ring_example)" by code_simp
  from ring_produce_appends [OF ring_example_inv(1) this, of 99] show ?thesis
    by (simp add: ring_example_inv(2)) (simp add: ring_example_def)
qed

theorem ring_drain_fifo_witness: "fst (ring.drain 5 ring_example) = [20, 30]"
  using ring_drain_fifo [OF ring_example_inv(1), of 5] ring_example_inv(2) by (cases "ring.drain 5 ring_example") auto

text \<open>
  C28: an output that fits is staged after everything pending, with its payload intact, and no pending
  payload is overwritten.
\<close>

theorem stage_appends:
  assumes "ob_inv ob" and "has_room ob 4 256" and "0 < length p" and "length p < 256"
  shows "\<exists>ob'. stage ob lsn kind p = (kOk, ob') \<and> ob_inv ob' \<and> ob_queue ob' = ob_queue ob @ [(lsn, kind, p)]
           \<and> ob_frozen ob' = ob_frozen ob"
  using stage_ok [OF assms(1) has_room_strict [OF assms(1,2)] assms(3)] assms(4) by fastforce

text \<open>
  C29: the outbox releases a prefix of what was staged, only entries whose log position is durable, stops
  at the first that is not, and releases nothing at all once frozen.
\<close>

theorem outbox_releases_durable:
  assumes "ob_inv ob" and "n = ready ob d"
  shows "ob_inv (ob_commit ob n) \<and> take n (ob_queue ob) @ ob_queue (ob_commit ob n) = ob_queue ob
       \<and> list_all (\<lambda>x. fst x \<le> d) (take n (ob_queue ob))
       \<and> (if ob_frozen ob then n = 0
          else \<forall>x xs. ob_queue (ob_commit ob n) = x # xs \<longrightarrow> \<not> fst x \<le> d)"
  using gate.released_durable [OF assms(1), of _ d] gate.release_split [OF assms(1), of d]
    gate.release_maximal [OF assms(1), of d] gate.drp_inv [OF assms(1)] gate.rdy_closed [of ob d] assms(2)
  by (auto simp: gate.released_def list_all_iff)

lemma outbox_example: "ob_inv (ob_new 16 1024)" "has_room (ob_new 16 1024) 4 256" "ob_queue (ob_new 16 1024) = []"
  using ob_new_inv [of 16 1024] pow2_capI [of 4] by (simp_all add: has_room_def ob_new_def u32_add_def)

theorem stage_appends_witness:
  "\<exists>ob'. stage (ob_new 16 1024) 5 ReadModelUpdate [1, 2, 3] = (kOk, ob') \<and> ob_queue ob' = [(5, ReadModelUpdate, [1, 2, 3])]"
  using stage_appends [OF outbox_example(1,2), of "[1, 2, 3]" 5 ReadModelUpdate] outbox_example(3) by auto

theorem outbox_releases_durable_witness:
  "\<exists>ob. stage (ob_new 16 1024) 5 ReadModelUpdate [1, 2, 3] = (kOk, ob) \<and> ob_inv (ob_commit ob (ready ob 5))
      \<and> take (ready ob 5) (ob_queue ob) @ ob_queue (ob_commit ob (ready ob 5)) = [(5, ReadModelUpdate, [1, 2, 3])]"
proof -
  obtain ob where ob: "stage (ob_new 16 1024) 5 ReadModelUpdate [1, 2, 3] = (kOk, ob)" "ob_inv ob"
    "ob_queue ob = [(5, ReadModelUpdate, [1, 2, 3])]"
    using stage_ok [OF outbox_example(1) has_room_strict [OF outbox_example(1,2)], of "[1, 2, 3]" 5 ReadModelUpdate]
      outbox_example(3) by auto
  from outbox_releases_durable [OF ob(2) refl, of 5] ob show ?thesis by auto
qed

section \<open>Metrics\<close>

text \<open>
  C35: a latency below two to the forty-five is counted in exactly one bucket of the histogram, the one
  whose range holds it, and no other bucket changes; the lower end of that range is at most one part in
  sixty-four below the latency, and the bucket counts always add up to the number of samples.
\<close>

theorem histogram_error_bound:
  assumes "v < 2 ^ 45" and "hg_inv h"
  shows "(\<forall>i<kBuckets. hg_buckets (hg_record h v) ! i = hg_buckets h ! i + (if value_of i \<le> v \<and> v < value_of (Suc i) then 1 else 0))
       \<and> index_of v < kBuckets \<and> value_of (index_of v) \<le> v \<and> 64 * (v - value_of (index_of v)) \<le> v \<and> hg_inv (hg_record h v)
       \<and> hg_count (hg_record h v) = hg_count h + 1"
proof -
  have "hg_buckets (hg_record h v) ! i = hg_buckets h ! i + (if index_of v = i then 1 else 0)" if "i < kBuckets" for i
    using that assms(2) by (auto simp: hg_record_def hg_inv_def nth_list_update)
  then show ?thesis
    using index_value_bound [OF assms(1)] hg_record_inv [OF assms(2)] index_of_less [of v] unfolding index_of_iff [OF assms(1)]
    by (simp add: hg_record_def)
qed

theorem histogram_error_bound_witness:
  "hg_buckets (hg_record hg_new 1000000) ! index_of 1000000 = 1 \<and> value_of (index_of 1000000) \<le> 1000000
   \<and> hg_count (hg_record hg_new 1000000) = 1"
proof -
  have "hg_inv hg_new" by (simp add: hg_inv_def hg_new_def sum_list_replicate)
  note b = histogram_error_bound [of 1000000, OF _ this]
  have "hg_buckets (hg_record hg_new 1000000) ! index_of 1000000 = hg_buckets hg_new ! index_of 1000000 + 1"
    using b index_of_iff [of 1000000 "index_of 1000000"] by simp
  with b show ?thesis by (simp add: hg_new_def)
qed

end
