(* ===== verification/RV_Events.thy ===== *)
theory RV_Events
  imports RV_Bytes RV_Ids RV_Fixed
begin

text \<open>
  The ten events of the log, as \<^verbatim>\<open>schema/events.xml\<close> declares them (one record per message,
  fields in the declared order, padding left out), the view of an event that \<^verbatim>\<open>apply\<close> receives
  (\<^verbatim>\<open>src/core/apply.hpp\<close>), and \<^verbatim>\<open>decode\<close> of \<^verbatim>\<open>src/core/apply.cpp\<close>.

  The structs themselves are generated at build time, so reading one from its bytes is a parameter
  of the model: the record \<open>Codec\<close> of readers.  What the proofs need of it is stated by
  \<open>codec_ranges\<close>: an \<^verbatim>\<open>int64\<close> field reads as a value of that type.  \<open>sbe_codec\<close> is the layout
  the schema declares, used to instantiate the parameter on concrete bytes.
\<close>

section \<open>Events\<close>

record DayOpened =
  dop_business_date :: u32
  dop_prev_business_date :: u32
  dop_settle_d1 :: u32
  dop_settle_d2 :: u32
  dop_schema_version :: u16
  dop_partition_id :: u16

record TradeExecuted =
  tex_trade_id :: u64
  tex_broker_note_id :: u64
  tex_account :: u64
  tex_qty :: i64
  tex_price :: i64
  tex_brokerage_fee :: i64
  tex_exchange_fee :: i64
  tex_clearing_fee :: i64
  tex_taxes :: i64
  tex_instrument :: u32
  tex_settlement_date :: u32
  tex_flags :: u16
  tex_side :: u8
  tex_market :: u8

record TradeAllocated =
  tal_allocation_id :: u64
  tal_trade_id :: u64
  tal_from_account :: u64
  tal_to_account :: u64
  tal_qty :: i64
  tal_cash_amount :: i64
  tal_instrument :: u32
  tal_settlement_date :: u32
  tal_side :: u8

record BatchNetted =
  bnt_batch_id :: u64
  bnt_account :: u64
  bnt_net_amount :: i64
  bnt_settlement_date :: u32
  bnt_trade_count :: u32

record TradeSettled =
  tst_batch_id :: u64
  tst_account :: u64
  tst_qty :: i64
  tst_cash_amount :: i64
  tst_cost_basis :: i64
  tst_instrument :: u32
  tst_settlement_date :: u32
  tst_side :: u8
  tst_outcome :: u8

record CorporateActionApplied =
  cac_action_id :: u64
  cac_account :: u64
  cac_qty_delta :: i64
  cac_leftover_delta :: i64
  cac_cash_delta :: i64
  cac_withheld_tax :: i64
  cac_unit_cost :: i64
  cac_instrument :: u32
  cac_result_instrument :: u32
  cac_ex_date :: u32
  cac_com_date :: u32
  cac_factor_num :: u32
  cac_factor_den :: u32
  cac_type :: u8
  cac_flags :: u8

record DividendPaid =
  dvp_action_id :: u64
  dvp_account :: u64
  dvp_qty_basis :: i64
  dvp_rate_per_share :: i64
  dvp_gross_amount :: i64
  dvp_withheld_tax :: i64
  dvp_net_amount :: i64
  dvp_instrument :: u32
  dvp_ex_date :: u32
  dvp_payment_date :: u32
  dvp_kind :: u8
  dvp_stage :: u8

record ClosingPriceSet =
  cps_closing_price :: i64
  cps_previous_close :: i64
  cps_instrument :: u32
  cps_date :: u32
  cps_price_factor :: u32
  cps_lot_size :: u32
  cps_symbol :: "u8 list"
  cps_isin :: "u8 list"
  cps_type :: u8
  cps_status :: u8

record CustodyReconciled =
  crd_date :: u32
  crd_chunk_index :: u32
  crd_chunk_count :: u32
  crd_flags :: u8

record CustodyReconciledDivergence =
  dvg_account :: u64
  dvg_qty_delta :: i64
  dvg_instrument :: u32

record EodMarked =
  eod_custody_checksum :: u64
  eod_cash_checksum :: u64
  eod_date :: u32
  eod_instrument_count :: u32
  eod_account_count :: u32
  eod_flags :: u32

section \<open>Enumerations of the schema\<close>

definition Side_Buy :: u8 where "Side_Buy = 1"

definition SettleOutcome_Settled :: u8 where "SettleOutcome_Settled = 1"

definition SettleOutcome_DeliveryFailure :: u8 where "SettleOutcome_DeliveryFailure = 2"

definition SettleOutcome_BoughtIn :: u8 where "SettleOutcome_BoughtIn = 3"

definition ActionType_Bonus :: u8 where "ActionType_Bonus = 1"

definition ActionType_Split :: u8 where "ActionType_Split = 2"

definition ActionType_ReverseSplit :: u8 where "ActionType_ReverseSplit = 3"

definition ActionType_Subscription :: u8 where "ActionType_Subscription = 4"

definition ActionType_LeftoversAuction :: u8 where "ActionType_LeftoversAuction = 5"

definition IncomeStage_Accrued :: u8 where "IncomeStage_Accrued = 1"

lemmas enum_defs = Side_Buy_def SettleOutcome_Settled_def SettleOutcome_DeliveryFailure_def
  SettleOutcome_BoughtIn_def ActionType_Bonus_def ActionType_Split_def ActionType_ReverseSplit_def
  ActionType_Subscription_def ActionType_LeftoversAuction_def IncomeStage_Accrued_def

definition kMaxCustodyReconciledDivergence :: nat where
  "kMaxCustodyReconciledDivergence = 16"

section \<open>The codec\<close>

record Codec =
  rd_dop :: "u8 list \<Rightarrow> DayOpened"
  rd_tex :: "u8 list \<Rightarrow> TradeExecuted"
  rd_tal :: "u8 list \<Rightarrow> TradeAllocated"
  rd_bnt :: "u8 list \<Rightarrow> BatchNetted"
  rd_tst :: "u8 list \<Rightarrow> TradeSettled"
  rd_cac :: "u8 list \<Rightarrow> CorporateActionApplied"
  rd_dvp :: "u8 list \<Rightarrow> DividendPaid"
  rd_cps :: "u8 list \<Rightarrow> ClosingPriceSet"
  rd_crd :: "u8 list \<Rightarrow> CustodyReconciled"
  rd_dvg :: "u8 list \<Rightarrow> CustodyReconciledDivergence"
  rd_eod :: "u8 list \<Rightarrow> EodMarked"

definition codec_ranges :: "Codec \<Rightarrow> bool" where
  "codec_ranges cd \<longleftrightarrow> (\<forall>bs.
     in_i64 (tex_qty (rd_tex cd bs))
     \<and> in_i64 (tex_price (rd_tex cd bs))
     \<and> in_i64 (tex_brokerage_fee (rd_tex cd bs))
     \<and> in_i64 (tex_exchange_fee (rd_tex cd bs))
     \<and> in_i64 (tex_clearing_fee (rd_tex cd bs))
     \<and> in_i64 (tex_taxes (rd_tex cd bs))
     \<and> in_i64 (tal_qty (rd_tal cd bs))
     \<and> in_i64 (tal_cash_amount (rd_tal cd bs))
     \<and> in_i64 (bnt_net_amount (rd_bnt cd bs))
     \<and> in_i64 (tst_qty (rd_tst cd bs))
     \<and> in_i64 (tst_cash_amount (rd_tst cd bs))
     \<and> in_i64 (tst_cost_basis (rd_tst cd bs))
     \<and> in_i64 (cac_qty_delta (rd_cac cd bs))
     \<and> in_i64 (cac_leftover_delta (rd_cac cd bs))
     \<and> in_i64 (cac_cash_delta (rd_cac cd bs))
     \<and> in_i64 (cac_withheld_tax (rd_cac cd bs))
     \<and> in_i64 (cac_unit_cost (rd_cac cd bs))
     \<and> in_i64 (dvp_qty_basis (rd_dvp cd bs))
     \<and> in_i64 (dvp_rate_per_share (rd_dvp cd bs))
     \<and> in_i64 (dvp_gross_amount (rd_dvp cd bs))
     \<and> in_i64 (dvp_withheld_tax (rd_dvp cd bs))
     \<and> in_i64 (dvp_net_amount (rd_dvp cd bs))
     \<and> in_i64 (cps_closing_price (rd_cps cd bs))
     \<and> in_i64 (cps_previous_close (rd_cps cd bs))
     \<and> in_i64 (dvg_qty_delta (rd_dvg cd bs)))"

text \<open>The layout the schema declares: little-endian fields in order, at consecutive offsets.\<close>

definition get_u64 :: "u8 list \<Rightarrow> nat \<Rightarrow> u64" where "get_u64 bs off = of_nat (load_le 8 (drop off bs))"

definition get_u32 :: "u8 list \<Rightarrow> nat \<Rightarrow> u32" where "get_u32 bs off = of_nat (load_le 4 (drop off bs))"

definition get_u16 :: "u8 list \<Rightarrow> nat \<Rightarrow> u16" where "get_u16 bs off = of_nat (load_le 2 (drop off bs))"

definition get_u8 :: "u8 list \<Rightarrow> nat \<Rightarrow> u8" where "get_u8 bs off = of_nat (load_le 1 (drop off bs))"

definition get_i64 :: "u8 list \<Rightarrow> nat \<Rightarrow> i64" where "get_i64 bs off = load_i64 (drop off bs)"

definition sbe_codec :: Codec where
  "sbe_codec = \<lparr>
     rd_dop = (\<lambda>bs. \<lparr>dop_business_date = get_u32 bs 0, dop_prev_business_date = get_u32 bs 4,
        dop_settle_d1 = get_u32 bs 8, dop_settle_d2 = get_u32 bs 12,
        dop_schema_version = get_u16 bs 16, dop_partition_id = get_u16 bs 18\<rparr>),
     rd_tex = (\<lambda>bs. \<lparr>tex_trade_id = get_u64 bs 0, tex_broker_note_id = get_u64 bs 8,
        tex_account = get_u64 bs 16, tex_qty = get_i64 bs 24, tex_price = get_i64 bs 32,
        tex_brokerage_fee = get_i64 bs 40, tex_exchange_fee = get_i64 bs 48,
        tex_clearing_fee = get_i64 bs 56, tex_taxes = get_i64 bs 64,
        tex_instrument = get_u32 bs 72, tex_settlement_date = get_u32 bs 76,
        tex_flags = get_u16 bs 80, tex_side = get_u8 bs 82, tex_market = get_u8 bs 83\<rparr>),
     rd_tal = (\<lambda>bs. \<lparr>tal_allocation_id = get_u64 bs 0, tal_trade_id = get_u64 bs 8,
        tal_from_account = get_u64 bs 16, tal_to_account = get_u64 bs 24,
        tal_qty = get_i64 bs 32, tal_cash_amount = get_i64 bs 40,
        tal_instrument = get_u32 bs 48, tal_settlement_date = get_u32 bs 52,
        tal_side = get_u8 bs 56\<rparr>),
     rd_bnt = (\<lambda>bs. \<lparr>bnt_batch_id = get_u64 bs 0, bnt_account = get_u64 bs 8,
        bnt_net_amount = get_i64 bs 16, bnt_settlement_date = get_u32 bs 24,
        bnt_trade_count = get_u32 bs 28\<rparr>),
     rd_tst = (\<lambda>bs. \<lparr>tst_batch_id = get_u64 bs 0, tst_account = get_u64 bs 8, tst_qty = get_i64 bs 16,
        tst_cash_amount = get_i64 bs 24, tst_cost_basis = get_i64 bs 32,
        tst_instrument = get_u32 bs 40, tst_settlement_date = get_u32 bs 44,
        tst_side = get_u8 bs 48, tst_outcome = get_u8 bs 49\<rparr>),
     rd_cac = (\<lambda>bs. \<lparr>cac_action_id = get_u64 bs 0, cac_account = get_u64 bs 8,
        cac_qty_delta = get_i64 bs 16, cac_leftover_delta = get_i64 bs 24,
        cac_cash_delta = get_i64 bs 32, cac_withheld_tax = get_i64 bs 40,
        cac_unit_cost = get_i64 bs 48, cac_instrument = get_u32 bs 56,
        cac_result_instrument = get_u32 bs 60, cac_ex_date = get_u32 bs 64,
        cac_com_date = get_u32 bs 68, cac_factor_num = get_u32 bs 72,
        cac_factor_den = get_u32 bs 76, cac_type = get_u8 bs 80,
        cac_flags = get_u8 bs 81\<rparr>),
     rd_dvp = (\<lambda>bs. \<lparr>dvp_action_id = get_u64 bs 0, dvp_account = get_u64 bs 8,
        dvp_qty_basis = get_i64 bs 16, dvp_rate_per_share = get_i64 bs 24,
        dvp_gross_amount = get_i64 bs 32, dvp_withheld_tax = get_i64 bs 40,
        dvp_net_amount = get_i64 bs 48, dvp_instrument = get_u32 bs 56,
        dvp_ex_date = get_u32 bs 60, dvp_payment_date = get_u32 bs 64,
        dvp_kind = get_u8 bs 68, dvp_stage = get_u8 bs 69\<rparr>),
     rd_cps = (\<lambda>bs. \<lparr>cps_closing_price = get_i64 bs 0, cps_previous_close = get_i64 bs 8,
        cps_instrument = get_u32 bs 16, cps_date = get_u32 bs 20,
        cps_price_factor = get_u32 bs 24, cps_lot_size = get_u32 bs 28,
        cps_symbol = take 12 (drop 32 bs), cps_isin = take 12 (drop 44 bs),
        cps_type = get_u8 bs 56, cps_status = get_u8 bs 57\<rparr>),
     rd_crd = (\<lambda>bs. \<lparr>crd_date = get_u32 bs 0, crd_chunk_index = get_u32 bs 4,
        crd_chunk_count = get_u32 bs 8, crd_flags = get_u8 bs 12\<rparr>),
     rd_dvg = (\<lambda>bs. \<lparr>dvg_account = get_u64 bs 0, dvg_qty_delta = get_i64 bs 8,
        dvg_instrument = get_u32 bs 16\<rparr>),
     rd_eod = (\<lambda>bs. \<lparr>eod_custody_checksum = get_u64 bs 0, eod_cash_checksum = get_u64 bs 8,
        eod_date = get_u32 bs 16, eod_instrument_count = get_u32 bs 20,
        eod_account_count = get_u32 bs 24, eod_flags = get_u32 bs 28\<rparr>)\<rparr>"

lemma sbe_codec_ranges: "codec_ranges sbe_codec"
  by (simp add: codec_ranges_def sbe_codec_def get_i64_def load_i64_def cast_i64_range)

section \<open>Event views\<close>

text \<open>
  \<^verbatim>\<open>payload\<close> points into the commit buffer of the log: its address and the bytes from there on.
\<close>

record EventView =
  ev_lsn :: Lsn
  ev_ts_ns :: u64
  ev_payload :: ByteSpan
  ev_tmpl :: u16
  ev_len :: nat

definition ev_span :: "EventView \<Rightarrow> ByteSpan" where
  "ev_span ev = \<lparr>bs_addr = bs_addr (ev_payload ev), bs_bytes = take (ev_len ev) (bs_bytes (ev_payload ev))\<rparr>"

text \<open>\<^verbatim>\<open>decode<T>\<close> for a message of block length \<open>blk\<close>; every generated struct is aligned to 8.\<close>

definition decode :: "nat \<Rightarrow> EventView \<Rightarrow> u8 list Result" where
  "decode blk ev =
     (if ev_len ev < blk then Inl (fail ShortPayload (of_nat (ev_len ev)))
      else view_bytes blk 8 (ev_span ev))"

lemma decode_error: "decode blk ev = Inl st \<Longrightarrow> code st = ShortPayload \<or> code st = Misaligned"
  by (auto simp: decode_def view_bytes_def split: if_splits)

lemma decode_ok: "decode blk ev = Inr bs \<Longrightarrow> length bs = blk \<and> bs = take blk (bs_bytes (ev_payload ev))"
  by (auto simp: decode_def view_bytes_def ev_span_def min_def split: if_splits)

end
