(* ===== verification/RV_Apply_Base.thy ===== *)
theory RV_Apply_Base
  imports RV_State_Ops RV_Outbox RV_Rounding RV_Events
begin

text \<open>
  What the ten event handlers of \<^verbatim>\<open>src/core/apply.cpp\<close> share: the context and the classes of
  result (\<^verbatim>\<open>src/core/apply.hpp\<close>), the publication of a position, the unlinking of a trade, the
  sum of the fees, the in-place updates of a column and the check of an invariant.

  A handler maps a state and a context to \<open>Some (status, state, context)\<close>, or to \<open>None\<close> when the
  call does not return: an exact operation overflowed and the process aborted, a checked invariant
  failed in a build with assertions, or a list walk never ends.  The flag \<open>dbg\<close> is
  \<^verbatim>\<open>MOTOR_RV_INVARIANT_ASSERTS\<close>.
\<close>

section \<open>Context and result\<close>

record ApplyContext =
  cx_outbox :: "Outbox option"
  cx_metrics :: "Metrics option"

type_synonym HandlerResult = "(Status \<times> PartitionState \<times> ApplyContext) option"

datatype ApplyClass = Accepted | Rejected | Fatal

definition classify :: "Status \<Rightarrow> ApplyClass" where
  "classify st = (if is_ok st then Accepted else if status_is_fatal st then Fatal else Rejected)"

definition ret :: "Status \<Rightarrow> PartitionState \<Rightarrow> ApplyContext \<Rightarrow> HandlerResult" where
  "ret st s ctx = Some (st, s, ctx)"

text \<open>\<^verbatim>\<open>RV_CHECK(I3, ...)\<close> in front of the rest of the handler.\<close>

definition rv_check :: "bool \<Rightarrow> bool \<Rightarrow> PartitionState \<Rightarrow> ApplyContext \<Rightarrow> HandlerResult \<Rightarrow> HandlerResult" where
  "rv_check dbg cond s ctx rest =
     (if cond then rest else if dbg then None else ret (fail StateCorrupt 0) s ctx)"

section \<open>Column updates\<close>

text \<open>\<^verbatim>\<open>col[i] += d\<close> and \<^verbatim>\<open>col[i] -= d\<close> on fixed-point values: they abort on overflow.\<close>

definition add_at :: "i64 list \<Rightarrow> nat \<Rightarrow> i64 \<Rightarrow> i64 list option" where
  "add_at col i d = do { v \<leftarrow> fx_add (col ! i) d; Some (col[i := v]) }"

definition sub_at :: "i64 list \<Rightarrow> nat \<Rightarrow> i64 \<Rightarrow> i64 list option" where
  "sub_at col i d = do { v \<leftarrow> fx_sub (col ! i) d; Some (col[i := v]) }"

lemma add_at_Some [fx_simps]: "add_at col i d = Some c \<longleftrightarrow> in_i64 (col ! i + d) \<and> c = col[i := col ! i + d]"
  by (auto simp: add_at_def fx_simps bind_eq_Some_conv)

lemma sub_at_Some [fx_simps]: "sub_at col i d = Some c \<longleftrightarrow> in_i64 (col ! i - d) \<and> c = col[i := col ! i - d]"
  by (auto simp: sub_at_def fx_simps bind_eq_Some_conv)

section \<open>Helpers of the handlers\<close>

definition publica_posicao :: "PartitionState \<Rightarrow> ApplyContext \<Rightarrow> EventView \<Rightarrow> nat \<Rightarrow> Status \<times> ApplyContext" where
  "publica_posicao s ctx ev pos =
     (case cx_outbox ctx of
        None \<Rightarrow> (kOk, ctx)
      | Some ob \<Rightarrow>
          let c = custody s;
              u = \<lparr>pu_document = account_document s ! (cu_account c ! pos),
                   pu_available_raw = available c ! pos, pu_avg_price_raw = avg_price c ! pos,
                   pu_instrument = external_id (instruments s) ! (cu_instrument c ! pos),
                   pu_reserved = 0\<rparr>;
              (st, ob') = stage ob (ev_lsn ev) ReadModelUpdate (position_update_bytes u)
          in (if is_ok st then kOk else fail ArenaExhausted (of_nat pos), ctx\<lparr>cx_outbox := Some ob'\<rparr>))"

definition publish_ret :: "PartitionState \<Rightarrow> ApplyContext \<Rightarrow> EventView \<Rightarrow> nat \<Rightarrow> HandlerResult" where
  "publish_ret s ctx ev pos = (case publica_posicao s ctx ev pos of (st, ctx') \<Rightarrow> ret st s ctx')"

text \<open>
  The \<^verbatim>\<open>while\<close> of \<^verbatim>\<open>unlink_trade\<close>.  The links do not change while it searches, so a walk of more
  steps than the table has rows has met a row twice and never ends: the fuel is exact.
\<close>

primrec unlink_loop :: "nat \<Rightarrow> nat list \<Rightarrow> nat \<Rightarrow> nat \<Rightarrow> (bool \<times> nat list) option" where
  "unlink_loop 0 nxt atual t = None"
| "unlink_loop (Suc fuel) nxt atual t =
     (if nxt ! atual = kNil then Some (False, nxt)
      else if nxt ! atual = t then Some (True, nxt[atual := nxt ! t])
      else unlink_loop fuel nxt (nxt ! atual) t)"

definition unlink_trade :: "PartitionState \<Rightarrow> nat \<Rightarrow> nat \<Rightarrow> (bool \<times> PartitionState) option" where
  "unlink_trade s conta t =
     (let atual = account_first_trade s ! conta; nxt = next_of_account (trades s) in
      if atual = kNil then Some (False, s)
      else if atual = t then
        Some (True, s\<lparr>account_first_trade := (account_first_trade s)[conta := nxt ! t]\<rparr>)
      else do {
        (b, nxt') \<leftarrow> unlink_loop (tr_capacity (trades s) + 1) nxt atual t;
        Some (b, s\<lparr>trades := (trades s)\<lparr>next_of_account := nxt'\<rparr>\<rparr>)
      })"

primrec fees_loop :: "Money \<Rightarrow> i64 list \<Rightarrow> Money option" where
  "fees_loop tot [] = Some tot"
| "fees_loop tot (parcela # ps) =
     (case checked_add tot parcela tot of (ok, tot') \<Rightarrow> if ok then fees_loop tot' ps else None)"

text \<open>\<open>None\<close>: the sum does not fit and \<^verbatim>\<open>fees_of\<close> returned false.\<close>

definition fees_of :: "TradeExecuted \<Rightarrow> Money option" where
  "fees_of e = fees_loop 0 [tex_brokerage_fee e, tex_exchange_fee e, tex_clearing_fee e, tex_taxes e]"

definition avg_price_base :: "PartitionState \<Rightarrow> nat \<Rightarrow> Qty option" where
  "avg_price_base s pos = custody_today (custody s) pos"

section \<open>Lemmas on the helpers\<close>

lemma classify_simps [simp]:
  "classify kOk = Accepted" "classify (fail ArenaExhausted d) = Fatal" "classify (fail StateCorrupt d) = Fatal"
  by (simp_all add: classify_def is_ok_def status_is_fatal_def is_fatal_def)

lemma rv_check_true [simp]: "rv_check dbg True s ctx rest = rest"
  by (simp add: rv_check_def)

text \<open>A result whose state or context the helper must have returned unchanged.\<close>

lemma publica_posicao_replay: "cx_outbox ctx = None \<Longrightarrow> publica_posicao s ctx ev pos = (kOk, ctx)"
  by (simp add: publica_posicao_def)

lemma publica_posicao_fatal:
  "publica_posicao s ctx ev pos = (st, ctx') \<Longrightarrow> st = kOk \<or> st = fail ArenaExhausted (of_nat pos)"
  by (auto simp: publica_posicao_def Let_def split: option.splits prod.splits if_splits)

text \<open>With room for one more output the publication succeeds and appends exactly one entry.\<close>

lemma publica_posicao_ok:
  assumes "cx_outbox ctx = Some ob" and "ob_inv ob" and "strict_room ob 32"
  shows "\<exists>ob' p. publica_posicao s ctx ev pos = (kOk, ctx\<lparr>cx_outbox := Some ob'\<rparr>) \<and> ob_inv ob'
           \<and> ob_queue ob' = ob_queue ob @ [(ev_lsn ev, ReadModelUpdate, p)] \<and> ob_frozen ob' = ob_frozen ob"
proof -
  define u where "u = \<lparr>pu_document = account_document s ! (cu_account (custody s) ! pos),
                   pu_available_raw = available (custody s) ! pos, pu_avg_price_raw = avg_price (custody s) ! pos,
                   pu_instrument = external_id (instruments s) ! (cu_instrument (custody s) ! pos),
                   pu_reserved = 0\<rparr>"
  have len: "length (position_update_bytes u) = 32" by (rule length_position_update_bytes)
  from stage_ok [of ob "position_update_bytes u" "ev_lsn ev" ReadModelUpdate] assms(2,3) len obtain ob' where
    "stage ob (ev_lsn ev) ReadModelUpdate (position_update_bytes u) = (kOk, ob')" "ob_inv ob'"
    "ob_queue ob' = ob_queue ob @ [(ev_lsn ev, ReadModelUpdate, position_update_bytes u)]"
    "ob_frozen ob' = ob_frozen ob" by auto
  then show ?thesis using assms(1)
    by (auto simp: publica_posicao_def Let_def u_def [symmetric] is_ok_def)
qed

text \<open>On a well-formed chain the walk ends and takes the row out.\<close>

lemma unlink_loop_lseg:
  assumes "lseg nxt p (p # xs)" and "distinct (p # xs)" and "length xs < fuel" and "t \<in> set xs"
  shows "\<exists>nxt'. unlink_loop fuel nxt p t = Some (True, nxt') \<and> length nxt' = length nxt
           \<and> lseg nxt' p (p # remove1 t xs) \<and> (\<forall>y. y \<notin> set (p # xs) \<longrightarrow> nxt' ! y = nxt ! y)"
  using assms
proof (induction xs arbitrary: p fuel)
  case Nil
  then show ?case by simp
next
  case (Cons x xs)
  then obtain f where f: "fuel = Suc f" by (cases fuel) auto
  have p: "p < length nxt" "p \<noteq> kNil" "nxt ! p = x" "lseg nxt x (x # xs)" "x \<noteq> kNil" using Cons.prems(1) by auto
  show ?case
  proof (cases "x = t")
    case True
    have seg: "lseg nxt (nxt ! x) xs" using p(4) by simp
    have "p \<notin> set xs" using Cons.prems(2) by auto
    then have "lseg (nxt[p := nxt ! t]) (nxt ! x) xs" using seg by (simp add: lseg_update)
    with True p f show ?thesis by (auto simp: nth_list_update)
  next
    case False
    have "distinct (x # xs)" "length xs < f" "t \<in> set xs" using Cons.prems(2-4) f False by auto
    from Cons.IH [OF p(4) this] obtain nxt' where
      n': "unlink_loop f nxt x t = Some (True, nxt')" "length nxt' = length nxt"
        "lseg nxt' x (x # remove1 t xs)" "\<forall>y. y \<notin> set (x # xs) \<longrightarrow> nxt' ! y = nxt ! y" by blast
    have "nxt' ! p = x" using n'(4) Cons.prems(2) p(3) by auto
    with False n' p f show ?thesis by (auto simp: lseg.simps(2) [of _ p])
  qed
qed

lemma fees_loop_range: "fees_loop tot ps = Some m \<Longrightarrow> in_i64 tot \<Longrightarrow> in_i64 m \<and> m = tot + sum_list ps"
proof (induction ps arbitrary: tot)
  case Nil
  then show ?case by simp
next
  case (Cons p ps)
  then have "in_i64 (tot + p)" and "fees_loop (tot + p) ps = Some m"
    by (auto simp: checked_add_def split: if_splits)
  from Cons.IH [OF this(2,1)] show ?case by (auto simp: add.assoc)
qed

end
