(* ===== verification/RV_Books.thy ===== *)
theory RV_Books
  imports RV_State_Ops
begin

text \<open>
  The books of a partition, independent of row numbers and hash tables: the buckets of a position,
  named by its account and instrument, and the balances of an account.  A position or an account
  that has no row yet has all buckets zero.

  This is the specification level for the handlers: interning an identity leaves the books as they
  are, and each handler is described by what it does to them.
\<close>

record Buckets =
  bk_available :: Qty
  bk_buy :: "Qty list"
  bk_sell :: "Qty list"
  bk_overdue_buy :: Qty
  bk_overdue_sell :: Qty
  bk_blocked :: Qty
  bk_leftovers :: Qty
  bk_avg_price :: Price
  bk_flags :: u8

definition zero_buckets :: Buckets where
  "zero_buckets = \<lparr>bk_available = 0, bk_buy = [0, 0, 0], bk_sell = [0, 0, 0], bk_overdue_buy = 0,
                   bk_overdue_sell = 0, bk_blocked = 0, bk_leftovers = 0, bk_avg_price = 0, bk_flags = 0\<rparr>"

definition buckets_row :: "CustodyLedger \<Rightarrow> nat \<Rightarrow> Buckets" where
  "buckets_row c r =
     \<lparr>bk_available = available c ! r, bk_buy = row_slots (pending_buy c) r,
      bk_sell = row_slots (pending_sell c) r, bk_overdue_buy = overdue_buy c ! r,
      bk_overdue_sell = overdue_sell c ! r, bk_blocked = blocked c ! r, bk_leftovers = leftovers c ! r,
      bk_avg_price = avg_price c ! r, bk_flags = cu_flags c ! r\<rparr>"

record Balances =
  bl_cash :: Money
  bl_pending :: "Money list"
  bl_overdue :: Money
  bl_income :: Money

definition zero_balances :: Balances where
  "zero_balances = \<lparr>bl_cash = 0, bl_pending = [0, 0, 0], bl_overdue = 0, bl_income = 0\<rparr>"

definition balances_row :: "CashLedger \<Rightarrow> nat \<Rightarrow> Balances" where
  "balances_row c r = \<lparr>bl_cash = cash c ! r, bl_pending = row_slots (pending c) r,
                       bl_overdue = overdue c ! r, bl_income = income_receivable c ! r\<rparr>"

text \<open>Looking a key up in the list of rows.\<close>

definition row_of :: "'k list \<Rightarrow> 'k \<Rightarrow> nat option" where
  "row_of rows k = List.find (\<lambda>r. rows ! r = k) [0..<length rows]"

definition position_book :: "PartitionState \<Rightarrow> u64 \<Rightarrow> u32 \<Rightarrow> Buckets" where
  "position_book s doc ext =
     (case (row_of (account_rows s) doc, row_of (instrument_rows s) ext) of
        (Some a, Some i) \<Rightarrow>
          (case row_of (position_rows s) (a, i) of
             None \<Rightarrow> zero_buckets | Some r \<Rightarrow> buckets_row (custody s) r)
      | _ \<Rightarrow> zero_buckets)"

definition cash_book :: "PartitionState \<Rightarrow> u64 \<Rightarrow> Balances" where
  "cash_book s doc =
     (case row_of (account_rows s) doc of None \<Rightarrow> zero_balances | Some a \<Rightarrow> balances_row (cash_ledger s) a)"

text \<open>Two states with the same books, the same trades and the same history of applied events.\<close>

definition same_books :: "PartitionState \<Rightarrow> PartitionState \<Rightarrow> bool" where
  "same_books s s' \<longleftrightarrow>
     position_book s' = position_book s \<and> cash_book s' = cash_book s \<and> trades s' = trades s
     \<and> window s' = window s \<and> business_date s' = business_date s
     \<and> applied_actions s' = applied_actions s \<and> applied_income s' = applied_income s
     \<and> trade_index s' = trade_index s \<and> exceptions s' = exceptions s \<and> exception_count s' = exception_count s
     \<and> exception_dropped s' = exception_dropped s \<and> ps_flags s' = ps_flags s"

lemma same_books_refl: "same_books s s"
  by (simp add: same_books_def)

lemma same_books_trans: "same_books a b \<Longrightarrow> same_books b c \<Longrightarrow> same_books a c"
  by (simp add: same_books_def)

section \<open>Row lookup\<close>

lemma row_of_Some: "row_of rows k = Some r \<Longrightarrow> r < length rows \<and> rows ! r = k"
  unfolding row_of_def by (drule find_Some_upt) simp

lemma row_of_None: "row_of rows k = None \<longleftrightarrow> k \<notin> set rows"
  by (auto simp: row_of_def find_None_iff in_set_conv_nth)

lemma row_of_distinct: "distinct rows \<Longrightarrow> r < length rows \<Longrightarrow> row_of rows (rows ! r) = Some r"
  using row_of_None [of rows "rows ! r"] row_of_Some [of rows "rows ! r"]
  by (cases "row_of rows (rows ! r)") (auto simp: nth_eq_iff_index_eq)

lemma row_of_append:
  assumes "distinct rows" and "k \<notin> set rows"
  shows "row_of (rows @ [k]) j = (if j = k then Some (length rows) else row_of rows j)"
proof (cases "j \<in> set (rows @ [k])")
  case True
  have d: "distinct (rows @ [k])" using assms by simp
  show ?thesis
  proof (cases "j = k")
    case True
    then show ?thesis using row_of_distinct [OF d, of "length rows"] by simp
  next
    case False
    with True obtain r where r: "r < length rows" "rows ! r = j" by (auto simp: in_set_conv_nth)
    then show ?thesis
      using row_of_distinct [OF d, of r] row_of_distinct [OF assms(1), of r] False by (simp add: nth_append)
  qed
next
  case False
  then show ?thesis using row_of_None [of "rows @ [k]" j] row_of_None [of rows j] by auto
qed

lemma position_book_row:
  assumes "ps_inv s" and "r < cu_count (custody s)"
  shows "position_book s (account_document s ! (cu_account (custody s) ! r))
           (external_id (instruments s) ! (cu_instrument (custody s) ! r)) = buckets_row (custody s) r"
proof -
  let ?a = "cu_account (custody s) ! r" and ?i = "cu_instrument (custody s) ! r"
  have t: "tables_ok s" using assms(1) by (simp add: ps_inv_def)
  have a: "?a < length (account_rows s)" "account_rows s ! ?a = account_document s ! ?a"
    and i: "?i < length (instrument_rows s)" "instrument_rows s ! ?i = external_id (instruments s) ! ?i"
    using assms t by (simp_all add: ps_inv_def refs_ok_def) (simp_all add: account_rows_def instrument_rows_def)
  have p: "r < length (position_rows s)" "position_rows s ! r = (?a, ?i)"
    using assms(2) t position_rows_nth by simp_all
  have "row_of (account_rows s) (account_document s ! ?a) = Some ?a"
    "row_of (instrument_rows s) (external_id (instruments s) ! ?i) = Some ?i"
    "row_of (position_rows s) (?a, ?i) = Some r"
    using row_of_distinct [OF accounts.rows_distinct [OF assms(1)] a(1)] a(2)
      row_of_distinct [OF instrs.rows_distinct [OF assms(1)] i(1)] i(2)
      row_of_distinct [OF positions.rows_distinct [OF assms(1)] p(1)] p(2) by simp_all
  then show ?thesis by (simp add: position_book_def)
qed

lemma cash_book_row:
  assumes "ps_inv s" and "a < ca_count (cash_ledger s)"
  shows "cash_book s (account_document s ! a) = balances_row (cash_ledger s) a"
proof -
  have t: "tables_ok s" using assms(1) by (simp add: ps_inv_def)
  have "a < length (account_rows s)" "account_rows s ! a = account_document s ! a"
    using assms(2) t by simp (simp add: account_rows_def assms(2))
  then show ?thesis
    using row_of_distinct [OF accounts.rows_distinct [OF assms(1)], of a] by (simp add: cash_book_def)
qed

section \<open>Interning leaves the books alone\<close>

lemma row_slots_cleared:
  "3 * i + 2 < length col \<Longrightarrow> row_slots (set_slots col i 0 0 0) j = (if j = i then [0, 0, 0] else row_slots col j)"
  by (simp add: row_slots_set)

lemma balances_cleared:
  assumes "cash_shape c" and "n < ca_capacity c"
  shows "balances_row (cash_clear_row c n\<lparr>ca_count := m\<rparr>) j = (if j = n then zero_balances else balances_row c j)"
  using assms row_slots_cleared [of n "pending c" j]
  by (auto simp: balances_row_def cash_clear_row_def zero_balances_def cash_shape_def Let_def nth_list_update)

lemma buckets_cleared:
  assumes "custody_shape c" and "n < cu_capacity c"
  shows "buckets_row (custody_clear_row c n\<lparr>cu_account := x, cu_instrument := y, cu_count := m\<rparr>) j
         = (if j = n then zero_buckets else buckets_row c j)"
  using assms row_slots_cleared [of n "pending_buy c" j] row_slots_cleared [of n "pending_sell c" j]
  by (auto simp: buckets_row_def custody_clear_row_def zero_buckets_def custody_shape_def Let_def nth_list_update)

text \<open>The three outcomes of an interning, as equations on the state.\<close>

lemma intern_account_cases:
  assumes "ps_inv s" and "intern_account s doc = (r, s')"
  obtains (refused) "r = kEmpty" "s' = s" "ca_count (cash_ledger s) = ca_capacity (cash_ledger s)"
  | (known) "r < ca_count (cash_ledger s)" "account_rows s ! r = doc" "s' = s"
  | (new) ix where "r = ca_count (cash_ledger s)" "r < ca_capacity (cash_ledger s)" "doc \<notin> set (account_rows s)"
      "s' = s\<lparr>account_index := ix, cash_ledger := (cash_clear_row (cash_ledger s) r)\<lparr>ca_count := r + 1\<rparr>,
               account_document := (account_document s)[r := doc],
               account_first_trade := (account_first_trade s)[r := kNil]\<rparr>"
proof -
  have t: "tables_ok s" using assms(1) by (simp add: ps_inv_def)
  have len: "length (account_rows s) = ca_count (cash_ledger s)" using t by simp
  show ?thesis
  proof (cases "ca_count (cash_ledger s) < ca_capacity (cash_ledger s)")
    case False
    then have "r = kEmpty" "s' = s" using accounts.intern_full [OF assms(1), of doc] assms(2) len by auto
    moreover have "ca_count (cash_ledger s) = ca_capacity (cash_ledger s)"
      using False t by (simp add: tables_ok_def cash_shape_def Let_def)
    ultimately show ?thesis by (rule refused)
  next
    case True
    show ?thesis
    proof (cases "doc \<in> set (account_rows s)")
      case True': True
      then obtain i where i: "i < length (account_rows s)" "account_rows s ! i = doc" by (auto simp: in_set_conv_nth)
      with accounts.intern_known [OF assms(1), of i] True assms(2) len known show ?thesis by auto
    next
      case False
      have "indexed (account_index s) (account_rows s)" "length (account_rows s) < load_limit (di_cap (account_index s))"
        "length (account_rows s) < kEmpty"
        using assms(1) True len by (auto simp: ps_inv_def indexes_ok_def tables_ok_def)
      from indexed_fresh [OF this(1) False this(2,3)] len obtain ix where
        ins: "insert_or_get (account_index s) doc (ca_count (cash_ledger s)) = (ca_count (cash_ledger s), True, ix)" by auto
      have "ca_count (cash_ledger s) \<noteq> kEmpty" using \<open>length (account_rows s) < kEmpty\<close> len by simp
      with True ins assms(2) show ?thesis
        by (intro new [of ix, OF _ _ False]) (auto simp: intern_account_def Let_def)
    qed
  qed
qed

lemma intern_instrument_cases:
  assumes "ps_inv s" and "intern_instrument s ext = (r, s')"
  obtains (refused) "r = kEmpty" "s' = s" "in_count (instruments s) = in_capacity (instruments s)"
  | (known) "r < in_count (instruments s)" "instrument_rows s ! r = ext" "s' = s"
  | (new) ix where "r = in_count (instruments s)" "r < in_capacity (instruments s)" "ext \<notin> set (instrument_rows s)"
      "s' = s\<lparr>instrument_index := ix, instruments := (instruments s)\<lparr>
                 external_id := (external_id (instruments s))[r := ext],
                 price_factor := (price_factor (instruments s))[r := 0],
                 lot_size := (lot_size (instruments s))[r := 0], in_count := r + 1\<rparr>\<rparr>"
proof -
  have t: "tables_ok s" using assms(1) by (simp add: ps_inv_def)
  have len: "length (instrument_rows s) = in_count (instruments s)" using t by simp
  show ?thesis
  proof (cases "in_count (instruments s) < in_capacity (instruments s)")
    case False
    then have "r = kEmpty" "s' = s" using instrs.intern_full [OF assms(1), of ext] assms(2) len by auto
    moreover have "in_count (instruments s) = in_capacity (instruments s)"
      using False t by (simp add: tables_ok_def instruments_shape_def Let_def)
    ultimately show ?thesis by (rule refused)
  next
    case True
    show ?thesis
    proof (cases "ext \<in> set (instrument_rows s)")
      case True': True
      then obtain i where i: "i < length (instrument_rows s)" "instrument_rows s ! i = ext" by (auto simp: in_set_conv_nth)
      with instrs.intern_known [OF assms(1), of i] True assms(2) len known show ?thesis by auto
    next
      case False
      let ?ks = "map ucast (instrument_rows s) :: u64 list"
      have "indexed (instrument_index s) ?ks" "length ?ks < load_limit (di_cap (instrument_index s))" "length ?ks < kEmpty"
        using assms(1) True len by (auto simp: ps_inv_def indexes_ok_def tables_ok_def)
      moreover have "ucast ext \<notin> set ?ks" using False by (simp add: ucast_mem)
      ultimately obtain ix where
        ins: "insert_or_get (instrument_index s) (ucast ext) (in_count (instruments s)) = (in_count (instruments s), True, ix)"
        using indexed_fresh [of "instrument_index s" ?ks "ucast ext"] len by auto
      have "in_count (instruments s) \<noteq> kEmpty" using \<open>length ?ks < kEmpty\<close> len by simp
      with True ins assms(2) show ?thesis
        by (intro new [of ix, OF _ _ False]) (auto simp: intern_instrument_def Let_def)
    qed
  qed
qed

lemma intern_position_cases:
  assumes "ps_inv s" and "intern_position s a i = (r, s')" and "a < ca_count (cash_ledger s)" and "i < in_count (instruments s)"
  obtains (refused) "r = kEmpty" "s' = s" "cu_count (custody s) = cu_capacity (custody s)"
  | (known) "r < cu_count (custody s)" "position_rows s ! r = (a, i)" "s' = s"
  | (new) ix where "r = cu_count (custody s)" "r < cu_capacity (custody s)" "(a, i) \<notin> set (position_rows s)"
      "s' = s\<lparr>position_index := ix, custody := (custody_clear_row (custody s) r)\<lparr>
                 cu_account := (cu_account (custody s))[r := a],
                 cu_instrument := (cu_instrument (custody s))[r := i], cu_count := r + 1\<rparr>\<rparr>"
proof -
  have t: "tables_ok s" using assms(1) by (simp add: ps_inv_def)
  have len: "length (position_rows s) = cu_count (custody s)" using t by simp
  have ok: "position_ok s (a, i)" using assms(3,4) by (simp add: position_ok_def)
  show ?thesis
  proof (cases "cu_count (custody s) < cu_capacity (custody s)")
    case False
    then have "r = kEmpty" "s' = s" using positions.intern_full [OF assms(1), of "(a, i)"] assms(2) len by auto
    moreover have "cu_count (custody s) = cu_capacity (custody s)"
      using False t by (simp add: tables_ok_def custody_shape_def Let_def)
    ultimately show ?thesis by (rule refused)
  next
    case True
    show ?thesis
    proof (cases "(a, i) \<in> set (position_rows s)")
      case True': True
      then obtain j where j: "j < length (position_rows s)" "position_rows s ! j = (a, i)" by (auto simp: in_set_conv_nth)
      with positions.intern_known [OF assms(1), of j] True assms(2) len known show ?thesis by auto
    next
      case False
      let ?ks = "map (\<lambda>(a, i). position_key a i) (position_rows s)"
      have "indexed (position_index s) ?ks" "length ?ks < load_limit (di_cap (position_index s))" "length ?ks < kEmpty"
        using assms(1) True len by (auto simp: ps_inv_def indexes_ok_def tables_ok_def)
      moreover have "position_key a i \<notin> set ?ks" using position_key_fresh [OF assms(1) ok False] by simp
      ultimately obtain ix where
        ins: "insert_or_get (position_index s) (position_key a i) (cu_count (custody s)) = (cu_count (custody s), True, ix)"
        using indexed_fresh [of "position_index s" ?ks "position_key a i"] len by auto
      have "cu_count (custody s) \<noteq> kEmpty" using \<open>length ?ks < kEmpty\<close> len by simp
      with True ins assms(2) show ?thesis
        by (intro new [of ix, OF _ _ False]) (auto simp: intern_position_def Let_def)
    qed
  qed
qed

section \<open>States that grew by interning\<close>

text \<open>Invariant I3 on a position of the books, and on the whole state.\<close>

definition bk_non_negative :: "Buckets \<Rightarrow> bool" where
  "bk_non_negative b \<longleftrightarrow> (0 \<le> bk_available b \<or> bk_flags b AND kShortAllowed \<noteq> 0) \<and> 0 \<le> bk_blocked b
     \<and> 0 \<le> bk_leftovers b \<and> 0 \<le> bk_overdue_buy b \<and> 0 \<le> bk_overdue_sell b
     \<and> list_all (\<lambda>x. 0 \<le> x) (bk_buy b) \<and> list_all (\<lambda>x. 0 \<le> x) (bk_sell b)"

lemma all_less_3: "(\<forall>k<3::nat. P k) \<longleftrightarrow> P 0 \<and> P 1 \<and> P 2"
  by (auto simp: numeral_3_eq_3 less_Suc_eq numeral_2_eq_2)

lemma buckets_non_negative_row: "buckets_non_negative c r = bk_non_negative (buckets_row c r)"
  by (auto simp: buckets_non_negative_iff bk_non_negative_def buckets_row_def row_slots_def all_less_3)

definition i3_ok :: "PartitionState \<Rightarrow> bool" where
  "i3_ok s \<longleftrightarrow> (\<forall>r<cu_count (custody s). buckets_non_negative (custody s) r)"

lemma zero_non_negative: "bk_non_negative zero_buckets"
  by (simp add: bk_non_negative_def zero_buckets_def)

definition grown :: "PartitionState \<Rightarrow> PartitionState \<Rightarrow> bool" where
  "grown s s' \<longleftrightarrow> ps_inv s' \<and> same_books s s' \<and> (lists_ok s \<longrightarrow> lists_ok s') \<and> (i3_ok s \<longrightarrow> i3_ok s')
     \<and> ca_count (cash_ledger s) \<le> ca_count (cash_ledger s') \<and> in_count (instruments s) \<le> in_count (instruments s')
     \<and> cu_count (custody s) \<le> cu_count (custody s')
     \<and> (\<forall>r<cu_count (custody s). buckets_row (custody s') r = buckets_row (custody s) r)
     \<and> (\<forall>a<ca_count (cash_ledger s). account_document s' ! a = account_document s ! a
          \<and> balances_row (cash_ledger s') a = balances_row (cash_ledger s) a)
     \<and> (\<forall>i<in_count (instruments s). external_id (instruments s') ! i = external_id (instruments s) ! i
          \<and> price_factor (instruments s') ! i = price_factor (instruments s) ! i)
     \<and> applied_lsn s' = applied_lsn s \<and> ps_cap s' = ps_cap s"

lemma grown_refl: "ps_inv s \<Longrightarrow> grown s s"
  by (simp add: grown_def same_books_refl)

lemma grown_trans: "grown a b \<Longrightarrow> grown b c \<Longrightarrow> grown a c"
  unfolding grown_def by (auto intro: same_books_trans)

lemma grown_inv: "grown s s' \<Longrightarrow> ps_inv s'"
  by (simp add: grown_def)

lemma account_index_new_rows:
  assumes "ps_inv s" and "r = ca_count (cash_ledger s)" "r < ca_capacity (cash_ledger s)"
    and "s' = s\<lparr>account_index := ix, cash_ledger := (cash_clear_row (cash_ledger s) r)\<lparr>ca_count := r + 1\<rparr>,
               account_document := (account_document s)[r := doc],
               account_first_trade := (account_first_trade s)[r := kNil]\<rparr>"
  shows "account_rows s' = account_rows s @ [doc]" "instrument_rows s' = instrument_rows s" "position_rows s' = position_rows s"
proof -
  have "r < length (account_document s)" using assms(1,3) by (simp add: ps_inv_def tables_ok_def)
  then show "account_rows s' = account_rows s @ [doc]" using assms(2,4) by (simp add: account_rows_def take_Suc_update)
  show "instrument_rows s' = instrument_rows s" "position_rows s' = position_rows s"
    by (simp_all add: assms(4) instrument_rows_def position_rows_def)
qed

lemma intern_account_grown:
  assumes "ps_inv s" and "intern_account s doc = (r, s')"
  shows "grown s s'" and "r \<noteq> kEmpty \<Longrightarrow> r < ca_count (cash_ledger s') \<and> account_document s' ! r = doc"
    and "custody s' = custody s" and "instruments s' = instruments s" and "trades s' = trades s"
proof -
  have t: "tables_ok s" using assms(1) by (simp add: ps_inv_def)
  have rf: "\<forall>j<cu_count (custody s). cu_account (custody s) ! j < ca_count (cash_ledger s)"
    "\<forall>j<tr_count (trades s). tr_account (trades s) ! j < ca_count (cash_ledger s)"
    using assms(1) by (simp_all add: ps_inv_def refs_ok_def)
  have "grown s s' \<and> (r \<noteq> kEmpty \<longrightarrow> r < ca_count (cash_ledger s') \<and> account_document s' ! r = doc)
      \<and> custody s' = custody s \<and> instruments s' = instruments s \<and> trades s' = trades s"
    using assms
  proof (cases rule: intern_account_cases)
    case refused
    then show ?thesis using grown_refl [OF assms(1)] by simp
  next
    case known
    have "account_document s ! r = doc" using known by (simp add: account_rows_def)
    then show ?thesis using known grown_refl [OF assms(1)] by simp
  next
    case (new ix)
    note rows = account_index_new_rows [OF assms(1) new(1,2,4)]
    have inv: "ps_inv s'" using accounts.intern_inv [OF assms(1), of doc] assms(2) by simp
    have sh: "cash_shape (cash_ledger s)" using t by (simp add: tables_ok_def)
    have bal: "balances_row (cash_ledger s') j = (if j = r then zero_balances else balances_row (cash_ledger s) j)" for j
      using balances_cleared [OF sh new(2)] new(4) by simp
    have ro: "row_of (account_rows s') d = (if d = doc then Some r else row_of (account_rows s) d)" for d
      using row_of_append [OF accounts.rows_distinct [OF assms(1)] new(3)] rows(1) new(1) t by simp
    have none: "row_of (account_rows s) doc = None" using new(3) by (simp add: row_of_None)
    have nopos: "row_of (position_rows s) (r, i) = None" for i
      using rf(1) new(1) t by (auto simp: row_of_None in_set_conv_nth position_rows_nth)
    have cu: "custody s' = custody s" by (simp add: new(4))
    have pb: "position_book s' d x = position_book s d x" for d x
      using none nopos by (auto simp: position_book_def ro rows(2,3) cu split: option.split)
    have cb: "cash_book s' d = cash_book s d" for d
      using none row_of_Some [of "account_rows s" d] new(1) t
      by (auto simp: cash_book_def ro bal split: option.split)
    have "same_books s s'" using pb cb new(4) by (simp add: same_books_def fun_eq_iff)
    moreover have "lists_ok s'" if "lists_ok s"
      unfolding lists_ok_def
    proof (intro allI impI)
      fix a assume a: "a < ca_count (cash_ledger s')"
      have len: "length (account_first_trade s) = ca_capacity (cash_ledger s)" using t by (simp add: tables_ok_def)
      show "\<exists>xs. lseg (next_of_account (trades s')) (account_first_trade s' ! a) xs
          \<and> distinct xs \<and> set xs = trades_of (trades s') a"
      proof (cases "a = r")
        case True
        have "trades_of (trades s) r = {}" using rf(2) new(1) by (auto simp: trades_of_def)
        with True new len show ?thesis by (intro exI [of _ "[]"]) simp
      next
        case False
        with that a new show ?thesis by (simp add: lists_ok_def)
      qed
    qed
    moreover have "r < length (account_document s)" using t new(2) by (simp add: tables_ok_def)
    ultimately show ?thesis using inv new bal by (auto simp: grown_def i3_ok_def nth_list_update)
  qed
  then show "grown s s'" "r \<noteq> kEmpty \<Longrightarrow> r < ca_count (cash_ledger s') \<and> account_document s' ! r = doc"
    "custody s' = custody s" "instruments s' = instruments s" "trades s' = trades s" by blast+
qed

lemma intern_instrument_grown:
  assumes "ps_inv s" and "intern_instrument s ext = (r, s')"
  shows "grown s s'" and "r \<noteq> kEmpty \<Longrightarrow> r < in_count (instruments s') \<and> external_id (instruments s') ! r = ext"
    and "custody s' = custody s" and "cash_ledger s' = cash_ledger s" and "trades s' = trades s"
    and "account_document s' = account_document s"
    and "r \<noteq> kEmpty \<Longrightarrow> price_factor (instruments s') ! r \<noteq> 0 \<Longrightarrow> r < in_count (instruments s)"
proof -
  have t: "tables_ok s" using assms(1) by (simp add: ps_inv_def)
  have rf: "\<forall>j<cu_count (custody s). cu_instrument (custody s) ! j < in_count (instruments s)"
    using assms(1) by (simp add: ps_inv_def refs_ok_def)
  have "grown s s' \<and> (r \<noteq> kEmpty \<longrightarrow> r < in_count (instruments s') \<and> external_id (instruments s') ! r = ext)
      \<and> custody s' = custody s \<and> cash_ledger s' = cash_ledger s \<and> trades s' = trades s
      \<and> account_document s' = account_document s
      \<and> (r \<noteq> kEmpty \<longrightarrow> price_factor (instruments s') ! r \<noteq> 0 \<longrightarrow> r < in_count (instruments s))"
    using assms
  proof (cases rule: intern_instrument_cases)
    case refused
    then show ?thesis using grown_refl [OF assms(1)] by simp
  next
    case known
    have "external_id (instruments s) ! r = ext" using known by (simp add: instrument_rows_def)
    then show ?thesis using known grown_refl [OF assms(1)] t by simp
  next
    case (new ix)
    have len: "r < length (external_id (instruments s))" "r < length (price_factor (instruments s))"
      using t new(2) by (simp_all add: tables_ok_def instruments_shape_def Let_def)
    have rows: "instrument_rows s' = instrument_rows s @ [ext]" "account_rows s' = account_rows s" "position_rows s' = position_rows s"
      using len(1) new(1) by (simp_all add: new(4) rows_defs take_Suc_update)
    have inv: "ps_inv s'" using instrs.intern_inv [OF assms(1), of ext] assms(2) by simp
    have ro: "row_of (instrument_rows s') x = (if x = ext then Some r else row_of (instrument_rows s) x)" for x
      using row_of_append [OF instrs.rows_distinct [OF assms(1)] new(3)] rows(1) new(1) t by simp
    have none: "row_of (instrument_rows s) ext = None" using new(3) by (simp add: row_of_None)
    have nopos: "row_of (position_rows s) (a, r) = None" for a
      using rf new(1) t by (auto simp: row_of_None in_set_conv_nth position_rows_nth)
    have f: "custody s' = custody s" "cash_ledger s' = cash_ledger s" by (simp_all add: new(4))
    have pb: "position_book s' d x = position_book s d x" for d x
      using none nopos by (auto simp: position_book_def ro rows(2,3) f split: option.split)
    have cb: "cash_book s' d = cash_book s d" for d unfolding cash_book_def rows(2) f(2) ..
    have "same_books s s'" using pb cb new(4) by (simp add: same_books_def fun_eq_iff)
    with inv new len show ?thesis by (auto simp: grown_def i3_ok_def lists_ok_def)
  qed
  then show "grown s s'" "r \<noteq> kEmpty \<Longrightarrow> r < in_count (instruments s') \<and> external_id (instruments s') ! r = ext"
    "custody s' = custody s" "cash_ledger s' = cash_ledger s" "trades s' = trades s"
    "account_document s' = account_document s"
    "r \<noteq> kEmpty \<Longrightarrow> price_factor (instruments s') ! r \<noteq> 0 \<Longrightarrow> r < in_count (instruments s)" by blast+
qed

lemma intern_position_grown:
  assumes "ps_inv s" and "intern_position s a i = (r, s')" and "a < ca_count (cash_ledger s)" and "i < in_count (instruments s)"
  shows "grown s s'" and "r \<noteq> kEmpty \<Longrightarrow> r < cu_count (custody s') \<and> cu_account (custody s') ! r = a \<and> cu_instrument (custody s') ! r = i"
    and "cash_ledger s' = cash_ledger s" and "instruments s' = instruments s" and "trades s' = trades s"
    and "account_document s' = account_document s" and "account_first_trade s' = account_first_trade s"
proof -
  have t: "tables_ok s" using assms(1) by (simp add: ps_inv_def)
  have ok: "position_ok s (a, i)" using assms(3,4) by (simp add: position_ok_def)
  have "grown s s' \<and> (r \<noteq> kEmpty \<longrightarrow> r < cu_count (custody s') \<and> cu_account (custody s') ! r = a \<and> cu_instrument (custody s') ! r = i)
      \<and> cash_ledger s' = cash_ledger s \<and> instruments s' = instruments s \<and> trades s' = trades s
      \<and> account_document s' = account_document s \<and> account_first_trade s' = account_first_trade s"
    using assms
  proof (cases rule: intern_position_cases)
    case refused
    then show ?thesis using grown_refl [OF assms(1)] by simp
  next
    case known
    then show ?thesis using grown_refl [OF assms(1)] position_rows_nth [OF t, of r] by simp
  next
    case (new ix)
    have sh: "custody_shape (custody s)" using t by (simp add: tables_ok_def)
    have len: "r < length (zip (cu_account (custody s)) (cu_instrument (custody s)))"
      using sh new(2) by (simp add: custody_shape_def Let_def)
    have rows: "position_rows s' = position_rows s @ [(a, i)]" "account_rows s' = account_rows s" "instrument_rows s' = instrument_rows s"
      using len new(1) by (simp_all add: new(4) rows_defs zip_update take_Suc_update custody_clear_row_def)
    have inv: "ps_inv s'" using positions.intern_inv [OF assms(1) ok] assms(2) by simp
    have ro: "row_of (position_rows s') x = (if x = (a, i) then Some r else row_of (position_rows s) x)" for x
      using row_of_append [OF positions.rows_distinct [OF assms(1)] new(3)] rows(1) new(1) t by simp
    have none: "row_of (position_rows s) (a, i) = None" using new(3) by (simp add: row_of_None)
    have bk: "buckets_row (custody s') j = (if j = r then zero_buckets else buckets_row (custody s) j)" for j
      using buckets_cleared [OF sh new(2)] new(4) by simp
    have f: "cash_ledger s' = cash_ledger s" by (simp add: new(4))
    have lt: "row_of (position_rows s) x = Some r' \<Longrightarrow> r' \<noteq> r" for x r'
      using row_of_Some [of "position_rows s" x r'] new(1) t by auto
    have pb: "position_book s' d x = position_book s d x" for d x
      using none lt by (auto simp: position_book_def ro rows(2,3) bk split: option.split)
    have cb: "cash_book s' d = cash_book s d" for d unfolding cash_book_def rows(2) f ..
    have "same_books s s'" using pb cb new(4) by (simp add: same_books_def fun_eq_iff)
    moreover have "i3_ok s'" if "i3_ok s"
      unfolding i3_ok_def buckets_non_negative_row
    proof (intro allI impI)
      fix j assume "j < cu_count (custody s')"
      then have "j = r \<or> j < cu_count (custody s)" using new(1) by (auto simp: new(4))
      then show "bk_non_negative (buckets_row (custody s') j)"
        using that by (auto simp: bk zero_non_negative i3_ok_def buckets_non_negative_row)
    qed
    moreover have "cu_count (custody s') = r + 1" "trades s' = trades s" "account_first_trade s' = account_first_trade s"
      "account_document s' = account_document s" "instruments s' = instruments s" "applied_lsn s' = applied_lsn s"
      "ps_cap s' = ps_cap s" "cu_account (custody s') ! r = a" "cu_instrument (custody s') ! r = i"
      using len by (simp_all add: new(4))
    ultimately show ?thesis using inv new(1) bk f by (auto simp: grown_def lists_ok_def)
  qed
  then show "grown s s'" "r \<noteq> kEmpty \<Longrightarrow> r < cu_count (custody s') \<and> cu_account (custody s') ! r = a \<and> cu_instrument (custody s') ! r = i"
    "cash_ledger s' = cash_ledger s" "instruments s' = instruments s" "trades s' = trades s"
    "account_document s' = account_document s" "account_first_trade s' = account_first_trade s" by blast+
qed

lemma intern_position_grown_rows:
  assumes "ps_inv s" and "intern_position s a i = (r, s')" and "a < ca_count (cash_ledger s)" and "i < in_count (instruments s)"
    and "j < cu_count (custody s)"
  shows "j < cu_count (custody s')" and "cu_account (custody s') ! j = cu_account (custody s) ! j"
    and "cu_instrument (custody s') ! j = cu_instrument (custody s) ! j"
proof -
  have "j < cu_count (custody s') \<and> cu_account (custody s') ! j = cu_account (custody s) ! j
      \<and> cu_instrument (custody s') ! j = cu_instrument (custody s) ! j"
    using assms(1-4) by (cases rule: intern_position_cases) (use assms(5) in \<open>auto simp: custody_clear_row_def\<close>)
  then show "j < cu_count (custody s')" "cu_account (custody s') ! j = cu_account (custody s) ! j"
    "cu_instrument (custody s') ! j = cu_instrument (custody s) ! j" by blast+
qed

section \<open>Updating one row updates one entry of the books\<close>

lemma row_slots_update:
  assumes "k < 3" and "3 * i + k < length col"
  shows "row_slots (col[3 * i + k := v]) j = (if j = i then (row_slots col j)[k := v] else row_slots col j)"
proof -
  have eq: "3 * i + k = 3 * j + a \<longleftrightarrow> j = i \<and> a = k" if "a < 3" for a using that assms(1) by presburger
  have "(col[3 * i + k := v]) ! (3 * j + a) = (if j = i \<and> a = k then v else col ! (3 * j + a))" if "a < 3" for a
    using assms(2) eq [OF that] by (simp add: nth_list_update)
  from this [of 0] this [of 1] this [of 2] assms(1) show ?thesis
    by (auto simp: row_slots_def list_update_code less_Suc_eq numeral_3_eq_3)
qed

lemma row_slots_nth: "k < 3 \<Longrightarrow> row_slots col i ! k = col ! (3 * i + k)"
  by (auto simp: row_slots_def less_Suc_eq numeral_3_eq_3 numeral_2_eq_2)

definition same_rows :: "PartitionState \<Rightarrow> PartitionState \<Rightarrow> bool" where
  "same_rows s s' \<longleftrightarrow> account_rows s' = account_rows s \<and> instrument_rows s' = instrument_rows s
                     \<and> position_rows s' = position_rows s"

lemma position_book_update:
  assumes "ps_inv s" and "same_rows s s'" and "pos < cu_count (custody s)"
    and "\<forall>r<cu_count (custody s). buckets_row (custody s') r = (if r = pos then b else buckets_row (custody s) r)"
    and "doc = account_document s ! (cu_account (custody s) ! pos)"
    and "ext = external_id (instruments s) ! (cu_instrument (custody s) ! pos)"
  shows "position_book s' d x = (if d = doc \<and> x = ext then b else position_book s d x)"
proof -
  let ?a = "cu_account (custody s) ! pos" and ?i = "cu_instrument (custody s) ! pos"
  have t: "tables_ok s" using assms(1) by (simp add: ps_inv_def)
  have a: "?a < length (account_rows s)" "account_rows s ! ?a = doc"
    and i: "?i < length (instrument_rows s)" "instrument_rows s ! ?i = ext"
    using assms(1,3,5,6) t by (simp_all add: ps_inv_def refs_ok_def) (simp_all add: account_rows_def instrument_rows_def)
  have p: "pos < length (position_rows s)" "position_rows s ! pos = (?a, ?i)"
    using assms(3) t position_rows_nth by simp_all
  have da: "row_of (account_rows s) d = Some ?a \<longleftrightarrow> d = doc"
    using row_of_distinct [OF accounts.rows_distinct [OF assms(1)] a(1)] a(2) row_of_Some [of "account_rows s" d] by auto
  have di: "row_of (instrument_rows s) x = Some ?i \<longleftrightarrow> x = ext"
    using row_of_distinct [OF instrs.rows_distinct [OF assms(1)] i(1)] i(2) row_of_Some [of "instrument_rows s" x] by auto
  have dp: "row_of (position_rows s) k = Some pos \<longleftrightarrow> k = (?a, ?i)" for k
    using row_of_distinct [OF positions.rows_distinct [OF assms(1)] p(1)] p(2) row_of_Some [of "position_rows s" k] by auto
  have rows: "account_rows s' = account_rows s" "instrument_rows s' = instrument_rows s" "position_rows s' = position_rows s"
    using assms(2) by (simp_all add: same_rows_def)
  have upd: "buckets_row (custody s') r = (if r = pos then b else buckets_row (custody s) r)"
    if "row_of (position_rows s) k = Some r" for k r
    using row_of_Some [OF that] assms(4) t by simp
  show ?thesis
  proof (cases "d = doc \<and> x = ext")
    case True
    then have "row_of (account_rows s) d = Some ?a" "row_of (instrument_rows s) x = Some ?i"
      "row_of (position_rows s) (?a, ?i) = Some pos" using da di dp by simp_all
    with True upd show ?thesis by (simp add: position_book_def rows)
  next
    case False
    then have "row_of (position_rows s) (a, i) \<noteq> Some pos"
      if "row_of (account_rows s) d = Some a" "row_of (instrument_rows s) x = Some i" for a i
      using that da di dp by auto
    with False upd show ?thesis unfolding position_book_def rows by (auto split: option.split)
  qed
qed

lemma cash_book_update:
  assumes "ps_inv s" and "account_rows s' = account_rows s" and "acct < ca_count (cash_ledger s)"
    and "\<forall>a<ca_count (cash_ledger s). balances_row (cash_ledger s') a = (if a = acct then b else balances_row (cash_ledger s) a)"
    and "doc = account_document s ! acct"
  shows "cash_book s' d = (if d = doc then b else cash_book s d)"
proof -
  have t: "tables_ok s" using assms(1) by (simp add: ps_inv_def)
  have a: "acct < length (account_rows s)" "account_rows s ! acct = doc"
    using assms(3,5) t by simp (simp add: account_rows_def assms(3,5))
  have da: "row_of (account_rows s) d = Some acct \<longleftrightarrow> d = doc"
    using row_of_distinct [OF accounts.rows_distinct [OF assms(1)] a(1)] a(2) row_of_Some [of "account_rows s" d] by auto
  have upd: "balances_row (cash_ledger s') r = (if r = acct then b else balances_row (cash_ledger s) r)"
    if "row_of (account_rows s) d = Some r" for r
    using row_of_Some [OF that] assms(4) t by simp
  show ?thesis unfolding cash_book_def assms(2) using upd da by (auto split: option.split)
qed

section \<open>Ledgers with the same rows\<close>

text \<open>A custody or cash ledger changed in its amounts only: same rows, same columns.\<close>

definition custody_like :: "CustodyLedger \<Rightarrow> CustodyLedger \<Rightarrow> bool" where
  "custody_like c c' \<longleftrightarrow> custody_shape c' \<and> cu_count c' = cu_count c \<and> cu_capacity c' = cu_capacity c
     \<and> cu_account c' = cu_account c \<and> cu_instrument c' = cu_instrument c"

definition cash_like :: "CashLedger \<Rightarrow> CashLedger \<Rightarrow> bool" where
  "cash_like c c' \<longleftrightarrow> cash_shape c' \<and> ca_count c' = ca_count c \<and> ca_capacity c' = ca_capacity c"

lemma custody_like_refl: "custody_shape c \<Longrightarrow> custody_like c c"
  by (simp add: custody_like_def)

lemma cash_like_refl: "cash_shape c \<Longrightarrow> cash_like c c"
  by (simp add: cash_like_def)

lemma custody_like_trans: "custody_like a b \<Longrightarrow> custody_like b c \<Longrightarrow> custody_like a c"
  by (simp add: custody_like_def)

lemma cash_like_trans: "cash_like a b \<Longrightarrow> cash_like b c \<Longrightarrow> cash_like a c"
  by (simp add: cash_like_def)

lemma ps_inv_shapes: "ps_inv s \<Longrightarrow> custody_shape (custody s) \<and> cash_shape (cash_ledger s) \<and> trades_shape (trades s)
    \<and> instruments_shape (instruments s) \<and> length (window s) = 3"
  by (simp add: ps_inv_def tables_ok_def)

lemma ps_inv_like:
  assumes "ps_inv s" and "custody_like (custody s) cu" and "cash_like (cash_ledger s) ca"
  shows "ps_inv (s\<lparr>custody := cu, cash_ledger := ca\<rparr>)"
  using assms unfolding ps_inv_def tables_ok_def indexes_ok_def refs_ok_def custody_like_def cash_like_def
  by (simp add: rows_defs)

lemma same_rows_like:
  assumes "custody_like (custody s) cu" and "cash_like (cash_ledger s) ca"
  shows "same_rows s (s\<lparr>custody := cu, cash_ledger := ca\<rparr>)"
  using assms by (simp add: same_rows_def rows_defs custody_like_def cash_like_def)

text \<open>I3 after an update of one row.\<close>

lemma i3_update:
  assumes "i3_ok s" and "cu_count (custody s') = cu_count (custody s)"
    and "\<forall>r<cu_count (custody s). buckets_row (custody s') r = (if r = pos then b else buckets_row (custody s) r)"
    and "bk_non_negative b"
  shows "i3_ok s'"
  using assms by (auto simp: i3_ok_def buckets_non_negative_row)

lemma i3_row: "i3_ok s \<Longrightarrow> r < cu_count (custody s) \<Longrightarrow> bk_non_negative (buckets_row (custody s) r)"
  by (simp add: i3_ok_def buckets_non_negative_row)

section \<open>Updating several rows\<close>

text \<open>The names of a row: the document of its account and the external number of its instrument.\<close>

definition doc_of :: "PartitionState \<Rightarrow> nat \<Rightarrow> u64" where
  "doc_of s r = account_document s ! (cu_account (custody s) ! r)"

definition ext_of :: "PartitionState \<Rightarrow> nat \<Rightarrow> u32" where
  "ext_of s r = external_id (instruments s) ! (cu_instrument (custody s) ! r)"

lemma position_book_none:
  assumes "ps_inv s" and "\<forall>r<cu_count (custody s). \<not> (doc_of s r = d \<and> ext_of s r = x)"
  shows "position_book s d x = zero_buckets"
proof -
  have t: "tables_ok s" using assms(1) by (simp add: ps_inv_def)
  have "row_of (position_rows s) (a, i) = None"
    if a: "row_of (account_rows s) d = Some a" and i: "row_of (instrument_rows s) x = Some i" for a i
  proof (rule ccontr)
    assume "row_of (position_rows s) (a, i) \<noteq> None"
    then obtain r where r: "row_of (position_rows s) (a, i) = Some r" by blast
    have lt: "r < cu_count (custody s)" using row_of_Some [OF r] t by simp
    have row: "cu_account (custody s) ! r = a" "cu_instrument (custody s) ! r = i"
      using row_of_Some [OF r] position_rows_nth [OF t lt] by simp_all
    have "account_document s ! a = d" "external_id (instruments s) ! i = x"
      using row_of_Some [OF a] row_of_Some [OF i] t by (auto simp: account_rows_def instrument_rows_def)
    with row have "doc_of s r = d \<and> ext_of s r = x" by (simp add: doc_of_def ext_of_def)
    with lt assms(2) show False by blast
  qed
  then show ?thesis by (auto simp: position_book_def split: option.split)
qed

lemma position_book_map:
  assumes "ps_inv s" and "ps_inv s'" and "cu_count (custody s') = cu_count (custody s)"
    and "\<forall>r<cu_count (custody s). doc_of s' r = doc_of s r \<and> ext_of s' r = ext_of s r
           \<and> buckets_row (custody s') r = F (doc_of s r) (ext_of s r) (buckets_row (custody s) r)"
    and "\<And>d x. \<forall>r<cu_count (custody s). \<not> (doc_of s r = d \<and> ext_of s r = x) \<Longrightarrow> F d x zero_buckets = zero_buckets"
  shows "position_book s' d x = F d x (position_book s d x)"
proof (cases "\<exists>r<cu_count (custody s). doc_of s r = d \<and> ext_of s r = x")
  case True
  then obtain r where r: "r < cu_count (custody s)" "doc_of s r = d" "ext_of s r = x" by blast
  then show ?thesis
    using position_book_row [OF assms(1) r(1)] position_book_row [OF assms(2), of r] assms(3,4)
    by (simp add: doc_of_def ext_of_def)
next
  case False
  then show ?thesis
    using position_book_none [OF assms(1), of d x] position_book_none [OF assms(2), of d x] assms(3,4,5) by auto
qed

lemma cash_book_none:
  assumes "ps_inv s" and "\<forall>a<ca_count (cash_ledger s). account_document s ! a \<noteq> d"
  shows "cash_book s d = zero_balances"
proof -
  have "row_of (account_rows s) d = None"
    using assms by (auto simp: row_of_None account_rows_def in_set_conv_nth)
  then show ?thesis by (simp add: cash_book_def)
qed

lemma cash_book_map:
  assumes "ps_inv s" and "ps_inv s'" and "ca_count (cash_ledger s') = ca_count (cash_ledger s)"
    and "\<forall>a<ca_count (cash_ledger s). account_document s' ! a = account_document s ! a
           \<and> balances_row (cash_ledger s') a = F (account_document s ! a) (balances_row (cash_ledger s) a)"
    and "\<And>d. \<forall>a<ca_count (cash_ledger s). account_document s ! a \<noteq> d \<Longrightarrow> F d zero_balances = zero_balances"
  shows "cash_book s' d = F d (cash_book s d)"
proof (cases "\<exists>a<ca_count (cash_ledger s). account_document s ! a = d")
  case True
  then obtain a where a: "a < ca_count (cash_ledger s)" "account_document s ! a = d" by blast
  then show ?thesis
    using cash_book_row [OF assms(1) a(1)] cash_book_row [OF assms(2), of a] assms(3,4) by auto
next
  case False
  then show ?thesis using cash_book_none [OF assms(1), of d] cash_book_none [OF assms(2), of d] assms(3,4,5) by auto
qed

text \<open>Two rows with the same names are the same row.\<close>

lemma row_names_inj:
  assumes "ps_inv s" and "r < cu_count (custody s)" and "r' < cu_count (custody s)"
    and "doc_of s r = doc_of s r'" and "ext_of s r = ext_of s r'"
  shows "r = r'"
proof -
  have t: "tables_ok s" using assms(1) by (simp add: ps_inv_def)
  let ?a = "\<lambda>r. cu_account (custody s) ! r" and ?i = "\<lambda>r. cu_instrument (custody s) ! r"
  have lt: "?a r < ca_count (cash_ledger s)" "?a r' < ca_count (cash_ledger s)"
    "?i r < in_count (instruments s)" "?i r' < in_count (instruments s)"
    using assms(1-3) by (simp_all add: ps_inv_def refs_ok_def)
  have d: "distinct (account_rows s)" "distinct (instrument_rows s)" "distinct (position_rows s)"
    using accounts.rows_distinct [OF assms(1)] instrs.rows_distinct [OF assms(1)] positions.rows_distinct [OF assms(1)] by simp_all
  have "account_rows s ! ?a r = account_rows s ! ?a r'" "instrument_rows s ! ?i r = instrument_rows s ! ?i r'"
    using assms(4,5) lt by (simp_all add: doc_of_def ext_of_def account_rows_def instrument_rows_def)
  then have "?a r = ?a r'" "?i r = ?i r'" using d(1,2) lt t by (simp_all add: nth_eq_iff_index_eq)
  then have "position_rows s ! r = position_rows s ! r'" using assms(2,3) t by (simp add: position_rows_nth)
  then show ?thesis using d(3) assms(2,3) t by (simp add: nth_eq_iff_index_eq)
qed

lemma account_names_inj:
  assumes "ps_inv s" and "a < ca_count (cash_ledger s)" and "b < ca_count (cash_ledger s)"
    and "account_document s ! a = account_document s ! b"
  shows "a = b"
proof -
  have t: "tables_ok s" using assms(1) by (simp add: ps_inv_def)
  have "account_rows s ! a = account_rows s ! b" using assms(2-4) by (simp add: account_rows_def)
  then show ?thesis using accounts.rows_distinct [OF assms(1)] assms(2,3) t by (simp add: nth_eq_iff_index_eq)
qed

end
