(* ===== verification/RV_Apply_Day.thy ===== *)
theory RV_Apply_Day
  imports RV_Apply_Base RV_Books
begin

text \<open>
  Event 1 of \<^verbatim>\<open>src/core/apply.cpp\<close>: \<^verbatim>\<open>DayOpened\<close> opens the day, rotates the settlement window
  (what left the window goes to the overdue buckets), rotates the idempotency sets by the date of
  the event and closes the finished trades.
\<close>

section \<open>The handler\<close>

text \<open>
  The loop over the three slots of a custody row: the new buy and sell buckets, and the two overdue
  columns, with what has been moved so far.
\<close>

primrec rotate_custody_slots ::
    "SettlementWindow \<Rightarrow> SettlementWindow \<Rightarrow> CustodyLedger \<Rightarrow> nat \<Rightarrow> nat list
     \<Rightarrow> Qty list \<times> Qty list \<times> Qty list \<times> Qty list \<Rightarrow> (Qty list \<times> Qty list \<times> Qty list \<times> Qty list) option" where
  "rotate_custody_slots nova antiga c i [] acc = Some acc"
| "rotate_custody_slots nova antiga c i (k # ks) acc =
     (case acc of (nb, ns, ob, os) \<Rightarrow>
      let b = pending_buy c ! (i * kSettlementSlots + k); v = pending_sell c ! (i * kSettlementSlots + k) in
      if b = 0 \<and> v = 0 then rotate_custody_slots nova antiga c i ks acc
      else let j = slot_of nova (antiga ! k) in
        if j = kNoSlot then
          do { ob' \<leftarrow> add_at ob i b; os' \<leftarrow> add_at os i v;
               rotate_custody_slots nova antiga c i ks (nb, ns, ob', os') }
        else
          do { nb' \<leftarrow> add_at nb j b; ns' \<leftarrow> add_at ns j v;
               rotate_custody_slots nova antiga c i ks (nb', ns', ob, os) })"

definition rotate_custody_row :: "SettlementWindow \<Rightarrow> SettlementWindow \<Rightarrow> nat \<Rightarrow> CustodyLedger \<Rightarrow> CustodyLedger option" where
  "rotate_custody_row nova antiga i c =
     (let base = i * kSettlementSlots in
      if \<not> list_ex (\<lambda>k. pending_buy c ! (base + k) \<noteq> 0 \<or> pending_sell c ! (base + k) \<noteq> 0) [0..<kSettlementSlots]
      then Some c
      else do {
        (nb, ns, ob, os) \<leftarrow> rotate_custody_slots nova antiga c i [0..<kSettlementSlots]
                              ([0, 0, 0], [0, 0, 0], overdue_buy c, overdue_sell c);
        Some (c\<lparr>pending_buy := set_slots (pending_buy c) i (nb ! 0) (nb ! 1) (nb ! 2),
                pending_sell := set_slots (pending_sell c) i (ns ! 0) (ns ! 1) (ns ! 2),
                overdue_buy := ob, overdue_sell := os\<rparr>)
      })"

primrec rotate_custody :: "SettlementWindow \<Rightarrow> SettlementWindow \<Rightarrow> nat list \<Rightarrow> CustodyLedger \<Rightarrow> CustodyLedger option" where
  "rotate_custody nova antiga [] c = Some c"
| "rotate_custody nova antiga (i # is) c =
     do { c' \<leftarrow> rotate_custody_row nova antiga i c; rotate_custody nova antiga is c' }"

primrec rotate_cash_slots ::
    "SettlementWindow \<Rightarrow> SettlementWindow \<Rightarrow> CashLedger \<Rightarrow> nat \<Rightarrow> nat list
     \<Rightarrow> Money list \<times> Money list \<Rightarrow> (Money list \<times> Money list) option" where
  "rotate_cash_slots nova antiga c i [] acc = Some acc"
| "rotate_cash_slots nova antiga c i (k # ks) acc =
     (case acc of (np, ov) \<Rightarrow>
      let p = pending c ! (i * kSettlementSlots + k) in
      if p = 0 then rotate_cash_slots nova antiga c i ks acc
      else let j = slot_of nova (antiga ! k) in
        if j = kNoSlot then
          do { ov' \<leftarrow> add_at ov i p; rotate_cash_slots nova antiga c i ks (np, ov') }
        else
          do { np' \<leftarrow> add_at np j p; rotate_cash_slots nova antiga c i ks (np', ov) })"

definition rotate_cash_row :: "SettlementWindow \<Rightarrow> SettlementWindow \<Rightarrow> nat \<Rightarrow> CashLedger \<Rightarrow> CashLedger option" where
  "rotate_cash_row nova antiga i c =
     (let base = i * kSettlementSlots in
      if \<not> list_ex (\<lambda>k. pending c ! (base + k) \<noteq> 0) [0..<kSettlementSlots] then Some c
      else do {
        (np, ov) \<leftarrow> rotate_cash_slots nova antiga c i [0..<kSettlementSlots] ([0, 0, 0], overdue c);
        Some (c\<lparr>pending := set_slots (pending c) i (np ! 0) (np ! 1) (np ! 2), overdue := ov\<rparr>)
      })"

primrec rotate_cash :: "SettlementWindow \<Rightarrow> SettlementWindow \<Rightarrow> nat list \<Rightarrow> CashLedger \<Rightarrow> CashLedger option" where
  "rotate_cash nova antiga [] c = Some c"
| "rotate_cash nova antiga (i # is) c =
     do { c' \<leftarrow> rotate_cash_row nova antiga i c; rotate_cash nova antiga is c' }"

definition day_opened :: "DayOpened \<Rightarrow> PartitionState \<Rightarrow> ApplyContext \<Rightarrow> HandlerResult" where
  "day_opened e s ctx =
     (let antiga = window s;
          nova = [dop_business_date e, dop_settle_d1 e, dop_settle_d2 e] in
      if date_empty (nova ! 0) then ret (fail InvalidArgument 0) s ctx
      else if \<not> date_empty (business_date s) \<and> nova ! 0 \<le> business_date s then
        ret (fail InvalidTransition (dop_business_date e)) s ctx
      else do {
        cu \<leftarrow> rotate_custody nova antiga [0..<cu_count (custody s)] (custody s);
        ca \<leftarrow> rotate_cash nova antiga [0..<ca_count (cash_ledger s)] (cash_ledger s);
        let s1 = s\<lparr>custody := cu, cash_ledger := ca, window := nova, business_date := nova ! 0,
                   prev_business_date := dop_prev_business_date e\<rparr>;
        let d = cp_idempotency_window_days (ps_cap s1);
        let s2 = s1\<lparr>applied_actions := maybe_rotate (applied_actions s1) (business_date s1) d,
                    applied_income := maybe_rotate (applied_income s1) (business_date s1) d\<rparr>;
        let (baixados, s3) = close_and_compact_trades s2;
        let ctx' = ctx\<lparr>cx_metrics :=
                     map_option (\<lambda>m. m\<lparr>trades_closed := trades_closed m + baixados\<rparr>) (cx_metrics ctx)\<rparr>;
        ret kOk s3 ctx'
      })"

definition apply_day_opened :: "Codec \<Rightarrow> PartitionState \<Rightarrow> EventView \<Rightarrow> ApplyContext \<Rightarrow> HandlerResult" where
  "apply_day_opened cd s ev ctx =
     (case decode 24 ev of
        Inl st \<Rightarrow> ret st s ctx
      | Inr bs \<Rightarrow> day_opened (rd_dop cd bs) s ctx)"

section \<open>The rotation conserves every position and every balance\<close>

text \<open>The sum of a list of three.\<close>

lemma sum3_update: "length xs = 3 \<Longrightarrow> j < 3 \<Longrightarrow> sum_list (xs[j := xs ! j + (d::int)]) = sum_list xs + d"
  by (simp add: sum_list_update_add)

lemma rotate_custody_slots_sum:
  assumes "rotate_custody_slots nova antiga c i ks (nb, ns, ob, os) = Some (nb', ns', ob', os')"
    and "length nova = 3" and "length nb = 3" and "length ns = 3" and "i < length ob" and "i < length os"
  shows "sum_list nb' + ob' ! i = sum_list nb + ob ! i + (\<Sum>k\<leftarrow>ks. pending_buy c ! (3 * i + k))"
    and "sum_list ns' + os' ! i = sum_list ns + os ! i + (\<Sum>k\<leftarrow>ks. pending_sell c ! (3 * i + k))"
    and "length nb' = 3" and "length ns' = 3" and "length ob' = length ob" and "length os' = length os"
    and "\<forall>j. j \<noteq> i \<longrightarrow> ob' ! j = ob ! j \<and> os' ! j = os ! j"
    and "ob' ! i = ob ! i + (\<Sum>k\<leftarrow>ks. if antiga ! k \<in> set nova then 0 else pending_buy c ! (3 * i + k))"
    and "os' ! i = os ! i + (\<Sum>k\<leftarrow>ks. if antiga ! k \<in> set nova then 0 else pending_sell c ! (3 * i + k))"
proof -
  have n3: "length nova < kNoSlot" using assms(2) by (simp add: kNoSlot_def sentinel32_def)
  have "sum_list nb' + ob' ! i = sum_list nb + ob ! i + (\<Sum>k\<leftarrow>ks. pending_buy c ! (3 * i + k))
    \<and> sum_list ns' + os' ! i = sum_list ns + os ! i + (\<Sum>k\<leftarrow>ks. pending_sell c ! (3 * i + k))
    \<and> length nb' = 3 \<and> length ns' = 3 \<and> length ob' = length ob \<and> length os' = length os
    \<and> (\<forall>j. j \<noteq> i \<longrightarrow> ob' ! j = ob ! j \<and> os' ! j = os ! j)
    \<and> ob' ! i = ob ! i + (\<Sum>k\<leftarrow>ks. if antiga ! k \<in> set nova then 0 else pending_buy c ! (3 * i + k))
    \<and> os' ! i = os ! i + (\<Sum>k\<leftarrow>ks. if antiga ! k \<in> set nova then 0 else pending_sell c ! (3 * i + k))"
    using assms
  proof (induction ks arbitrary: nb ns ob os)
    case Nil
    then show ?case by simp
  next
    case (Cons k ks)
    let ?b = "pending_buy c ! (3 * i + k)" and ?v = "pending_sell c ! (3 * i + k)"
    let ?j = "slot_of nova (antiga ! k)"
    consider (zero) "?b = 0" "?v = 0" | (late) "\<not> (?b = 0 \<and> ?v = 0)" "?j = kNoSlot"
      | (slot) "\<not> (?b = 0 \<and> ?v = 0)" "?j \<noteq> kNoSlot" by blast
    then show ?case
    proof cases
      case zero
      with Cons.prems Cons.IH [of nb ns ob os] show ?thesis by (simp add: slots3 mult.commute)
    next
      case late
      then have run: "rotate_custody_slots nova antiga c i ks
          (nb, ns, ob[i := ob ! i + ?b], os[i := os ! i + ?v]) = Some (nb', ns', ob', os')"
        using Cons.prems(1) by (auto simp: slots3 mult.commute Let_def bind_eq_Some_conv fx_simps)
      have "antiga ! k \<notin> set nova" using late(2) slot_of_cases(1) [OF n3] by auto
      with Cons.IH [OF run Cons.prems(2-4)] Cons.prems(5,6) show ?thesis by simp
    next
      case slot
      have j: "?j < 3" "antiga ! k \<in> set nova" using slot_of_cases(2) [OF n3 slot(2)] slot_of_cases(1) [OF n3] slot(2) assms(2) by auto
      have "rotate_custody_slots nova antiga c i ks
          (nb[?j := nb ! ?j + ?b], ns[?j := ns ! ?j + ?v], ob, os) = Some (nb', ns', ob', os')"
        using slot Cons.prems(1) by (auto simp: slots3 mult.commute Let_def bind_eq_Some_conv fx_simps)
      from Cons.IH [OF this Cons.prems(2)] Cons.prems(3-6) j show ?thesis by (simp add: sum3_update)
    qed
  qed
  then show "sum_list nb' + ob' ! i = sum_list nb + ob ! i + (\<Sum>k\<leftarrow>ks. pending_buy c ! (3 * i + k))"
    "sum_list ns' + os' ! i = sum_list ns + os ! i + (\<Sum>k\<leftarrow>ks. pending_sell c ! (3 * i + k))"
    "length nb' = 3" "length ns' = 3" "length ob' = length ob" "length os' = length os"
    "\<forall>j. j \<noteq> i \<longrightarrow> ob' ! j = ob ! j \<and> os' ! j = os ! j"
    "ob' ! i = ob ! i + (\<Sum>k\<leftarrow>ks. if antiga ! k \<in> set nova then 0 else pending_buy c ! (3 * i + k))"
    "os' ! i = os ! i + (\<Sum>k\<leftarrow>ks. if antiga ! k \<in> set nova then 0 else pending_sell c ! (3 * i + k))" by blast+
qed

lemma sum_list3: "length xs = 3 \<Longrightarrow> sum_list (xs :: int list) = xs ! 0 + xs ! 1 + xs ! 2"
  by (cases xs; cases "tl xs"; cases "tl (tl xs)") auto

text \<open>What a rotation of one row may change, and what it must keep.\<close>

definition rotated :: "CustodyLedger \<Rightarrow> CustodyLedger \<Rightarrow> bool" where
  "rotated c c' \<longleftrightarrow>
     c' = c\<lparr>pending_buy := pending_buy c', pending_sell := pending_sell c',
            overdue_buy := overdue_buy c', overdue_sell := overdue_sell c'\<rparr>
     \<and> length (pending_buy c') = length (pending_buy c) \<and> length (pending_sell c') = length (pending_sell c)
     \<and> length (overdue_buy c') = length (overdue_buy c) \<and> length (overdue_sell c') = length (overdue_sell c)
     \<and> (\<forall>j. today_sum c' j = today_sum c j \<and> projected_sum c' j = projected_sum c j)"

lemma rotated_refl: "rotated c c"
  by (simp add: rotated_def)

lemma rotated_fields:
  assumes "rotated c c'"
  shows "cu_count c' = cu_count c" "cu_capacity c' = cu_capacity c" "cu_account c' = cu_account c"
    "cu_instrument c' = cu_instrument c" "available c' = available c" "blocked c' = blocked c"
    "leftovers c' = leftovers c" "avg_price c' = avg_price c" "cu_flags c' = cu_flags c"
proof -
  have e: "c' = c\<lparr>pending_buy := pending_buy c', pending_sell := pending_sell c',
            overdue_buy := overdue_buy c', overdue_sell := overdue_sell c'\<rparr>"
    using assms by (simp add: rotated_def)
  show "cu_count c' = cu_count c" "cu_capacity c' = cu_capacity c" "cu_account c' = cu_account c"
    "cu_instrument c' = cu_instrument c" "available c' = available c" "blocked c' = blocked c"
    "leftovers c' = leftovers c" "avg_price c' = avg_price c" "cu_flags c' = cu_flags c"
    by (subst e, simp)+
qed

lemma rotated_shape: "rotated c c' \<Longrightarrow> custody_shape c' = custody_shape c"
  using rotated_fields [of c c'] by (simp add: custody_shape_def Let_def) (simp add: rotated_def)

lemma rotated_trans:
  assumes "rotated a b" and "rotated b c"
  shows "rotated a c"
proof -
  have "c = a\<lparr>pending_buy := pending_buy c, pending_sell := pending_sell c,
             overdue_buy := overdue_buy c, overdue_sell := overdue_sell c\<rparr>"
    using rotated_fields [OF assms(1)] rotated_fields [OF assms(2)] by (intro CustodyLedger.equality) simp_all
  with assms show ?thesis by (simp add: rotated_def)
qed

lemma rotate_custody_row_rotated:
  assumes "rotate_custody_row nova antiga i c = Some c'" and "custody_shape c" and "i < cu_count c"
    and "length nova = 3"
  shows "rotated c c'"
proof (cases "list_ex (\<lambda>k. pending_buy c ! (i * kSettlementSlots + k) \<noteq> 0
      \<or> pending_sell c ! (i * kSettlementSlots + k) \<noteq> 0) [0..<kSettlementSlots]")
  case False
  then have "c' = c" using assms(1) by (simp add: rotate_custody_row_def Let_def)
  then show ?thesis by (simp add: rotated_refl)
next
  case True
  with assms(1) obtain nb ns ob os where
    run: "rotate_custody_slots nova antiga c i [0..<kSettlementSlots]
        ([0, 0, 0], [0, 0, 0], overdue_buy c, overdue_sell c) = Some (nb, ns, ob, os)"
    and c': "c' = c\<lparr>pending_buy := set_slots (pending_buy c) i (nb ! 0) (nb ! 1) (nb ! 2),
                pending_sell := set_slots (pending_sell c) i (ns ! 0) (ns ! 1) (ns ! 2),
                overdue_buy := ob, overdue_sell := os\<rparr>"
    by (auto simp: rotate_custody_row_def Let_def bind_eq_Some_conv)
  have len: "i < length (overdue_buy c)" "i < length (overdue_sell c)"
    "3 * i + 2 < length (pending_buy c)" "3 * i + 2 < length (pending_sell c)"
    using assms(2,3) by (auto simp: custody_shape_def Let_def)
  note sums = rotate_custody_slots_sum [OF run assms(4) _ _ len(1,2)]
  have b: "nb ! 0 + nb ! 1 + nb ! 2 + ob ! i = slots_sum (pending_buy c) i + overdue_buy c ! i"
    using sums(1,3) sum_list3 [of nb] by (simp add: slots_sum_def slots3 numeral_3_eq_3)
  have v: "ns ! 0 + ns ! 1 + ns ! 2 + os ! i = slots_sum (pending_sell c) i + overdue_sell c ! i"
    using sums(2,4) sum_list3 [of ns] by (simp add: slots_sum_def slots3 numeral_3_eq_3)
  have "today_sum c' j = today_sum c j \<and> projected_sum c' j = projected_sum c j" for j
    using b v sums(7) by (auto simp: today_sum_def projected_sum_def c' slots_sum_set [OF len(3)] slots_sum_set [OF len(4)])
  with c' sums(5,6) show ?thesis by (simp add: rotated_def)
qed

lemma rotate_custody_rotated:
  assumes "rotate_custody nova antiga is c = Some c'" and "custody_shape c"
    and "\<forall>i\<in>set is. i < cu_count c" and "length nova = 3"
  shows "rotated c c'"
  using assms(1-3)
proof (induction "is" arbitrary: c)
  case Nil
  then show ?case by (simp add: rotated_refl)
next
  case (Cons i "is")
  then obtain c1 where c1: "rotate_custody_row nova antiga i c = Some c1" "rotate_custody nova antiga is c1 = Some c'"
    by (auto simp: bind_eq_Some_conv)
  have r: "rotated c c1" using rotate_custody_row_rotated [OF c1(1) Cons.prems(2) _ assms(4)] Cons.prems(3) by simp
  from Cons.IH [OF c1(2)] rotated_shape [OF r] rotated_fields(1) [OF r] Cons.prems(2,3)
  have "rotated c1 c'" by simp
  with r show ?case by (rule rotated_trans)
qed

section \<open>Each pending bucket keeps its date\<close>

text \<open>The pending amount of a row for one date: the sum over the slots that carry that date.\<close>

definition dated :: "DateYmd list \<Rightarrow> int list \<Rightarrow> DateYmd \<Rightarrow> int" where
  "dated w xs d = (\<Sum>k\<leftarrow>[0..<length w]. if w ! k = d then xs ! k else 0)"

lemma dated3: "length w = 3 \<Longrightarrow> dated w xs d =
    (if w ! 0 = d then xs ! 0 else 0) + (if w ! 1 = d then xs ! 1 else 0) + (if w ! 2 = d then xs ! 2 else 0)"
  by (simp add: dated_def upt_rec numeral_eq_Suc)

lemma dated_update:
  assumes "length w = 3" and "length xs = 3" and "j < 3"
  shows "dated w (xs[j := xs ! j + b]) d = dated w xs d + (if w ! j = d then b else 0)"
proof -
  consider "j = 0" | "j = 1" | "j = 2" using assms(3) by linarith
  then show ?thesis by cases (use assms in \<open>simp_all add: dated3 nth_list_update\<close>)
qed

lemma rotate_custody_slots_dated:
  assumes "rotate_custody_slots nova antiga c i ks (nb, ns, ob, os) = Some (nb', ns', ob', os')"
    and "length nova = 3" and "length nb = 3" and "length ns = 3" and "d \<in> set nova"
  shows "dated nova nb' d = dated nova nb d + (\<Sum>k\<leftarrow>ks. if antiga ! k = d then pending_buy c ! (3 * i + k) else 0)
       \<and> dated nova ns' d = dated nova ns d + (\<Sum>k\<leftarrow>ks. if antiga ! k = d then pending_sell c ! (3 * i + k) else 0)"
  using assms(1,3,4)
proof (induction ks arbitrary: nb ns ob os)
  case Nil
  then show ?case by simp
next
  case (Cons k ks)
  let ?b = "pending_buy c ! (3 * i + k)" and ?v = "pending_sell c ! (3 * i + k)"
  let ?j = "slot_of nova (antiga ! k)"
  have n3: "length nova < kNoSlot" using assms(2) by (simp add: kNoSlot_def sentinel32_def)
  consider (zero) "?b = 0" "?v = 0" | (late) "\<not> (?b = 0 \<and> ?v = 0)" "?j = kNoSlot"
    | (slot) "\<not> (?b = 0 \<and> ?v = 0)" "?j \<noteq> kNoSlot" by blast
  then show ?case
  proof cases
    case zero
    with Cons.prems Cons.IH [of nb ns ob os] show ?thesis by (simp add: slots3 mult.commute)
  next
    case late
    then have run: "rotate_custody_slots nova antiga c i ks
        (nb, ns, ob[i := ob ! i + ?b], os[i := os ! i + ?v]) = Some (nb', ns', ob', os')"
      using Cons.prems(1) by (auto simp: slots3 mult.commute Let_def bind_eq_Some_conv fx_simps)
    have "antiga ! k \<noteq> d" using late(2) slot_of_cases(1) [OF n3] assms(5) by auto
    with Cons.IH [OF run Cons.prems(2,3)] show ?thesis by simp
  next
    case slot
    have j: "?j < 3" "nova ! ?j = antiga ! k" using slot_of_cases(2) [OF n3 slot(2)] assms(2) by simp_all
    have run: "rotate_custody_slots nova antiga c i ks
        (nb[?j := nb ! ?j + ?b], ns[?j := ns ! ?j + ?v], ob, os) = Some (nb', ns', ob', os')"
      using slot Cons.prems(1) by (auto simp: slots3 mult.commute Let_def bind_eq_Some_conv fx_simps)
    from Cons.IH [OF run] Cons.prems(2,3) j show ?thesis by (simp add: dated_update [OF assms(2)])
  qed
qed

text \<open>The pending amount of a row whose date is not in the new window.\<close>

definition gone :: "DateYmd list \<Rightarrow> DateYmd list \<Rightarrow> int list \<Rightarrow> int" where
  "gone w w' xs = (\<Sum>k\<leftarrow>[0..<length w]. if w ! k \<in> set w' then 0 else xs ! k)"

lemma gone3: "length w = 3 \<Longrightarrow> gone w w' xs =
    (if w ! 0 \<in> set w' then 0 else xs ! 0) + (if w ! 1 \<in> set w' then 0 else xs ! 1) + (if w ! 2 \<in> set w' then 0 else xs ! 2)"
  by (simp add: gone_def upt_rec numeral_eq_Suc)

text \<open>
  A column of pending amounts moved from one window to the next: in row \<open>i\<close> every date of the new
  window keeps its amount, and what belongs to another date is added to the overdue column.
\<close>

definition reslotted :: "DateYmd list \<Rightarrow> DateYmd list \<Rightarrow> int list \<Rightarrow> int list \<Rightarrow> int list \<Rightarrow> int list \<Rightarrow> nat \<Rightarrow> bool" where
  "reslotted nova antiga col ov col' ov' i \<longleftrightarrow>
     (\<forall>d\<in>set nova. dated nova (row_slots col' i) d = dated antiga (row_slots col i) d)
     \<and> ov' ! i = ov ! i + gone antiga nova (row_slots col i)"

lemma reslotted_zero:
  assumes "length nova = 3" and "length antiga = 3" and "\<And>k. k < 3 \<Longrightarrow> col ! (3 * i + k) = 0"
  shows "reslotted nova antiga col ov col ov i"
  using assms(1,2) assms(3) [of 0] assms(3) [of 1] assms(3) [of 2] by (simp add: reslotted_def dated3 gone3 row_slots_def)

lemma reslottedI:
  assumes "length nova = 3" and "length antiga = 3" and "3 * i + 2 < length col"
    and "\<And>d. d \<in> set nova \<Longrightarrow> dated nova nb d = (\<Sum>k\<leftarrow>[0..<3]. if antiga ! k = d then col ! (3 * i + k) else 0)"
    and "ov' ! i = ov ! i + (\<Sum>k\<leftarrow>[0..<3]. if antiga ! k \<in> set nova then 0 else col ! (3 * i + k))"
  shows "reslotted nova antiga col ov (set_slots col i (nb ! 0) (nb ! 1) (nb ! 2)) ov' i"
proof -
  have "(\<Sum>k\<leftarrow>[0..<3]. if antiga ! k = d then col ! (3 * i + k) else 0) = dated antiga (row_slots col i) d" for d
    using assms(2) by (simp add: dated3 row_slots_def upt_rec numeral_eq_Suc)
  moreover have "(\<Sum>k\<leftarrow>[0..<3]. if antiga ! k \<in> set nova then 0 else col ! (3 * i + k)) = gone antiga nova (row_slots col i)"
    using assms(2) by (simp add: gone3 row_slots_def upt_rec numeral_eq_Suc)
  moreover have "dated nova [nb ! 0, nb ! 1, nb ! 2] d = dated nova nb d" for d using assms(1) by (simp add: dated3)
  ultimately show ?thesis using assms(4,5) by (simp add: reslotted_def row_slots_set [OF assms(3)])
qed

text \<open>Rows other than \<open>i\<close> are untouched; row \<open>i\<close> is re-slotted date by date.\<close>

definition custody_reslotted :: "DateYmd list \<Rightarrow> DateYmd list \<Rightarrow> CustodyLedger \<Rightarrow> CustodyLedger \<Rightarrow> nat \<Rightarrow> bool" where
  "custody_reslotted nova antiga c c' i \<longleftrightarrow>
     reslotted nova antiga (pending_buy c) (overdue_buy c) (pending_buy c') (overdue_buy c') i
     \<and> reslotted nova antiga (pending_sell c) (overdue_sell c) (pending_sell c') (overdue_sell c') i"

definition custody_row_kept :: "CustodyLedger \<Rightarrow> CustodyLedger \<Rightarrow> nat \<Rightarrow> bool" where
  "custody_row_kept c c' j \<longleftrightarrow>
     row_slots (pending_buy c') j = row_slots (pending_buy c) j \<and> row_slots (pending_sell c') j = row_slots (pending_sell c) j
     \<and> overdue_buy c' ! j = overdue_buy c ! j \<and> overdue_sell c' ! j = overdue_sell c ! j"

lemma custody_reslotted_kept:
  "custody_reslotted nova antiga c c1 i \<Longrightarrow> custody_row_kept c1 c2 i \<Longrightarrow> custody_reslotted nova antiga c c2 i"
  "custody_reslotted nova antiga c1 c2 i \<Longrightarrow> custody_row_kept c c1 i \<Longrightarrow> custody_reslotted nova antiga c c2 i"
  by (simp_all add: custody_reslotted_def custody_row_kept_def reslotted_def)

lemma rotate_custody_row_dated:
  assumes "rotate_custody_row nova antiga i c = Some c'" and "custody_shape c" and "i < cu_count c"
    and "length nova = 3" and "length antiga = 3"
  shows "custody_reslotted nova antiga c c' i" and "j \<noteq> i \<Longrightarrow> custody_row_kept c c' j"
proof -
  let ?any = "list_ex (\<lambda>k. pending_buy c ! (i * kSettlementSlots + k) \<noteq> 0
      \<or> pending_sell c ! (i * kSettlementSlots + k) \<noteq> 0) [0..<kSettlementSlots]"
  have len: "3 * i + 2 < length (pending_buy c)" "3 * i + 2 < length (pending_sell c)" "i < length (overdue_buy c)" "i < length (overdue_sell c)"
    using assms(2,3) by (auto simp: custody_shape_def Let_def)
  have "custody_reslotted nova antiga c c' i \<and> (j \<noteq> i \<longrightarrow> custody_row_kept c c' j)"
  proof (cases ?any)
    case False
    then have "c' = c" using assms(1) by (simp add: rotate_custody_row_def Let_def)
    moreover have "pending_buy c ! (3 * i + k) = 0" "pending_sell c ! (3 * i + k) = 0" if "k < 3" for k
      using False that by (auto simp: list_ex_iff slots3 mult.commute)
    ultimately show ?thesis using reslotted_zero [OF assms(4,5)] by (simp add: custody_reslotted_def custody_row_kept_def)
  next
    case True
    with assms(1) obtain nb ns ob os where
      run: "rotate_custody_slots nova antiga c i [0..<3]
          ([0, 0, 0], [0, 0, 0], overdue_buy c, overdue_sell c) = Some (nb, ns, ob, os)"
      and c': "pending_buy c' = set_slots (pending_buy c) i (nb ! 0) (nb ! 1) (nb ! 2)"
        "pending_sell c' = set_slots (pending_sell c) i (ns ! 0) (ns ! 1) (ns ! 2)" "overdue_buy c' = ob" "overdue_sell c' = os"
      by (auto simp: rotate_custody_row_def Let_def bind_eq_Some_conv slots3)
    note sums = rotate_custody_slots_sum [OF run assms(4) _ _ len(3,4)]
    have zero: "dated nova [0, 0, 0] d = 0" for d using assms(4) by (simp add: dated3)
    note dates = rotate_custody_slots_dated [OF run assms(4), simplified zero]
    have "custody_reslotted nova antiga c c' i" unfolding custody_reslotted_def c'
      by (intro conjI reslottedI [OF assms(4,5)]) (use len dates sums(8,9) in auto)
    then show ?thesis using sums(7) by (simp add: custody_row_kept_def c' row_slots_set [OF len(1)] row_slots_set [OF len(2)])
  qed
  then show "custody_reslotted nova antiga c c' i" "j \<noteq> i \<Longrightarrow> custody_row_kept c c' j" by blast+
qed

lemma rotate_custody_dated:
  assumes "rotate_custody nova antiga is c = Some c'" and "custody_shape c" and "distinct is"
    and "\<forall>i\<in>set is. i < cu_count c" and "length nova = 3" and "length antiga = 3"
  shows "(\<forall>i\<in>set is. custody_reslotted nova antiga c c' i) \<and> (\<forall>j. j \<notin> set is \<longrightarrow> custody_row_kept c c' j)"
  using assms(1-4)
proof (induction "is" arbitrary: c)
  case Nil
  then show ?case by (simp add: custody_row_kept_def)
next
  case (Cons i "is")
  then obtain c1 where c1: "rotate_custody_row nova antiga i c = Some c1" "rotate_custody nova antiga is c1 = Some c'"
    by (auto simp: bind_eq_Some_conv)
  have i: "i < cu_count c" "i \<notin> set is" using Cons.prems(3,4) by simp_all
  have r: "rotated c c1" by (rule rotate_custody_row_rotated [OF c1(1) Cons.prems(2) i(1) assms(5)])
  note row = rotate_custody_row_dated [OF c1(1) Cons.prems(2) i(1) assms(5,6)]
  from Cons.IH [OF c1(2)] rotated_shape [OF r] rotated_fields(1) [OF r] Cons.prems(2,3,4)
  have IH: "\<forall>i\<in>set is. custody_reslotted nova antiga c1 c' i" "\<forall>j. j \<notin> set is \<longrightarrow> custody_row_kept c1 c' j" by simp_all
  have "custody_reslotted nova antiga c c' k" if "k \<in> set (i # is)" for k
  proof (cases "k = i")
    case True
    then show ?thesis using custody_reslotted_kept(1) [OF row(1)] IH(2) i(2) by blast
  next
    case False
    then show ?thesis using that custody_reslotted_kept(2) [OF _ row(2)] IH(1) by auto
  qed
  moreover have "custody_row_kept c c' j" if "j \<notin> set (i # is)" for j
    using that row(2) [of j] IH(2) by (auto simp: custody_row_kept_def)
  ultimately show ?case by blast
qed

section \<open>Cash rotation\<close>

lemma rotate_cash_slots_sum:
  assumes "rotate_cash_slots nova antiga c i ks (np, ov) = Some (np', ov')"
    and "length nova = 3" and "length np = 3" and "i < length ov"
  shows "sum_list np' + ov' ! i = sum_list np + ov ! i + (\<Sum>k\<leftarrow>ks. pending c ! (3 * i + k))
       \<and> length np' = 3 \<and> length ov' = length ov \<and> (\<forall>j. j \<noteq> i \<longrightarrow> ov' ! j = ov ! j)
       \<and> (\<forall>d\<in>set nova. dated nova np' d = dated nova np d + (\<Sum>k\<leftarrow>ks. if antiga ! k = d then pending c ! (3 * i + k) else 0))
       \<and> ov' ! i = ov ! i + (\<Sum>k\<leftarrow>ks. if antiga ! k \<in> set nova then 0 else pending c ! (3 * i + k))"
  using assms(1,3,4)
proof (induction ks arbitrary: np ov)
  case Nil
  then show ?case by simp
next
  case (Cons k ks)
  let ?p = "pending c ! (3 * i + k)" and ?j = "slot_of nova (antiga ! k)"
  have n3: "length nova < kNoSlot" using assms(2) by (simp add: kNoSlot_def sentinel32_def)
  consider (zero) "?p = 0" | (late) "?p \<noteq> 0" "?j = kNoSlot" | (slot) "?p \<noteq> 0" "?j \<noteq> kNoSlot" by blast
  then show ?case
  proof cases
    case zero
    with Cons.prems Cons.IH [of np ov] show ?thesis by (simp add: slots3 mult.commute)
  next
    case late
    then have run: "rotate_cash_slots nova antiga c i ks (np, ov[i := ov ! i + ?p]) = Some (np', ov')"
      using Cons.prems(1) by (auto simp: slots3 mult.commute Let_def bind_eq_Some_conv fx_simps)
    have "antiga ! k \<notin> set nova" using late(2) slot_of_cases(1) [OF n3] by auto
    with Cons.IH [OF run Cons.prems(2)] Cons.prems(3) show ?thesis by auto
  next
    case slot
    have j: "?j < 3" "nova ! ?j = antiga ! k" "antiga ! k \<in> set nova"
      using slot_of_cases(2) [OF n3 slot(2)] slot_of_cases(1) [OF n3] slot(2) assms(2) by auto
    have run: "rotate_cash_slots nova antiga c i ks (np[?j := np ! ?j + ?p], ov) = Some (np', ov')"
      using slot Cons.prems(1) by (auto simp: slots3 mult.commute Let_def bind_eq_Some_conv fx_simps)
    from Cons.IH [OF run] Cons.prems(2,3) j show ?thesis by (simp add: sum3_update dated_update [OF assms(2)])
  qed
qed

definition cash_rotated :: "CashLedger \<Rightarrow> CashLedger \<Rightarrow> bool" where
  "cash_rotated c c' \<longleftrightarrow>
     cash c' = cash c \<and> income_receivable c' = income_receivable c \<and> ca_count c' = ca_count c
     \<and> ca_capacity c' = ca_capacity c \<and> length (pending c') = length (pending c)
     \<and> length (overdue c') = length (overdue c) \<and> (\<forall>j. cash_sum c' j = cash_sum c j)"

lemma cash_rotated_shape: "cash_rotated c c' \<Longrightarrow> cash_shape c' = cash_shape c"
  by (simp add: cash_rotated_def cash_shape_def)

lemma rotate_cash_row_rotated:
  assumes "rotate_cash_row nova antiga i c = Some c'" and "cash_shape c" and "i < ca_count c" and "length nova = 3"
  shows "cash_rotated c c'"
proof (cases "list_ex (\<lambda>k. pending c ! (i * kSettlementSlots + k) \<noteq> 0) [0..<kSettlementSlots]")
  case False
  then have "c' = c" using assms(1) by (simp add: rotate_cash_row_def Let_def)
  then show ?thesis by (simp add: cash_rotated_def)
next
  case True
  with assms(1) obtain np ov where
    run: "rotate_cash_slots nova antiga c i [0..<kSettlementSlots] ([0, 0, 0], overdue c) = Some (np, ov)"
    and c': "c' = c\<lparr>pending := set_slots (pending c) i (np ! 0) (np ! 1) (np ! 2), overdue := ov\<rparr>"
    by (auto simp: rotate_cash_row_def Let_def bind_eq_Some_conv)
  have len: "i < length (overdue c)" "3 * i + 2 < length (pending c)"
    using assms(2,3) by (auto simp: cash_shape_def Let_def)
  have l3: "length [0, 0, 0 :: int] = 3" by simp
  note sums = rotate_cash_slots_sum [OF run assms(4) l3 len(1)]
  have sum: "sum_list np + ov ! i = sum_list [0, 0, 0] + overdue c ! i + (\<Sum>k\<leftarrow>[0..<kSettlementSlots]. pending c ! (3 * i + k))"
    and np: "length np = 3" "length ov = length (overdue c)" "\<forall>j. j \<noteq> i \<longrightarrow> ov ! j = overdue c ! j" using sums by blast+
  have "np ! 0 + np ! 1 + np ! 2 + ov ! i = slots_sum (pending c) i + overdue c ! i"
    using sum sum_list3 [OF np(1)] by (simp add: slots_sum_def slots3 numeral_3_eq_3)
  then have "cash_sum c' j = cash_sum c j" for j
    using np(3) by (auto simp: cash_sum_def c' slots_sum_set [OF len(2)])
  with c' np(2) show ?thesis by (simp add: cash_rotated_def)
qed

lemma rotate_cash_rotated:
  assumes "rotate_cash nova antiga is c = Some c'" and "cash_shape c" and "\<forall>i\<in>set is. i < ca_count c"
    and "length nova = 3"
  shows "cash_rotated c c'"
  using assms(1-3)
proof (induction "is" arbitrary: c)
  case Nil
  then show ?case by (simp add: cash_rotated_def)
next
  case (Cons i "is")
  then obtain c1 where c1: "rotate_cash_row nova antiga i c = Some c1" "rotate_cash nova antiga is c1 = Some c'"
    by (auto simp: bind_eq_Some_conv)
  have r: "cash_rotated c c1" using rotate_cash_row_rotated [OF c1(1) Cons.prems(2) _ assms(4)] Cons.prems(3) by simp
  from Cons.IH [OF c1(2)] cash_rotated_shape [OF r] r Cons.prems(2,3) have "cash_rotated c1 c'"
    by (simp add: cash_rotated_def)
  with r show ?case by (simp add: cash_rotated_def)
qed

text \<open>The money of an account keeps its dates too.\<close>

definition cash_reslotted :: "DateYmd list \<Rightarrow> DateYmd list \<Rightarrow> CashLedger \<Rightarrow> CashLedger \<Rightarrow> nat \<Rightarrow> bool" where
  "cash_reslotted nova antiga c c' i \<longleftrightarrow> reslotted nova antiga (pending c) (overdue c) (pending c') (overdue c') i"

definition cash_row_kept :: "CashLedger \<Rightarrow> CashLedger \<Rightarrow> nat \<Rightarrow> bool" where
  "cash_row_kept c c' j \<longleftrightarrow> row_slots (pending c') j = row_slots (pending c) j \<and> overdue c' ! j = overdue c ! j"

lemma cash_reslotted_kept:
  "cash_reslotted nova antiga c c1 i \<Longrightarrow> cash_row_kept c1 c2 i \<Longrightarrow> cash_reslotted nova antiga c c2 i"
  "cash_reslotted nova antiga c1 c2 i \<Longrightarrow> cash_row_kept c c1 i \<Longrightarrow> cash_reslotted nova antiga c c2 i"
  by (simp_all add: cash_reslotted_def cash_row_kept_def reslotted_def)

lemma rotate_cash_row_dated:
  assumes "rotate_cash_row nova antiga i c = Some c'" and "cash_shape c" and "i < ca_count c"
    and "length nova = 3" and "length antiga = 3"
  shows "cash_reslotted nova antiga c c' i" and "j \<noteq> i \<Longrightarrow> cash_row_kept c c' j"
proof -
  have len: "i < length (overdue c)" "3 * i + 2 < length (pending c)" using assms(2,3) by (auto simp: cash_shape_def Let_def)
  have "cash_reslotted nova antiga c c' i \<and> (j \<noteq> i \<longrightarrow> cash_row_kept c c' j)"
  proof (cases "list_ex (\<lambda>k. pending c ! (i * kSettlementSlots + k) \<noteq> 0) [0..<kSettlementSlots]")
    case False
    then have "c' = c" using assms(1) by (simp add: rotate_cash_row_def Let_def)
    moreover have "pending c ! (3 * i + k) = 0" if "k < 3" for k using False that by (auto simp: list_ex_iff slots3 mult.commute)
    ultimately show ?thesis using reslotted_zero [OF assms(4,5)] by (simp add: cash_reslotted_def cash_row_kept_def)
  next
    case True
    with assms(1) obtain np ov where run: "rotate_cash_slots nova antiga c i [0..<3] ([0, 0, 0], overdue c) = Some (np, ov)"
      and c': "pending c' = set_slots (pending c) i (np ! 0) (np ! 1) (np ! 2)" "overdue c' = ov"
      by (auto simp: rotate_cash_row_def Let_def bind_eq_Some_conv slots3)
    have zero: "dated nova [0, 0, 0] d = 0" for d using assms(4) by (simp add: dated3)
    note sums = rotate_cash_slots_sum [OF run assms(4) _ len(1), simplified zero]
    have "cash_reslotted nova antiga c c' i" unfolding cash_reslotted_def c'
      by (intro reslottedI [OF assms(4,5) len(2)]) (use sums in auto)
    then show ?thesis using sums by (simp add: cash_row_kept_def c' row_slots_set [OF len(2)])
  qed
  then show "cash_reslotted nova antiga c c' i" "j \<noteq> i \<Longrightarrow> cash_row_kept c c' j" by blast+
qed

lemma rotate_cash_dated:
  assumes "rotate_cash nova antiga is c = Some c'" and "cash_shape c" and "distinct is"
    and "\<forall>i\<in>set is. i < ca_count c" and "length nova = 3" and "length antiga = 3"
  shows "(\<forall>i\<in>set is. cash_reslotted nova antiga c c' i) \<and> (\<forall>j. j \<notin> set is \<longrightarrow> cash_row_kept c c' j)"
  using assms(1-4)
proof (induction "is" arbitrary: c)
  case Nil
  then show ?case by (simp add: cash_row_kept_def)
next
  case (Cons i "is")
  then obtain c1 where c1: "rotate_cash_row nova antiga i c = Some c1" "rotate_cash nova antiga is c1 = Some c'"
    by (auto simp: bind_eq_Some_conv)
  have i: "i < ca_count c" "i \<notin> set is" using Cons.prems(3,4) by simp_all
  have r: "cash_rotated c c1" by (rule rotate_cash_row_rotated [OF c1(1) Cons.prems(2) i(1) assms(5)])
  note row = rotate_cash_row_dated [OF c1(1) Cons.prems(2) i(1) assms(5,6)]
  have "ca_count c1 = ca_count c" using r by (simp add: cash_rotated_def)
  with Cons.IH [OF c1(2)] cash_rotated_shape [OF r] Cons.prems(2,3,4)
  have IH: "\<forall>i\<in>set is. cash_reslotted nova antiga c1 c' i" "\<forall>j. j \<notin> set is \<longrightarrow> cash_row_kept c1 c' j" by simp_all
  have "cash_reslotted nova antiga c c' k" if "k \<in> set (i # is)" for k
  proof (cases "k = i")
    case True
    then show ?thesis using cash_reslotted_kept(1) [OF row(1)] IH(2) i(2) by blast
  next
    case False
    then show ?thesis using that cash_reslotted_kept(2) [OF _ row(2)] IH(1) by auto
  qed
  moreover have "cash_row_kept c c' j" if "j \<notin> set (i # is)" for j
    using that row(2) [of j] IH(2) by (auto simp: cash_row_kept_def)
  ultimately show ?case by blast
qed

section \<open>The handler as a whole\<close>

text \<open>The window of the event, and the state between the rotations and the closing of trades.\<close>

definition event_window :: "DayOpened \<Rightarrow> SettlementWindow" where
  "event_window e = [dop_business_date e, dop_settle_d1 e, dop_settle_d2 e]"

definition day_mid :: "DayOpened \<Rightarrow> PartitionState \<Rightarrow> CustodyLedger \<Rightarrow> CashLedger \<Rightarrow> PartitionState" where
  "day_mid e s cu ca =
     s\<lparr>custody := cu, cash_ledger := ca, window := event_window e,
       business_date := dop_business_date e, prev_business_date := dop_prev_business_date e,
       applied_actions := maybe_rotate (applied_actions s) (dop_business_date e) (cp_idempotency_window_days (ps_cap s)),
       applied_income := maybe_rotate (applied_income s) (dop_business_date e) (cp_idempotency_window_days (ps_cap s))\<rparr>"

lemma day_opened_cases:
  assumes "day_opened e s ctx = Some (st, s', ctx')"
  obtains (rejected) "s' = s" "ctx' = ctx" "code st = InvalidArgument \<or> code st = InvalidTransition"
  | (opened) cu ca b where "st = kOk"
      "rotate_custody (event_window e) (window s) [0..<cu_count (custody s)] (custody s) = Some cu"
      "rotate_cash (event_window e) (window s) [0..<ca_count (cash_ledger s)] (cash_ledger s) = Some ca"
      "close_and_compact_trades (day_mid e s cu ca) = (b, s')"
      "business_date s = 0 \<or> business_date s < dop_business_date e"
proof (cases "date_empty (dop_business_date e)
    \<or> \<not> date_empty (business_date s) \<and> dop_business_date e \<le> business_date s")
  case True
  then have "s' = s" "ctx' = ctx" "code st = InvalidArgument \<or> code st = InvalidTransition"
    using assms by (auto simp: day_opened_def Let_def ret_def split: if_splits)
  then show ?thesis by (rule rejected)
next
  case False
  then obtain cu ca where cu: "rotate_custody (event_window e) (window s) [0..<cu_count (custody s)] (custody s) = Some cu"
    and ca: "rotate_cash (event_window e) (window s) [0..<ca_count (cash_ledger s)] (cash_ledger s) = Some ca"
    using assms by (auto simp: day_opened_def Let_def event_window_def bind_eq_Some_conv split: if_splits)
  obtain b s3 where cl: "close_and_compact_trades (day_mid e s cu ca) = (b, s3)"
    by (cases "close_and_compact_trades (day_mid e s cu ca)")
  have "st = kOk \<and> s' = s3"
    using assms False cu ca cl unfolding day_opened_def Let_def ret_def event_window_def day_mid_def
    by (cases "date_empty (business_date s)") simp_all
  with cu ca cl False show ?thesis by (intro opened [of cu ca b]) (auto simp: date_empty_def)
qed

lemma day_mid_inv:
  assumes "ps_inv s" and "rotated (custody s) cu" and "cash_rotated (cash_ledger s) ca"
  shows "ps_inv (day_mid e s cu ca)"
proof -
  have "ca_count ca = ca_count (cash_ledger s)" "ca_capacity ca = ca_capacity (cash_ledger s)"
    using assms(3) by (simp_all add: cash_rotated_def)
  then show ?thesis
    using assms(1) rotated_fields [OF assms(2)] rotated_shape [OF assms(2)] cash_rotated_shape [OF assms(3)] maybe_rotate_inv
    unfolding ps_inv_def tables_ok_def indexes_ok_def refs_ok_def
    by (simp add: rows_defs day_mid_def event_window_def)
qed

text \<open>Everything an accepted \<^verbatim>\<open>DayOpened\<close> does, in one place.\<close>

lemma day_opened_effect:
  assumes "ps_inv s" and "day_opened e s ctx = Some (st, s', ctx')" and "is_ok st"
  shows "ps_inv s'" and "rotated (custody s) (custody s')" and "cash_rotated (cash_ledger s) (cash_ledger s')"
    and "trade_list (trades s') = filter (\<lambda>r. \<not> row_finished (window s') r) (trade_list (trades s))"
    and "window s' = event_window e" and "business_date s' = dop_business_date e"
    and "business_date s = 0 \<or> business_date s < business_date s'"
    and "rotate_custody (event_window e) (window s) [0..<cu_count (custody s)] (custody s) = Some (custody s')"
    and "applied_actions s' = maybe_rotate (applied_actions s) (dop_business_date e) (cp_idempotency_window_days (ps_cap s))"
    and "applied_income s' = maybe_rotate (applied_income s) (dop_business_date e) (cp_idempotency_window_days (ps_cap s))"
    and "rotate_cash (event_window e) (window s) [0..<ca_count (cash_ledger s)] (cash_ledger s) = Some (cash_ledger s')"
    and "account_document s' = account_document s"
proof -
  from assms(2) obtain cu ca b where
    cu: "rotate_custody (event_window e) (window s) [0..<cu_count (custody s)] (custody s) = Some cu"
    and ca: "rotate_cash (event_window e) (window s) [0..<ca_count (cash_ledger s)] (cash_ledger s) = Some ca"
    and cl: "close_and_compact_trades (day_mid e s cu ca) = (b, s')"
    and date: "business_date s = 0 \<or> business_date s < dop_business_date e"
    using assms(3) by (cases rule: day_opened_cases) (auto simp: is_ok_def)
  have r: "rotated (custody s) cu"
    by (rule rotate_custody_rotated [OF cu])
      (use assms(1) in \<open>simp_all add: ps_inv_def tables_ok_def event_window_def\<close>)
  have rc: "cash_rotated (cash_ledger s) ca"
    by (rule rotate_cash_rotated [OF ca])
      (use assms(1) in \<open>simp_all add: ps_inv_def tables_ok_def event_window_def\<close>)
  note cc = close_and_compact_spec [OF day_mid_inv [OF assms(1) r rc] cl]
  from cc(6) have f: "custody s' = cu" "cash_ledger s' = ca" "window s' = event_window e"
    "business_date s' = dop_business_date e"
    "applied_actions s' = maybe_rotate (applied_actions s) (dop_business_date e) (cp_idempotency_window_days (ps_cap s))"
    "applied_income s' = maybe_rotate (applied_income s) (dop_business_date e) (cp_idempotency_window_days (ps_cap s))"
    "account_document s' = account_document s"
    by (auto simp: day_mid_def)
  show "ps_inv s'" "rotated (custody s) (custody s')" "cash_rotated (cash_ledger s) (cash_ledger s')"
    "window s' = event_window e" "business_date s' = dop_business_date e"
    "business_date s = 0 \<or> business_date s < business_date s'"
    "rotate_custody (event_window e) (window s) [0..<cu_count (custody s)] (custody s) = Some (custody s')"
    "applied_actions s' = maybe_rotate (applied_actions s) (dop_business_date e) (cp_idempotency_window_days (ps_cap s))"
    "applied_income s' = maybe_rotate (applied_income s) (dop_business_date e) (cp_idempotency_window_days (ps_cap s))"
    "rotate_cash (event_window e) (window s) [0..<ca_count (cash_ledger s)] (cash_ledger s) = Some (cash_ledger s')"
    "account_document s' = account_document s"
    using cc(3) r rc f date cu ca by simp_all
  show "trade_list (trades s') = filter (\<lambda>r. \<not> row_finished (window s') r) (trade_list (trades s))"
    using cc(1) f(3) by (simp add: day_mid_def)
qed

lemma day_opened_inv:
  assumes "ps_inv s" and "day_opened e s ctx = Some (st, s', ctx')"
  shows "ps_inv s'"
  using assms(2)
proof (cases rule: day_opened_cases)
  case rejected
  with assms(1) show ?thesis by simp
next
  case opened
  with day_opened_effect(1) [OF assms] show ?thesis by (simp add: is_ok_def)
qed

section \<open>The rotation keeps I3\<close>

lemma list_all_add_at: "list_all (\<lambda>x. 0 \<le> x) xs \<Longrightarrow> 0 \<le> (d :: int) \<Longrightarrow> list_all (\<lambda>x. 0 \<le> x) (xs[j := xs ! j + d])"
  by (cases "j < length xs") (auto simp: list_all_length nth_list_update)

lemma list_all3: "list_all P xs \<Longrightarrow> length xs = 3 \<Longrightarrow> P (xs ! 0) \<and> P (xs ! 1) \<and> P (xs ! 2)"
  by (simp add: list_all_length)

lemma rotate_custody_slots_non_negative:
  assumes "rotate_custody_slots nova antiga c i ks (nb, ns, ob, os) = Some (nb', ns', ob', os')"
    and "\<forall>k\<in>set ks. 0 \<le> pending_buy c ! (3 * i + k) \<and> 0 \<le> pending_sell c ! (3 * i + k)"
    and "list_all (\<lambda>x. 0 \<le> x) nb" and "list_all (\<lambda>x. 0 \<le> x) ns" and "0 \<le> ob ! i" and "0 \<le> os ! i"
    and "i < length ob" and "i < length os"
  shows "list_all (\<lambda>x. 0 \<le> x) nb' \<and> list_all (\<lambda>x. 0 \<le> x) ns' \<and> 0 \<le> ob' ! i \<and> 0 \<le> os' ! i"
  using assms
proof (induction ks arbitrary: nb ns ob os)
  case Nil
  then show ?case by simp
next
  case (Cons k ks)
  let ?b = "pending_buy c ! (3 * i + k)" and ?v = "pending_sell c ! (3 * i + k)"
  let ?j = "slot_of nova (antiga ! k)"
  have nn: "0 \<le> ?b" "0 \<le> ?v" "\<forall>k\<in>set ks. 0 \<le> pending_buy c ! (3 * i + k) \<and> 0 \<le> pending_sell c ! (3 * i + k)"
    using Cons.prems(2) by simp_all
  consider (zero) "?b = 0" "?v = 0" | (late) "\<not> (?b = 0 \<and> ?v = 0)" "?j = kNoSlot"
    | (slot) "\<not> (?b = 0 \<and> ?v = 0)" "?j \<noteq> kNoSlot" by blast
  then show ?case
  proof cases
    case zero
    with Cons.prems Cons.IH [of nb ns ob os] show ?thesis by (simp add: slots3 mult.commute)
  next
    case late
    then have "rotate_custody_slots nova antiga c i ks
        (nb, ns, ob[i := ob ! i + ?b], os[i := os ! i + ?v]) = Some (nb', ns', ob', os')"
      using Cons.prems(1) by (auto simp: slots3 mult.commute Let_def bind_eq_Some_conv fx_simps)
    from Cons.IH [OF this nn(3) Cons.prems(3,4)] Cons.prems(5-8) nn show ?thesis by simp
  next
    case slot
    then have "rotate_custody_slots nova antiga c i ks
        (nb[?j := nb ! ?j + ?b], ns[?j := ns ! ?j + ?v], ob, os) = Some (nb', ns', ob', os')"
      using Cons.prems(1) by (auto simp: slots3 mult.commute Let_def bind_eq_Some_conv fx_simps)
    from Cons.IH [OF this nn(3) list_all_add_at [OF Cons.prems(3) nn(1)] list_all_add_at [OF Cons.prems(4) nn(2)] Cons.prems(5-8)]
    show ?thesis .
  qed
qed

lemma rotate_custody_row_non_negative:
  assumes "rotate_custody_row nova antiga i c = Some c'" and "custody_shape c" and "i < cu_count c" and "length nova = 3"
    and "buckets_non_negative c j" and "j < cu_count c"
  shows "buckets_non_negative c' j"
proof -
  let ?any = "list_ex (\<lambda>k. pending_buy c ! (i * kSettlementSlots + k) \<noteq> 0
      \<or> pending_sell c ! (i * kSettlementSlots + k) \<noteq> 0) [0..<kSettlementSlots]"
  have len: "3 * i + 2 < length (pending_buy c)" "3 * i + 2 < length (pending_sell c)" "i < length (overdue_buy c)" "i < length (overdue_sell c)"
    using assms(2,3) by (auto simp: custody_shape_def Let_def)
  show ?thesis
  proof (cases ?any)
    case False
    then show ?thesis using assms(1,5) by (simp add: rotate_custody_row_def Let_def)
  next
    case True
    with assms(1) obtain nb ns ob os where
      run: "rotate_custody_slots nova antiga c i [0..<3] ([0, 0, 0], [0, 0, 0], overdue_buy c, overdue_sell c) = Some (nb, ns, ob, os)"
      and c': "c' = c\<lparr>pending_buy := set_slots (pending_buy c) i (nb ! 0) (nb ! 1) (nb ! 2),
                pending_sell := set_slots (pending_sell c) i (ns ! 0) (ns ! 1) (ns ! 2), overdue_buy := ob, overdue_sell := os\<rparr>"
      by (auto simp: rotate_custody_row_def Let_def bind_eq_Some_conv slots3)
    note sums = rotate_custody_slots_sum [OF run assms(4) _ _ len(3,4)]
    show ?thesis
    proof (cases "j = i")
      case True
      have "list_all (\<lambda>x. 0 \<le> x) nb \<and> list_all (\<lambda>x. 0 \<le> x) ns \<and> 0 \<le> ob ! i \<and> 0 \<le> os ! i"
        by (rule rotate_custody_slots_non_negative [OF run]) (use assms(5) True len in \<open>auto simp: buckets_non_negative_iff\<close>)
      moreover have "length nb = 3" "length ns = 3" using sums(3,4) by simp_all
      ultimately have nn: "0 \<le> nb ! 0" "0 \<le> nb ! 1" "0 \<le> nb ! 2" "0 \<le> ns ! 0" "0 \<le> ns ! 1" "0 \<le> ns ! 2" "0 \<le> ob ! i" "0 \<le> os ! i"
        using list_all3 [of "\<lambda>x. 0 \<le> x" nb] list_all3 [of "\<lambda>x. 0 \<le> x" ns] by simp_all
      show ?thesis using assms(5) nn len True
        by (simp add: buckets_non_negative_iff c' set_slots_def nth_list_update slots3 mult.commute [of _ 3] all_less_3)
    next
      case False
      have ne: "3 * j + k \<noteq> 3 * i" "3 * j + k \<noteq> 3 * i + 1" "3 * j + k \<noteq> 3 * i + 2" if "k < 3" for k
        using that False by presburger+
      show ?thesis using assms(5) False sums(7) ne
        by (simp add: buckets_non_negative_iff c' set_slots_def nth_list_update slots3 mult.commute [of _ 3])
    qed
  qed
qed

lemma rotate_custody_non_negative:
  assumes "rotate_custody nova antiga is c = Some c'" and "custody_shape c" and "\<forall>i\<in>set is. i < cu_count c" and "length nova = 3"
    and "\<forall>j<cu_count c. buckets_non_negative c j"
  shows "\<forall>j<cu_count c. buckets_non_negative c' j"
  using assms(1-3,5)
proof (induction "is" arbitrary: c)
  case Nil
  then show ?case by simp
next
  case (Cons i "is")
  then obtain c1 where c1: "rotate_custody_row nova antiga i c = Some c1" "rotate_custody nova antiga is c1 = Some c'"
    by (auto simp: bind_eq_Some_conv)
  have i: "i < cu_count c" using Cons.prems(3) by simp
  have r: "rotated c c1" by (rule rotate_custody_row_rotated [OF c1(1) Cons.prems(2) i assms(4)])
  have "\<forall>j<cu_count c1. buckets_non_negative c1 j"
    using rotate_custody_row_non_negative [OF c1(1) Cons.prems(2) i assms(4)] Cons.prems(4) rotated_fields(1) [OF r] by simp
  with Cons.IH [OF c1(2)] rotated_shape [OF r] rotated_fields(1) [OF r] Cons.prems(2,3) show ?case by simp
qed

lemma day_opened_keeps:
  assumes "ps_inv s" and "day_opened e s ctx = Some (st, s', ctx')"
  shows "i3_ok s \<Longrightarrow> i3_ok s'" and "lists_ok s \<Longrightarrow> lists_ok s'" and "code st \<noteq> StateCorrupt" and "\<not> is_ok st \<Longrightarrow> s' = s"
proof -
  have "(i3_ok s \<longrightarrow> i3_ok s') \<and> (lists_ok s \<longrightarrow> lists_ok s') \<and> code st \<noteq> StateCorrupt \<and> (\<not> is_ok st \<longrightarrow> s' = s)"
    using assms(2)
  proof (cases rule: day_opened_cases)
    case rejected
    then show ?thesis by auto
  next
    case (opened cu ca b)
    have ok: "is_ok st" using opened(1) by (simp add: is_ok_def)
    note eff = day_opened_effect [OF assms ok]
    have sh: "custody_shape (custody s)" using assms(1) by (simp add: ps_inv_def tables_ok_def)
    have "i3_ok s'" if "i3_ok s"
      using rotate_custody_non_negative [OF eff(8) sh] that rotated_fields(1) [OF eff(2)]
      by (simp add: i3_ok_def event_window_def)
    moreover have "lists_ok s'" if "lists_ok s"
    proof -
      have r: "rotated (custody s) cu" "cash_rotated (cash_ledger s) ca"
        using rotate_custody_rotated [OF opened(2) sh] rotate_cash_rotated [OF opened(3)] assms(1)
        by (simp_all add: event_window_def ps_inv_def tables_ok_def)
      note cc = close_and_compact_spec(4,5) [OF day_mid_inv [OF assms(1) r] opened(4)]
      have "lists_ok (day_mid e s cu ca)" using that r(2) by (simp add: day_mid_def lists_ok_def cash_rotated_def)
      then show ?thesis using cc by (cases "b = 0") simp_all
    qed
    ultimately show ?thesis using opened(1) ok by (simp add: is_ok_def)
  qed
  then show "i3_ok s \<Longrightarrow> i3_ok s'" "lists_ok s \<Longrightarrow> lists_ok s'" "code st \<noteq> StateCorrupt" "\<not> is_ok st \<Longrightarrow> s' = s" by blast+
qed

end
