(* ===== verification/RV_Apply_Trade.thy ===== *)
theory RV_Apply_Trade
  imports RV_Apply_Base RV_Books
begin

text \<open>
  Events 2 and 3 of \<^verbatim>\<open>src/core/apply.cpp\<close>: \<^verbatim>\<open>TradeExecuted\<close> books a trade (pending buckets,
  reserved sale, pending cash, a row of the trade table in front of its account's list) and
  \<^verbatim>\<open>TradeAllocated\<close> fixes its owner, moving the buckets when the owner changes.

  The lemmas describe both on the books: what one event does to one position and one account, that
  everything else stays, that a rejected event leaves the books as they were, and that the checks
  made before the mutation keep I3, so that the check after it cannot fire.
\<close>

section \<open>TradeExecuted\<close>

text \<open>\<^verbatim>\<open>financeiro\<close>: what the trade costs or brings, with its sign.\<close>

definition trade_cash :: "bool \<Rightarrow> Money \<Rightarrow> Money \<Rightarrow> Money option" where
  "trade_cash compra bruto custos =
     (if compra then do { t \<leftarrow> fx_add bruto custos; fx_neg t } else fx_sub bruto custos)"

definition book_custody :: "bool \<Rightarrow> bool \<Rightarrow> nat \<Rightarrow> nat \<Rightarrow> Qty \<Rightarrow> CustodyLedger \<Rightarrow> CustodyLedger option" where
  "book_custody compra descoberto_ok pos slot qty c =
     (if compra then do {
        pb \<leftarrow> add_at (pending_buy c) (pos * kSettlementSlots + slot) qty;
        Some (c\<lparr>pending_buy := pb\<rparr>)
      } else do {
        av \<leftarrow> sub_at (available c) pos qty;
        ps \<leftarrow> add_at (pending_sell c) (pos * kSettlementSlots + slot) qty;
        Some (c\<lparr>available := av, pending_sell := ps,
                cu_flags := (if descoberto_ok then (cu_flags c)[pos := cu_flags c ! pos OR kShortAllowed]
                             else cu_flags c)\<rparr>)
      })"

text \<open>A new row at the end of the trade table, linked in front of \<open>primeiro\<close>.\<close>

definition append_trade :: "TradeTable \<Rightarrow> TradeRow \<Rightarrow> nat \<Rightarrow> TradeTable" where
  "append_trade tb r primeiro =
     (let t = tr_count tb in
      tb\<lparr>trade_id := (trade_id tb)[t := row_id r], broker_note_id := (broker_note_id tb)[t := row_note r],
         tr_account := (tr_account tb)[t := row_account r],
         tr_instrument := (tr_instrument tb)[t := row_instrument r], tr_qty := (tr_qty tb)[t := row_qty r],
         tr_price := (tr_price tb)[t := row_price r], tr_cash := (tr_cash tb)[t := row_cash r],
         settlement_date := (settlement_date tb)[t := row_date r], tr_side := (tr_side tb)[t := row_side r],
         tr_state := (tr_state tb)[t := row_state r],
         next_of_account := (next_of_account tb)[t := primeiro], tr_count := t + 1\<rparr>)"

definition executed_row :: "TradeExecuted \<Rightarrow> nat \<Rightarrow> nat \<Rightarrow> Money \<Rightarrow> TradeRow" where
  "executed_row e acct inst financeiro =
     \<lparr>row_id = tex_trade_id e, row_note = tex_broker_note_id e, row_account = acct, row_instrument = inst,
      row_qty = tex_qty e, row_price = tex_price e, row_cash = financeiro,
      row_date = tex_settlement_date e, row_side = tex_side e, row_state = next_state TsNone TgExecute\<rparr>"

definition compra_of :: "TradeExecuted \<Rightarrow> bool" where
  "compra_of e \<longleftrightarrow> tex_side e = Side_Buy"

definition descoberto_of :: "TradeExecuted \<Rightarrow> bool" where
  "descoberto_of e \<longleftrightarrow> tex_flags e AND 2 \<noteq> 0"

text \<open>Everything below the comment "daqui para baixo, muta", up to the check of I3.\<close>

definition book_trade :: "TradeExecuted \<Rightarrow> nat \<Rightarrow> nat \<Rightarrow> nat \<Rightarrow> nat \<Rightarrow> Money \<Rightarrow> Money \<Rightarrow> PartitionState \<Rightarrow> PartitionState option" where
  "book_trade e acct inst pos slot bruto custos s =
     do {
       financeiro \<leftarrow> trade_cash (compra_of e) bruto custos;
       cu \<leftarrow> book_custody (compra_of e) (descoberto_of e) pos slot (tex_qty e) (custody s);
       pe \<leftarrow> add_at (pending (cash_ledger s)) (acct * kSettlementSlots + slot) financeiro;
       let t = tr_count (trades s);
       Some (s\<lparr>custody := cu, cash_ledger := (cash_ledger s)\<lparr>pending := pe\<rparr>,
               trades := append_trade (trades s) (executed_row e acct inst financeiro)
                           (account_first_trade s ! acct),
               account_first_trade := (account_first_trade s)[acct := t],
               trade_index := snd (snd (insert_or_get (trade_index s) (tex_trade_id e) t))\<rparr>)
     }"

definition trade_executed :: "bool \<Rightarrow> TradeExecuted \<Rightarrow> PartitionState \<Rightarrow> EventView \<Rightarrow> ApplyContext \<Rightarrow> HandlerResult" where
  "trade_executed dbg e s ev ctx =
     (if tr_count (trades s) \<ge> tr_capacity (trades s) then ret (fail ArenaExhausted 0) s ctx
      else if di_contains (trade_index s) (tex_trade_id e) then ret (fail AlreadyApplied 0) s ctx
      else case intern_account s (tex_account e) of (acct, s1) \<Rightarrow>
      if acct = kEmpty then ret (fail ArenaExhausted 0) s1 ctx
      else case intern_instrument s1 (tex_instrument e) of (inst, s2) \<Rightarrow>
      if inst = kEmpty then ret (fail ArenaExhausted 0) s2 ctx
      else if price_factor (instruments s2) ! inst = 0 then
        ret (fail InstrumentNotDescribed (tex_instrument e)) s2 ctx
      else let slot = slot_of (window s2) (tex_settlement_date e) in
      if slot = kNoSlot then ret (fail OutsideSettlementWindow (tex_settlement_date e)) s2 ctx
      else case intern_position s2 acct inst of (pos, s3) \<Rightarrow>
      if pos = kEmpty then ret (fail ArenaExhausted 0) s3 ctx
      else if tex_qty e \<le> 0 \<or> \<not> qty_in_range (tex_qty e) then ret (fail Overflow (tex_instrument e)) s3 ctx
      else if \<not> price_in_range (tex_price e) then ret (fail Overflow (tex_instrument e)) s3 ctx
      else if \<not> list_all money_in_range [tex_brokerage_fee e, tex_exchange_fee e, tex_clearing_fee e, tex_taxes e]
        then ret (fail Overflow (tex_instrument e)) s3 ctx
      else do {
        bruto \<leftarrow> notional_half_even (tex_qty e) (tex_price e) (price_factor (instruments s3) ! inst);
        case fees_of e of
          None \<Rightarrow> ret (fail Overflow (tex_instrument e)) s3 ctx
        | Some custos \<Rightarrow>
            if \<not> compra_of e \<and> \<not> descoberto_of e \<and> available (custody s3) ! pos < tex_qty e then
              ret (fail ShortSaleNotAllowed (of_nat pos)) s3 ctx
            else do {
              s4 \<leftarrow> book_trade e acct inst pos slot bruto custos s3;
              rv_check dbg (buckets_non_negative (custody s4) pos) s4 ctx (publish_ret s4 ctx ev pos)
            }
      })"

definition apply_trade_executed :: "bool \<Rightarrow> Codec \<Rightarrow> PartitionState \<Rightarrow> EventView \<Rightarrow> ApplyContext \<Rightarrow> HandlerResult" where
  "apply_trade_executed dbg cd s ev ctx =
     (case decode 88 ev of
        Inl st \<Rightarrow> ret st s ctx
      | Inr bs \<Rightarrow> trade_executed dbg (rd_tex cd bs) s ev ctx)"

section \<open>TradeAllocated\<close>

text \<open>The buckets that move from \<open>pos_de\<close> to \<open>pos_para\<close>.\<close>

definition move_custody :: "bool \<Rightarrow> nat \<Rightarrow> nat \<Rightarrow> nat \<Rightarrow> Qty \<Rightarrow> CustodyLedger \<Rightarrow> CustodyLedger option" where
  "move_custody compra pos_de pos_para slot q c =
     (let k_de = pos_de * kSettlementSlots + slot; k_para = pos_para * kSettlementSlots + slot in
      if compra then do {
        b1 \<leftarrow> sub_at (pending_buy c) k_de q;
        b2 \<leftarrow> add_at b1 k_para q;
        Some (c\<lparr>pending_buy := b2\<rparr>)
      } else do {
        v1 \<leftarrow> sub_at (pending_sell c) k_de q;
        v2 \<leftarrow> add_at v1 k_para q;
        a1 \<leftarrow> add_at (available c) pos_de q;
        a2 \<leftarrow> sub_at a1 pos_para q;
        Some (c\<lparr>pending_sell := v2, available := a2\<rparr>)
      })"

text \<open>The checks made before any mutation; \<open>None\<close> when the move is allowed.\<close>

definition move_refused :: "bool \<Rightarrow> nat \<Rightarrow> nat \<Rightarrow> nat \<Rightarrow> Qty \<Rightarrow> CustodyLedger \<Rightarrow> Status option" where
  "move_refused compra pos_de pos_para slot q c =
     (let k_de = pos_de * kSettlementSlots + slot in
      if compra then
        (if pending_buy c ! k_de < q then Some (fail QtyMismatch (of_nat pos_de)) else None)
      else if pending_sell c ! k_de < q then Some (fail QtyMismatch (of_nat pos_de))
      else if cu_flags c ! pos_para AND kShortAllowed = 0 \<and> available c ! pos_para < q then
        Some (fail ShortSaleNotAllowed (of_nat pos_para))
      else None)"

text \<open>The trade changes owner: out of the list of \<open>de\<close>, in front of the list of \<open>para\<close>.\<close>

definition relink_trade :: "PartitionState \<Rightarrow> nat \<Rightarrow> nat \<Rightarrow> nat \<Rightarrow> PartitionState option" where
  "relink_trade s de para t =
     do {
       (_, s1) \<leftarrow> unlink_trade s de t;
       let tb = trades s1;
       Some (s1\<lparr>trades := tb\<lparr>tr_account := (tr_account tb)[t := para],
                              next_of_account := (next_of_account tb)[t := account_first_trade s1 ! para]\<rparr>,
                account_first_trade := (account_first_trade s1)[para := t]\<rparr>)
     }"

definition move_cash :: "nat \<Rightarrow> nat \<Rightarrow> nat \<Rightarrow> Money \<Rightarrow> CashLedger \<Rightarrow> CashLedger option" where
  "move_cash de para slot dinheiro c =
     do {
       p1 \<leftarrow> sub_at (pending c) (de * kSettlementSlots + slot) dinheiro;
       p2 \<leftarrow> add_at p1 (para * kSettlementSlots + slot) dinheiro;
       Some (c\<lparr>pending := p2\<rparr>)
     }"

definition move_trade :: "TradeAllocated \<Rightarrow> nat \<Rightarrow> nat \<Rightarrow> nat \<Rightarrow> nat \<Rightarrow> nat \<Rightarrow> nat \<Rightarrow> PartitionState \<Rightarrow> PartitionState option" where
  "move_trade e t de para pos_de pos_para slot s =
     do {
       cu \<leftarrow> move_custody (tal_side e = Side_Buy) pos_de pos_para slot (tal_qty e) (custody s);
       ca \<leftarrow> move_cash de para slot (tal_cash_amount e) (cash_ledger s);
       relink_trade (s\<lparr>custody := cu, cash_ledger := ca\<rparr>) de para t
     }"

definition set_trade_state :: "PartitionState \<Rightarrow> nat \<Rightarrow> TradeState \<Rightarrow> PartitionState" where
  "set_trade_state s t st = s\<lparr>trades := (trades s)\<lparr>tr_state := (tr_state (trades s))[t := st]\<rparr>\<rparr>"

definition trade_allocated :: "bool \<Rightarrow> TradeAllocated \<Rightarrow> PartitionState \<Rightarrow> ApplyContext \<Rightarrow> HandlerResult" where
  "trade_allocated dbg e s ctx =
     (let t = di_find (trade_index s) (tal_trade_id e) in
      if t = kEmpty then ret (fail NotFound (ucast (tal_trade_id e))) s ctx
      else let proximo = next_state (tr_state (trades s) ! t) TgAllocate in
      if proximo = TsNone then ret (fail InvalidTransition (of_nat (ts_code (tr_state (trades s) ! t)))) s ctx
      else case intern_account s (tal_from_account e) of (de, s1) \<Rightarrow>
      case intern_account s1 (tal_to_account e) of (para, s2) \<Rightarrow>
      if de = kEmpty \<or> para = kEmpty then ret (fail ArenaExhausted 0) s2 ctx
      else let inst = tr_instrument (trades s2) ! t; slot = slot_of (window s2) (tal_settlement_date e) in
      if slot = kNoSlot then ret (fail OutsideSettlementWindow (tal_settlement_date e)) s2 ctx
      else if tal_qty e \<noteq> tr_qty (trades s2) ! t then ret (fail QtyMismatch (ucast (tal_trade_id e))) s2 ctx
      else if de = para then ret kOk (set_trade_state s2 t proximo) ctx
      else case intern_position s2 de inst of (pos_de, s3) \<Rightarrow>
      case intern_position s3 para inst of (pos_para, s4) \<Rightarrow>
      if pos_de = kEmpty \<or> pos_para = kEmpty then ret (fail ArenaExhausted 0) s4 ctx
      else case move_refused (tal_side e = Side_Buy) pos_de pos_para slot (tal_qty e) (custody s4) of
        Some st \<Rightarrow> ret st s4 ctx
      | None \<Rightarrow> do {
          s5 \<leftarrow> move_trade e t de para pos_de pos_para slot s4;
          rv_check dbg (buckets_non_negative (custody s5) pos_de) s5 ctx
            (rv_check dbg (buckets_non_negative (custody s5) pos_para) s5 ctx
              (ret kOk (set_trade_state s5 t proximo) ctx))
        })"

definition apply_trade_allocated :: "bool \<Rightarrow> Codec \<Rightarrow> PartitionState \<Rightarrow> EventView \<Rightarrow> ApplyContext \<Rightarrow> HandlerResult" where
  "apply_trade_allocated dbg cd s ev ctx =
     (case decode 64 ev of
        Inl st \<Rightarrow> ret st s ctx
      | Inr bs \<Rightarrow> trade_allocated dbg (rd_tal cd bs) s ctx)"

section \<open>Booking a trade, on the books\<close>

text \<open>What an execution does to the buckets of its position.\<close>

definition exec_buckets :: "bool \<Rightarrow> bool \<Rightarrow> nat \<Rightarrow> Qty \<Rightarrow> Buckets \<Rightarrow> Buckets" where
  "exec_buckets compra desc slot q b =
     (if compra then b\<lparr>bk_buy := (bk_buy b)[slot := bk_buy b ! slot + q]\<rparr>
      else b\<lparr>bk_available := bk_available b - q, bk_sell := (bk_sell b)[slot := bk_sell b ! slot + q],
             bk_flags := (if desc then bk_flags b OR kShortAllowed else bk_flags b)\<rparr>)"

definition pend_cash :: "nat \<Rightarrow> Money \<Rightarrow> Balances \<Rightarrow> Balances" where
  "pend_cash slot m b = b\<lparr>bl_pending := (bl_pending b)[slot := bl_pending b ! slot + m]\<rparr>"

lemma book_custody_rows:
  assumes "book_custody compra desc pos slot q c = Some c'" and "custody_shape c" and "pos < cu_count c" and "slot < 3"
  shows "custody_like c c'"
    and "buckets_row c' r = (if r = pos then exec_buckets compra desc slot q (buckets_row c r) else buckets_row c r)"
proof -
  have len: "3 * pos + slot < length (pending_buy c)" "3 * pos + slot < length (pending_sell c)"
    "pos < length (available c)" "pos < length (cu_flags c)"
    using assms(2-4) by (auto simp: custody_shape_def Let_def)
  show "custody_like c c'"
    using assms(1,2) by (auto simp: book_custody_def fx_simps bind_eq_Some_conv custody_like_def custody_shape_def
        Let_def split: if_splits)
  show "buckets_row c' r = (if r = pos then exec_buckets compra desc slot q (buckets_row c r) else buckets_row c r)"
    using assms(1,4) len
    by (auto simp: book_custody_def fx_simps bind_eq_Some_conv buckets_row_def exec_buckets_def slots3 mult.commute [of pos]
        row_slots_update row_slots_nth nth_list_update split: if_splits)
qed

lemma pend_cash_rows:
  assumes "add_at (pending c) (acct * kSettlementSlots + slot) m = Some pe" and "cash_shape c" and "acct < ca_count c" and "slot < 3"
  shows "cash_like c (c\<lparr>pending := pe\<rparr>)"
    and "balances_row (c\<lparr>pending := pe\<rparr>) a = (if a = acct then pend_cash slot m (balances_row c a) else balances_row c a)"
proof -
  have len: "3 * acct + slot < length (pending c)" using assms(2-4) by (auto simp: cash_shape_def Let_def)
  show "cash_like c (c\<lparr>pending := pe\<rparr>)"
    using assms(1,2) by (auto simp: fx_simps cash_like_def cash_shape_def Let_def)
  show "balances_row (c\<lparr>pending := pe\<rparr>) a = (if a = acct then pend_cash slot m (balances_row c a) else balances_row c a)"
    using assms(1,4) len by (auto simp: fx_simps balances_row_def pend_cash_def slots3 mult.commute [of acct] row_slots_update row_slots_nth)
qed

lemma kShortAllowed_set [simp]: "kShortAllowed \<noteq> 0"
  by (simp add: kShortAllowed_def)

lemma list_all_update: "list_all P xs \<Longrightarrow> P v \<Longrightarrow> list_all P (xs[i := v])"
  by (auto simp: list_all_iff dest: set_update_subset_insert [THEN subsetD])

lemma exec_non_negative:
  assumes "bk_non_negative b" and "0 \<le> q" and "compra \<or> desc \<or> q \<le> bk_available b"
    and "slot < length (bk_buy b)" and "slot < length (bk_sell b)"
  shows "bk_non_negative (exec_buckets compra desc slot q b)"
proof -
  have "0 \<le> bk_buy b ! slot + q" "0 \<le> bk_sell b ! slot + q"
    using assms by (auto simp: bk_non_negative_def list_all_length)
  with assms show ?thesis
    by (auto simp: bk_non_negative_def exec_buckets_def intro!: list_all_update)
qed

section \<open>Appending a row to the trade table\<close>

lemma append_trade_shape [simp]:
  "tr_count (append_trade tb r p) = Suc (tr_count tb)" "tr_capacity (append_trade tb r p) = tr_capacity tb"
  by (simp_all add: append_trade_def Let_def)

lemma append_trade_row:
  assumes "trades_shape tb" and "tr_count tb < tr_capacity tb"
  shows "trades_shape (append_trade tb r p)"
    and "trade_row (append_trade tb r p) j = (if j = tr_count tb then r else trade_row tb j)"
    and "trade_list (append_trade tb r p) = trade_list tb @ [r]"
proof -
  show "trades_shape (append_trade tb r p)" using assms by (simp add: append_trade_def trades_shape_def Let_def)
  show row: "trade_row (append_trade tb r p) j = (if j = tr_count tb then r else trade_row tb j)" for j
    using assms by (simp add: append_trade_def trade_row_def trades_shape_def Let_def nth_list_update)
  show "trade_list (append_trade tb r p) = trade_list tb @ [r]" by (simp add: trade_list_def row)
qed

lemma append_trade_lists:
  assumes "ps_inv s" and "lists_ok s" and "tr_count (trades s) < tr_capacity (trades s)"
    and "acct < ca_count (cash_ledger s)" and "row_account r = acct"
    and "trades s' = append_trade (trades s) r (account_first_trade s ! acct)"
    and "account_first_trade s' = (account_first_trade s)[acct := tr_count (trades s)]"
    and "ca_count (cash_ledger s') = ca_count (cash_ledger s)"
  shows "lists_ok s'"
  unfolding lists_ok_def
proof (intro allI impI)
  fix a assume a: "a < ca_count (cash_ledger s')"
  let ?t = "tr_count (trades s)"
  have t: "tables_ok s" using assms(1) by (simp add: ps_inv_def)
  have len: "?t < length (next_of_account (trades s))" "?t < length (tr_account (trades s))" "?t \<noteq> kNil"
    "acct < length (account_first_trade s)"
    using t assms(3,4) by (auto simp: tables_ok_def shape_defs kNil_def kEmpty_def)
  obtain xs where xs: "lseg (next_of_account (trades s)) (account_first_trade s ! a) xs" "distinct xs"
    "set xs = trades_of (trades s) a" using assms(2,8) a by (auto simp: lists_ok_def)
  have fresh: "?t \<notin> set xs" using xs(3) by (auto simp: trades_of_def)
  have nx: "next_of_account (trades s') = (next_of_account (trades s))[?t := account_first_trade s ! acct]"
    and ac: "tr_account (trades s') = (tr_account (trades s))[?t := acct]"
    using assms(5,6) by (simp_all add: append_trade_def Let_def)
  have of': "trades_of (trades s') b = (if b = acct then insert ?t (trades_of (trades s) b) else trades_of (trades s) b)" for b
    using len(2) by (auto simp: trades_of_def assms(6) append_trade_def Let_def assms(5) nth_list_update less_Suc_eq)
  have seg: "lseg (next_of_account (trades s')) (account_first_trade s ! a) xs"
    using xs(1) fresh by (simp add: nx lseg_update)
  show "\<exists>xs. lseg (next_of_account (trades s')) (account_first_trade s' ! a) xs \<and> distinct xs
      \<and> set xs = trades_of (trades s') a"
  proof (cases "a = acct")
    case True
    with seg xs fresh len show ?thesis by (intro exI [of _ "?t # xs"]) (simp add: assms(7) of' nx)
  next
    case False
    with seg xs show ?thesis by (intro exI [of _ xs]) (simp add: assms(7) of')
  qed
qed

section \<open>TradeExecuted as a whole\<close>

lemma fresh_trade:
  assumes "ps_inv s" and "\<not> di_contains (trade_index s) k" and "tr_count (trades s) < tr_capacity (trades s)"
  shows "k \<notin> set (trade_rows s)"
    and "indexed (snd (snd (insert_or_get (trade_index s) k (tr_count (trades s))))) (trade_rows s @ [k])"
    and "di_cap (snd (snd (insert_or_get (trade_index s) k (tr_count (trades s))))) = di_cap (trade_index s)"
proof -
  have t: "tables_ok s" and ix: "indexed (trade_index s) (trade_rows s)"
    and lim: "tr_capacity (trades s) \<le> load_limit (di_cap (trade_index s))"
    using assms(1) by (simp_all add: ps_inv_def indexes_ok_def)
  have len: "length (trade_rows s) = tr_count (trades s)" "tr_capacity (trades s) < kEmpty"
    using t by (simp_all add: tables_ok_def)
  show new: "k \<notin> set (trade_rows s)"
  proof
    assume "k \<in> set (trade_rows s)"
    then obtain i where i: "i < length (trade_rows s)" "trade_rows s ! i = k" by (auto simp: in_set_conv_nth)
    then have "di_find (trade_index s) k = i"
      using indexed_known(2) [OF ix i(1)] len assms(3) by simp
    with i len assms(2,3) show False by (simp add: di_contains_def)
  qed
  from indexed_fresh [OF ix new] len lim assms(3)
  show "indexed (snd (snd (insert_or_get (trade_index s) k (tr_count (trades s))))) (trade_rows s @ [k])"
    "di_cap (snd (snd (insert_or_get (trade_index s) k (tr_count (trades s))))) = di_cap (trade_index s)" by auto
qed

text \<open>The state after the mutation of \<^verbatim>\<open>TradeExecuted\<close>, described field by field.\<close>

lemma book_trade_fields:
  assumes "book_trade e acct inst pos slot bruto custos s = Some s'"
  obtains m cu pe where "trade_cash (compra_of e) bruto custos = Some m"
    "book_custody (compra_of e) (descoberto_of e) pos slot (tex_qty e) (custody s) = Some cu"
    "add_at (pending (cash_ledger s)) (acct * kSettlementSlots + slot) m = Some pe"
    "s' = s\<lparr>custody := cu, cash_ledger := (cash_ledger s)\<lparr>pending := pe\<rparr>,
            trades := append_trade (trades s) (executed_row e acct inst m) (account_first_trade s ! acct),
            account_first_trade := (account_first_trade s)[acct := tr_count (trades s)],
            trade_index := snd (snd (insert_or_get (trade_index s) (tex_trade_id e) (tr_count (trades s))))\<rparr>"
  using assms by (auto simp: book_trade_def bind_eq_Some_conv Let_def)

text \<open>What moving money and shares leaves alone: who the accounts are, the instruments, the applied actions.\<close>

definition names_frame :: "PartitionState \<Rightarrow> PartitionState \<Rightarrow> bool" where
  "names_frame s s' \<longleftrightarrow> account_document s' = account_document s \<and> instruments s' = instruments s
     \<and> applied_actions s' = applied_actions s \<and> ca_count (cash_ledger s') = ca_count (cash_ledger s)"

lemma book_trade_spec:
  assumes "ps_inv s" and "book_trade e acct inst pos slot bruto custos s = Some s'"
    and "acct < ca_count (cash_ledger s)" and "account_document s ! acct = tex_account e"
    and "inst < in_count (instruments s)" and "external_id (instruments s) ! inst = tex_instrument e"
    and "pos < cu_count (custody s)" and "cu_account (custody s) ! pos = acct" and "cu_instrument (custody s) ! pos = inst"
    and "slot < 3" and "\<not> di_contains (trade_index s) (tex_trade_id e)" and "tr_count (trades s) < tr_capacity (trades s)"
  shows "ps_inv s'" and "lists_ok s \<Longrightarrow> lists_ok s'"
    and "position_book s' d x = (if d = tex_account e \<and> x = tex_instrument e
           then exec_buckets (compra_of e) (descoberto_of e) slot (tex_qty e) (position_book s d x) else position_book s d x)"
    and "\<exists>m. trade_cash (compra_of e) bruto custos = Some m
           \<and> (\<forall>d. cash_book s' d = (if d = tex_account e then pend_cash slot m (cash_book s d) else cash_book s d))
           \<and> trade_list (trades s') = trade_list (trades s) @ [executed_row e acct inst m]"
    and "\<forall>r<cu_count (custody s). buckets_row (custody s') r
           = (if r = pos then exec_buckets (compra_of e) (descoberto_of e) slot (tex_qty e) (buckets_row (custody s) r)
              else buckets_row (custody s) r)"
    and "cu_count (custody s') = cu_count (custody s)" and "names_frame s s'"
proof -
  from assms(2) obtain m cu pe where m: "trade_cash (compra_of e) bruto custos = Some m"
    and cu: "book_custody (compra_of e) (descoberto_of e) pos slot (tex_qty e) (custody s) = Some cu"
    and pe: "add_at (pending (cash_ledger s)) (acct * kSettlementSlots + slot) m = Some pe"
    and s': "s' = s\<lparr>custody := cu, cash_ledger := (cash_ledger s)\<lparr>pending := pe\<rparr>,
            trades := append_trade (trades s) (executed_row e acct inst m) (account_first_trade s ! acct),
            account_first_trade := (account_first_trade s)[acct := tr_count (trades s)],
            trade_index := snd (snd (insert_or_get (trade_index s) (tex_trade_id e) (tr_count (trades s))))\<rparr>"
    by (rule book_trade_fields)
  note sh = ps_inv_shapes [OF assms(1)]
  note cul = book_custody_rows [OF cu _ assms(7,10)] and cal = pend_cash_rows [OF pe _ assms(3,10)]
  have like: "custody_like (custody s) cu" "cash_like (cash_ledger s) ((cash_ledger s)\<lparr>pending := pe\<rparr>)"
    using cul(1) cal(1) sh by simp_all
  let ?l = "s\<lparr>custody := cu, cash_ledger := (cash_ledger s)\<lparr>pending := pe\<rparr>\<rparr>"
  have l: "ps_inv ?l" by (rule ps_inv_like [OF assms(1) like])
  note tr = append_trade_row [of "trades s" "executed_row e acct inst m" "account_first_trade s ! acct", OF _ assms(12)]
  note fr = fresh_trade [OF assms(1,11,12)]
  have tid: "trade_rows s' = trade_rows s @ [tex_trade_id e]"
    using sh assms(12) by (simp add: s' trade_rows_def append_trade_def Let_def executed_row_def take_Suc_update trades_shape_def)
  have same: "same_rows s s'"
    using same_rows_like [OF like] by (simp add: s' same_rows_def rows_defs)
  have acs: "tr_account (trades s') = (tr_account (trades s))[tr_count (trades s) := acct]"
    "tr_instrument (trades s') = (tr_instrument (trades s))[tr_count (trades s) := inst]"
    by (simp_all add: s' append_trade_def Let_def executed_row_def)
  show "ps_inv s'"
  proof -
    have "tables_ok s'" using l tr(1) sh unfolding ps_inv_def tables_ok_def by (simp add: s')
    moreover have "indexes_ok s'"
      using l tid fr(2,3) same unfolding ps_inv_def indexes_ok_def same_rows_def by (simp add: s' rows_defs)
    moreover have "refs_ok s'"
      unfolding refs_ok_def acs using l assms(3,5,12) sh
      by (auto simp: ps_inv_def refs_ok_def s' append_trade_def Let_def nth_list_update less_Suc_eq trades_shape_def)
    ultimately show ?thesis by (simp add: ps_inv_def)
  qed
  show "lists_ok s \<Longrightarrow> lists_ok s'"
    by (rule append_trade_lists [OF assms(1) _ assms(12,3), of "executed_row e acct inst m"])
      (simp_all add: executed_row_def s')
  show rows: "\<forall>r<cu_count (custody s). buckets_row (custody s') r
           = (if r = pos then exec_buckets (compra_of e) (descoberto_of e) slot (tex_qty e) (buckets_row (custody s) r)
              else buckets_row (custody s) r)"
    using cul(2) sh by (simp add: s')
  show "cu_count (custody s') = cu_count (custody s)" using like(1) by (simp add: s' custody_like_def)
  show "names_frame s s'" by (simp add: s' names_frame_def)
  have pb: "position_book s (tex_account e) (tex_instrument e) = buckets_row (custody s) pos"
    using position_book_row [OF assms(1,7)] assms(4,6,8,9) by simp
  show "position_book s' d x = (if d = tex_account e \<and> x = tex_instrument e
           then exec_buckets (compra_of e) (descoberto_of e) slot (tex_qty e) (position_book s d x) else position_book s d x)"
    using position_book_update [OF assms(1) same assms(7), of "exec_buckets (compra_of e) (descoberto_of e) slot (tex_qty e) (buckets_row (custody s) pos)"
        "tex_account e" "tex_instrument e" d x] rows pb assms(4,6,8,9) by simp
  have cb: "cash_book s' d = (if d = tex_account e then pend_cash slot m (cash_book s d) else cash_book s d)" for d
    using cash_book_update [OF assms(1) _ assms(3), of s' "pend_cash slot m (balances_row (cash_ledger s) acct)" "tex_account e" d]
      cal(2) sh same cash_book_row [OF assms(1,3)] assms(4) by (simp add: same_rows_def s')
  show "\<exists>m. trade_cash (compra_of e) bruto custos = Some m
           \<and> (\<forall>d. cash_book s' d = (if d = tex_account e then pend_cash slot m (cash_book s d) else cash_book s d))
           \<and> trade_list (trades s') = trade_list (trades s) @ [executed_row e acct inst m]"
    using m cb tr(3) sh by (intro exI [of _ m]) (simp add: s')
qed

text \<open>The result of the check of I3 and of the publication: the state is the one checked.\<close>

lemma rv_publish_state:
  "rv_check dbg cond s ctx (publish_ret s ctx ev pos) = Some (st, s', ctx') \<Longrightarrow> s' = s"
  by (auto simp: rv_check_def publish_ret_def ret_def split: if_splits prod.splits)

lemma rv_publish_status:
  assumes "rv_check dbg cond s ctx (publish_ret s ctx ev pos) = Some (st, s', ctx')" and cond
  shows "st = kOk \<or> st = fail ArenaExhausted (of_nat pos)" and "cx_outbox ctx = None \<Longrightarrow> st = kOk \<and> ctx' = ctx"
    and "cx_metrics ctx' = cx_metrics ctx"
  using assms publica_posicao_fatal [of s ctx ev pos st ctx'] publica_posicao_replay [of ctx s ev pos]
  by (auto simp: publish_ret_def ret_def publica_posicao_def Let_def split: prod.splits option.splits if_splits)

lemma grown_same: "grown s s' \<Longrightarrow> same_books s s'"
  by (simp add: grown_def)

lemma grown_trades: "grown s s' \<Longrightarrow> trades s' = trades s \<and> trade_index s' = trade_index s \<and> window s' = window s"
  by (simp add: grown_def same_books_def)

lemma trade_executed_cases:
  assumes "ps_inv s" and "trade_executed dbg e s ev ctx = Some (st, s', ctx')"
  obtains (rejected) "code st \<in> {ArenaExhausted, AlreadyApplied, InstrumentNotDescribed, OutsideSettlementWindow, Overflow, ShortSaleNotAllowed}"
      "grown s s'" "ctx' = ctx"
  | (booked) s3 acct inst pos bruto custos where
      "grown s s3" "acct < ca_count (cash_ledger s3)" "account_document s3 ! acct = tex_account e"
      "inst < in_count (instruments s3)" "external_id (instruments s3) ! inst = tex_instrument e"
      "pos < cu_count (custody s3)" "cu_account (custody s3) ! pos = acct" "cu_instrument (custody s3) ! pos = inst"
      "slot_of (window s) (tex_settlement_date e) < 3"
      "\<not> di_contains (trade_index s3) (tex_trade_id e)" "tr_count (trades s3) < tr_capacity (trades s3)"
      "0 < tex_qty e" "compra_of e \<or> descoberto_of e \<or> tex_qty e \<le> available (custody s3) ! pos"
      "notional_half_even (tex_qty e) (tex_price e) (price_factor (instruments s3) ! inst) = Some bruto"
      "fees_of e = Some custos" "price_factor (instruments s3) ! inst \<noteq> 0"
      "qty_in_range (tex_qty e)" "price_in_range (tex_price e)"
      "book_trade e acct inst pos (slot_of (window s) (tex_settlement_date e)) bruto custos s3 = Some s'"
      "rv_check dbg (buckets_non_negative (custody s') pos) s' ctx (publish_ret s' ctx ev pos) = Some (st, s', ctx')"
      "inst < in_count (instruments s)"
proof -
  obtain acct s1 where i1: "intern_account s (tex_account e) = (acct, s1)" by (cases "intern_account s (tex_account e)")
  obtain inst s2 where i2: "intern_instrument s1 (tex_instrument e) = (inst, s2)" by (cases "intern_instrument s1 (tex_instrument e)")
  obtain pos s3 where i3: "intern_position s2 acct inst = (pos, s3)" by (cases "intern_position s2 acct inst")
  note g1 = intern_account_grown [OF assms(1) i1]
  note g2 = intern_instrument_grown [OF grown_inv [OF g1(1)] i2]
  have g12: "grown s s2" by (rule grown_trans [OF g1(1) g2(1)])
  let ?slot = "slot_of (window s) (tex_settlement_date e)"
  have w: "window s2 = window s" "length (window s) = 3"
    using grown_trades [OF g12] assms(1) by (simp_all add: ps_inv_def tables_ok_def)
  note run = assms(2) [unfolded trade_executed_def Let_def i1 i2 i3 prod.case w(1)]
  consider (full) "tr_capacity (trades s) \<le> tr_count (trades s)"
    | (dup) "\<not> tr_capacity (trades s) \<le> tr_count (trades s)" "di_contains (trade_index s) (tex_trade_id e)"
    | (noacct) "\<not> tr_capacity (trades s) \<le> tr_count (trades s)" "\<not> di_contains (trade_index s) (tex_trade_id e)" "acct = kEmpty"
    | (noinst) "\<not> tr_capacity (trades s) \<le> tr_count (trades s)" "\<not> di_contains (trade_index s) (tex_trade_id e)" "acct \<noteq> kEmpty"
        "inst = kEmpty \<or> price_factor (instruments s2) ! inst = 0 \<or> ?slot = kNoSlot"
    | (go) "\<not> tr_capacity (trades s) \<le> tr_count (trades s)" "\<not> di_contains (trade_index s) (tex_trade_id e)" "acct \<noteq> kEmpty"
        "inst \<noteq> kEmpty" "price_factor (instruments s2) ! inst \<noteq> 0" "?slot \<noteq> kNoSlot" by blast
  then show thesis
  proof cases
    case full
    with run grown_refl [OF assms(1)] show thesis by (intro rejected) (auto simp: ret_def)
  next
    case dup
    with run grown_refl [OF assms(1)] show thesis by (intro rejected) (auto simp: ret_def)
  next
    case noacct
    with run g1(1) show thesis by (intro rejected) (auto simp: ret_def)
  next
    case noinst
    with run g12 show thesis by (intro rejected) (auto simp: ret_def split: if_splits)
  next
    case go
    have acct: "acct < ca_count (cash_ledger s2)" "account_document s2 ! acct = tex_account e"
      using g1(2) [OF go(3)] g2(4,6) by simp_all
    have inst: "inst < in_count (instruments s2)" "external_id (instruments s2) ! inst = tex_instrument e"
      using g2(2) [OF go(4)] by simp_all
    note g3 = intern_position_grown [OF grown_inv [OF g2(1)] i3 acct(1) inst(1)]
    have g: "grown s s3" by (rule grown_trans [OF g12 g3(1)])
    have tr: "trades s3 = trades s" "trade_index s3 = trade_index s" using grown_trades [OF g] by simp_all
    have slot: "?slot < 3" using slot_of_less [OF w(2) go(6)] .
    show thesis
    proof (cases "code st \<notin> {ArenaExhausted, AlreadyApplied, InstrumentNotDescribed, OutsideSettlementWindow, Overflow, ShortSaleNotAllowed}
        \<or> \<not> grown s s' \<or> ctx' \<noteq> ctx")
      case False
      then show thesis by (intro rejected) auto
    next
      case True
      from run go True g obtain bruto custos s4 where b:
        "pos \<noteq> kEmpty" "\<not> tex_qty e \<le> 0" "qty_in_range (tex_qty e)" "price_in_range (tex_price e)"
        "notional_half_even (tex_qty e) (tex_price e) (price_factor (instruments s3) ! inst) = Some bruto"
        "fees_of e = Some custos" "compra_of e \<or> descoberto_of e \<or> \<not> available (custody s3) ! pos < tex_qty e"
        "book_trade e acct inst pos ?slot bruto custos s3 = Some s4"
        "rv_check dbg (buckets_non_negative (custody s4) pos) s4 ctx (publish_ret s4 ctx ev pos) = Some (st, s', ctx')"
        by (auto simp: ret_def bind_eq_Some_conv split: if_splits option.splits)
      have s4: "s4 = s'" using rv_publish_state [OF b(9)] by simp
      have old: "inst < in_count (instruments s)" using g2(7) [OF go(4,5)] g1(4) by simp
      show thesis
        by (rule booked [OF g _ _ _ _ _ _ _ slot, of acct inst pos bruto custos])
          (use acct inst g3 b s4 tr go old in \<open>auto simp: not_less\<close>)
    qed
  qed
qed

text \<open>
  The rejected events leave the books as they were; an accepted one is booked on exactly one
  position and one account, and then the checks before the mutation have secured I3.
\<close>

lemma trade_executed_inv:
  assumes "ps_inv s" and "trade_executed dbg e s ev ctx = Some (st, s', ctx')"
  shows "ps_inv s'" and "lists_ok s \<Longrightarrow> lists_ok s'" and "i3_ok s \<Longrightarrow> i3_ok s'"
    and "i3_ok s \<Longrightarrow> code st \<noteq> StateCorrupt"
proof -
  have "ps_inv s' \<and> (lists_ok s \<longrightarrow> lists_ok s') \<and> (i3_ok s \<longrightarrow> i3_ok s' \<and> code st \<noteq> StateCorrupt)"
    using assms
  proof (cases rule: trade_executed_cases)
    case rejected
    then show ?thesis by (auto simp: grown_def)
  next
    case (booked s3 acct inst pos bruto custos)
    have s3: "ps_inv s3" by (rule grown_inv [OF booked(1)])
    note spec = book_trade_spec [OF s3 booked(19,2-11)]
    have "i3_ok s' \<and> code st \<noteq> StateCorrupt" if "i3_ok s"
    proof -
      have i3: "i3_ok s3" using that booked(1) by (simp add: grown_def)
      have nn: "bk_non_negative (exec_buckets (compra_of e) (descoberto_of e) (slot_of (window s) (tex_settlement_date e))
          (tex_qty e) (buckets_row (custody s3) pos))"
        by (rule exec_non_negative [OF i3_row [OF i3 booked(6)]])
          (use booked(9,12,13) in \<open>auto simp: buckets_row_def row_slots_def\<close>)
      have "i3_ok s'" by (rule i3_update [OF i3 spec(6) _ nn]) (use spec(5) in auto)
      moreover have "buckets_non_negative (custody s') pos"
        using spec(5) booked(6) nn by (simp add: buckets_non_negative_row)
      ultimately show ?thesis using rv_publish_status(1) [OF booked(20)] by auto
    qed
    with spec(1,2) booked(1) show ?thesis by (auto simp: grown_def)
  qed
  then show "ps_inv s'" "lists_ok s \<Longrightarrow> lists_ok s'" "i3_ok s \<Longrightarrow> i3_ok s'" "i3_ok s \<Longrightarrow> code st \<noteq> StateCorrupt"
    by blast+
qed

section \<open>Moving a trade between accounts\<close>

definition out_buckets :: "bool \<Rightarrow> nat \<Rightarrow> Qty \<Rightarrow> Buckets \<Rightarrow> Buckets" where
  "out_buckets compra slot q b =
     (if compra then b\<lparr>bk_buy := (bk_buy b)[slot := bk_buy b ! slot - q]\<rparr>
      else b\<lparr>bk_sell := (bk_sell b)[slot := bk_sell b ! slot - q], bk_available := bk_available b + q\<rparr>)"

definition in_buckets :: "bool \<Rightarrow> nat \<Rightarrow> Qty \<Rightarrow> Buckets \<Rightarrow> Buckets" where
  "in_buckets compra slot q b =
     (if compra then b\<lparr>bk_buy := (bk_buy b)[slot := bk_buy b ! slot + q]\<rparr>
      else b\<lparr>bk_sell := (bk_sell b)[slot := bk_sell b ! slot + q], bk_available := bk_available b - q\<rparr>)"

lemma slot_cells: "k < 3 \<Longrightarrow> (3 * i + k = 3 * j + k) = (i = (j::nat))"
  by simp

lemma move_custody_rows:
  assumes "move_custody compra pd pp slot q c = Some c'" and "custody_shape c" and "pd < cu_count c" and "pp < cu_count c"
    and "pd \<noteq> pp" and "slot < 3"
  shows "custody_like c c'"
    and "buckets_row c' r = (if r = pd then out_buckets compra slot q (buckets_row c r)
           else if r = pp then in_buckets compra slot q (buckets_row c r) else buckets_row c r)"
proof -
  have len: "3 * pd + slot < length (pending_buy c)" "3 * pd + slot < length (pending_sell c)"
    "3 * pp + slot < length (pending_buy c)" "3 * pp + slot < length (pending_sell c)"
    "pd < length (available c)" "pp < length (available c)"
    using assms(2-4,6) by (auto simp: custody_shape_def Let_def)
  show "custody_like c c'"
    using assms(1,2) by (auto simp: move_custody_def fx_simps bind_eq_Some_conv custody_like_def custody_shape_def
        Let_def split: if_splits)
  show "buckets_row c' r = (if r = pd then out_buckets compra slot q (buckets_row c r)
           else if r = pp then in_buckets compra slot q (buckets_row c r) else buckets_row c r)"
    using assms(1,5,6) len
    by (auto simp: move_custody_def Let_def fx_simps bind_eq_Some_conv buckets_row_def out_buckets_def in_buckets_def slots3
        mult.commute [of _ 3] row_slots_update row_slots_nth nth_list_update split: if_splits)
qed

lemma move_cash_rows:
  assumes "move_cash de para slot m c = Some c'" and "cash_shape c" and "de < ca_count c" and "para < ca_count c"
    and "de \<noteq> para" and "slot < 3"
  shows "cash_like c c'"
    and "balances_row c' a = (if a = de then pend_cash slot (- m) (balances_row c a)
           else if a = para then pend_cash slot m (balances_row c a) else balances_row c a)"
proof -
  have len: "3 * de + slot < length (pending c)" "3 * para + slot < length (pending c)"
    using assms(2-4,6) by (auto simp: cash_shape_def Let_def)
  show "cash_like c c'"
    using assms(1,2) by (auto simp: move_cash_def fx_simps bind_eq_Some_conv cash_like_def cash_shape_def Let_def)
  show "balances_row c' a = (if a = de then pend_cash slot (- m) (balances_row c a)
           else if a = para then pend_cash slot m (balances_row c a) else balances_row c a)"
    using assms(1,5,6) len
    by (auto simp: move_cash_def fx_simps bind_eq_Some_conv balances_row_def pend_cash_def slots3
        mult.commute [of _ 3] row_slots_update row_slots_nth nth_list_update)
qed

lemma move_non_negative:
  assumes "bk_non_negative b" and "0 \<le> q" and "slot < length (bk_buy b)" and "slot < length (bk_sell b)"
  shows "(if compra then q \<le> bk_buy b ! slot else q \<le> bk_sell b ! slot) \<Longrightarrow> bk_non_negative (out_buckets compra slot q b)"
    and "compra \<or> bk_flags b AND kShortAllowed \<noteq> 0 \<or> q \<le> bk_available b \<Longrightarrow> bk_non_negative (in_buckets compra slot q b)"
proof -
  have nn: "0 \<le> bk_buy b ! slot + q" "0 \<le> bk_sell b ! slot + q"
    using assms by (auto simp: bk_non_negative_def list_all_length)
  show "(if compra then q \<le> bk_buy b ! slot else q \<le> bk_sell b ! slot) \<Longrightarrow> bk_non_negative (out_buckets compra slot q b)"
    using assms nn by (auto simp: bk_non_negative_def out_buckets_def intro!: list_all_update split: if_splits)
  show "compra \<or> bk_flags b AND kShortAllowed \<noteq> 0 \<or> q \<le> bk_available b \<Longrightarrow> bk_non_negative (in_buckets compra slot q b)"
    using assms nn by (auto simp: bk_non_negative_def in_buckets_def intro!: list_all_update)
qed

subsection \<open>The lists of the two accounts\<close>

lemma unlink_loop_length: "unlink_loop fuel nxt p t = Some (b, nxt') \<Longrightarrow> length nxt' = length nxt"
  by (induction fuel arbitrary: p) (auto split: if_splits)

lemma unlink_trade_fields:
  assumes "unlink_trade s de t = Some (b, s1)"
  shows "\<exists>nx f. s1 = s\<lparr>trades := (trades s)\<lparr>next_of_account := nx\<rparr>, account_first_trade := f\<rparr>
           \<and> length nx = length (next_of_account (trades s)) \<and> length f = length (account_first_trade s)"
proof -
  let ?n = "next_of_account (trades s)" and ?f = "account_first_trade s"
  show ?thesis
  proof (cases "?f ! de = kNil")
    case True
    then have "s1 = s" using assms by (simp add: unlink_trade_def)
    then show ?thesis by (intro exI [of _ ?n] exI [of _ ?f]) simp
  next
    case ne: False
    show ?thesis
    proof (cases "?f ! de = t")
      case True
      with ne have "s1 = s\<lparr>account_first_trade := ?f[de := ?n ! t]\<rparr>" using assms by (simp add: unlink_trade_def)
      then show ?thesis by (intro exI [of _ ?n] exI [of _ "?f[de := ?n ! t]"]) simp
    next
      case False
      with ne assms obtain nx where "unlink_loop (tr_capacity (trades s) + 1) ?n (?f ! de) t = Some (b, nx)"
        and s1: "s1 = s\<lparr>trades := (trades s)\<lparr>next_of_account := nx\<rparr>\<rparr>"
        unfolding unlink_trade_def Let_def by (auto simp: bind_eq_Some_conv)
      from unlink_loop_length [OF this(1)] s1 show ?thesis by (intro exI [of _ nx] exI [of _ ?f]) simp
    qed
  qed
qed

lemma relink_trade_fields:
  assumes "relink_trade s de para t = Some s'"
  obtains nx f where "s' = s\<lparr>trades := (trades s)\<lparr>tr_account := (tr_account (trades s))[t := para], next_of_account := nx\<rparr>,
                            account_first_trade := f\<rparr>"
    "length nx = length (next_of_account (trades s))" "length f = length (account_first_trade s)"
proof -
  obtain b s1 where u: "unlink_trade s de t = Some (b, s1)"
    and s': "s' = s1\<lparr>trades := (trades s1)\<lparr>tr_account := (tr_account (trades s1))[t := para],
                              next_of_account := (next_of_account (trades s1))[t := account_first_trade s1 ! para]\<rparr>,
                account_first_trade := (account_first_trade s1)[para := t]\<rparr>"
    using assms by (auto simp: relink_trade_def bind_eq_Some_conv Let_def)
  obtain nx f where s1: "s1 = s\<lparr>trades := (trades s)\<lparr>next_of_account := nx\<rparr>, account_first_trade := f\<rparr>"
    "length nx = length (next_of_account (trades s))" "length f = length (account_first_trade s)"
    using unlink_trade_fields [OF u] by blast
  show thesis by (rule that [where nx = "nx[t := f ! para]" and f = "f[para := t]"]) (use s' s1 in simp_all)
qed

lemma ps_inv_relink:
  assumes "ps_inv s" and "t < tr_count (trades s)" and "para < ca_count (cash_ledger s)"
    and "length nx = length (next_of_account (trades s))" and "length f = length (account_first_trade s)"
  shows "ps_inv (s\<lparr>trades := (trades s)\<lparr>tr_account := (tr_account (trades s))[t := para], next_of_account := nx\<rparr>,
                   account_first_trade := f\<rparr>)" (is "ps_inv ?s")
proof -
  have "tables_ok ?s" using assms unfolding ps_inv_def tables_ok_def trades_shape_def Let_def by simp
  moreover have "indexes_ok ?s" using assms(1) unfolding ps_inv_def indexes_ok_def by (simp add: rows_defs)
  moreover have "refs_ok ?s" using assms(1-3) unfolding ps_inv_def refs_ok_def
    by (auto simp: nth_list_update tables_ok_def trades_shape_def Let_def)
  ultimately show ?thesis by (simp add: ps_inv_def)
qed

lemma lseg_cong: "length nxt' = length nxt \<Longrightarrow> \<forall>y\<in>set xs. nxt' ! y = nxt ! y \<Longrightarrow> lseg nxt' p xs = lseg nxt p xs"
  by (induction xs arbitrary: p) auto

lemma unlink_trade_spec:
  assumes "lseg (next_of_account (trades s)) (account_first_trade s ! de) xs" and "distinct xs" and "t \<in> set xs"
    and "length xs \<le> tr_capacity (trades s)" and "de < length (account_first_trade s)"
  shows "\<exists>s1. unlink_trade s de t = Some (True, s1)
           \<and> lseg (next_of_account (trades s1)) (account_first_trade s1 ! de) (remove1 t xs)
           \<and> (\<forall>y. y \<notin> set xs \<longrightarrow> next_of_account (trades s1) ! y = next_of_account (trades s) ! y)
           \<and> length (next_of_account (trades s1)) = length (next_of_account (trades s))
           \<and> length (account_first_trade s1) = length (account_first_trade s)
           \<and> (\<forall>a. a \<noteq> de \<longrightarrow> account_first_trade s1 ! a = account_first_trade s ! a)"
proof -
  obtain p ys where xs: "xs = p # ys" using assms(3) by (cases xs) auto
  have head: "account_first_trade s ! de = p" "p \<noteq> kNil" "p < length (next_of_account (trades s))"
    "lseg (next_of_account (trades s)) (next_of_account (trades s) ! p) ys" using assms(1) xs by auto
  show ?thesis
  proof (cases "p = t")
    case True
    with head assms(5) xs show ?thesis by (simp add: unlink_trade_def Let_def)
  next
    case False
    then have "t \<in> set ys" "length ys < tr_capacity (trades s) + 1" using assms(3,4) xs by auto
    from unlink_loop_lseg [of "next_of_account (trades s)" p ys, OF _ _ this(2,1)] assms(1,2) xs head
    obtain nxt' where n: "unlink_loop (tr_capacity (trades s) + 1) (next_of_account (trades s)) p t = Some (True, nxt')"
      "length nxt' = length (next_of_account (trades s))" "lseg nxt' p (p # remove1 t ys)"
      "\<forall>y. y \<notin> set (p # ys) \<longrightarrow> nxt' ! y = next_of_account (trades s) ! y" by auto
    with False head xs show ?thesis by (simp add: unlink_trade_def Let_def)
  qed
qed

lemma relink_lists:
  assumes "ps_inv s" and "lists_ok s" and "t < tr_count (trades s)" and "tr_account (trades s) ! t = de"
    and "para < ca_count (cash_ledger s)" and "de \<noteq> para"
  shows "\<exists>s'. relink_trade s de para t = Some s' \<and> lists_ok s'"
proof -
  have t: "tables_ok s" using assms(1) by (simp add: ps_inv_def)
  have de: "de < ca_count (cash_ledger s)" using assms(1,3,4) by (auto simp: ps_inv_def refs_ok_def)
  have len: "de < length (account_first_trade s)" "para < length (account_first_trade s)"
    "t < length (next_of_account (trades s))" "t < length (tr_account (trades s))" "t \<noteq> kNil"
    using t assms(3,5) de by (auto simp: tables_ok_def shape_defs kNil_def kEmpty_def)
  obtain xs where xs: "lseg (next_of_account (trades s)) (account_first_trade s ! de) xs" "distinct xs"
    "set xs = trades_of (trades s) de" using assms(2) de by (auto simp: lists_ok_def)
  have tx: "t \<in> set xs" using xs(3) assms(3,4) by (simp add: trades_of_def)
  have "length xs \<le> tr_capacity (trades s)"
  proof -
    have "set xs \<subseteq> {..<tr_count (trades s)}" using xs(3) by (auto simp: trades_of_def)
    then have "card (set xs) \<le> tr_count (trades s)" using card_mono [of "{..<tr_count (trades s)}"] by simp
    then show ?thesis using distinct_card [OF xs(2)] t by (simp add: tables_ok_def trades_shape_def Let_def)
  qed
  from unlink_trade_spec [OF xs(1,2) tx this len(1)] obtain s1 where
    u: "unlink_trade s de t = Some (True, s1)" "lseg (next_of_account (trades s1)) (account_first_trade s1 ! de) (remove1 t xs)"
      "\<forall>y. y \<notin> set xs \<longrightarrow> next_of_account (trades s1) ! y = next_of_account (trades s) ! y"
      "length (next_of_account (trades s1)) = length (next_of_account (trades s))"
      "length (account_first_trade s1) = length (account_first_trade s)"
      "\<forall>a. a \<noteq> de \<longrightarrow> account_first_trade s1 ! a = account_first_trade s ! a" by blast
  obtain nx f where s1: "s1 = s\<lparr>trades := (trades s)\<lparr>next_of_account := nx\<rparr>, account_first_trade := f\<rparr>"
    using unlink_trade_fields [OF u(1)] by blast
  define s' where "s' = s1\<lparr>trades := (trades s1)\<lparr>tr_account := (tr_account (trades s1))[t := para],
                              next_of_account := (next_of_account (trades s1))[t := account_first_trade s1 ! para]\<rparr>,
                account_first_trade := (account_first_trade s1)[para := t]\<rparr>"
  have run: "relink_trade s de para t = Some s'" by (simp add: relink_trade_def u(1) s'_def Let_def)
  have of': "trades_of (trades s') a = (if a = para then insert t (trades_of (trades s) a) else trades_of (trades s) a - {t})" for a
    using len(4) assms(3) by (auto simp: trades_of_def s'_def s1 nth_list_update)
  have nx: "next_of_account (trades s') = (next_of_account (trades s1))[t := account_first_trade s1 ! para]"
    and fi: "account_first_trade s' = (account_first_trade s1)[para := t]" by (simp_all add: s'_def)
  have "\<exists>ys. lseg (next_of_account (trades s')) (account_first_trade s' ! a) ys \<and> distinct ys \<and> set ys = trades_of (trades s') a"
    if a: "a < ca_count (cash_ledger s)" for a
  proof (cases "a = de")
    case True
    have "t \<notin> set (remove1 t xs)" using xs(2) by simp
    then have "lseg (next_of_account (trades s')) (account_first_trade s' ! de) (remove1 t xs)"
      using u(2) assms(6) by (simp add: nx fi lseg_update)
    with True xs assms(6) show ?thesis
      by (intro exI [of _ "remove1 t xs"]) (simp add: of' set_remove1_eq [OF xs(2)])
  next
    case False
    obtain ys where ys: "lseg (next_of_account (trades s)) (account_first_trade s ! a) ys" "distinct ys"
      "set ys = trades_of (trades s) a" using assms(2) a by (auto simp: lists_ok_def)
    have dis: "t \<notin> set ys" "\<forall>y\<in>set ys. y \<notin> set xs"
      using ys(3) xs(3) assms(4) False by (auto simp: trades_of_def)
    have "lseg (next_of_account (trades s1)) (account_first_trade s1 ! a) ys"
      using ys(1) lseg_cong [OF u(4), of ys] u(3,6) dis(2) False by simp
    then have seg: "lseg (next_of_account (trades s')) (account_first_trade s1 ! a) ys" using dis(1) by (simp add: nx lseg_update)
    show ?thesis
    proof (cases "a = para")
      case True
      with seg ys dis len u(4,5) show ?thesis by (intro exI [of _ "t # ys"]) (simp add: of' fi nx)
    next
      case False
      with seg ys dis show ?thesis by (intro exI [of _ ys]) (auto simp: of' fi)
    qed
  qed
  then have "lists_ok s'" by (simp add: lists_ok_def s'_def s1)
  with run show ?thesis by blast
qed

section \<open>TradeAllocated as a whole\<close>

lemma set_trade_state_inv:
  assumes "ps_inv s"
  shows "ps_inv (set_trade_state s t g)" and "lists_ok (set_trade_state s t g) = lists_ok s"
    and "i3_ok (set_trade_state s t g) = i3_ok s" and "position_book (set_trade_state s t g) = position_book s"
    and "cash_book (set_trade_state s t g) = cash_book s"
  using assms
  by (simp_all add: set_trade_state_def ps_inv_def tables_ok_def indexes_ok_def refs_ok_def rows_defs trades_shape_def Let_def
      lists_ok_def trades_of_def i3_ok_def position_book_def cash_book_def fun_eq_iff cong: option.case_cong)

lemma set_trade_state_list:
  assumes "ps_inv s" and "t < tr_count (trades s)"
  shows "trade_list (trades (set_trade_state s t g)) = (trade_list (trades s))[t := (trade_list (trades s) ! t)\<lparr>row_state := g\<rparr>]"
proof (rule nth_equalityI)
  fix i assume i: "i < length (trade_list (trades (set_trade_state s t g)))"
  have "t < length (tr_state (trades s))" using assms ps_inv_shapes [OF assms(1)] by (simp add: trades_shape_def Let_def)
  with i assms(2) show "trade_list (trades (set_trade_state s t g)) ! i
      = (trade_list (trades s))[t := (trade_list (trades s) ! t)\<lparr>row_state := g\<rparr>] ! i"
    by (cases "i = t") (simp_all add: trade_list_def trade_row_def set_trade_state_def)
qed (simp add: trade_list_def set_trade_state_def)

text \<open>The effect of a change of owner on the books: out of one account, into the other.\<close>

definition moved_position :: "TradeAllocated \<Rightarrow> nat \<Rightarrow> u32 \<Rightarrow> u64 \<Rightarrow> u32 \<Rightarrow> Buckets \<Rightarrow> Buckets" where
  "moved_position e slot ext d x b =
     (if d = tal_from_account e \<and> x = ext then out_buckets (tal_side e = Side_Buy) slot (tal_qty e) b
      else if d = tal_to_account e \<and> x = ext then in_buckets (tal_side e = Side_Buy) slot (tal_qty e) b else b)"

definition moved_cash :: "TradeAllocated \<Rightarrow> nat \<Rightarrow> u64 \<Rightarrow> Balances \<Rightarrow> Balances" where
  "moved_cash e slot d b =
     (if d = tal_from_account e then pend_cash slot (- tal_cash_amount e) b
      else if d = tal_to_account e then pend_cash slot (tal_cash_amount e) b else b)"

lemma move_trade_spec:
  assumes "ps_inv s" and "move_trade e t de para pd pp slot s = Some s'"
    and "de < ca_count (cash_ledger s)" "account_document s ! de = tal_from_account e"
    and "para < ca_count (cash_ledger s)" "account_document s ! para = tal_to_account e" and "de \<noteq> para"
    and "pd < cu_count (custody s)" "cu_account (custody s) ! pd = de" "cu_instrument (custody s) ! pd = inst"
    and "pp < cu_count (custody s)" "cu_account (custody s) ! pp = para" "cu_instrument (custody s) ! pp = inst"
    and "slot < 3" and "t < tr_count (trades s)"
  shows "ps_inv s'"
    and "lists_ok s \<Longrightarrow> tr_account (trades s) ! t = de \<Longrightarrow> lists_ok s'"
    and "position_book s' d x = moved_position e slot (external_id (instruments s) ! inst) d x (position_book s d x)"
    and "cash_book s' d = moved_cash e slot d (cash_book s d)"
    and "\<forall>r<cu_count (custody s). buckets_row (custody s') r
           = (if r = pd then out_buckets (tal_side e = Side_Buy) slot (tal_qty e) (buckets_row (custody s) r)
              else if r = pp then in_buckets (tal_side e = Side_Buy) slot (tal_qty e) (buckets_row (custody s) r)
              else buckets_row (custody s) r)"
    and "cu_count (custody s') = cu_count (custody s)"
    and "trade_list (trades s') = (trade_list (trades s))[t := (trade_list (trades s) ! t)\<lparr>row_account := para\<rparr>]"
    and "tr_count (trades s') = tr_count (trades s)" and "tr_state (trades s') = tr_state (trades s)" and "names_frame s s'"
proof -
  obtain cu ca where cu: "move_custody (tal_side e = Side_Buy) pd pp slot (tal_qty e) (custody s) = Some cu"
    and ca: "move_cash de para slot (tal_cash_amount e) (cash_ledger s) = Some ca"
    and re: "relink_trade (s\<lparr>custody := cu, cash_ledger := ca\<rparr>) de para t = Some s'"
    using assms(2) by (auto simp: move_trade_def bind_eq_Some_conv)
  define l where "l = s\<lparr>custody := cu, cash_ledger := ca\<rparr>"
  note sh = ps_inv_shapes [OF assms(1)]
  have pne: "pd \<noteq> pp" using assms(7,9,12) by auto
  note cul = move_custody_rows [OF cu _ assms(8,11) pne assms(14)]
    and cal = move_cash_rows [OF ca _ assms(3,5,7,14)]
  have like: "custody_like (custody s) cu" "cash_like (cash_ledger s) ca" using cul(1) cal(1) sh by simp_all
  have l: "ps_inv l" unfolding l_def by (rule ps_inv_like [OF assms(1) like])
  obtain nx f where s': "s' = l\<lparr>trades := (trades l)\<lparr>tr_account := (tr_account (trades l))[t := para], next_of_account := nx\<rparr>,
                            account_first_trade := f\<rparr>"
    "length nx = length (next_of_account (trades l))" "length f = length (account_first_trade l)"
    by (rule relink_trade_fields [OF re, folded l_def])
  have f': "custody s' = cu" "cash_ledger s' = ca" "account_document s' = account_document s" "instruments s' = instruments s"
    "trades s' = (trades s)\<lparr>tr_account := (tr_account (trades s))[t := para], next_of_account := nx\<rparr>"
    by (simp_all add: s'(1) l_def)
  show "names_frame s s'" using like(2) by (simp add: s'(1) l_def names_frame_def cash_like_def)
  have lc: "t < tr_count (trades l)" "para < ca_count (cash_ledger l)"
    using assms(5,15) like by (simp_all add: l_def cash_like_def)
  show inv: "ps_inv s'" using ps_inv_relink [OF l lc s'(2,3)] s'(1) by simp
  show "lists_ok s'" if "lists_ok s" "tr_account (trades s) ! t = de"
  proof -
    have "lists_ok l" using that(1) like by (simp add: lists_ok_def l_def cash_like_def)
    from relink_lists [OF l this lc(1) _ lc(2) assms(7)] that(2) re show ?thesis by (auto simp: l_def)
  qed
  show rows: "\<forall>r<cu_count (custody s). buckets_row (custody s') r
           = (if r = pd then out_buckets (tal_side e = Side_Buy) slot (tal_qty e) (buckets_row (custody s) r)
              else if r = pp then in_buckets (tal_side e = Side_Buy) slot (tal_qty e) (buckets_row (custody s) r)
              else buckets_row (custody s) r)"
    using cul(2) sh by (simp add: f')
  show cnt: "cu_count (custody s') = cu_count (custody s)" using like(1) by (simp add: f' custody_like_def)
  have names: "doc_of s' r = doc_of s r" "ext_of s' r = ext_of s r" for r
    using like by (simp_all add: doc_of_def ext_of_def f' custody_like_def)
  have pdn: "doc_of s pd = tal_from_account e" "doc_of s pp = tal_to_account e"
    "ext_of s pd = external_id (instruments s) ! inst" "ext_of s pp = external_id (instruments s) ! inst"
    using assms by (simp_all add: doc_of_def ext_of_def)
  have dne: "tal_from_account e \<noteq> tal_to_account e"
    using account_names_inj [OF assms(1,3,5)] assms(4,6,7) by auto
  have key: "doc_of s r = tal_from_account e \<and> ext_of s r = external_id (instruments s) ! inst \<longleftrightarrow> r = pd"
    "doc_of s r = tal_to_account e \<and> ext_of s r = external_id (instruments s) ! inst \<longleftrightarrow> r = pp"
    if "r < cu_count (custody s)" for r
    using row_names_inj [OF assms(1) that assms(8)] row_names_inj [OF assms(1) that assms(11)] pdn by auto
  show "position_book s' d x = moved_position e slot (external_id (instruments s) ! inst) d x (position_book s d x)"
  proof (rule position_book_map [OF assms(1) inv cnt])
    show "\<forall>r<cu_count (custody s). doc_of s' r = doc_of s r \<and> ext_of s' r = ext_of s r
           \<and> buckets_row (custody s') r = moved_position e slot (external_id (instruments s) ! inst)
               (doc_of s r) (ext_of s r) (buckets_row (custody s) r)"
      using rows key names by (auto simp: moved_position_def)
    show "moved_position e slot (external_id (instruments s) ! inst) d x zero_buckets = zero_buckets"
      if "\<forall>r<cu_count (custody s). \<not> (doc_of s r = d \<and> ext_of s r = x)" for d x
      using that assms(8,11) pdn by (auto simp: moved_position_def)
  qed
  have akey: "account_document s ! a = tal_from_account e \<longleftrightarrow> a = de" "account_document s ! a = tal_to_account e \<longleftrightarrow> a = para"
    if "a < ca_count (cash_ledger s)" for a
    using account_names_inj [OF assms(1) that assms(3)] account_names_inj [OF assms(1) that assms(5)] assms(4,6) by auto
  show "cash_book s' d = moved_cash e slot d (cash_book s d)"
  proof (rule cash_book_map [OF assms(1) inv])
    show "ca_count (cash_ledger s') = ca_count (cash_ledger s)" using like by (simp add: f' cash_like_def)
    show "\<forall>a<ca_count (cash_ledger s). account_document s' ! a = account_document s ! a
        \<and> balances_row (cash_ledger s') a = moved_cash e slot (account_document s ! a) (balances_row (cash_ledger s) a)"
      using cal(2) sh akey by (auto simp: f' moved_cash_def)
    show "moved_cash e slot d zero_balances = zero_balances"
      if "\<forall>a<ca_count (cash_ledger s). account_document s ! a \<noteq> d" for d
      using that assms(3-6) by (auto simp: moved_cash_def)
  qed
  show "tr_count (trades s') = tr_count (trades s)" "tr_state (trades s') = tr_state (trades s)" by (simp_all add: f')
  have "t < length (tr_account (trades s))" using sh assms(15) by (simp add: trades_shape_def Let_def)
  then show "trade_list (trades s') = (trade_list (trades s))[t := (trade_list (trades s) ! t)\<lparr>row_account := para\<rparr>]"
    using assms(15) by (intro nth_equalityI) (auto simp: trade_list_def trade_row_def f' nth_list_update)
qed

lemma find_trade:
  assumes "ps_inv s" and "di_find (trade_index s) k = t" and "t \<noteq> kEmpty"
  shows "t < tr_count (trades s)" and "trade_id (trades s) ! t = k"
proof -
  have t: "tables_ok s" and ix: "indexed (trade_index s) (trade_rows s)"
    using assms(1) by (simp_all add: ps_inv_def indexes_ok_def)
  have len: "length (trade_rows s) < kEmpty" using t by (auto simp: tables_ok_def trades_shape_def Let_def)
  from indexed_find [OF ix len assms(2,3)] t show "t < tr_count (trades s)" "trade_id (trades s) ! t = k"
    by (auto simp: trade_rows_def)
qed

lemma next_state_allocate: "next_state g TgAllocate \<noteq> TsNone \<longleftrightarrow> g = TsExecuted"
  by (cases g) simp_all

definition owner_of :: "PartitionState \<Rightarrow> nat \<Rightarrow> u64" where
  "owner_of s t = account_document s ! (tr_account (trades s) ! t)"

lemma trade_allocated_cases:
  assumes "ps_inv s" and "trade_allocated dbg e s ctx = Some (st, s', ctx')"
  obtains (rejected) "code st \<in> {NotFound, InvalidTransition, ArenaExhausted, OutsideSettlementWindow, QtyMismatch, ShortSaleNotAllowed}"
      "grown s s'" "ctx' = ctx"
  | (confirmed) s2 t where "grown s s2" "t < tr_count (trades s)" "trade_id (trades s) ! t = tal_trade_id e"
      "tr_state (trades s) ! t = TsExecuted" "tal_qty e = tr_qty (trades s) ! t"
      "tal_from_account e = tal_to_account e" "s' = set_trade_state s2 t TsAllocated" "st = kOk" "ctx' = ctx"
  | (moved) s4 s5 t de para pd pp where "grown s s4" "t < tr_count (trades s)" "trade_id (trades s) ! t = tal_trade_id e"
      "tr_state (trades s) ! t = TsExecuted" "tal_qty e = tr_qty (trades s) ! t"
      "de < ca_count (cash_ledger s4)" "account_document s4 ! de = tal_from_account e"
      "para < ca_count (cash_ledger s4)" "account_document s4 ! para = tal_to_account e" "de \<noteq> para"
      "pd < cu_count (custody s4)" "cu_account (custody s4) ! pd = de" "cu_instrument (custody s4) ! pd = tr_instrument (trades s) ! t"
      "pp < cu_count (custody s4)" "cu_account (custody s4) ! pp = para" "cu_instrument (custody s4) ! pp = tr_instrument (trades s) ! t"
      "slot_of (window s) (tal_settlement_date e) < 3"
      "move_refused (tal_side e = Side_Buy) pd pp (slot_of (window s) (tal_settlement_date e)) (tal_qty e) (custody s4) = None"
      "move_trade e t de para pd pp (slot_of (window s) (tal_settlement_date e)) s4 = Some s5" "ctx' = ctx"
      "rv_check dbg (buckets_non_negative (custody s5) pd) s5 ctx
            (rv_check dbg (buckets_non_negative (custody s5) pp) s5 ctx
              (ret kOk (set_trade_state s5 t TsAllocated) ctx)) = Some (st, s', ctx)"
proof -
  let ?t = "di_find (trade_index s) (tal_trade_id e)"
  let ?slot = "slot_of (window s) (tal_settlement_date e)" and ?inst = "tr_instrument (trades s) ! ?t"
  obtain de s1 where i1: "intern_account s (tal_from_account e) = (de, s1)" by (cases "intern_account s (tal_from_account e)")
  obtain para s2 where i2: "intern_account s1 (tal_to_account e) = (para, s2)" by (cases "intern_account s1 (tal_to_account e)")
  obtain pd s3 where i3: "intern_position s2 de ?inst = (pd, s3)" by (cases "intern_position s2 de ?inst")
  obtain pp s4 where i4: "intern_position s3 para ?inst = (pp, s4)" by (cases "intern_position s3 para ?inst")
  note g1 = intern_account_grown [OF assms(1) i1]
  note g2 = intern_account_grown [OF grown_inv [OF g1(1)] i2]
  have g12: "grown s s2" by (rule grown_trans [OF g1(1) g2(1)])
  have tw: "trades s2 = trades s" "window s2 = window s" "length (window s) = 3"
    using grown_trades [OF g12] assms(1) by (simp_all add: ps_inv_def tables_ok_def)
  note run = assms(2) [unfolded trade_allocated_def Let_def i1 i2 prod.case tw(1,2) i3 i4]
  show thesis
  proof (cases "code st \<notin> {NotFound, InvalidTransition, ArenaExhausted, OutsideSettlementWindow, QtyMismatch, ShortSaleNotAllowed} \<or> \<not> grown s s' \<or> ctx' \<noteq> ctx")
    case False
    then show thesis by (intro rejected) auto
  next
    case True
    have found: "?t \<noteq> kEmpty" using True run grown_refl [OF assms(1)] by (auto simp: ret_def)
    have state: "tr_state (trades s) ! ?t = TsExecuted"
    proof (rule ccontr)
      assume "tr_state (trades s) ! ?t \<noteq> TsExecuted"
      then have "next_state (tr_state (trades s) ! ?t) TgAllocate = TsNone" using next_state_allocate by blast
      with True run found grown_refl [OF assms(1)] show False by (auto simp: ret_def)
    qed
    have ids: "de \<noteq> kEmpty" "para \<noteq> kEmpty" "?slot \<noteq> kNoSlot" "tal_qty e = tr_qty (trades s) ! ?t"
      using True run found state g12 by (auto simp: ret_def split: if_splits)
    note t = find_trade [OF assms(1) refl found]
    have slot: "?slot < 3" using slot_of_less [OF tw(3) ids(3)] .
    have de: "de < ca_count (cash_ledger s2)" "account_document s2 ! de = tal_from_account e"
      using g1(2) [OF ids(1)] g2(1) by (auto simp: grown_def)
    have para: "para < ca_count (cash_ledger s2)" "account_document s2 ! para = tal_to_account e"
      using g2(2) [OF ids(2)] by simp_all
    show thesis
    proof (cases "de = para")
      case True
      with run found state ids have "s' = set_trade_state s2 ?t TsAllocated" "st = kOk" "ctx' = ctx" by (auto simp: ret_def)
      moreover have "tal_from_account e = tal_to_account e" using True de(2) para(2) by simp
      ultimately show thesis by (intro confirmed [OF g12 t state ids(4)])
    next
      case ne: False
      have inst: "?inst < in_count (instruments s2)"
        using grown_inv [OF g12] t(1) tw(1) by (auto simp: ps_inv_def refs_ok_def)
      note g3 = intern_position_grown [OF grown_inv [OF g12] i3 de(1) inst]
      have para3: "para < ca_count (cash_ledger s3)" "?inst < in_count (instruments s3)" using para(1) inst g3(3,4) by simp_all
      note g4 = intern_position_grown [OF grown_inv [OF g3(1)] i4 para3]
      have g: "grown s s4" by (rule grown_trans [OF grown_trans [OF g12 g3(1)] g4(1)])
      have pos: "pd \<noteq> kEmpty" "pp \<noteq> kEmpty"
        using True run found state ids ne g by (auto simp: ret_def split: if_splits)
      have nr: "move_refused (tal_side e = Side_Buy) pd pp ?slot (tal_qty e) (custody s4) = None"
      proof (rule ccontr)
        assume "move_refused (tal_side e = Side_Buy) pd pp ?slot (tal_qty e) (custody s4) \<noteq> None"
        then obtain st0 where mr: "move_refused (tal_side e = Side_Buy) pd pp ?slot (tal_qty e) (custody s4) = Some st0" by blast
        then have "code st0 \<in> {QtyMismatch, ShortSaleNotAllowed}" by (auto simp: move_refused_def Let_def split: if_splits)
        with mr True run found state ids ne g pos show False by (auto simp: ret_def)
      qed
      with run found state ids ne pos obtain s5 where s5:
        "move_trade e ?t de para pd pp ?slot s4 = Some s5"
        "rv_check dbg (buckets_non_negative (custody s5) pd) s5 ctx
            (rv_check dbg (buckets_non_negative (custody s5) pp) s5 ctx
              (ret kOk (set_trade_state s5 ?t TsAllocated) ctx)) = Some (st, s', ctx')"
        by (auto simp: bind_eq_Some_conv)
      have ctx: "ctx' = ctx" using s5(2) by (auto simp: rv_check_def ret_def split: if_splits)
      have cu: "pd < cu_count (custody s4)" "cu_account (custody s4) ! pd = de" "cu_instrument (custody s4) ! pd = ?inst"
        using g3(2) [OF pos(1)] intern_position_grown_rows [OF grown_inv [OF g3(1)] i4 para3, of pd] by auto
      have pp: "pp < cu_count (custody s4)" "cu_account (custody s4) ! pp = para" "cu_instrument (custody s4) ! pp = ?inst"
        using g4(2) [OF pos(2)] by simp_all
      have acc: "de < ca_count (cash_ledger s4)" "account_document s4 ! de = tal_from_account e"
        "para < ca_count (cash_ledger s4)" "account_document s4 ! para = tal_to_account e"
        using de para g3(3,6) g4(3,6) by simp_all
      show thesis
        by (rule moved [OF g t state ids(4) acc ne cu pp slot nr s5(1) ctx]) (use s5(2) ctx in simp)
    qed
  qed
qed

text \<open>Every trade in the table has a positive quantity: \<^verbatim>\<open>TradeExecuted\<close> admits no other.\<close>

definition qtys_ok :: "PartitionState \<Rightarrow> bool" where
  "qtys_ok s \<longleftrightarrow> list_all (\<lambda>r. 0 < row_qty r) (trade_list (trades s))"

lemma qtys_ok_nth: "qtys_ok s \<Longrightarrow> t < tr_count (trades s) \<Longrightarrow> 0 < tr_qty (trades s) ! t"
  by (auto simp: qtys_ok_def list_all_length trade_list_def trade_row_def)

lemma move_refused_None:
  assumes "move_refused compra pd pp slot q c = None" and "slot < 3"
  shows "if compra then q \<le> bk_buy (buckets_row c pd) ! slot else q \<le> bk_sell (buckets_row c pd) ! slot"
    and "compra \<or> bk_flags (buckets_row c pp) AND kShortAllowed \<noteq> 0 \<or> q \<le> bk_available (buckets_row c pp)"
  using assms by (auto simp: move_refused_def Let_def buckets_row_def row_slots_nth slots3 mult.commute [of _ 3] split: if_splits)

lemma trade_allocated_inv:
  assumes "ps_inv s" and "trade_allocated dbg e s ctx = Some (st, s', ctx')"
  shows "ps_inv s'" and "i3_ok s \<Longrightarrow> qtys_ok s \<Longrightarrow> i3_ok s' \<and> code st \<noteq> StateCorrupt"
    and "lists_ok s \<Longrightarrow> (\<And>t. t < tr_count (trades s) \<Longrightarrow> trade_id (trades s) ! t = tal_trade_id e \<Longrightarrow>
           owner_of s t = tal_from_account e) \<Longrightarrow> lists_ok s'"
proof -
  have "ps_inv s' \<and> (i3_ok s \<longrightarrow> qtys_ok s \<longrightarrow> i3_ok s' \<and> code st \<noteq> StateCorrupt)
      \<and> (lists_ok s \<longrightarrow> (\<forall>t<tr_count (trades s). trade_id (trades s) ! t = tal_trade_id e \<longrightarrow>
           owner_of s t = tal_from_account e) \<longrightarrow> lists_ok s')"
    using assms
  proof (cases rule: trade_allocated_cases)
    case rejected
    then show ?thesis by (auto simp: grown_def)
  next
    case (confirmed s2 t)
    with set_trade_state_inv [OF grown_inv [OF confirmed(1)]] show ?thesis by (auto simp: grown_def)
  next
    case (moved s4 s5 t de para pd pp)
    let ?slot = "slot_of (window s) (tal_settlement_date e)" and ?b = "tal_side e = Side_Buy"
    have g: "ps_inv s4" "trades s4 = trades s" using moved(1) grown_trades [OF moved(1)] by (simp_all add: grown_def)
    have t4: "t < tr_count (trades s4)" using moved(2) g(2) by simp
    note spec = move_trade_spec [OF g(1) moved(19,6-10,11-16,17) t4]
    have s': "s' = s5 \<or> s' = set_trade_state s5 t TsAllocated"
      using moved(21) by (auto simp: rv_check_def ret_def split: if_splits)
    note st5 = set_trade_state_inv [OF spec(1), of t TsAllocated]
    have "i3_ok s' \<and> code st \<noteq> StateCorrupt" if "i3_ok s" "qtys_ok s"
    proof -
      have i3: "i3_ok s4" using that(1) moved(1) by (simp add: grown_def)
      have q: "0 \<le> tal_qty e" using qtys_ok_nth [OF that(2) moved(2)] moved(5) by simp
      have len: "?slot < length (bk_buy (buckets_row (custody s4) r))" "?slot < length (bk_sell (buckets_row (custody s4) r))" for r
        using moved(17) by (simp_all add: buckets_row_def row_slots_def)
      note mr = move_refused_None [OF moved(18,17)]
      have out: "bk_non_negative (out_buckets ?b ?slot (tal_qty e) (buckets_row (custody s4) pd))"
        by (rule move_non_negative(1) [OF i3_row [OF i3 moved(11)] q len mr(1)])
      have inn: "bk_non_negative (in_buckets ?b ?slot (tal_qty e) (buckets_row (custody s4) pp))"
        by (rule move_non_negative(2) [OF i3_row [OF i3 moved(14)] q len mr(2)])
      have pne: "pp \<noteq> pd" using moved(10,12,15) by auto
      have "i3_ok s5"
        unfolding i3_ok_def buckets_non_negative_row using spec(5,6) out inn i3_row [OF i3] by auto
      moreover have "buckets_non_negative (custody s5) pd" "buckets_non_negative (custody s5) pp"
        using \<open>i3_ok s5\<close> spec(6) moved(11,14) by (simp_all add: i3_ok_def)
      ultimately show ?thesis using moved(21) st5(3) by (auto simp: ret_def)
    qed
    moreover have "lists_ok s'" if "lists_ok s" "\<forall>t<tr_count (trades s). trade_id (trades s) ! t = tal_trade_id e \<longrightarrow>
           owner_of s t = tal_from_account e"
    proof -
      have own: "owner_of s t = tal_from_account e" using that(2) moved(2,3) by blast
      have lt: "tr_account (trades s) ! t < ca_count (cash_ledger s)" using assms(1) moved(2) by (simp add: ps_inv_def refs_ok_def)
      then have "account_document s4 ! (tr_account (trades s) ! t) = account_document s4 ! de"
        using own moved(1,7) by (auto simp: grown_def owner_of_def)
      moreover have "tr_account (trades s) ! t < ca_count (cash_ledger s4)" using lt moved(1) by (auto simp: grown_def)
      ultimately have "tr_account (trades s4) ! t = de" using account_names_inj [OF g(1) _ moved(6)] g(2) by simp
      with spec(2) that(1) moved(1) have "lists_ok s5" by (simp add: grown_def)
      with s' st5(2) show ?thesis by auto
    qed
    moreover have "ps_inv s'" using s' spec(1) st5(1) by auto
    ultimately show ?thesis by blast
  qed
  then show "ps_inv s'" "i3_ok s \<Longrightarrow> qtys_ok s \<Longrightarrow> i3_ok s' \<and> code st \<noteq> StateCorrupt"
    "lists_ok s \<Longrightarrow> (\<And>t. t < tr_count (trades s) \<Longrightarrow> trade_id (trades s) ! t = tal_trade_id e \<Longrightarrow>
           owner_of s t = tal_from_account e) \<Longrightarrow> lists_ok s'" by blast+
qed

end
