(* ===== verification/RV_Ledger_Step.thy ===== *)
theory RV_Ledger_Step
  imports RV_Books RV_Apply_Base
begin

text \<open>
  Changing one row of custody and one row of cash, the shape of every posting of the handlers: what
  it does to the invariant of the partition, to the lists of the accounts and to the books.
\<close>

section \<open>The sums of a position\<close>

text \<open>What the investor owns according to the buckets: the quantity of I1.\<close>

definition bk_today :: "Buckets \<Rightarrow> int" where
  "bk_today b = bk_available b + bk_blocked b + bk_leftovers b + bk_overdue_sell b + sum_list (bk_sell b)"

definition bk_projected :: "Buckets \<Rightarrow> int" where
  "bk_projected b = bk_available b + bk_blocked b + bk_leftovers b + bk_overdue_buy b + sum_list (bk_buy b)"

lemma bk_today_row: "bk_today (buckets_row c r) = today_sum c r" "bk_projected (buckets_row c r) = projected_sum c r"
  by (simp_all add: bk_today_def bk_projected_def buckets_row_def sum_defs row_slots_def)

lemmas ledger_simps = fx_simps bind_eq_Some_conv slots3 mult.commute [of _ 3] row_slots_update row_slots_nth nth_list_update

section \<open>One row of custody, one row of cash\<close>

text \<open>One row of custody and one row of cash, and nothing else but the exception queue.\<close>

definition ledger_frame :: "PartitionState \<Rightarrow> PartitionState \<Rightarrow> bool" where
  "ledger_frame s s' \<longleftrightarrow>
     pid s' = pid s \<and> business_date s' = business_date s \<and> prev_business_date s' = prev_business_date s
     \<and> window s' = window s \<and> applied_lsn s' = applied_lsn s \<and> instruments s' = instruments s \<and> trades s' = trades s
     \<and> account_index s' = account_index s \<and> position_index s' = position_index s
     \<and> instrument_index s' = instrument_index s \<and> trade_index s' = trade_index s
     \<and> applied_actions s' = applied_actions s \<and> applied_income s' = applied_income s
     \<and> account_first_trade s' = account_first_trade s \<and> account_document s' = account_document s
     \<and> length (exceptions s') = length (exceptions s) \<and> exception_capacity s' = exception_capacity s
     \<and> ps_cap s' = ps_cap s \<and> custody_like (custody s) (custody s') \<and> cash_like (cash_ledger s) (cash_ledger s')"

definition ledger_step :: "PartitionState \<Rightarrow> PartitionState \<Rightarrow> nat \<Rightarrow> Buckets \<Rightarrow> nat \<Rightarrow> Balances \<Rightarrow> bool" where
  "ledger_step s s' pos b acct bl \<longleftrightarrow> ledger_frame s s'
     \<and> (\<forall>r. buckets_row (custody s') r = (if r = pos then b else buckets_row (custody s) r))
     \<and> (\<forall>a. balances_row (cash_ledger s') a = (if a = acct then bl else balances_row (cash_ledger s) a))"

lemma ledger_frame_push: "ledger_frame s s' \<Longrightarrow> ledger_frame s (push_exception s' x m)"
  by (simp add: ledger_frame_def) (simp add: push_exception_def Let_def)

lemma push_exception_step:
  "ledger_step s s' pos b acct bl \<Longrightarrow> ledger_step s (push_exception s' x m) pos b acct bl"
  by (simp add: ledger_step_def ledger_frame_push)

lemma ledger_stepI:
  assumes "s' = s\<lparr>custody := cu, cash_ledger := ca\<rparr>" and "custody_like (custody s) cu" and "cash_like (cash_ledger s) ca"
    and "\<And>r. buckets_row cu r = (if r = pos then b else buckets_row (custody s) r)"
    and "\<And>a. balances_row ca a = (if a = acct then bl else balances_row (cash_ledger s) a)"
  shows "ledger_step s s' pos b acct bl"
  unfolding ledger_step_def ledger_frame_def using assms by simp

lemma ledger_frame_same_rows: "ledger_frame s s' \<Longrightarrow> same_rows s s'"
  by (simp add: ledger_frame_def same_rows_def rows_defs custody_like_def cash_like_def)

lemma ledger_frame_inv:
  assumes "ps_inv s" and "ledger_frame s s'"
  shows "ps_inv s'" and "lists_ok s' = lists_ok s"
proof -
  have rows: "account_rows s' = account_rows s" "instrument_rows s' = instrument_rows s" "position_rows s' = position_rows s"
    using ledger_frame_same_rows [OF assms(2)] by (simp_all add: same_rows_def)
  show "ps_inv s'" using assms rows
    unfolding ps_inv_def tables_ok_def indexes_ok_def refs_ok_def ledger_frame_def custody_like_def cash_like_def
    by (simp add: trade_rows_def)
  show "lists_ok s' = lists_ok s" using assms(2) by (simp add: ledger_frame_def lists_ok_def cash_like_def)
qed

lemma ledger_step_frame: "ledger_step s s' pos b acct bl \<Longrightarrow> ledger_frame s s'"
  by (simp add: ledger_step_def)

lemma ledger_step_books:
  assumes "ps_inv s" and "ledger_step s s' pos b acct bl" and "pos < cu_count (custody s)" and "acct < ca_count (cash_ledger s)"
  shows "position_book s' d x = (if d = doc_of s pos \<and> x = ext_of s pos then b else position_book s d x)"
    and "cash_book s' d = (if d = account_document s ! acct then bl else cash_book s d)"
proof -
  have f: "same_rows s s'" using ledger_frame_same_rows [OF ledger_step_frame [OF assms(2)]] .
  show "position_book s' d x = (if d = doc_of s pos \<and> x = ext_of s pos then b else position_book s d x)"
    by (rule position_book_update [OF assms(1) f assms(3)])
      (use assms(2) in \<open>auto simp: doc_of_def ext_of_def ledger_step_def\<close>)
  show "cash_book s' d = (if d = account_document s ! acct then bl else cash_book s d)"
    by (rule cash_book_update [OF assms(1) _ assms(4)]) (use f assms(2) in \<open>auto simp: same_rows_def ledger_step_def\<close>)
qed

lemma row_lengths:
  assumes "custody_shape c" and "cash_shape ca" and "pos < cu_count c" and "acct < ca_count ca" and "slot < 3"
  shows "3 * pos + slot < length (pending_buy c)" "3 * pos + slot < length (pending_sell c)"
    "pos < length (available c)" "pos < length (avg_price c)" "pos < length (overdue_buy c)" "pos < length (overdue_sell c)"
    "3 * acct + slot < length (pending ca)" "acct < length (cash ca)" "acct < length (overdue ca)"
    "acct < length (income_receivable ca)" "pos < length (leftovers c)" "pos < length (blocked c)"
  using assms by (auto simp: custody_shape_def cash_shape_def Let_def)

section \<open>Changes outside the ledgers\<close>

text \<open>The trade states are in no index, no list and no book.\<close>

lemma states_inv:
  assumes "ps_inv s" and "length sts = length (tr_state (trades s))"
  shows "ps_inv (s\<lparr>trades := (trades s)\<lparr>tr_state := sts\<rparr>\<rparr>)" and "lists_ok (s\<lparr>trades := (trades s)\<lparr>tr_state := sts\<rparr>\<rparr>) = lists_ok s"
    and "i3_ok (s\<lparr>trades := (trades s)\<lparr>tr_state := sts\<rparr>\<rparr>) = i3_ok s"
    and "position_book (s\<lparr>trades := (trades s)\<lparr>tr_state := sts\<rparr>\<rparr>) = position_book s"
    and "cash_book (s\<lparr>trades := (trades s)\<lparr>tr_state := sts\<rparr>\<rparr>) = cash_book s"
  using assms
  by (simp_all add: ps_inv_def tables_ok_def indexes_ok_def refs_ok_def rows_defs trades_shape_def Let_def
      lists_ok_def trades_of_def i3_ok_def position_book_def cash_book_def fun_eq_iff cong: option.case_cong)

lemma push_exception_books:
  "position_book (push_exception s x m) = position_book s" "cash_book (push_exception s x m) = cash_book s"
  "lists_ok (push_exception s x m) = lists_ok s" "i3_ok (push_exception s x m) = i3_ok s"
  by (simp_all add: position_book_def cash_book_def rows_defs lists_ok_def i3_ok_def fun_eq_iff cong: option.case_cong)

section \<open>I3 on the books\<close>

lemma position_book_slots: "length (bk_buy (position_book s d x)) = 3" "length (bk_sell (position_book s d x)) = 3"
  by (auto simp: position_book_def zero_buckets_def buckets_row_def row_slots_def split: option.split)

lemma i3_book:
  assumes "ps_inv s" and "i3_ok s"
  shows "bk_non_negative (position_book s d x)"
proof (cases "\<exists>r<cu_count (custody s). doc_of s r = d \<and> ext_of s r = x")
  case True
  then show ?thesis using position_book_row [OF assms(1)] i3_row [OF assms(2)] by (auto simp: doc_of_def ext_of_def)
next
  case False
  then show ?thesis using position_book_none [OF assms(1)] zero_non_negative by simp
qed

end
