(* ===== verification/RV_Apply_Settle.thy ===== *)
theory RV_Apply_Settle
  imports RV_Apply_Trade RV_Ledger_Step
begin

text \<open>
  Events 4 and 5 of \<^verbatim>\<open>src/core/apply.cpp\<close>: \<^verbatim>\<open>BatchNetted\<close> compares the clearing house's net
  with the pending cash and advances the trades of the batch; \<^verbatim>\<open>TradeSettled\<close> settles, fails or
  buys in a delivery and advances the trades it covers.

  Both walk the list of one account.  The loops change trade states but no link, so a walk of more
  steps than the table has rows repeats a row and never ends: the fuel \<open>tr_capacity + 1\<close> is exact,
  and \<open>None\<close> means that the loop does not end.
\<close>

section \<open>Walking the list of an account\<close>

text \<open>
  The loop of both events: for every row of the chain that is \<open>covered\<close>, fire \<open>g\<close>; the result is
  the trade table and the number of trades that moved.
\<close>

primrec advance_loop ::
    "nat \<Rightarrow> (TradeTable \<Rightarrow> nat \<Rightarrow> bool) \<Rightarrow> TradeTrigger \<Rightarrow> nat \<Rightarrow> TradeTable \<Rightarrow> nat \<Rightarrow> (TradeTable \<times> nat) option" where
  "advance_loop 0 covered g t tb contados = None"
| "advance_loop (Suc fuel) covered g t tb contados =
     (if t = kNil then Some (tb, contados)
      else if \<not> covered tb t then advance_loop fuel covered g (next_of_account tb ! t) tb contados
      else let proximo = next_state (tr_state tb ! t) g in
        if proximo = TsNone then advance_loop fuel covered g (next_of_account tb ! t) tb contados
        else advance_loop fuel covered g (next_of_account tb ! t)
               (tb\<lparr>tr_state := (tr_state tb)[t := proximo]\<rparr>) (contados + 1))"

section \<open>BatchNetted\<close>

definition in_batch :: "nat \<Rightarrow> DateYmd \<Rightarrow> TradeTable \<Rightarrow> nat \<Rightarrow> bool" where
  "in_batch acct data tb t \<longleftrightarrow> tr_account tb ! t = acct \<and> settlement_date tb ! t = data"

definition batch_netted :: "BatchNetted \<Rightarrow> PartitionState \<Rightarrow> ApplyContext \<Rightarrow> HandlerResult" where
  "batch_netted e s ctx =
     (case intern_account s (bnt_account e) of (acct, s1) \<Rightarrow>
      if acct = kEmpty then ret (fail ArenaExhausted 0) s1 ctx
      else let data = bnt_settlement_date e; slot = slot_of (window s1) data in
      if slot = kNoSlot then ret (fail OutsideSettlementWindow data) s1 ctx
      else let nosso = pending (cash_ledger s1) ! (acct * kSettlementSlots + slot); deles = bnt_net_amount e in
      if nosso \<noteq> deles then
        ret (fail AmountMismatch data)
          (push_exception s1 \<lparr>ex_document = bnt_account e, ex_qty_delta_raw = cast_i64 (nosso - deles),
             ex_instrument = 0, ex_date = data, ex_err_code = err_code AmountMismatch, ex_reserved = 0\<rparr> False) ctx
      else do {
        (tb, contados) \<leftarrow> advance_loop (tr_capacity (trades s1) + 1) (in_batch acct data) TgNet
                            (account_first_trade s1 ! acct) (trades s1) 0;
        let s2 = s1\<lparr>trades := tb\<rparr>;
        let s3 = (if bnt_trade_count e \<noteq> 0 \<and> contados \<noteq> unat (bnt_trade_count e) then
                    push_exception s2 \<lparr>ex_document = bnt_account e,
                      ex_qty_delta_raw = int contados - int (unat (bnt_trade_count e)), ex_instrument = 0,
                      ex_date = data, ex_err_code = err_code QtyMismatch, ex_reserved = 0\<rparr> False
                  else s2);
        ret kOk s3 ctx
      })"

definition apply_batch_netted :: "Codec \<Rightarrow> PartitionState \<Rightarrow> EventView \<Rightarrow> ApplyContext \<Rightarrow> HandlerResult" where
  "apply_batch_netted cd s ev ctx =
     (case decode 32 ev of
        Inl st \<Rightarrow> ret st s ctx
      | Inr bs \<Rightarrow> batch_netted (rd_bnt cd bs) s ctx)"

section \<open>TradeSettled\<close>

text \<open>The first \<^verbatim>\<open>switch\<close>: the trigger of an outcome, \<open>None\<close> for a value outside the enumeration.\<close>

definition outcome_trigger :: "u8 \<Rightarrow> TradeTrigger option" where
  "outcome_trigger o' =
     (if o' = SettleOutcome_Settled then Some TgSettle
      else if o' = SettleOutcome_DeliveryFailure then Some TgFail
      else if o' = SettleOutcome_BoughtIn then Some TgBuyIn else None)"

text \<open>The three branches of the second \<^verbatim>\<open>switch\<close>: the ledgers after it, or the status that rejects.\<close>

definition settle_delivered ::
    "bool \<Rightarrow> nat \<Rightarrow> nat \<Rightarrow> nat \<Rightarrow> Qty \<Rightarrow> Money \<Rightarrow> Money \<Rightarrow> PartitionState \<Rightarrow> (Status + PartitionState) option" where
  "settle_delivered compra acct pos slot q dinheiro cost_basis s =
     (let c = custody s; ca = cash_ledger s; k = pos * kSettlementSlots + slot in
      if (if compra then pending_buy c ! k else pending_sell c ! k) < q then Some (Inl (fail QtyMismatch 0))
      else do {
        c' \<leftarrow> (if compra then do {
                 base \<leftarrow> avg_price_base s pos;
                 p \<leftarrow> average_price_half_even base (avg_price c ! pos) q cost_basis;
                 pb \<leftarrow> sub_at (pending_buy c) k q;
                 av \<leftarrow> add_at (available c) pos q;
                 Some (c\<lparr>avg_price := (avg_price c)[pos := p], pending_buy := pb, available := av\<rparr>)
               } else do {
                 ps \<leftarrow> sub_at (pending_sell c) k q;
                 Some (c\<lparr>pending_sell := ps\<rparr>)
               });
        cs \<leftarrow> add_at (cash ca) acct dinheiro;
        pe \<leftarrow> sub_at (pending ca) (acct * kSettlementSlots + slot) dinheiro;
        Some (Inr (s\<lparr>custody := c', cash_ledger := ca\<lparr>cash := cs, pending := pe\<rparr>\<rparr>))
      })"

definition settle_failed ::
    "TradeSettled \<Rightarrow> bool \<Rightarrow> nat \<Rightarrow> nat \<Rightarrow> nat \<Rightarrow> Qty \<Rightarrow> Money \<Rightarrow> PartitionState \<Rightarrow> (Status + PartitionState) option" where
  "settle_failed e compra acct pos slot q dinheiro s =
     (let c = custody s; ca = cash_ledger s; k = pos * kSettlementSlots + slot in
      if (if compra then pending_buy c ! k else pending_sell c ! k) < q then Some (Inl (fail QtyMismatch 0))
      else do {
        c' \<leftarrow> (if compra then do {
                 pb \<leftarrow> sub_at (pending_buy c) k q;
                 ob \<leftarrow> add_at (overdue_buy c) pos q;
                 Some (c\<lparr>pending_buy := pb, overdue_buy := ob\<rparr>)
               } else do {
                 ps \<leftarrow> sub_at (pending_sell c) k q;
                 os \<leftarrow> add_at (overdue_sell c) pos q;
                 Some (c\<lparr>pending_sell := ps, overdue_sell := os\<rparr>)
               });
        pe \<leftarrow> sub_at (pending ca) (acct * kSettlementSlots + slot) dinheiro;
        ov \<leftarrow> add_at (overdue ca) acct dinheiro;
        Some (Inr (push_exception (s\<lparr>custody := c', cash_ledger := ca\<lparr>pending := pe, overdue := ov\<rparr>\<rparr>)
          \<lparr>ex_document = tst_account e, ex_qty_delta_raw = q, ex_instrument = tst_instrument e,
           ex_date = tst_settlement_date e, ex_err_code = err_code QtyMismatch, ex_reserved = 0\<rparr> False))
      })"

definition settle_bought_in ::
    "bool \<Rightarrow> nat \<Rightarrow> nat \<Rightarrow> Qty \<Rightarrow> Money \<Rightarrow> PartitionState \<Rightarrow> (Status + PartitionState) option" where
  "settle_bought_in compra acct pos q dinheiro s =
     (let c = custody s; ca = cash_ledger s in
      if (if compra then overdue_buy c ! pos else overdue_sell c ! pos) < q then Some (Inl (fail QtyMismatch 0))
      else do {
        c' \<leftarrow> (if compra then do {
                 ob \<leftarrow> sub_at (overdue_buy c) pos q;
                 av \<leftarrow> add_at (available c) pos q;
                 Some (c\<lparr>overdue_buy := ob, available := av\<rparr>)
               } else do {
                 os \<leftarrow> sub_at (overdue_sell c) pos q;
                 Some (c\<lparr>overdue_sell := os\<rparr>)
               });
        ov \<leftarrow> sub_at (overdue ca) acct dinheiro;
        cs \<leftarrow> add_at (cash ca) acct dinheiro;
        Some (Inr (s\<lparr>custody := c', cash_ledger := ca\<lparr>overdue := ov, cash := cs\<rparr>\<rparr>))
      })"

definition settle_ledgers :: "TradeSettled \<Rightarrow> TradeTrigger \<Rightarrow> nat \<Rightarrow> nat \<Rightarrow> nat \<Rightarrow> PartitionState \<Rightarrow> (Status + PartitionState) option" where
  "settle_ledgers e g acct pos slot s =
     (let compra = (tst_side e = Side_Buy); q = tst_qty e; dinheiro = tst_cash_amount e in
      if g = TgBuyIn then settle_bought_in compra acct pos q dinheiro s
      else if slot = kNoSlot then Some (Inl (fail OutsideSettlementWindow (tst_settlement_date e)))
      else if g = TgSettle then settle_delivered compra acct pos slot q dinheiro (tst_cost_basis e) s
      else settle_failed e compra acct pos slot q dinheiro s)"

definition covered_by :: "TradeSettled \<Rightarrow> nat \<Rightarrow> nat \<Rightarrow> TradeTable \<Rightarrow> nat \<Rightarrow> bool" where
  "covered_by e acct inst tb t \<longleftrightarrow> tr_account tb ! t = acct \<and> tr_instrument tb ! t = inst
     \<and> settlement_date tb ! t = tst_settlement_date e \<and> tr_side tb ! t = tst_side e"

definition trade_settled :: "bool \<Rightarrow> TradeSettled \<Rightarrow> PartitionState \<Rightarrow> EventView \<Rightarrow> ApplyContext \<Rightarrow> HandlerResult" where
  "trade_settled dbg e s ev ctx =
     (case intern_account s (tst_account e) of (acct, s1) \<Rightarrow>
      if acct = kEmpty then ret (fail ArenaExhausted 0) s1 ctx
      else case intern_instrument s1 (tst_instrument e) of (inst, s2) \<Rightarrow>
      if inst = kEmpty then ret (fail ArenaExhausted 0) s2 ctx
      else let pos = find_position s2 acct inst in
      if pos = kEmpty then ret (fail NotFound (tst_instrument e)) s2 ctx
      else let slot = slot_of (window s2) (tst_settlement_date e) in
      case outcome_trigger (tst_outcome e) of
        None \<Rightarrow> ret (fail InvalidArgument (ucast (tst_outcome e))) s2 ctx
      | Some gatilho \<Rightarrow> do {
          r \<leftarrow> settle_ledgers e gatilho acct pos slot s2;
          case r of
            Inl st \<Rightarrow> ret st s2 ctx
          | Inr s3 \<Rightarrow> do {
              (tb, _) \<leftarrow> advance_loop (tr_capacity (trades s3) + 1) (covered_by e acct inst) gatilho
                          (account_first_trade s3 ! acct) (trades s3) 0;
              let s4 = s3\<lparr>trades := tb\<rparr>;
              rv_check dbg (buckets_non_negative (custody s4) pos) s4 ctx (publish_ret s4 ctx ev pos)
            }
        })"

definition apply_trade_settled :: "bool \<Rightarrow> Codec \<Rightarrow> PartitionState \<Rightarrow> EventView \<Rightarrow> ApplyContext \<Rightarrow> HandlerResult" where
  "apply_trade_settled dbg cd s ev ctx =
     (case decode 56 ev of
        Inl st \<Rightarrow> ret st s ctx
      | Inr bs \<Rightarrow> trade_settled dbg (rd_tst cd bs) s ev ctx)"

section \<open>The walk\<close>

text \<open>A test on rows that does not look at the states, which are all the walk changes.\<close>

definition state_blind :: "(TradeTable \<Rightarrow> nat \<Rightarrow> bool) \<Rightarrow> bool" where
  "state_blind covered \<longleftrightarrow> (\<forall>tb sts. covered (tb\<lparr>tr_state := sts\<rparr>) = covered tb)"

lemma in_batch_blind: "state_blind (in_batch acct data)" and covered_by_blind: "state_blind (covered_by e acct inst)"
  by (simp_all add: state_blind_def in_batch_def covered_by_def fun_eq_iff)

definition moves :: "(TradeTable \<Rightarrow> nat \<Rightarrow> bool) \<Rightarrow> TradeTrigger \<Rightarrow> TradeTable \<Rightarrow> nat \<Rightarrow> bool" where
  "moves covered g tb t \<longleftrightarrow> covered tb t \<and> is_valid (tr_state tb ! t) g"

text \<open>
  On a chain that ends, the walk returns: exactly the covered rows with an edge for the trigger
  take that edge, every other row keeps its state, and the count is the number of moves.
\<close>

lemma advance_loop_spec:
  assumes "lseg (next_of_account tb) p xs" and "distinct xs" and "length xs < fuel" and "state_blind covered"
    and "length (tr_state tb) = length (next_of_account tb)"
  shows "\<exists>sts. advance_loop fuel covered g p tb n = Some (tb\<lparr>tr_state := sts\<rparr>, n + length (filter (moves covered g tb) xs))
           \<and> length sts = length (tr_state tb)
           \<and> (\<forall>j. sts ! j = (if j \<in> set xs \<and> moves covered g tb j then next_state (tr_state tb ! j) g else tr_state tb ! j))"
  using assms(1-3,5)
proof (induction xs arbitrary: p fuel tb n)
  case Nil
  then obtain f where "fuel = Suc f" by (cases fuel) auto
  with Nil have "advance_loop fuel covered g p tb n = Some (tb, n)" by simp
  then show ?case by (intro exI [of _ "tr_state tb"]) simp
next
  case (Cons x xs)
  then obtain f where f: "fuel = Suc f" by (cases fuel) auto
  have p: "p = x" "x \<noteq> kNil" "x < length (next_of_account tb)" "lseg (next_of_account tb) (next_of_account tb ! x) xs" "x \<notin> set xs"
    using Cons.prems(1,2) by auto
  define tb1 where "tb1 = (if moves covered g tb x then tb\<lparr>tr_state := (tr_state tb)[x := next_state (tr_state tb ! x) g]\<rparr> else tb)"
  define k :: nat where "k = (if moves covered g tb x then 1 else 0)"
  have step: "advance_loop fuel covered g p tb n = advance_loop f covered g (next_of_account tb ! x) tb1 (n + k)"
  proof (cases "moves covered g tb x")
    case True
    then show ?thesis using p(1,2) f by (simp add: tb1_def k_def moves_def is_valid_def Let_def)
  next
    case False
    then show ?thesis using p(1,2) f by (cases "covered tb x") (simp_all add: tb1_def k_def moves_def is_valid_def Let_def)
  qed
  have mv: "moves covered g tb1 j = moves covered g tb j" if "j \<noteq> x" for j
    using that assms(4) by (simp add: tb1_def moves_def state_blind_def)
  have same: "next_of_account tb1 = next_of_account tb" "length (tr_state tb1) = length (tr_state tb)"
    by (simp_all add: tb1_def)
  have "lseg (next_of_account tb1) (next_of_account tb ! x) xs" "distinct xs" "length xs < f"
    "length (tr_state tb1) = length (next_of_account tb1)" using p(4) Cons.prems(2-4) f same by simp_all
  from Cons.IH [OF this, of "n + k"]
  obtain sts where sts: "advance_loop f covered g (next_of_account tb ! x) tb1 (n + k)
      = Some (tb1\<lparr>tr_state := sts\<rparr>, n + k + length (filter (moves covered g tb1) xs))"
    "length sts = length (tr_state tb1)"
    "\<forall>j. sts ! j = (if j \<in> set xs \<and> moves covered g tb1 j then next_state (tr_state tb1 ! j) g else tr_state tb1 ! j)"
    by blast
  have fl: "filter (moves covered g tb1) xs = filter (moves covered g tb) xs"
  proof (rule filter_cong [OF refl])
    fix y assume "y \<in> set xs"
    with p(5) have "y \<noteq> x" by blast
    then show "moves covered g tb1 y = moves covered g tb y" by (rule mv)
  qed
  have tb: "tb1\<lparr>tr_state := sts\<rparr> = tb\<lparr>tr_state := sts\<rparr>" by (simp add: tb1_def)
  have st1: "tr_state tb1 ! j = (if j = x \<and> moves covered g tb x then next_state (tr_state tb ! x) g else tr_state tb ! j)" for j
    using p(3) Cons.prems(4) by (simp add: tb1_def nth_list_update)
  have all: "sts ! j = (if j \<in> set (x # xs) \<and> moves covered g tb j then next_state (tr_state tb ! j) g else tr_state tb ! j)" for j
    using sts(3) st1 mv p(5) by (cases "j = x") auto
  show ?case
    by (rule exI [of _ sts]) (use step sts(1,2) fl tb all same(2) in \<open>simp add: k_def\<close>)
qed

text \<open>Without any assumption on the chain: if the walk returns, states are all it changed, along edges.\<close>

lemma advance_loop_fields:
  assumes "advance_loop fuel covered g p tb n = Some (tb', n')"
  shows "\<exists>sts. tb' = tb\<lparr>tr_state := sts\<rparr> \<and> length sts = length (tr_state tb)
           \<and> (\<forall>j. (sts ! j, tr_state tb ! j) \<in> {(b, a). trade_step a g b}\<^sup>*)"
  using assms
proof (induction fuel arbitrary: p tb n)
  case 0
  then show ?case by simp
next
  case (Suc fuel)
  show ?case
  proof (cases "p = kNil \<or> \<not> covered tb p \<or> next_state (tr_state tb ! p) g = TsNone")
    case True
    then consider "tb' = tb" | "advance_loop fuel covered g (next_of_account tb ! p) tb n = Some (tb', n')"
      using Suc.prems by (cases "p = kNil") (simp_all add: Let_def split: if_splits)
    then show ?thesis
    proof cases
      case 1
      then show ?thesis by (intro exI [of _ "tr_state tb"]) simp
    next
      case 2
      then show ?thesis by (rule Suc.IH)
    qed
  next
    case False
    let ?tb = "tb\<lparr>tr_state := (tr_state tb)[p := next_state (tr_state tb ! p) g]\<rparr>"
    have "advance_loop fuel covered g (next_of_account tb ! p) ?tb (n + 1) = Some (tb', n')"
      using Suc.prems False by (simp add: Let_def)
    from Suc.IH [OF this] obtain sts where s: "tb' = ?tb\<lparr>tr_state := sts\<rparr>" "length sts = length (tr_state tb)"
      "\<forall>j. (sts ! j, tr_state ?tb ! j) \<in> {(b, a). trade_step a g b}\<^sup>*" by auto
    have "(sts ! j, tr_state tb ! j) \<in> {(b, a). trade_step a g b}\<^sup>*" for j
    proof -
      have "(tr_state ?tb ! j, tr_state tb ! j) \<in> {(b, a). trade_step a g b}\<^sup>*"
        using False by (cases "j = p \<and> j < length (tr_state tb)")
          (auto simp: nth_list_update trade_step_next is_valid_def list_update_beyond)
      with s(3) show ?thesis by (meson rtrancl_trans)
    qed
    with s show ?thesis by auto
  qed
qed

section \<open>Settlement on the books\<close>

text \<open>The three outcomes on a position; \<open>p\<close> is the average price after a delivered purchase.\<close>

definition settle_buckets :: "TradeTrigger \<Rightarrow> bool \<Rightarrow> nat \<Rightarrow> Qty \<Rightarrow> Price \<Rightarrow> Buckets \<Rightarrow> Buckets" where
  "settle_buckets g compra slot q p b =
     (let out_buy = (bk_buy b)[slot := bk_buy b ! slot - q]; out_sell = (bk_sell b)[slot := bk_sell b ! slot - q] in
      if g = TgSettle then
        (if compra then b\<lparr>bk_avg_price := p, bk_buy := out_buy, bk_available := bk_available b + q\<rparr>
         else b\<lparr>bk_sell := out_sell\<rparr>)
      else if g = TgFail then
        (if compra then b\<lparr>bk_buy := out_buy, bk_overdue_buy := bk_overdue_buy b + q\<rparr>
         else b\<lparr>bk_sell := out_sell, bk_overdue_sell := bk_overdue_sell b + q\<rparr>)
      else
        (if compra then b\<lparr>bk_overdue_buy := bk_overdue_buy b - q, bk_available := bk_available b + q\<rparr>
         else b\<lparr>bk_overdue_sell := bk_overdue_sell b - q\<rparr>))"

definition settle_balances :: "TradeTrigger \<Rightarrow> nat \<Rightarrow> Money \<Rightarrow> Balances \<Rightarrow> Balances" where
  "settle_balances g slot m b =
     (let out_p = (bl_pending b)[slot := bl_pending b ! slot - m] in
      if g = TgSettle then b\<lparr>bl_cash := bl_cash b + m, bl_pending := out_p\<rparr>
      else if g = TgFail then b\<lparr>bl_pending := out_p, bl_overdue := bl_overdue b + m\<rparr>
      else b\<lparr>bl_overdue := bl_overdue b - m, bl_cash := bl_cash b + m\<rparr>)"

text \<open>A settlement that is not rejected found the quantity it settles.\<close>

definition settle_covered :: "TradeTrigger \<Rightarrow> bool \<Rightarrow> nat \<Rightarrow> Qty \<Rightarrow> Buckets \<Rightarrow> bool" where
  "settle_covered g compra slot q b \<longleftrightarrow>
     q \<le> (if g = TgBuyIn then (if compra then bk_overdue_buy b else bk_overdue_sell b)
          else (if compra then bk_buy b ! slot else bk_sell b ! slot))"

definition settle_priced :: "TradeTrigger \<Rightarrow> bool \<Rightarrow> Qty \<Rightarrow> Money \<Rightarrow> Buckets \<Rightarrow> Price \<Rightarrow> bool" where
  "settle_priced g compra q cost b p \<longleftrightarrow>
     (g = TgSettle \<and> compra \<longrightarrow> average_price_half_even (bk_today b) (bk_avg_price b) q cost = Some p)"

section \<open>The three outcomes\<close>

lemma settle_delivered_step:
  assumes "settle_delivered compra acct pos slot q m cost s = Some (Inr s')" and "ps_inv s"
    and "pos < cu_count (custody s)" and "acct < ca_count (cash_ledger s)" and "slot < 3"
  shows "\<exists>p. settle_covered TgSettle compra slot q (buckets_row (custody s) pos)
           \<and> settle_priced TgSettle compra q cost (buckets_row (custody s) pos) p
           \<and> ledger_step s s' pos (settle_buckets TgSettle compra slot q p (buckets_row (custody s) pos))
               acct (settle_balances TgSettle slot m (balances_row (cash_ledger s) acct))"
proof -
  let ?c = "custody s" and ?ca = "cash_ledger s"
  have sh: "custody_shape ?c" "cash_shape ?ca" using ps_inv_shapes [OF assms(2)] by simp_all
  note len = row_lengths [OF sh assms(3-5)]
  obtain c' cs pe where c': "(if compra then do {
                 base \<leftarrow> avg_price_base s pos;
                 p \<leftarrow> average_price_half_even base (avg_price ?c ! pos) q cost;
                 pb \<leftarrow> sub_at (pending_buy ?c) (pos * kSettlementSlots + slot) q;
                 av \<leftarrow> add_at (available ?c) pos q;
                 Some (?c\<lparr>avg_price := (avg_price ?c)[pos := p], pending_buy := pb, available := av\<rparr>)
               } else do {
                 ps \<leftarrow> sub_at (pending_sell ?c) (pos * kSettlementSlots + slot) q;
                 Some (?c\<lparr>pending_sell := ps\<rparr>)
               }) = Some c'"
    and cs: "add_at (cash ?ca) acct m = Some cs" and pe: "sub_at (pending ?ca) (acct * kSettlementSlots + slot) m = Some pe"
    and s': "s' = s\<lparr>custody := c', cash_ledger := ?ca\<lparr>cash := cs, pending := pe\<rparr>\<rparr>"
    and cov: "\<not> (if compra then pending_buy ?c ! (pos * kSettlementSlots + slot) else pending_sell ?c ! (pos * kSettlementSlots + slot)) < q"
    using assms(1) unfolding settle_delivered_def Let_def by (auto simp: bind_eq_Some_conv split: if_splits)
  have bal: "balances_row (?ca\<lparr>cash := cs, pending := pe\<rparr>) a
      = (if a = acct then settle_balances TgSettle slot m (balances_row ?ca acct) else balances_row ?ca a)" for a
    using cs pe len assms(5) by (auto simp: balances_row_def settle_balances_def Let_def ledger_simps)
  have cal: "cash_like ?ca (?ca\<lparr>cash := cs, pending := pe\<rparr>)"
    using cs pe sh by (auto simp: cash_like_def cash_shape_def Let_def fx_simps)
  have cul: "custody_like ?c c'"
    using c' sh by (auto simp: custody_like_def custody_shape_def Let_def fx_simps bind_eq_Some_conv split: if_splits)
  have cv: "settle_covered TgSettle compra slot q (buckets_row ?c pos)"
    using cov assms(5) by (auto simp: settle_covered_def buckets_row_def row_slots_nth slots3 mult.commute [of _ 3])
  show ?thesis
  proof (cases compra)
    case True
    with c' obtain base p where b: "avg_price_base s pos = Some base" "average_price_half_even base (avg_price ?c ! pos) q cost = Some p"
      and c'': "c' = ?c\<lparr>avg_price := (avg_price ?c)[pos := p], pending_buy := (pending_buy ?c)[3 * pos + slot := pending_buy ?c ! (3 * pos + slot) - q],
              available := (available ?c)[pos := available ?c ! pos + q]\<rparr>"
      by (auto simp: bind_eq_Some_conv fx_simps slots3 mult.commute [of _ 3])
    have "base = bk_today (buckets_row ?c pos)" using b(1) custody_today_sum by (auto simp: avg_price_base_def bk_today_row)
    then have pr: "settle_priced TgSettle compra q cost (buckets_row ?c pos) p"
      using b(2) by (simp add: settle_priced_def) (simp add: buckets_row_def)
    have "buckets_row c' r = (if r = pos then settle_buckets TgSettle compra slot q p (buckets_row ?c pos) else buckets_row ?c r)" for r
      using True len assms(5) by (auto simp: c'' buckets_row_def settle_buckets_def Let_def ledger_simps)
    from cv pr ledger_stepI [OF s' cul cal this bal] show ?thesis by blast
  next
    case False
    with c' have c'': "c' = ?c\<lparr>pending_sell := (pending_sell ?c)[3 * pos + slot := pending_sell ?c ! (3 * pos + slot) - q]\<rparr>"
      by (auto simp: bind_eq_Some_conv fx_simps slots3 mult.commute [of _ 3])
    have "buckets_row c' r = (if r = pos then settle_buckets TgSettle compra slot q 0 (buckets_row ?c pos) else buckets_row ?c r)" for r
      using False len assms(5) by (auto simp: c'' buckets_row_def settle_buckets_def Let_def ledger_simps)
    from cv ledger_stepI [OF s' cul cal this bal] False show ?thesis by (intro exI [of _ 0]) (simp add: settle_priced_def)
  qed
qed

lemma settle_failed_step:
  assumes "settle_failed e compra acct pos slot q m s = Some (Inr s')" and "ps_inv s"
    and "pos < cu_count (custody s)" and "acct < ca_count (cash_ledger s)" and "slot < 3"
  shows "settle_covered TgFail compra slot q (buckets_row (custody s) pos)
           \<and> ledger_step s s' pos (settle_buckets TgFail compra slot q p (buckets_row (custody s) pos))
               acct (settle_balances TgFail slot m (balances_row (cash_ledger s) acct))"
proof -
  let ?c = "custody s" and ?ca = "cash_ledger s"
  have sh: "custody_shape ?c" "cash_shape ?ca" using ps_inv_shapes [OF assms(2)] by simp_all
  note len = row_lengths [OF sh assms(3-5)]
  obtain c' pe ov x where c': "(if compra then do {
                 pb \<leftarrow> sub_at (pending_buy ?c) (pos * kSettlementSlots + slot) q;
                 ob \<leftarrow> add_at (overdue_buy ?c) pos q;
                 Some (?c\<lparr>pending_buy := pb, overdue_buy := ob\<rparr>)
               } else do {
                 ps \<leftarrow> sub_at (pending_sell ?c) (pos * kSettlementSlots + slot) q;
                 os \<leftarrow> add_at (overdue_sell ?c) pos q;
                 Some (?c\<lparr>pending_sell := ps, overdue_sell := os\<rparr>)
               }) = Some c'"
    and pe: "sub_at (pending ?ca) (acct * kSettlementSlots + slot) m = Some pe" and ov: "add_at (overdue ?ca) acct m = Some ov"
    and s': "s' = push_exception (s\<lparr>custody := c', cash_ledger := ?ca\<lparr>pending := pe, overdue := ov\<rparr>\<rparr>) x False"
    and cov: "\<not> (if compra then pending_buy ?c ! (pos * kSettlementSlots + slot) else pending_sell ?c ! (pos * kSettlementSlots + slot)) < q"
    using assms(1) unfolding settle_failed_def Let_def by (auto simp: bind_eq_Some_conv split: if_splits)
  have bal: "balances_row (?ca\<lparr>pending := pe, overdue := ov\<rparr>) a
      = (if a = acct then settle_balances TgFail slot m (balances_row ?ca acct) else balances_row ?ca a)" for a
    using ov pe len assms(5) by (auto simp: balances_row_def settle_balances_def Let_def ledger_simps)
  have cal: "cash_like ?ca (?ca\<lparr>pending := pe, overdue := ov\<rparr>)"
    using ov pe sh by (auto simp: cash_like_def cash_shape_def Let_def fx_simps)
  have cul: "custody_like ?c c'"
    using c' sh by (auto simp: custody_like_def custody_shape_def Let_def fx_simps bind_eq_Some_conv split: if_splits)
  have cv: "settle_covered TgFail compra slot q (buckets_row ?c pos)"
    using cov assms(5) by (auto simp: settle_covered_def buckets_row_def row_slots_nth slots3 mult.commute [of _ 3])
  have "buckets_row c' r = (if r = pos then settle_buckets TgFail compra slot q p (buckets_row ?c pos) else buckets_row ?c r)" for r
    using c' len assms(5) by (auto simp: buckets_row_def settle_buckets_def Let_def ledger_simps split: if_splits)
  from cv push_exception_step [OF ledger_stepI [OF refl cul cal this bal]] show ?thesis by (simp add: s')
qed

lemma settle_bought_in_step:
  assumes "settle_bought_in compra acct pos q m s = Some (Inr s')" and "ps_inv s"
    and "pos < cu_count (custody s)" and "acct < ca_count (cash_ledger s)"
  shows "settle_covered TgBuyIn compra slot q (buckets_row (custody s) pos)
           \<and> ledger_step s s' pos (settle_buckets TgBuyIn compra slot q p (buckets_row (custody s) pos))
               acct (settle_balances TgBuyIn slot m (balances_row (cash_ledger s) acct))"
proof -
  let ?c = "custody s" and ?ca = "cash_ledger s"
  have sh: "custody_shape ?c" "cash_shape ?ca" using ps_inv_shapes [OF assms(2)] by simp_all
  have len: "pos < length (available ?c)" "pos < length (overdue_buy ?c)" "pos < length (overdue_sell ?c)"
    "acct < length (cash ?ca)" "acct < length (overdue ?ca)"
    using sh assms(3,4) by (auto simp: custody_shape_def cash_shape_def Let_def)
  obtain c' cs ov where c': "(if compra then do {
                 ob \<leftarrow> sub_at (overdue_buy ?c) pos q;
                 av \<leftarrow> add_at (available ?c) pos q;
                 Some (?c\<lparr>overdue_buy := ob, available := av\<rparr>)
               } else do {
                 os \<leftarrow> sub_at (overdue_sell ?c) pos q;
                 Some (?c\<lparr>overdue_sell := os\<rparr>)
               }) = Some c'"
    and ov: "sub_at (overdue ?ca) acct m = Some ov" and cs: "add_at (cash ?ca) acct m = Some cs"
    and s': "s' = s\<lparr>custody := c', cash_ledger := ?ca\<lparr>overdue := ov, cash := cs\<rparr>\<rparr>"
    and cov: "\<not> (if compra then overdue_buy ?c ! pos else overdue_sell ?c ! pos) < q"
    using assms(1) unfolding settle_bought_in_def Let_def by (auto simp: bind_eq_Some_conv split: if_splits)
  have bal: "balances_row (?ca\<lparr>overdue := ov, cash := cs\<rparr>) a
      = (if a = acct then settle_balances TgBuyIn slot m (balances_row ?ca acct) else balances_row ?ca a)" for a
    using ov cs len by (auto simp: balances_row_def settle_balances_def Let_def fx_simps nth_list_update)
  have cal: "cash_like ?ca (?ca\<lparr>overdue := ov, cash := cs\<rparr>)"
    using ov cs sh by (auto simp: cash_like_def cash_shape_def Let_def fx_simps)
  have cul: "custody_like ?c c'"
    using c' sh by (auto simp: custody_like_def custody_shape_def Let_def fx_simps bind_eq_Some_conv split: if_splits)
  have cv: "settle_covered TgBuyIn compra slot q (buckets_row ?c pos)"
    using cov by (auto simp: settle_covered_def buckets_row_def)
  have "buckets_row c' r = (if r = pos then settle_buckets TgBuyIn compra slot q p (buckets_row ?c pos) else buckets_row ?c r)" for r
    using c' len by (auto simp: buckets_row_def settle_buckets_def Let_def fx_simps bind_eq_Some_conv nth_list_update split: if_splits)
  from cv ledger_stepI [OF s' cul cal this bal] show ?thesis by blast
qed

lemma settle_ledgers_step:
  assumes "settle_ledgers e g acct pos slot s = Some (Inr s')" and "ps_inv s" and "outcome_trigger o' = Some g"
    and "pos < cu_count (custody s)" and "acct < ca_count (cash_ledger s)" and "slot \<noteq> kNoSlot \<Longrightarrow> slot < 3"
  shows "\<exists>p. settle_covered g (tst_side e = Side_Buy) slot (tst_qty e) (buckets_row (custody s) pos)
           \<and> settle_priced g (tst_side e = Side_Buy) (tst_qty e) (tst_cost_basis e) (buckets_row (custody s) pos) p
           \<and> ledger_step s s' pos (settle_buckets g (tst_side e = Side_Buy) slot (tst_qty e) p (buckets_row (custody s) pos))
               acct (settle_balances g slot (tst_cash_amount e) (balances_row (cash_ledger s) acct))
           \<and> (g = TgBuyIn \<or> slot < 3)"
proof -
  have "g = TgSettle \<or> g = TgFail \<or> g = TgBuyIn" using assms(3) by (auto simp: outcome_trigger_def split: if_splits)
  then show ?thesis
  proof (elim disjE)
    assume g: "g = TgSettle"
    with assms(1,6) have "slot < 3" "settle_delivered (tst_side e = Side_Buy) acct pos slot (tst_qty e) (tst_cash_amount e) (tst_cost_basis e) s = Some (Inr s')"
      by (auto simp: settle_ledgers_def Let_def split: if_splits)
    with settle_delivered_step [OF this(2) assms(2,4,5) this(1)] g show ?thesis by blast
  next
    assume g: "g = TgFail"
    with assms(1,6) have "slot < 3" "settle_failed e (tst_side e = Side_Buy) acct pos slot (tst_qty e) (tst_cash_amount e) s = Some (Inr s')"
      by (auto simp: settle_ledgers_def Let_def split: if_splits)
    with settle_failed_step [OF this(2) assms(2,4,5) this(1), of 0] g show ?thesis
      by (intro exI [of _ 0]) (simp add: settle_priced_def)
  next
    assume g: "g = TgBuyIn"
    with assms(1) have "settle_bought_in (tst_side e = Side_Buy) acct pos (tst_qty e) (tst_cash_amount e) s = Some (Inr s')"
      by (simp add: settle_ledgers_def Let_def)
    from settle_bought_in_step [OF this assms(2,4,5), of slot 0] g show ?thesis
      by (intro exI [of _ 0]) (simp add: settle_priced_def)
  qed
qed

lemma settle_ledgers_refused:
  assumes "settle_ledgers e g acct pos slot s = Some (Inl st)"
  shows "code st = QtyMismatch \<or> code st = OutsideSettlementWindow"
  using assms
  by (auto simp: settle_ledgers_def settle_delivered_def settle_failed_def settle_bought_in_def Let_def
      bind_eq_Some_conv split: if_splits)

lemma find_position_row:
  assumes "ps_inv s" and "find_position s a i = r" and "r \<noteq> kEmpty" and "a < ca_count (cash_ledger s)" and "i < in_count (instruments s)"
  shows "r < cu_count (custody s)" and "cu_account (custody s) ! r = a" and "cu_instrument (custody s) ! r = i"
proof -
  have t: "tables_ok s" using assms(1) by (simp add: ps_inv_def)
  let ?ks = "map (\<lambda>(a, i). position_key a i) (position_rows s)"
  have ix: "indexed (position_index s) ?ks" and len: "length ?ks < kEmpty"
    using assms(1) by (auto simp: ps_inv_def indexes_ok_def tables_ok_def custody_shape_def Let_def)
  from indexed_find [OF ix len _ assms(3)] assms(2) have
    r: "r < length ?ks" "?ks ! r = position_key a i" by (simp_all add: find_position_def)
  then show lt: "r < cu_count (custody s)" using t by simp
  have "position_key (cu_account (custody s) ! r) (cu_instrument (custody s) ! r) = position_key a i"
    using r lt t position_rows_nth [OF t lt] by simp
  moreover have "position_ok s (cu_account (custody s) ! r, cu_instrument (custody s) ! r)" "position_ok s (a, i)"
    using assms(1,4,5) lt by (simp_all add: position_ok_def ps_inv_def refs_ok_def)
  ultimately show "cu_account (custody s) ! r = a" "cu_instrument (custody s) ! r = i"
    using position_key_inj [of "cu_account (custody s) ! r" "cu_instrument (custody s) ! r" a i]
      position_ok_small [OF assms(1)] by fastforce+
qed

lemma trade_settled_cases:
  assumes "ps_inv s" and "trade_settled dbg e s ev ctx = Some (st, s', ctx')"
  obtains (rejected) "code st \<in> {ArenaExhausted, NotFound, InvalidArgument, OutsideSettlementWindow, QtyMismatch}"
      "grown s s'" "ctx' = ctx"
  | (settled) s2 s3 acct inst pos g p sts n where "grown s s2"
      "acct < ca_count (cash_ledger s2)" "account_document s2 ! acct = tst_account e"
      "inst < in_count (instruments s2)" "external_id (instruments s2) ! inst = tst_instrument e"
      "pos < cu_count (custody s2)" "doc_of s2 pos = tst_account e" "ext_of s2 pos = tst_instrument e"
      "outcome_trigger (tst_outcome e) = Some g"
      "settle_covered g (tst_side e = Side_Buy) (slot_of (window s) (tst_settlement_date e)) (tst_qty e) (buckets_row (custody s2) pos)"
      "settle_priced g (tst_side e = Side_Buy) (tst_qty e) (tst_cost_basis e) (buckets_row (custody s2) pos) p"
      "ledger_step s2 s3 pos
         (settle_buckets g (tst_side e = Side_Buy) (slot_of (window s) (tst_settlement_date e)) (tst_qty e) p (buckets_row (custody s2) pos))
         acct (settle_balances g (slot_of (window s) (tst_settlement_date e)) (tst_cash_amount e) (balances_row (cash_ledger s2) acct))"
      "advance_loop (tr_capacity (trades s) + 1) (covered_by e acct inst) g (account_first_trade s2 ! acct) (trades s) 0
         = Some ((trades s)\<lparr>tr_state := sts\<rparr>, n)" "length sts = length (tr_state (trades s))"
      "s' = s3\<lparr>trades := (trades s)\<lparr>tr_state := sts\<rparr>\<rparr>"
      "rv_check dbg (buckets_non_negative (custody s') pos) s' ctx (publish_ret s' ctx ev pos) = Some (st, s', ctx')"
      "g = TgBuyIn \<or> slot_of (window s) (tst_settlement_date e) < 3"
proof -
  obtain acct s1 where i1: "intern_account s (tst_account e) = (acct, s1)" by (cases "intern_account s (tst_account e)")
  obtain inst s2 where i2: "intern_instrument s1 (tst_instrument e) = (inst, s2)" by (cases "intern_instrument s1 (tst_instrument e)")
  note g1 = intern_account_grown [OF assms(1) i1]
  note g2 = intern_instrument_grown [OF grown_inv [OF g1(1)] i2]
  have g12: "grown s s2" by (rule grown_trans [OF g1(1) g2(1)])
  have tw: "trades s2 = trades s" "window s2 = window s" "length (window s) = 3"
    using grown_trades [OF g12] assms(1) by (simp_all add: ps_inv_def tables_ok_def)
  let ?pos = "find_position s2 acct inst" and ?slot = "slot_of (window s) (tst_settlement_date e)"
  note run = assms(2) [unfolded trade_settled_def Let_def i1 i2 prod.case tw(2)]
  show thesis
  proof (cases "code st \<notin> {ArenaExhausted, NotFound, InvalidArgument, OutsideSettlementWindow, QtyMismatch} \<or> \<not> grown s s' \<or> ctx' \<noteq> ctx")
    case False
    then show thesis by (intro rejected) auto
  next
    case True
    have ids: "acct \<noteq> kEmpty" "inst \<noteq> kEmpty" "?pos \<noteq> kEmpty" "outcome_trigger (tst_outcome e) \<noteq> None"
      using True run g1(1) g12 by (auto simp: ret_def split: if_splits option.splits)
    then obtain g where g: "outcome_trigger (tst_outcome e) = Some g" by blast
    with run ids obtain r where r: "settle_ledgers e g acct ?pos ?slot s2 = Some r"
      by (auto simp: bind_eq_Some_conv)
    have "\<exists>s3. r = Inr s3"
    proof (cases r)
      case (Inl st0)
      with run ids g r True g12 settle_ledgers_refused [of e g acct ?pos ?slot s2 st0] show ?thesis
        by (auto simp: ret_def)
    qed blast
    then obtain s3 where s3: "r = Inr s3" by blast
    have acct: "acct < ca_count (cash_ledger s2)" "account_document s2 ! acct = tst_account e"
      using g1(2) [OF ids(1)] g2(4,6) by simp_all
    have inst: "inst < in_count (instruments s2)" "external_id (instruments s2) ! inst = tst_instrument e"
      using g2(2) [OF ids(2)] by simp_all
    note pos = find_position_row [OF grown_inv [OF g12] refl ids(3) acct(1) inst(1)]
    have slot: "?slot \<noteq> kNoSlot \<Longrightarrow> ?slot < 3" using slot_of_less [OF tw(3)] .
    obtain p where step: "settle_covered g (tst_side e = Side_Buy) ?slot (tst_qty e) (buckets_row (custody s2) ?pos)"
      "settle_priced g (tst_side e = Side_Buy) (tst_qty e) (tst_cost_basis e) (buckets_row (custody s2) ?pos) p"
      "ledger_step s2 s3 ?pos (settle_buckets g (tst_side e = Side_Buy) ?slot (tst_qty e) p (buckets_row (custody s2) ?pos))
               acct (settle_balances g ?slot (tst_cash_amount e) (balances_row (cash_ledger s2) acct))"
      "g = TgBuyIn \<or> ?slot < 3"
      using settle_ledgers_step [OF r [unfolded s3] grown_inv [OF g12] g pos(1) acct(1) slot] by blast
    have fr: "trades s3 = trades s" "account_first_trade s3 = account_first_trade s2"
      using ledger_step_frame [OF step(3)] tw(1) by (simp_all add: ledger_frame_def)
    from run ids g r s3 fr obtain tb n where adv:
      "advance_loop (tr_capacity (trades s) + 1) (covered_by e acct inst) g (account_first_trade s2 ! acct) (trades s) 0 = Some (tb, n)"
      "rv_check dbg (buckets_non_negative (custody (s3\<lparr>trades := tb\<rparr>)) ?pos) (s3\<lparr>trades := tb\<rparr>) ctx
         (publish_ret (s3\<lparr>trades := tb\<rparr>) ctx ev ?pos) = Some (st, s', ctx')"
      by (auto simp: bind_eq_Some_conv simp del: advance_loop.simps)
    obtain sts where sts: "tb = (trades s)\<lparr>tr_state := sts\<rparr>" "length sts = length (tr_state (trades s))"
      using advance_loop_fields [OF adv(1)] by blast
    have s': "s' = s3\<lparr>trades := tb\<rparr>" using rv_publish_state [OF adv(2)] by simp
    show thesis
      by (rule settled [OF g12 acct inst pos(1) _ _ g step(1-3) adv(1) [unfolded sts(1)] sts(2) _ _ step(4)])
        (use s' sts adv(2) pos acct inst in \<open>simp_all add: doc_of_def ext_of_def\<close>)
  qed
qed

text \<open>The chain of an account is no longer than the table, so the fuel of the walk is enough.\<close>

lemma account_chain:
  assumes "ps_inv s" and "lists_ok s" and "a < ca_count (cash_ledger s)"
  obtains xs where "lseg (next_of_account (trades s)) (account_first_trade s ! a) xs" "distinct xs"
    "set xs = trades_of (trades s) a" "length xs \<le> tr_capacity (trades s)"
proof -
  obtain xs where xs: "lseg (next_of_account (trades s)) (account_first_trade s ! a) xs" "distinct xs"
    "set xs = trades_of (trades s) a" using assms(2,3) by (auto simp: lists_ok_def)
  have "set xs \<subseteq> {..<tr_count (trades s)}" using xs(3) by (auto simp: trades_of_def)
  then have "length xs \<le> tr_count (trades s)"
    using card_mono [of "{..<tr_count (trades s)}" "set xs"] distinct_card [OF xs(2)] by simp
  also have "\<dots> \<le> tr_capacity (trades s)" using ps_inv_shapes [OF assms(1)] by (simp add: trades_shape_def Let_def)
  finally show thesis by (rule that [OF xs])
qed

lemma advance_account:
  assumes "ps_inv s" and "lists_ok s" and "a < ca_count (cash_ledger s)" and "state_blind covered"
    and "\<And>t. covered (trades s) t \<Longrightarrow> tr_account (trades s) ! t = a"
  shows "\<exists>sts n. advance_loop (tr_capacity (trades s) + 1) covered g (account_first_trade s ! a) (trades s) 0
             = Some ((trades s)\<lparr>tr_state := sts\<rparr>, n) \<and> length sts = length (tr_state (trades s))
           \<and> n = card {t. t < tr_count (trades s) \<and> moves covered g (trades s) t}
           \<and> (\<forall>j<tr_count (trades s). sts ! j = (if moves covered g (trades s) j then next_state (tr_state (trades s) ! j) g
                else tr_state (trades s) ! j))"
proof -
  obtain xs where xs: "lseg (next_of_account (trades s)) (account_first_trade s ! a) xs" "distinct xs"
    "set xs = trades_of (trades s) a" "length xs \<le> tr_capacity (trades s)"
    by (rule account_chain [OF assms(1-3)])
  have "length (tr_state (trades s)) = length (next_of_account (trades s))"
    using ps_inv_shapes [OF assms(1)] by (simp add: trades_shape_def Let_def)
  from advance_loop_spec [OF xs(1,2) _ assms(4) this, of "tr_capacity (trades s) + 1" g 0] xs(4)
  obtain sts where sts: "advance_loop (tr_capacity (trades s) + 1) covered g (account_first_trade s ! a) (trades s) 0
      = Some ((trades s)\<lparr>tr_state := sts\<rparr>, length (filter (moves covered g (trades s)) xs))"
    "length sts = length (tr_state (trades s))"
    "\<forall>j. sts ! j = (if j \<in> set xs \<and> moves covered g (trades s) j then next_state (tr_state (trades s) ! j) g
        else tr_state (trades s) ! j)" by auto
  have mem: "j \<in> set xs \<and> moves covered g (trades s) j \<longleftrightarrow> j < tr_count (trades s) \<and> moves covered g (trades s) j" for j
    using xs(3) assms(5) by (auto simp: trades_of_def moves_def)
  have "length (filter (moves covered g (trades s)) xs) = card {t. t < tr_count (trades s) \<and> moves covered g (trades s) t}"
    using distinct_card [OF distinct_filter [OF xs(2)], of "moves covered g (trades s)"] mem by simp
  with sts mem show ?thesis by auto
qed

lemma batch_netted_cases:
  assumes "ps_inv s" and "batch_netted e s ctx = Some (st, s', ctx')"
  obtains (rejected) s1 where "code st \<in> {ArenaExhausted, OutsideSettlementWindow, AmountMismatch}" "grown s s1"
      "s' = s1 \<or> (\<exists>x. s' = push_exception s1 x False)" "ctx' = ctx"
  | (netted) s1 acct sts n where "grown s s1" "acct < ca_count (cash_ledger s1)" "account_document s1 ! acct = bnt_account e"
      "slot_of (window s) (bnt_settlement_date e) < 3"
      "bl_pending (balances_row (cash_ledger s1) acct) ! slot_of (window s) (bnt_settlement_date e) = bnt_net_amount e"
      "advance_loop (tr_capacity (trades s) + 1) (in_batch acct (bnt_settlement_date e)) TgNet (account_first_trade s1 ! acct) (trades s) 0
         = Some ((trades s)\<lparr>tr_state := sts\<rparr>, n)" "length sts = length (tr_state (trades s))" "st = kOk" "ctx' = ctx"
      "s' = s1\<lparr>trades := (trades s)\<lparr>tr_state := sts\<rparr>\<rparr>
       \<or> n \<noteq> unat (bnt_trade_count e) \<and> (\<exists>x. s' = push_exception (s1\<lparr>trades := (trades s)\<lparr>tr_state := sts\<rparr>\<rparr>) x False)"
proof -
  obtain acct s1 where i1: "intern_account s (bnt_account e) = (acct, s1)" by (cases "intern_account s (bnt_account e)")
  note g1 = intern_account_grown [OF assms(1) i1]
  have tw: "trades s1 = trades s" "window s1 = window s" "length (window s) = 3"
    using grown_trades [OF g1(1)] assms(1) by (simp_all add: ps_inv_def tables_ok_def)
  let ?slot = "slot_of (window s) (bnt_settlement_date e)"
  note run = assms(2) [unfolded batch_netted_def Let_def i1 prod.case tw(1,2)]
  show thesis
  proof (cases "acct = kEmpty \<or> ?slot = kNoSlot \<or> pending (cash_ledger s1) ! (acct * kSettlementSlots + ?slot) \<noteq> bnt_net_amount e")
    case True
    then show thesis using run g1(1) by (intro rejected [of s1]) (auto simp: ret_def split: if_splits)
  next
    case False
    then have slot: "?slot < 3" using slot_of_less [OF tw(3)] by blast
    from False run obtain tb n where adv: "advance_loop (tr_capacity (trades s) + 1) (in_batch acct (bnt_settlement_date e)) TgNet
        (account_first_trade s1 ! acct) (trades s) 0 = Some (tb, n)" and st: "st = kOk" "ctx' = ctx"
      and s': "s' = s1\<lparr>trades := tb\<rparr> \<or> n \<noteq> unat (bnt_trade_count e) \<and> (\<exists>x. s' = push_exception (s1\<lparr>trades := tb\<rparr>) x False)"
      by (auto simp: bind_eq_Some_conv ret_def simp del: advance_loop.simps split: if_splits)
    obtain sts where sts: "tb = (trades s)\<lparr>tr_state := sts\<rparr>" "length sts = length (tr_state (trades s))"
      using advance_loop_fields [OF adv] by blast
    show thesis
      by (rule netted [OF g1(1) _ _ slot _ adv [unfolded sts(1)] sts(2) st s' [unfolded sts(1)]])
        (use False g1(2) slot in \<open>simp_all add: balances_row_def row_slots_nth slots3 mult.commute [of _ 3]\<close>)
  qed
qed

lemma batch_netted_inv:
  assumes "ps_inv s" and "batch_netted e s ctx = Some (st, s', ctx')"
  shows "ps_inv s'" and "lists_ok s \<Longrightarrow> lists_ok s'" and "i3_ok s \<Longrightarrow> i3_ok s'" and "code st \<noteq> StateCorrupt"
    and "position_book s' = position_book s" and "cash_book s' = cash_book s"
    and "\<not> is_ok st \<Longrightarrow> trades s' = trades s"
proof -
  have "ps_inv s' \<and> (lists_ok s \<longrightarrow> lists_ok s') \<and> (i3_ok s \<longrightarrow> i3_ok s') \<and> code st \<noteq> StateCorrupt
      \<and> position_book s' = position_book s \<and> cash_book s' = cash_book s \<and> (\<not> is_ok st \<longrightarrow> trades s' = trades s)"
    using assms
  proof (cases rule: batch_netted_cases)
    case (rejected s1)
    then show ?thesis by (auto simp: grown_def same_books_def push_exception_inv push_exception_books)
  next
    case (netted s1 acct sts n)
    have t: "trades s1 = trades s" using grown_trades [OF netted(1)] by simp
    have "length sts = length (tr_state (trades s1))" using netted(7) t by simp
    note st = states_inv [OF grown_inv [OF netted(1)] this, unfolded t]
    from netted(10) show ?thesis
      using netted(1,8) st by (auto simp: grown_def same_books_def push_exception_inv push_exception_books is_ok_def)
  qed
  then show "ps_inv s'" "lists_ok s \<Longrightarrow> lists_ok s'" "i3_ok s \<Longrightarrow> i3_ok s'" "code st \<noteq> StateCorrupt"
    "position_book s' = position_book s" "cash_book s' = cash_book s" "\<not> is_ok st \<Longrightarrow> trades s' = trades s" by blast+
qed

text \<open>What a settlement does to the quantities of the invariants I1 and I13.\<close>

lemma sum_list_slot: "k < length xs \<Longrightarrow> sum_list (xs[k := xs ! k - (q :: int)]) = sum_list xs - q"
  by (induction xs arbitrary: k) (auto split: nat.splits)

lemma settle_buckets_sums:
  assumes "settle_covered g compra slot q b" and "outcome_trigger o' = Some g" and "g = TgBuyIn \<or> slot < length (bk_buy b) \<and> slot < length (bk_sell b)"
  shows "bk_today (settle_buckets g compra slot q p b)
           = bk_today b + (if g = TgFail then 0 else if compra then q else - q)"
    and "bk_projected (settle_buckets g compra slot q p b) = bk_projected b"
proof -
  have g: "g = TgSettle \<or> g = TgFail \<or> g = TgBuyIn" using assms(2) by (auto simp: outcome_trigger_def split: if_splits)
  from g assms(3) show "bk_today (settle_buckets g compra slot q p b) = bk_today b + (if g = TgFail then 0 else if compra then q else - q)"
    by (auto simp: settle_buckets_def bk_today_def Let_def sum_list_slot)
  from g assms(3) show "bk_projected (settle_buckets g compra slot q p b) = bk_projected b"
    by (auto simp: settle_buckets_def bk_projected_def Let_def sum_list_slot)
qed

lemma settle_non_negative:
  assumes "bk_non_negative b" and "0 \<le> q" and "settle_covered g compra slot q b" and "outcome_trigger o' = Some g"
    and "g = TgBuyIn \<or> slot < length (bk_buy b) \<and> slot < length (bk_sell b)"
  shows "bk_non_negative (settle_buckets g compra slot q p b)"
proof -
  have g: "g = TgSettle \<or> g = TgFail \<or> g = TgBuyIn" using assms(4) by (auto simp: outcome_trigger_def split: if_splits)
  then show ?thesis using assms(1-3,5)
    by (elim disjE) (auto simp: bk_non_negative_def settle_buckets_def settle_covered_def Let_def intro!: list_all_update split: if_splits)
qed

lemma trade_settled_books:
  assumes "ps_inv s" and "trade_settled dbg e s ev ctx = Some (st, s', ctx')"
  obtains (rejected) "code st \<in> {ArenaExhausted, NotFound, InvalidArgument, OutsideSettlementWindow, QtyMismatch}"
      "grown s s'" "ctx' = ctx"
  | (settled) g p pos where "outcome_trigger (tst_outcome e) = Some g"
      "settle_covered g (tst_side e = Side_Buy) (slot_of (window s) (tst_settlement_date e)) (tst_qty e)
         (position_book s (tst_account e) (tst_instrument e))"
      "settle_priced g (tst_side e = Side_Buy) (tst_qty e) (tst_cost_basis e) (position_book s (tst_account e) (tst_instrument e)) p"
      "g = TgBuyIn \<or> slot_of (window s) (tst_settlement_date e) < 3"
      "ps_inv s'" "lists_ok s \<Longrightarrow> lists_ok s'"
      "\<And>d x. position_book s' d x = (if d = tst_account e \<and> x = tst_instrument e
         then settle_buckets g (tst_side e = Side_Buy) (slot_of (window s) (tst_settlement_date e)) (tst_qty e) p (position_book s d x)
         else position_book s d x)"
      "\<And>d. cash_book s' d = (if d = tst_account e
         then settle_balances g (slot_of (window s) (tst_settlement_date e)) (tst_cash_amount e) (cash_book s d) else cash_book s d)"
      "i3_ok s \<Longrightarrow> bk_non_negative (position_book s' (tst_account e) (tst_instrument e)) \<Longrightarrow> i3_ok s'"
      "buckets_non_negative (custody s') pos = bk_non_negative (position_book s' (tst_account e) (tst_instrument e))"
      "rv_check dbg (buckets_non_negative (custody s') pos) s' ctx (publish_ret s' ctx ev pos) = Some (st, s', ctx')"
  using assms
proof (cases rule: trade_settled_cases)
  case rejected
  then show thesis by (rule that(1))
next
  case (settled s2 s3 acct inst pos g p sts n)
  let ?slot = "slot_of (window s) (tst_settlement_date e)" and ?b = "tst_side e = Side_Buy"
  let ?s = "s3\<lparr>trades := (trades s)\<lparr>tr_state := sts\<rparr>\<rparr>"
  have inv2: "ps_inv s2" by (rule grown_inv [OF settled(1)])
  have fr: "ledger_frame s2 s3" by (rule ledger_step_frame [OF settled(12)])
  note inv3 = ledger_frame_inv [OF inv2 fr]
  have t: "trades s3 = trades s" using fr grown_trades [OF settled(1)] by (simp add: ledger_frame_def)
  have "length sts = length (tr_state (trades s3))" using settled(14) t by simp
  note st = states_inv [OF inv3(1) this, unfolded t]
  note bk = ledger_step_books [OF inv2 settled(12,6,2), unfolded settled(3,7,8)]
  have same: "position_book s2 = position_book s" "cash_book s2 = cash_book s"
    using settled(1) by (simp_all add: grown_def same_books_def)
  have pb: "buckets_row (custody s2) pos = position_book s (tst_account e) (tst_instrument e)"
    using position_book_row [OF inv2 settled(6)] settled(7,8) same by (simp add: doc_of_def ext_of_def)
  have cb: "balances_row (cash_ledger s2) acct = cash_book s (tst_account e)"
    using cash_book_row [OF inv2 settled(2)] settled(3) same by simp
  have pb': "position_book s' d x = (if d = tst_account e \<and> x = tst_instrument e
      then settle_buckets g ?b ?slot (tst_qty e) p (position_book s d x) else position_book s d x)" for d x
    using st(4) bk(1) [of d x] pb same by (simp add: settled(15))
  have cb': "cash_book s' d = (if d = tst_account e then settle_balances g ?slot (tst_cash_amount e) (cash_book s d) else cash_book s d)" for d
    using st(5) bk(2) [of d] cb same by (simp add: settled(15))
  have row: "buckets_row (custody s') r = (if r = pos then position_book s' (tst_account e) (tst_instrument e)
      else buckets_row (custody s2) r)" for r
    using settled(12) pb pb' by (simp add: settled(15) ledger_step_def)
  show thesis
  proof (rule that(2) [OF settled(9) settled(10,11) [unfolded pb] settled(17)])
    show "ps_inv s'" "lists_ok s \<Longrightarrow> lists_ok s'"
      using st(1,2) inv3(2) settled(1) by (simp_all add: settled(15) grown_def)
    show "i3_ok s'" if "i3_ok s" "bk_non_negative (position_book s' (tst_account e) (tst_instrument e))"
    proof (rule i3_update [where pos = pos and s = s2])
      show "i3_ok s2" using that(1) settled(1) by (simp add: grown_def)
    qed (use that(2) row fr in \<open>auto simp: settled(15) ledger_frame_def custody_like_def\<close>)
    show "buckets_non_negative (custody s') pos = bk_non_negative (position_book s' (tst_account e) (tst_instrument e))"
      by (simp add: buckets_non_negative_row row)
    show "rv_check dbg (buckets_non_negative (custody s') pos) s' ctx (publish_ret s' ctx ev pos) = Some (st, s', ctx')"
      by (rule settled(16))
  qed (rule pb' cb')+
qed

text \<open>
  I3 after a settlement: a quantity that is not negative keeps it, and whatever the quantity, a
  result other than \<open>StateCorrupt\<close> has it.
\<close>

lemma trade_settled_inv:
  assumes "ps_inv s" and "trade_settled dbg e s ev ctx = Some (st, s', ctx')"
  shows "ps_inv s'" and "lists_ok s \<Longrightarrow> lists_ok s'" and "i3_ok s \<Longrightarrow> code st \<noteq> StateCorrupt \<Longrightarrow> i3_ok s'"
    and "i3_ok s \<Longrightarrow> 0 \<le> tst_qty e \<Longrightarrow> code st \<noteq> StateCorrupt"
proof -
  have "ps_inv s' \<and> (lists_ok s \<longrightarrow> lists_ok s') \<and> (i3_ok s \<longrightarrow> (code st \<noteq> StateCorrupt \<longrightarrow> i3_ok s')
      \<and> (0 \<le> tst_qty e \<longrightarrow> code st \<noteq> StateCorrupt))"
    using assms
  proof (cases rule: trade_settled_books)
    case rejected
    then show ?thesis by (auto simp: grown_def)
  next
    case (settled g p pos)
    let ?b = "position_book s (tst_account e) (tst_instrument e)"
    have ok: "bk_non_negative (position_book s' (tst_account e) (tst_instrument e))" if "i3_ok s" "0 \<le> tst_qty e"
      using settle_non_negative [OF i3_book [OF assms(1) that(1)] that(2) settled(2,1)] settled(4,7)
      by (auto simp: position_book_slots)
    have "bk_non_negative (position_book s' (tst_account e) (tst_instrument e))" if "code st \<noteq> StateCorrupt"
      using settled(10,11) that by (auto simp: rv_check_def ret_def split: if_splits)
    moreover have "code st \<noteq> StateCorrupt" if "bk_non_negative (position_book s' (tst_account e) (tst_instrument e))"
      using rv_publish_status(1) [OF settled(11)] that settled(10) by auto
    ultimately show ?thesis using settled(5,6,9) ok by blast
  qed
  then show "ps_inv s'" "lists_ok s \<Longrightarrow> lists_ok s'" "i3_ok s \<Longrightarrow> code st \<noteq> StateCorrupt \<Longrightarrow> i3_ok s'"
    "i3_ok s \<Longrightarrow> 0 \<le> tst_qty e \<Longrightarrow> code st \<noteq> StateCorrupt" by blast+
qed

end
