(* ===== verification/RV_Apply_Corporate.thy ===== *)
theory RV_Apply_Corporate
  imports RV_Apply_Trade RV_Ledger_Step
begin

text \<open>
  Event 6 of \<^verbatim>\<open>src/core/apply.cpp\<close>: splits, reverse splits, bonuses, subscriptions and the
  auction of leftovers, each applied once to an account (I6).

  One expression of the source, \<^verbatim>\<open>scale_qty_trunc(x, num, den, s1) + s1\<close>, reads \<^verbatim>\<open>s1\<close> in one
  operand and writes it in the other; C++ leaves the order of the two open.  The flag \<open>rtl\<close> says
  that the right operand is read first; the model is defined for both.
\<close>

section \<open>CorporateActionApplied\<close>

text \<open>The validation in front of the idempotency key; \<open>None\<close> when the event passes.\<close>

definition action_refused :: "CorporateActionApplied \<Rightarrow> Status option" where
  "action_refused e =
     (let inval = Some (fail InvalidArgument (ucast (cac_type e))); tipo = cac_type e in
      if tipo = ActionType_Bonus \<or> tipo = ActionType_Split \<or> tipo = ActionType_ReverseSplit then
        (if cac_factor_num e = 0 \<or> cac_factor_den e = 0 then inval else None)
      else if tipo = ActionType_Subscription then (if cac_qty_delta e < 0 then inval else None)
      else if tipo = ActionType_LeftoversAuction then None
      else inval)"

primrec scale_slots :: "nat list \<Rightarrow> nat \<Rightarrow> u32 \<Rightarrow> u32 \<Rightarrow> CustodyLedger \<Rightarrow> CustodyLedger option" where
  "scale_slots [] pos num den c = Some c"
| "scale_slots (k # ks) pos num den c =
     (let j = pos * kSettlementSlots + k in
      do {
        b \<leftarrow> scale_qty_keep_fraction (pending_buy c ! j) num den;
        v \<leftarrow> scale_qty_keep_fraction (pending_sell c ! j) num den;
        scale_slots ks pos num den
          (c\<lparr>pending_buy := (pending_buy c)[j := b], pending_sell := (pending_sell c)[j := v]\<rparr>)
      })"

definition split_custody :: "bool \<Rightarrow> nat \<Rightarrow> u32 \<Rightarrow> u32 \<Rightarrow> CustodyLedger \<Rightarrow> CustodyLedger option" where
  "split_custody rtl pos num den c =
     do {
       (av, s1) \<leftarrow> scale_qty_trunc (available c ! pos) num den;
       sobra1 \<leftarrow> fx_add 0 s1;
       (bl, s1b) \<leftarrow> scale_qty_trunc (blocked c ! pos) num den;
       sobra_total \<leftarrow> fx_add sobra1 s1b;
       ob \<leftarrow> scale_qty_keep_fraction (overdue_buy c ! pos) num den;
       os \<leftarrow> scale_qty_keep_fraction (overdue_sell c ! pos) num den;
       c1 \<leftarrow> scale_slots [0..<kSettlementSlots] pos num den
               (c\<lparr>available := (available c)[pos := av], blocked := (blocked c)[pos := bl],
                  overdue_buy := (overdue_buy c)[pos := ob], overdue_sell := (overdue_sell c)[pos := os]\<rparr>);
       (lf, s1c) \<leftarrow> scale_qty_trunc (leftovers c1 ! pos) num den;
       l1 \<leftarrow> fx_add lf (if rtl then s1b else s1c);
       l2 \<leftarrow> fx_add l1 sobra_total;
       p \<leftarrow> scale_price_half_even (avg_price c1 ! pos) num den;
       Some (c1\<lparr>leftovers := (leftovers c1)[pos := l2], avg_price := (avg_price c1)[pos := p]\<rparr>)
     }"

text \<open>
  The branches of the main \<^verbatim>\<open>switch\<close>: the state after it with \<^verbatim>\<open>delta_calculado\<close>, or the status
  that rejects.
\<close>

definition action_split :: "bool \<Rightarrow> CorporateActionApplied \<Rightarrow> nat \<Rightarrow> Qty \<Rightarrow> PartitionState \<Rightarrow> (Status + Qty \<times> PartitionState) option" where
  "action_split rtl e pos base s =
     do {
       c \<leftarrow> split_custody rtl pos (cac_factor_num e) (cac_factor_den e) (custody s);
       hoje \<leftarrow> custody_today c pos;
       delta \<leftarrow> fx_sub hoje base;
       Some (Inr (delta, s\<lparr>custody := c\<rparr>))
     }"

definition action_bonus :: "CorporateActionApplied \<Rightarrow> nat \<Rightarrow> Qty \<Rightarrow> PartitionState \<Rightarrow> (Status + Qty \<times> PartitionState) option" where
  "action_bonus e pos base s =
     (let c = custody s in
      do {
        (tot, sobra) \<leftarrow> scale_qty_trunc base (cac_factor_num e) (cac_factor_den e);
        inteiras \<leftarrow> fx_sub tot base;
        if inteiras < 0 then Some (Inl (fail InvalidArgument 0))
        else do {
          custo \<leftarrow> mul_div HalfEven inteiras (cac_unit_cost e) qty_one;
          p \<leftarrow> average_price_half_even base (avg_price c ! pos) inteiras custo;
          av \<leftarrow> add_at (available c) pos inteiras;
          lf \<leftarrow> add_at (leftovers c) pos sobra;
          delta \<leftarrow> fx_add inteiras sobra;
          Some (Inr (delta, s\<lparr>custody := c\<lparr>avg_price := (avg_price c)[pos := p], available := av, leftovers := lf\<rparr>\<rparr>))
        }
      })"

definition action_subscription ::
    "CorporateActionApplied \<Rightarrow> nat \<Rightarrow> nat \<Rightarrow> Qty \<Rightarrow> PartitionState \<Rightarrow> (Status + Qty \<times> PartitionState) option" where
  "action_subscription e acct pos base s =
     (let c = custody s; exercida = cac_qty_delta e; num = cac_factor_num e; den = cac_factor_den e;
          desembolso = cac_cash_delta e in
      do {
        excede \<leftarrow> (if num \<noteq> 0 \<and> den \<noteq> 0
                   then do { (direitos, _) \<leftarrow> scale_qty_trunc base num den; Some (direitos < exercida) }
                   else Some False);
        if excede then Some (Inl (fail QtyMismatch (of_nat pos)))
        else do {
          p \<leftarrow> average_price_half_even base (avg_price c ! pos) exercida desembolso;
          av \<leftarrow> add_at (available c) pos exercida;
          cs \<leftarrow> sub_at (cash (cash_ledger s)) acct desembolso;
          Some (Inr (exercida, s\<lparr>custody := c\<lparr>avg_price := (avg_price c)[pos := p], available := av\<rparr>,
                                 cash_ledger := (cash_ledger s)\<lparr>cash := cs\<rparr>\<rparr>))
        }
      })"

definition action_auction ::
    "CorporateActionApplied \<Rightarrow> nat \<Rightarrow> nat \<Rightarrow> PartitionState \<Rightarrow> (Status + Qty \<times> PartitionState) option" where
  "action_auction e acct pos s =
     (let c = custody s in
      do {
        delta \<leftarrow> fx_neg (leftovers c ! pos);
        cs \<leftarrow> add_at (cash (cash_ledger s)) acct (cac_cash_delta e);
        Some (Inr (delta, s\<lparr>custody := c\<lparr>leftovers := (leftovers c)[pos := 0]\<rparr>,
                            cash_ledger := (cash_ledger s)\<lparr>cash := cs\<rparr>\<rparr>))
      })"

definition action_effect ::
    "bool \<Rightarrow> CorporateActionApplied \<Rightarrow> nat \<Rightarrow> nat \<Rightarrow> Qty \<Rightarrow> PartitionState \<Rightarrow> (Status + Qty \<times> PartitionState) option" where
  "action_effect rtl e acct pos base s =
     (let tipo = cac_type e in
      if tipo = ActionType_Split \<or> tipo = ActionType_ReverseSplit then action_split rtl e pos base s
      else if tipo = ActionType_Bonus then action_bonus e pos base s
      else if tipo = ActionType_Subscription then action_subscription e acct pos base s
      else action_auction e acct pos s)"

text \<open>What follows the \<^verbatim>\<open>switch\<close>: the withheld tax, the comparison with the depository's number.\<close>

definition action_close :: "CorporateActionApplied \<Rightarrow> nat \<Rightarrow> Qty \<Rightarrow> PartitionState \<Rightarrow> PartitionState option" where
  "action_close e acct delta s =
     do {
       ir \<leftarrow> sub_at (income_receivable (cash_ledger s)) acct (cac_withheld_tax e);
       let s1 = s\<lparr>cash_ledger := (cash_ledger s)\<lparr>income_receivable := ir\<rparr>\<rparr>;
       Some (if cac_flags e AND 1 \<noteq> 0 \<and> delta \<noteq> cac_qty_delta e then
               push_exception s1 \<lparr>ex_document = cac_account e, ex_qty_delta_raw = cast_i64 (delta - cac_qty_delta e),
                 ex_instrument = cac_instrument e, ex_date = cac_ex_date e, ex_err_code = err_code QtyMismatch,
                 ex_reserved = 0\<rparr> False
             else s1)
     }"

definition corporate_action :: "bool \<Rightarrow> bool \<Rightarrow> CorporateActionApplied \<Rightarrow> PartitionState \<Rightarrow> EventView \<Rightarrow> ApplyContext \<Rightarrow> HandlerResult" where
  "corporate_action dbg rtl e s ev ctx =
     (case intern_account s (cac_account e) of (acct, s1) \<Rightarrow>
      if acct = kEmpty then ret (fail ArenaExhausted 0) s1 ctx
      else case intern_instrument s1 (cac_instrument e) of (inst, s2) \<Rightarrow>
      if inst = kEmpty then ret (fail ArenaExhausted 0) s2 ctx
      else case intern_position s2 acct inst of (pos, s3) \<Rightarrow>
      if pos = kEmpty then ret (fail ArenaExhausted 0) s3 ctx
      else case action_refused e of
        Some st \<Rightarrow> ret st s3 ctx
      | None \<Rightarrow>
          case tg_insert (applied_actions s3) (cac_action_id e) (of_nat acct) of (ok, cheio, aa) \<Rightarrow>
          let s4 = s3\<lparr>applied_actions := aa\<rparr> in
          if \<not> ok then
            ret (if cheio then fail ArenaExhausted 0 else fail AlreadyApplied (ucast (cac_action_id e))) s4 ctx
          else do {
            base \<leftarrow> custody_today (custody s4) pos;
            r \<leftarrow> action_effect rtl e acct pos base s4;
            case r of
              Inl st \<Rightarrow> ret st s4 ctx
            | Inr (delta, s5) \<Rightarrow> do {
                s6 \<leftarrow> action_close e acct delta s5;
                rv_check dbg (buckets_non_negative (custody s6) pos) s6 ctx (publish_ret s6 ctx ev pos)
              }
          })"

definition apply_corporate_action :: "bool \<Rightarrow> bool \<Rightarrow> Codec \<Rightarrow> PartitionState \<Rightarrow> EventView \<Rightarrow> ApplyContext \<Rightarrow> HandlerResult" where
  "apply_corporate_action dbg rtl cd s ev ctx =
     (case decode 88 ev of
        Inl st \<Rightarrow> ret st s ctx
      | Inr bs \<Rightarrow> corporate_action dbg rtl (rd_cac cd bs) s ev ctx)"

section \<open>Corporate actions on the books\<close>

text \<open>
  A split on the buckets of a position: the whole shares of \<^verbatim>\<open>available\<close> and \<^verbatim>\<open>blocked\<close> stay, their
  fractions go to \<^verbatim>\<open>leftovers\<close>; what is in settlement is scaled with its fraction.
\<close>

definition split_row :: "bool \<Rightarrow> u32 \<Rightarrow> u32 \<Rightarrow> Buckets \<Rightarrow> Buckets \<Rightarrow> bool" where
  "split_row rtl num den b b' \<longleftrightarrow>
     (\<exists>s1 s2 lf s3. scale_qty_trunc (bk_available b) num den = Some (bk_available b', s1)
        \<and> scale_qty_trunc (bk_blocked b) num den = Some (bk_blocked b', s2)
        \<and> scale_qty_trunc (bk_leftovers b) num den = Some (lf, s3)
        \<and> bk_leftovers b' = lf + (if rtl then s2 else s3) + (s1 + s2))
     \<and> scale_qty_keep_fraction (bk_overdue_buy b) num den = Some (bk_overdue_buy b')
     \<and> scale_qty_keep_fraction (bk_overdue_sell b) num den = Some (bk_overdue_sell b')
     \<and> list_all2 (\<lambda>x y. scale_qty_keep_fraction x num den = Some y) (bk_buy b) (bk_buy b')
     \<and> list_all2 (\<lambda>x y. scale_qty_keep_fraction x num den = Some y) (bk_sell b) (bk_sell b')
     \<and> scale_price_half_even (bk_avg_price b) num den = Some (bk_avg_price b') \<and> bk_flags b' = bk_flags b"

text \<open>All four actions on a position; \<open>delta\<close> is the change of the quantity the code reports.\<close>

definition action_row :: "bool \<Rightarrow> CorporateActionApplied \<Rightarrow> Buckets \<Rightarrow> Buckets \<Rightarrow> Qty \<Rightarrow> bool" where
  "action_row rtl e b b' delta \<longleftrightarrow>
     (let num = cac_factor_num e; den = cac_factor_den e; tipo = cac_type e; q = cac_qty_delta e in
      if tipo = ActionType_Split \<or> tipo = ActionType_ReverseSplit then
        split_row rtl num den b b' \<and> delta = bk_today b' - bk_today b
      else if tipo = ActionType_Bonus then
        \<exists>tot l custo p. scale_qty_trunc (bk_today b) num den = Some (tot, l) \<and> bk_today b \<le> tot
          \<and> mul_div HalfEven (tot - bk_today b) (cac_unit_cost e) qty_one = Some custo
          \<and> average_price_half_even (bk_today b) (bk_avg_price b) (tot - bk_today b) custo = Some p
          \<and> b' = b\<lparr>bk_avg_price := p, bk_available := bk_available b + (tot - bk_today b), bk_leftovers := bk_leftovers b + l\<rparr>
          \<and> delta = tot - bk_today b + l
      else if tipo = ActionType_Subscription then
        \<exists>p. average_price_half_even (bk_today b) (bk_avg_price b) q (cac_cash_delta e) = Some p
          \<and> (num \<noteq> 0 \<and> den \<noteq> 0 \<longrightarrow> (\<exists>d l. scale_qty_trunc (bk_today b) num den = Some (d, l) \<and> q \<le> d))
          \<and> b' = b\<lparr>bk_avg_price := p, bk_available := bk_available b + q\<rparr> \<and> delta = q
      else b' = b\<lparr>bk_leftovers := 0\<rparr> \<and> delta = - bk_leftovers b)"

definition action_money :: "CorporateActionApplied \<Rightarrow> Balances \<Rightarrow> Balances" where
  "action_money e b =
     (let tipo = cac_type e in
      if tipo = ActionType_Subscription then b\<lparr>bl_cash := bl_cash b - cac_cash_delta e\<rparr>
      else if tipo = ActionType_Split \<or> tipo = ActionType_ReverseSplit \<or> tipo = ActionType_Bonus then b
      else b\<lparr>bl_cash := bl_cash b + cac_cash_delta e\<rparr>)"

definition withhold :: "CorporateActionApplied \<Rightarrow> Balances \<Rightarrow> Balances" where
  "withhold e b = b\<lparr>bl_income := bl_income b - cac_withheld_tax e\<rparr>"

lemmas slot_list = kSettlementSlots_def upt_rec

lemma row_slots_three:
  assumes "r \<noteq> pos" and "3 * pos + 2 < length col"
  shows "row_slots (col[3 * pos := a, Suc (3 * pos) := b, Suc (Suc (3 * pos)) := c]) r = row_slots col r"
  using assms row_slots_update [of 0 pos col a r] row_slots_update [of 1 pos "col[3 * pos := a]" b r]
    row_slots_update [of 2 pos "col[3 * pos := a, Suc (3 * pos) := b]" c r] by simp

lemma split_custody_row:
  assumes "split_custody rtl pos num den c = Some c'" and "custody_shape c" and "pos < cu_count c"
  shows "custody_like c c'" and "r \<noteq> pos \<Longrightarrow> buckets_row c' r = buckets_row c r"
    and "split_row rtl num den (buckets_row c pos) (buckets_row c' pos)"
proof -
  have len: "3 * pos + 0 < length (pending_buy c)" "3 * pos + 1 < length (pending_buy c)" "3 * pos + 2 < length (pending_buy c)"
    "3 * pos + 0 < length (pending_sell c)" "3 * pos + 1 < length (pending_sell c)" "3 * pos + 2 < length (pending_sell c)"
    "pos < length (available c)" "pos < length (blocked c)" "pos < length (leftovers c)" "pos < length (avg_price c)"
    "pos < length (overdue_buy c)" "pos < length (overdue_sell c)"
    using assms(2,3) by (auto simp: custody_shape_def Let_def)
  obtain av s1 bl s2 ob os b0 b1 b2 v0 v1 v2 lf s3 p where
    eqs: "scale_qty_trunc (available c ! pos) num den = Some (av, s1)" "scale_qty_trunc (blocked c ! pos) num den = Some (bl, s2)"
      "scale_qty_keep_fraction (overdue_buy c ! pos) num den = Some ob" "scale_qty_keep_fraction (overdue_sell c ! pos) num den = Some os"
      "scale_qty_keep_fraction (pending_buy c ! (3 * pos)) num den = Some b0" "scale_qty_keep_fraction (pending_sell c ! (3 * pos)) num den = Some v0"
      "scale_qty_keep_fraction (pending_buy c ! (3 * pos + 1)) num den = Some b1" "scale_qty_keep_fraction (pending_sell c ! (3 * pos + 1)) num den = Some v1"
      "scale_qty_keep_fraction (pending_buy c ! (3 * pos + 2)) num den = Some b2" "scale_qty_keep_fraction (pending_sell c ! (3 * pos + 2)) num den = Some v2"
      "scale_qty_trunc (leftovers c ! pos) num den = Some (lf, s3)" "scale_price_half_even (avg_price c ! pos) num den = Some p"
    and c': "c' = c\<lparr>available := (available c)[pos := av], blocked := (blocked c)[pos := bl],
        overdue_buy := (overdue_buy c)[pos := ob], overdue_sell := (overdue_sell c)[pos := os],
        pending_buy := (pending_buy c)[3 * pos + 0 := b0, 3 * pos + 1 := b1, 3 * pos + 2 := b2],
        pending_sell := (pending_sell c)[3 * pos + 0 := v0, 3 * pos + 1 := v1, 3 * pos + 2 := v2],
        leftovers := (leftovers c)[pos := lf + (if rtl then s2 else s3) + (s1 + s2)], avg_price := (avg_price c)[pos := p]\<rparr>"
    using assms(1) unfolding split_custody_def
    by (auto simp: bind_eq_Some_conv fx_simps slot_list Let_def mult.commute [of _ 3])
  show "custody_like c c'" using assms(2) by (auto simp: c' custody_like_def custody_shape_def Let_def)
  show "buckets_row c' r = buckets_row c r" if "r \<noteq> pos"
    using that len by (simp add: c' buckets_row_def row_slots_three)
  show "split_row rtl num den (buckets_row c pos) (buckets_row c' pos)"
    using len eqs by (simp add: c' buckets_row_def row_slots_def split_row_def nth_list_update)
qed

lemma ledger_step_trans:
  "ledger_step s s1 pos b acct bl \<Longrightarrow> ledger_step s1 s2 pos b' acct bl' \<Longrightarrow> ledger_step s s2 pos b' acct bl'"
  unfolding ledger_step_def ledger_frame_def by (auto intro: custody_like_trans cash_like_trans)

lemma action_effect_step:
  assumes "action_effect rtl e acct pos base s = Some (Inr (delta, s'))" and "ps_inv s" and "action_refused e = None"
    and "custody_today (custody s) pos = Some base"
    and "pos < cu_count (custody s)" and "acct < ca_count (cash_ledger s)"
  shows "\<exists>b. ledger_step s s' pos b acct (action_money e (balances_row (cash_ledger s) acct))
           \<and> action_row rtl e (buckets_row (custody s) pos) b delta"
proof -
  let ?c = "custody s" and ?ca = "cash_ledger s"
  have sh: "custody_shape ?c" "cash_shape ?ca" using ps_inv_shapes [OF assms(2)] by simp_all
  note len = row_lengths [OF sh assms(5,6), of 0, simplified]
  have base: "base = bk_today (buckets_row ?c pos)" using custody_today_sum [OF assms(4)] by (simp add: bk_today_row)
  have bal: "balances_row ?ca a = (if a = acct then balances_row ?ca acct else balances_row ?ca a)" for a by simp
  have avg: "avg_price ?c ! pos = bk_avg_price (buckets_row ?c pos)" "leftovers ?c ! pos = bk_leftovers (buckets_row ?c pos)"
    by (simp_all add: buckets_row_def)
  consider (split) "cac_type e = ActionType_Split \<or> cac_type e = ActionType_ReverseSplit"
    | (bonus) "cac_type e = ActionType_Bonus"
    | (subscription) "cac_type e = ActionType_Subscription"
    | (auction) "cac_type e = ActionType_LeftoversAuction"
    using assms(3) by (auto simp: action_refused_def Let_def split: if_splits)
  then show ?thesis
  proof cases
    case split
    with assms(1) obtain c' hoje where c': "split_custody rtl pos (cac_factor_num e) (cac_factor_den e) ?c = Some c'"
      "custody_today c' pos = Some hoje" "delta = hoje - base" "s' = s\<lparr>custody := c'\<rparr>"
      by (auto simp: action_effect_def action_split_def bind_eq_Some_conv fx_simps)
    note row = split_custody_row [OF c'(1) sh(1) assms(5)]
    have "ledger_step s s' pos (buckets_row c' pos) acct (balances_row ?ca acct)"
      by (rule ledger_stepI [where cu = c' and ca = ?ca, OF _ row(1) cash_like_refl [OF sh(2)] _ bal]) (use c'(4) row(2) in auto)
    moreover have "hoje = bk_today (buckets_row c' pos)" using custody_today_sum [OF c'(2)] by (simp add: bk_today_row)
    ultimately show ?thesis using split row(3) c'(3) base
      by (intro exI [of _ "buckets_row c' pos"]) (auto simp: action_money_def action_row_def enum_defs)
  next
    case bonus
    with assms(1) obtain tot sobra custo p where r: "scale_qty_trunc base (cac_factor_num e) (cac_factor_den e) = Some (tot, sobra)"
      "0 \<le> tot - base" "mul_div HalfEven (tot - base) (cac_unit_cost e) qty_one = Some custo"
      "average_price_half_even base (avg_price ?c ! pos) (tot - base) custo = Some p" "delta = tot - base + sobra"
      "s' = s\<lparr>custody := ?c\<lparr>avg_price := (avg_price ?c)[pos := p], available := (available ?c)[pos := available ?c ! pos + (tot - base)],
          leftovers := (leftovers ?c)[pos := leftovers ?c ! pos + sobra]\<rparr>\<rparr>"
      by (auto simp: action_effect_def action_bonus_def bind_eq_Some_conv fx_simps enum_defs Let_def not_less split: if_splits)
    let ?b = "(buckets_row ?c pos)\<lparr>bk_avg_price := p, bk_available := bk_available (buckets_row ?c pos) + (tot - base),
        bk_leftovers := bk_leftovers (buckets_row ?c pos) + sobra\<rparr>"
    have "ledger_step s s' pos ?b acct (balances_row ?ca acct)"
      by (rule ledger_stepI [where ca = ?ca, OF _ _ cash_like_refl [OF sh(2)] _ bal])
        (use r(6) sh(1) len in \<open>auto simp: custody_like_def custody_shape_def Let_def buckets_row_def nth_list_update\<close>)
    then show ?thesis using bonus r(1-5) base avg
      by (intro exI [of _ ?b]) (auto simp: action_money_def action_row_def enum_defs)
  next
    case subscription
    let ?q = "cac_qty_delta e"
    from subscription assms(1) obtain p where r: "average_price_half_even base (avg_price ?c ! pos) ?q (cac_cash_delta e) = Some p" "delta = ?q"
      "cac_factor_num e \<noteq> 0 \<and> cac_factor_den e \<noteq> 0 \<longrightarrow> (\<exists>d l. scale_qty_trunc base (cac_factor_num e) (cac_factor_den e) = Some (d, l) \<and> ?q \<le> d)"
      "s' = s\<lparr>custody := ?c\<lparr>avg_price := (avg_price ?c)[pos := p], available := (available ?c)[pos := available ?c ! pos + ?q]\<rparr>,
          cash_ledger := ?ca\<lparr>cash := (cash ?ca)[acct := cash ?ca ! acct - cac_cash_delta e]\<rparr>\<rparr>"
      by (auto simp: action_effect_def action_subscription_def bind_eq_Some_conv fx_simps enum_defs not_less Let_def split: if_splits)
    let ?b = "(buckets_row ?c pos)\<lparr>bk_avg_price := p, bk_available := bk_available (buckets_row ?c pos) + ?q\<rparr>"
    have "ledger_step s s' pos ?b acct (action_money e (balances_row ?ca acct))"
      by (rule ledger_stepI [OF r(4)])
        (use subscription sh len in \<open>auto simp: custody_like_def custody_shape_def cash_like_def cash_shape_def Let_def
          buckets_row_def balances_row_def action_money_def nth_list_update\<close>)
    then show ?thesis using subscription r(1-3) base avg
      by (intro exI [of _ ?b]) (auto simp: action_row_def enum_defs)
  next
    case auction
    with assms(1) have r: "delta = - leftovers ?c ! pos"
      "s' = s\<lparr>custody := ?c\<lparr>leftovers := (leftovers ?c)[pos := 0]\<rparr>,
          cash_ledger := ?ca\<lparr>cash := (cash ?ca)[acct := cash ?ca ! acct + cac_cash_delta e]\<rparr>\<rparr>"
      by (auto simp: action_effect_def action_auction_def bind_eq_Some_conv fx_simps enum_defs Let_def)
    let ?b = "(buckets_row ?c pos)\<lparr>bk_leftovers := 0\<rparr>"
    have "ledger_step s s' pos ?b acct (action_money e (balances_row ?ca acct))"
      by (rule ledger_stepI [OF r(2)])
        (use auction sh len in \<open>auto simp: custody_like_def custody_shape_def cash_like_def cash_shape_def Let_def
          buckets_row_def balances_row_def action_money_def enum_defs nth_list_update\<close>)
    then show ?thesis using auction r(1) avg
      by (intro exI [of _ ?b]) (auto simp: action_row_def enum_defs)
  qed
qed

lemma action_close_step:
  assumes "action_close e acct delta s = Some s'" and "ps_inv s" and "acct < ca_count (cash_ledger s)"
  shows "ledger_step s s' pos (buckets_row (custody s) pos) acct (withhold e (balances_row (cash_ledger s) acct))"
proof -
  let ?ca = "cash_ledger s"
  have sh: "custody_shape (custody s)" "cash_shape ?ca" using ps_inv_shapes [OF assms(2)] by simp_all
  have len: "acct < length (income_receivable ?ca)" using sh(2) assms(3) by (auto simp: cash_shape_def Let_def)
  define s1 where "s1 = s\<lparr>cash_ledger := ?ca\<lparr>income_receivable := (income_receivable ?ca)[acct := income_receivable ?ca ! acct - cac_withheld_tax e]\<rparr>\<rparr>"
  have "s1 = s\<lparr>custody := custody s, cash_ledger := ?ca\<lparr>income_receivable := (income_receivable ?ca)[acct := income_receivable ?ca ! acct - cac_withheld_tax e]\<rparr>\<rparr>"
    by (simp add: s1_def)
  then have "ledger_step s s1 pos (buckets_row (custody s) pos) acct (withhold e (balances_row ?ca acct))"
    by (rule ledger_stepI [OF _ custody_like_refl [OF sh(1)]])
      (use sh(2) len in \<open>auto simp: cash_like_def cash_shape_def Let_def balances_row_def withhold_def nth_list_update\<close>)
  moreover have "s' = s1 \<or> (\<exists>x. s' = push_exception s1 x False)"
    using assms(1) unfolding action_close_def s1_def
    by (simp add: bind_eq_Some_conv fx_simps Let_def split: if_splits) blast
  ultimately show ?thesis using push_exception_step by blast
qed

text \<open>Writing into the idempotency sets touches no table, no list and no book.\<close>

lemma applied_sets_inv:
  assumes "ps_inv s" and "tg_inv aa" and "tg_inv ai"
  shows "ps_inv (s\<lparr>applied_actions := aa\<rparr>)" and "ps_inv (s\<lparr>applied_income := ai\<rparr>)"
  using assms by (simp_all add: ps_inv_def tables_ok_def indexes_ok_def refs_ok_def rows_defs)

lemma applied_sets_books [simp]:
  "position_book (s\<lparr>applied_actions := aa\<rparr>) = position_book s" "cash_book (s\<lparr>applied_actions := aa\<rparr>) = cash_book s"
  "lists_ok (s\<lparr>applied_actions := aa\<rparr>) = lists_ok s" "i3_ok (s\<lparr>applied_actions := aa\<rparr>) = i3_ok s"
  "position_book (s\<lparr>applied_income := ai\<rparr>) = position_book s" "cash_book (s\<lparr>applied_income := ai\<rparr>) = cash_book s"
  "lists_ok (s\<lparr>applied_income := ai\<rparr>) = lists_ok s" "i3_ok (s\<lparr>applied_income := ai\<rparr>) = i3_ok s"
  by (simp_all add: position_book_def cash_book_def rows_defs lists_ok_def i3_ok_def fun_eq_iff cong: option.case_cong)

lemma corporate_action_cases:
  assumes "ps_inv s" and "corporate_action dbg rtl e s ev ctx = Some (st, s', ctx')"
  obtains (rejected) "code st \<in> {ArenaExhausted, InvalidArgument}" "grown s s'" "ctx' = ctx"
  | (keyed) s3 acct aa where "code st \<in> {ArenaExhausted, AlreadyApplied, InvalidArgument, QtyMismatch}" "grown s s3"
      "acct < ca_count (cash_ledger s3)" "account_document s3 ! acct = cac_account e" "tg_inv aa"
      "tg_members (applied_actions s) \<subseteq> tg_members aa" "s' = s3\<lparr>applied_actions := aa\<rparr>" "ctx' = ctx"
      "(cac_action_id e, of_nat acct) \<in> tg_members (applied_actions s) \<Longrightarrow> code st = AlreadyApplied"
      "\<exists>ok cheio. tg_insert (applied_actions s) (cac_action_id e) (of_nat acct) = (ok, cheio, aa)"
  | (applied) s3 acct pos b delta aa where "grown s s3"
      "acct < ca_count (cash_ledger s3)" "account_document s3 ! acct = cac_account e"
      "pos < cu_count (custody s3)" "doc_of s3 pos = cac_account e" "ext_of s3 pos = cac_instrument e" "action_refused e = None"
      "(cac_action_id e, of_nat acct) \<notin> tg_members (applied_actions s)" "tg_inv aa"
      "tg_members aa = insert (cac_action_id e, of_nat acct) (tg_members (applied_actions s))"
      "action_row rtl e (buckets_row (custody s3) pos) b delta"
      "ledger_step (s3\<lparr>applied_actions := aa\<rparr>) s' pos b acct (withhold e (action_money e (balances_row (cash_ledger s3) acct)))"
      "rv_check dbg (buckets_non_negative (custody s') pos) s' ctx (publish_ret s' ctx ev pos) = Some (st, s', ctx')"
      "\<exists>cheio. tg_insert (applied_actions s) (cac_action_id e) (of_nat acct) = (True, cheio, aa)"
proof -
  obtain acct s1 where i1: "intern_account s (cac_account e) = (acct, s1)" by (cases "intern_account s (cac_account e)")
  obtain inst s2 where i2: "intern_instrument s1 (cac_instrument e) = (inst, s2)" by (cases "intern_instrument s1 (cac_instrument e)")
  obtain pos s3 where i3: "intern_position s2 acct inst = (pos, s3)" by (cases "intern_position s2 acct inst")
  obtain ok cheio aa where ins: "tg_insert (applied_actions s3) (cac_action_id e) (of_nat acct) = (ok, cheio, aa)"
    by (cases "tg_insert (applied_actions s3) (cac_action_id e) (of_nat acct)") auto
  note g1 = intern_account_grown [OF assms(1) i1]
  note g2 = intern_instrument_grown [OF grown_inv [OF g1(1)] i2]
  have g12: "grown s s2" by (rule grown_trans [OF g1(1) g2(1)])
  note run = assms(2) [unfolded corporate_action_def Let_def i1 i2 i3 ins prod.case]
  show thesis
  proof (cases "acct = kEmpty \<or> inst = kEmpty")
    case True
    then show thesis using run g1(1) g12 by (intro rejected) (auto simp: ret_def split: if_splits)
  next
    case False
    have acct: "acct < ca_count (cash_ledger s2)" "account_document s2 ! acct = cac_account e"
      using g1(2) g2(4,6) False by simp_all
    have inst: "inst < in_count (instruments s2)" "external_id (instruments s2) ! inst = cac_instrument e"
      using g2(2) False by simp_all
    note g3 = intern_position_grown [OF grown_inv [OF g12] i3 acct(1) inst(1)]
    have g: "grown s s3" by (rule grown_trans [OF g12 g3(1)])
    have aa3: "applied_actions s3 = applied_actions s" using grown_same [OF g] by (simp add: same_books_def)
    note ins' = ins [unfolded aa3]
    show thesis
    proof (cases "pos = kEmpty \<or> action_refused e \<noteq> None")
      case True
      then show thesis using run False g
        by (intro rejected) (auto simp: ret_def action_refused_def Let_def split: if_splits option.splits)
    next
      case go: False
      have acct3: "acct < ca_count (cash_ledger s3)" "account_document s3 ! acct = cac_account e" using acct g3(3,6) by simp_all
      have pos: "pos < cu_count (custody s3)" "doc_of s3 pos = cac_account e" "ext_of s3 pos = cac_instrument e"
        using g3(2,4,6) go acct inst by (auto simp: doc_of_def ext_of_def)
      have tg: "tg_inv (applied_actions s3)" using grown_inv [OF g] by (simp add: ps_inv_def indexes_ok_def)
      note res = two_gen.ins_result [OF tg, of "(cac_action_id e, of_nat acct)", simplified, OF ins, unfolded aa3]
      let ?s4 = "s3\<lparr>applied_actions := aa\<rparr>"
      have s4: "ps_inv ?s4" using applied_sets_inv(1) [OF grown_inv [OF g] res(1) res(1)] .
      show thesis
      proof (cases ok)
        case nok: False
        show thesis
          by (rule keyed [OF _ g acct3 res(1)]) (use run False go nok res ins' in \<open>auto simp: ret_def split: if_splits\<close>)
      next
        case True
        from run False go True obtain base r where b: "custody_today (custody s3) pos = Some base"
          "action_effect rtl e acct pos base ?s4 = Some r"
          "(case r of Inl st \<Rightarrow> ret st ?s4 ctx | Inr (delta, s5) \<Rightarrow> do { s6 \<leftarrow> action_close e acct delta s5;
              rv_check dbg (buckets_non_negative (custody s6) pos) s6 ctx (publish_ret s6 ctx ev pos) }) = Some (st, s', ctx')"
          by (auto simp: bind_eq_Some_conv)
        show thesis
        proof (cases r)
          case (Inl st0)
          have "code st0 \<in> {InvalidArgument, QtyMismatch}"
            using b(2) Inl by (auto simp: action_effect_def action_split_def action_bonus_def action_subscription_def
                action_auction_def Let_def bind_eq_Some_conv split: if_splits)
          then show thesis using b(3) Inl True res ins' by (intro keyed [OF _ g acct3 res(1)]) (auto simp: ret_def)
        next
          case (Inr ds)
          obtain delta s5 where ds: "ds = (delta, s5)" by (cases ds)
          from b(3) Inr ds obtain s6 where s6: "action_close e acct delta s5 = Some s6"
            "rv_check dbg (buckets_non_negative (custody s6) pos) s6 ctx (publish_ret s6 ctx ev pos) = Some (st, s', ctx')"
            by (auto simp: bind_eq_Some_conv)
          have s': "s6 = s'" using rv_publish_state [OF s6(2)] by simp
          obtain b' where e5: "ledger_step ?s4 s5 pos b' acct (action_money e (balances_row (cash_ledger s3) acct))"
            "action_row rtl e (buckets_row (custody s3) pos) b' delta"
            using action_effect_step [of rtl e acct pos base ?s4 delta s5] b(1,2) Inr ds s4 go pos(1) acct3(1) by auto
          note f5 = ledger_step_frame [OF e5(1)]
          have a5: "acct < ca_count (cash_ledger s5)" using f5 acct3(1) by (simp add: ledger_frame_def cash_like_def)
          have row5: "buckets_row (custody s5) pos = b'" "balances_row (cash_ledger s5) acct = action_money e (balances_row (cash_ledger s3) acct)"
            using e5(1) by (simp_all add: ledger_step_def)
          have "ledger_step ?s4 s6 pos b' acct (withhold e (action_money e (balances_row (cash_ledger s3) acct)))"
            using ledger_step_trans [OF e5(1) action_close_step [OF s6(1) ledger_frame_inv(1) [OF s4 f5] a5, of pos]] row5 by simp
          then show thesis
            by (intro applied [OF g acct3 pos _ _ res(1) _ e5(2)]) (use go True res s6(2) s' ins' in auto)
        qed
      qed
    qed
  qed
qed

lemma corporate_action_inv:
  assumes "ps_inv s" and "corporate_action dbg rtl e s ev ctx = Some (st, s', ctx')"
  shows "ps_inv s'" and "lists_ok s \<Longrightarrow> lists_ok s'" and "i3_ok s \<Longrightarrow> code st \<noteq> StateCorrupt \<Longrightarrow> i3_ok s'"
    and "trades s' = trades s"
    and "status_is_fatal st \<or> is_ok st \<or> position_book s' = position_book s \<and> cash_book s' = cash_book s"
proof -
  have "ps_inv s' \<and> (lists_ok s \<longrightarrow> lists_ok s') \<and> (i3_ok s \<longrightarrow> code st \<noteq> StateCorrupt \<longrightarrow> i3_ok s') \<and> trades s' = trades s
      \<and> (status_is_fatal st \<or> is_ok st \<or> position_book s' = position_book s \<and> cash_book s' = cash_book s)"
    using assms
  proof (cases rule: corporate_action_cases)
    case rejected
    then show ?thesis by (auto simp: grown_def same_books_def)
  next
    case (keyed s3 acct aa)
    then show ?thesis using applied_sets_inv(1) [OF grown_inv [OF keyed(2)] keyed(5) keyed(5)]
      by (auto simp: grown_def same_books_def)
  next
    case (applied s3 acct pos b delta aa)
    let ?s4 = "s3\<lparr>applied_actions := aa\<rparr>"
    have s4: "ps_inv ?s4" using applied_sets_inv(1) [OF grown_inv [OF applied(1)] applied(9) applied(9)] .
    have fr: "ledger_frame ?s4 s'" by (rule ledger_step_frame [OF applied(12)])
    have row: "\<forall>r<cu_count (custody ?s4). buckets_row (custody s') r = (if r = pos then b else buckets_row (custody ?s4) r)"
      and cnt: "cu_count (custody s') = cu_count (custody ?s4)"
      using applied(12) by (simp_all add: ledger_step_def ledger_frame_def custody_like_def)
    have "bk_non_negative b" if "code st \<noteq> StateCorrupt"
      using applied(4,13) row that by (auto simp: rv_check_def ret_def buckets_non_negative_row split: if_splits)
    then have "i3_ok s'" if "i3_ok s" "code st \<noteq> StateCorrupt"
      using i3_update [OF _ cnt row] that applied(1) by (simp add: grown_def)
    moreover have "is_ok st \<or> status_is_fatal st"
    proof (cases "buckets_non_negative (custody s') pos")
      case True
      then show ?thesis using rv_publish_status(1) [OF applied(13)] by (auto simp: is_ok_def status_is_fatal_def is_fatal_def)
    next
      case False
      then show ?thesis using applied(13) by (auto simp: rv_check_def ret_def status_is_fatal_def is_fatal_def split: if_splits)
    qed
    ultimately show ?thesis using ledger_frame_inv [OF s4 fr] applied(1) fr by (auto simp: grown_def same_books_def ledger_frame_def)
  qed
  then show "ps_inv s'" "lists_ok s \<Longrightarrow> lists_ok s'" "i3_ok s \<Longrightarrow> code st \<noteq> StateCorrupt \<Longrightarrow> i3_ok s'" "trades s' = trades s"
    "status_is_fatal st \<or> is_ok st \<or> position_book s' = position_book s \<and> cash_book s' = cash_book s" by blast+
qed

text \<open>
  Invariant I6.  An action is applied to an account when the pair is a member of the retained keys.
\<close>

definition action_applied :: "PartitionState \<Rightarrow> u64 \<Rightarrow> u64 \<Rightarrow> bool" where
  "action_applied s action doc \<longleftrightarrow> (\<exists>a<ca_count (cash_ledger s). account_document s ! a = doc
     \<and> (action, of_nat a) \<in> tg_members (applied_actions s))"

lemma grown_account:
  assumes "ps_inv s" and "grown s s'" and "a < ca_count (cash_ledger s')" and "b < ca_count (cash_ledger s)"
    and "account_document s' ! a = account_document s ! b"
  shows "a = b"
  using account_names_inj [OF grown_inv [OF assms(2)] assms(3), of b] assms(2,4,5) by (auto simp: grown_def)

lemma corporate_action_records:
  assumes "ps_inv s" and "corporate_action dbg rtl e s ev ctx = Some (st, s', ctx')" and "is_ok st"
  shows "action_applied s' (cac_action_id e) (cac_account e)" and "\<not> action_applied s (cac_action_id e) (cac_account e)"
proof -
  have "action_applied s' (cac_action_id e) (cac_account e) \<and> \<not> action_applied s (cac_action_id e) (cac_account e)"
    using assms(1,2)
  proof (cases rule: corporate_action_cases)
    case (applied s3 acct pos b delta aa)
    have fr: "ledger_frame (s3\<lparr>applied_actions := aa\<rparr>) s'" by (rule ledger_step_frame [OF applied(12)])
    have "action_applied s' (cac_action_id e) (cac_account e)"
      unfolding action_applied_def using fr applied(2,3,10)
      by (intro exI [of _ acct]) (simp add: ledger_frame_def cash_like_def)
    moreover have "\<not> action_applied s (cac_action_id e) (cac_account e)"
      unfolding action_applied_def using applied(3,8) grown_account [OF assms(1) applied(1,2)] by auto
    ultimately show ?thesis by blast
  qed (use assms(3) in \<open>auto simp: is_ok_def\<close>)
  then show "action_applied s' (cac_action_id e) (cac_account e)" "\<not> action_applied s (cac_action_id e) (cac_account e)" by blast+
qed

lemma corporate_action_again:
  assumes "ps_inv s" and "corporate_action dbg rtl e s ev ctx = Some (st, s', ctx')"
    and "action_applied s (cac_action_id e) (cac_account e)"
  shows "code st \<in> {ArenaExhausted, InvalidArgument, AlreadyApplied}" and "position_book s' = position_book s"
    and "cash_book s' = cash_book s"
proof -
  obtain a where a: "a < ca_count (cash_ledger s)" "account_document s ! a = cac_account e"
    "(cac_action_id e, of_nat a) \<in> tg_members (applied_actions s)" using assms(3) by (auto simp: action_applied_def)
  have "code st \<in> {ArenaExhausted, InvalidArgument, AlreadyApplied} \<and> position_book s' = position_book s \<and> cash_book s' = cash_book s"
    using assms(1,2)
  proof (cases rule: corporate_action_cases)
    case rejected
    then show ?thesis by (auto simp: grown_def same_books_def)
  next
    case (keyed s3 acct aa)
    have "acct = a" using grown_account [OF assms(1) keyed(2,3) a(1)] keyed(4) a(2) by simp
    then show ?thesis using keyed a(3) by (auto simp: grown_def same_books_def)
  next
    case (applied s3 acct pos b delta aa)
    have "acct = a" using grown_account [OF assms(1) applied(1,2) a(1)] applied(3) a(2) by simp
    then show ?thesis using applied(8) a(3) by simp
  qed
  then show "code st \<in> {ArenaExhausted, InvalidArgument, AlreadyApplied}" "position_book s' = position_book s"
    "cash_book s' = cash_book s" by blast+
qed

section \<open>A split scales the holding\<close>

definition scaled :: "u32 \<Rightarrow> u32 \<Rightarrow> Qty \<Rightarrow> Qty" where
  "scaled num den x = x * uint num sdiv uint den"

text \<open>The scaled buckets fit in 64 bits; outside, the multiplication of the code wraps without notice.\<close>

definition scales :: "u32 \<Rightarrow> u32 \<Rightarrow> Buckets \<Rightarrow> bool" where
  "scales num den b \<longleftrightarrow> num \<noteq> 0 \<and> den \<noteq> 0
     \<and> list_all (\<lambda>x. in_i64 (scaled num den x))
         ([bk_available b, bk_blocked b, bk_leftovers b, bk_overdue_buy b, bk_overdue_sell b] @ bk_buy b @ bk_sell b)"

lemma scaled_slots:
  assumes "list_all2 (\<lambda>x y. scale_qty_keep_fraction x num den = Some y) xs ys" and "num \<noteq> 0" and "den \<noteq> 0"
    and "list_all (\<lambda>x. in_i64 (scaled num den x)) xs"
  shows "ys = map (scaled num den) xs"
  using assms by (induction rule: list_all2_induct) (simp_all add: scale_qty_keep_fraction_spec scaled_def)

lemma split_row_scaled:
  assumes "split_row rtl num den b b'" and "scales num den b"
  shows "\<exists>s2 s3. bk_available b' + bk_blocked b' + bk_leftovers b'
             = scaled num den (bk_available b) + scaled num den (bk_blocked b) + scaled num den (bk_leftovers b)
               + (if rtl then s2 - s3 else 0)
           \<and> \<bar>s2\<bar> < qty_one \<and> \<bar>s3\<bar> < qty_one
           \<and> (0 \<le> bk_available b \<and> 0 \<le> bk_blocked b \<and> 0 \<le> bk_leftovers b
              \<longrightarrow> 0 \<le> bk_available b' \<and> 0 \<le> bk_blocked b' \<and> 0 \<le> bk_leftovers b')"
    and "qty_one dvd bk_available b'" and "qty_one dvd bk_blocked b'"
    and "bk_overdue_buy b' = scaled num den (bk_overdue_buy b)" and "bk_overdue_sell b' = scaled num den (bk_overdue_sell b)"
    and "bk_buy b' = map (scaled num den) (bk_buy b)" and "bk_sell b' = map (scaled num den) (bk_sell b)"
proof -
  have nz: "num \<noteq> 0" "den \<noteq> 0" using assms(2) by (simp_all add: scales_def)
  have fit: "in_i64 (bk_available b * uint num sdiv uint den)" "in_i64 (bk_blocked b * uint num sdiv uint den)"
    "in_i64 (bk_leftovers b * uint num sdiv uint den)" using assms(2) by (simp_all add: scales_def scaled_def)
  from scale_qty_trunc_spec [OF nz fit(1)] scale_qty_trunc_spec [OF nz fit(2)] scale_qty_trunc_spec [OF nz fit(3)] assms(1)
  obtain s1 s2 lf s3 where
    a: "bk_available b' + s1 = scaled num den (bk_available b)" "qty_one dvd bk_available b'"
       "0 \<le> bk_available b \<longrightarrow> 0 \<le> bk_available b' \<and> 0 \<le> s1"
    and bl: "bk_blocked b' + s2 = scaled num den (bk_blocked b)" "qty_one dvd bk_blocked b'"
       "0 \<le> bk_blocked b \<longrightarrow> 0 \<le> bk_blocked b' \<and> 0 \<le> s2" "\<bar>s2\<bar> < qty_one"
    and l: "lf + s3 = scaled num den (bk_leftovers b)" "0 \<le> bk_leftovers b \<longrightarrow> 0 \<le> lf \<and> 0 \<le> s3" "\<bar>s3\<bar> < qty_one"
      "bk_leftovers b' = lf + (if rtl then s2 else s3) + (s1 + s2)"
    by (auto simp: split_row_def scaled_def)
  show "qty_one dvd bk_available b'" "qty_one dvd bk_blocked b'" by (rule a(2), rule bl(2))
  show "\<exists>s2 s3. bk_available b' + bk_blocked b' + bk_leftovers b'
             = scaled num den (bk_available b) + scaled num den (bk_blocked b) + scaled num den (bk_leftovers b)
               + (if rtl then s2 - s3 else 0)
           \<and> \<bar>s2\<bar> < qty_one \<and> \<bar>s3\<bar> < qty_one
           \<and> (0 \<le> bk_available b \<and> 0 \<le> bk_blocked b \<and> 0 \<le> bk_leftovers b
              \<longrightarrow> 0 \<le> bk_available b' \<and> 0 \<le> bk_blocked b' \<and> 0 \<le> bk_leftovers b')"
    by (rule exI [of _ s2], rule exI [of _ s3]) (use a bl l in auto)
  show "bk_overdue_buy b' = scaled num den (bk_overdue_buy b)" "bk_overdue_sell b' = scaled num den (bk_overdue_sell b)"
    using assms nz by (simp_all add: split_row_def scales_def scaled_def scale_qty_keep_fraction_spec)
  show "bk_buy b' = map (scaled num den) (bk_buy b)" "bk_sell b' = map (scaled num den) (bk_sell b)"
    using assms scaled_slots [of num den] by (simp_all add: split_row_def scales_def)
qed

lemma split_row_today:
  assumes "split_row False num den b b'" and "scales num den b"
  shows "bk_today b' = scaled num den (bk_available b) + scaled num den (bk_blocked b) + scaled num den (bk_leftovers b)
           + scaled num den (bk_overdue_sell b) + sum_list (map (scaled num den) (bk_sell b))"
  using split_row_scaled [OF assms] by (auto simp: bk_today_def)

lemma split_row_non_negative:
  assumes "split_row rtl num den b b'" and "scales num den b" and "bk_non_negative b" and "0 \<le> bk_available b"
  shows "bk_non_negative b'"
proof -
  have s: "0 \<le> x \<Longrightarrow> 0 \<le> scaled num den x" for x
    using sdiv_scale_nonneg [of x "uint den" "uint num"] assms(2) uint_pos_iff [of den] by (simp add: scaled_def scales_def)
  have "0 \<le> bk_available b' \<and> 0 \<le> bk_blocked b' \<and> 0 \<le> bk_leftovers b'"
    using split_row_scaled(1) [OF assms(1,2)] assms(3,4) by (auto simp: bk_non_negative_def)
  then show ?thesis using assms(3) split_row_scaled(4-7) [OF assms(1,2)] s
    by (auto simp: bk_non_negative_def list_all_iff)
qed

end
