(* ===== verification/RV_Apply_Income.thy ===== *)
theory RV_Apply_Income
  imports RV_Apply_Corporate
begin

text \<open>
  Events 7 to 10 of \<^verbatim>\<open>src/core/apply.cpp\<close>: income, closing prices, reconciliation with the
  depository and the end-of-day mark.
\<close>

section \<open>DividendPaid\<close>

definition credit_income :: "DividendPaid \<Rightarrow> nat \<Rightarrow> CashLedger \<Rightarrow> CashLedger option" where
  "credit_income e acct ca =
     (if dvp_stage e = IncomeStage_Accrued then do {
        ir \<leftarrow> add_at (income_receivable ca) acct (dvp_net_amount e);
        Some (ca\<lparr>income_receivable := ir\<rparr>)
      } else do {
        ir \<leftarrow> sub_at (income_receivable ca) acct (dvp_net_amount e);
        cs \<leftarrow> add_at (cash ca) acct (dvp_net_amount e);
        Some (ca\<lparr>income_receivable := ir, cash := cs\<rparr>)
      })"

definition dividend_paid :: "DividendPaid \<Rightarrow> PartitionState \<Rightarrow> ApplyContext \<Rightarrow> HandlerResult" where
  "dividend_paid e s ctx =
     (case intern_account s (dvp_account e) of (acct, s1) \<Rightarrow>
      if acct = kEmpty then ret (fail ArenaExhausted 0) s1 ctx
      else do {
        dif \<leftarrow> fx_sub (dvp_gross_amount e) (dvp_withheld_tax e);
        if dif \<noteq> dvp_net_amount e then ret (fail AmountMismatch 0) s1 ctx
        else if \<not> qty_in_range (dvp_qty_basis e) \<or> \<not> money_in_range (dvp_rate_per_share e) then
          ret (fail Overflow (dvp_instrument e)) s1 ctx
        else do {
          esperado \<leftarrow> mul_div HalfEven (dvp_qty_basis e) (dvp_rate_per_share e) qty_one;
          let folga = cast_i64 (dvp_gross_amount e - esperado);
          if 100 < folga \<or> folga < - 100 then
            ret (fail AmountMismatch (dvp_instrument e))
              (push_exception s1 \<lparr>ex_document = dvp_account e, ex_qty_delta_raw = folga,
                 ex_instrument = dvp_instrument e, ex_date = dvp_ex_date e,
                 ex_err_code = err_code AmountMismatch, ex_reserved = 0\<rparr> False) ctx
          else case tg_insert (applied_income s1) (dvp_action_id e) (of_nat acct) of (ok, cheio, ai) \<Rightarrow>
            let s2 = s1\<lparr>applied_income := ai\<rparr> in
            if \<not> ok then
              ret (if cheio then fail ArenaExhausted 0 else fail AlreadyApplied (ucast (dvp_action_id e))) s2 ctx
            else do {
              ca \<leftarrow> credit_income e acct (cash_ledger s2);
              ret kOk (s2\<lparr>cash_ledger := ca\<rparr>) ctx
            }
        }
      })"

definition apply_dividend_paid :: "Codec \<Rightarrow> PartitionState \<Rightarrow> EventView \<Rightarrow> ApplyContext \<Rightarrow> HandlerResult" where
  "apply_dividend_paid cd s ev ctx =
     (case decode 72 ev of
        Inl st \<Rightarrow> ret st s ctx
      | Inr bs \<Rightarrow> dividend_paid (rd_dvp cd bs) s ctx)"

section \<open>ClosingPriceSet\<close>

definition describe_instrument :: "ClosingPriceSet \<Rightarrow> nat \<Rightarrow> InstrumentTable \<Rightarrow> InstrumentTable" where
  "describe_instrument e inst t =
     t\<lparr>symbol := (symbol t)[inst := cps_symbol e], isin := (isin t)[inst := cps_isin e],
       in_type := (in_type t)[inst := cps_type e], price_factor := (price_factor t)[inst := cps_price_factor e],
       lot_size := (lot_size t)[inst := cps_lot_size e],
       previous_close := (previous_close t)[inst := cps_previous_close e],
       closing_price := (closing_price t)[inst := cps_closing_price e],
       closing_date := (closing_date t)[inst := cps_date e]\<rparr>"

definition closing_price_set :: "ClosingPriceSet \<Rightarrow> PartitionState \<Rightarrow> ApplyContext \<Rightarrow> HandlerResult" where
  "closing_price_set e s ctx =
     (if cps_price_factor e = 0 then ret (fail InvalidArgument 0) s ctx
      else case intern_instrument s (cps_instrument e) of (inst, s1) \<Rightarrow>
      if inst = kEmpty then ret (fail ArenaExhausted 0) s1 ctx
      else ret kOk (s1\<lparr>instruments := describe_instrument e inst (instruments s1)\<rparr>) ctx)"

definition apply_closing_price :: "Codec \<Rightarrow> PartitionState \<Rightarrow> EventView \<Rightarrow> ApplyContext \<Rightarrow> HandlerResult" where
  "apply_closing_price cd s ev ctx =
     (case decode 64 ev of
        Inl st \<Rightarrow> ret st s ctx
      | Inr bs \<Rightarrow> closing_price_set (rd_cps cd bs) s ctx)"

section \<open>CustodyReconciled\<close>

definition divergence_record :: "CustodyReconciled \<Rightarrow> CustodyReconciledDivergence \<Rightarrow> ExceptionRecord" where
  "divergence_record e d =
     \<lparr>ex_document = dvg_account d, ex_qty_delta_raw = dvg_qty_delta d, ex_instrument = dvg_instrument d,
      ex_date = crd_date e, ex_err_code = err_code QtyMismatch, ex_reserved = 0\<rparr>"

definition custody_reconciled :: "CustodyReconciled \<Rightarrow> CustodyReconciledDivergence list \<Rightarrow> PartitionState \<Rightarrow> PartitionState" where
  "custody_reconciled e ds s = fold (\<lambda>d s. push_exception s (divergence_record e d) True) ds s"

definition apply_custody_reconciled :: "Codec \<Rightarrow> PartitionState \<Rightarrow> EventView \<Rightarrow> ApplyContext \<Rightarrow> HandlerResult" where
  "apply_custody_reconciled cd s ev ctx =
     (case decode 16 ev of
        Inl st \<Rightarrow> ret st s ctx
      | Inr bs \<Rightarrow>
          (case view_group 24 8 kMaxCustodyReconciledDivergence (subspan (ev_span ev) 16) of
             Inl st \<Rightarrow> ret st s ctx
           | Inr es \<Rightarrow> ret kOk (custody_reconciled (rd_crd cd bs) (map (rd_dvg cd) es) s) ctx))"

section \<open>EodMarked\<close>

definition eod_marked :: "EodMarked \<Rightarrow> PartitionState \<Rightarrow> ApplyContext \<Rightarrow> HandlerResult" where
  "eod_marked e s ctx =
     (if (eod_custody_checksum e \<noteq> 0 \<or> eod_cash_checksum e \<noteq> 0)
         \<and> (custody_checksum s \<noteq> eod_custody_checksum e \<or> cash_checksum s \<noteq> eod_cash_checksum e)
      then ret (fail StateCorrupt (eod_date e)) s ctx
      else ret kOk (if eod_flags e AND 1 \<noteq> 0 then s\<lparr>ps_flags := ps_flags s OR kFlagReconDivergence\<rparr> else s) ctx)"

definition apply_eod_marked :: "Codec \<Rightarrow> PartitionState \<Rightarrow> EventView \<Rightarrow> ApplyContext \<Rightarrow> HandlerResult" where
  "apply_eod_marked cd s ev ctx =
     (case decode 32 ev of
        Inl st \<Rightarrow> ret st s ctx
      | Inr bs \<Rightarrow> eod_marked (rd_eod cd bs) s ctx)"

section \<open>Income\<close>

definition income_money :: "DividendPaid \<Rightarrow> Balances \<Rightarrow> Balances" where
  "income_money e b =
     (if dvp_stage e = IncomeStage_Accrued then b\<lparr>bl_income := bl_income b + dvp_net_amount e\<rparr>
      else b\<lparr>bl_income := bl_income b - dvp_net_amount e, bl_cash := bl_cash b + dvp_net_amount e\<rparr>)"

lemma credit_income_row:
  assumes "credit_income e acct c = Some c'" and "cash_shape c" and "acct < ca_count c"
  shows "cash_like c c'" and "balances_row c' a = (if a = acct then income_money e (balances_row c acct) else balances_row c a)"
proof -
  have len: "acct < length (income_receivable c)" "acct < length (cash c)"
    using assms(2,3) by (auto simp: cash_shape_def Let_def)
  show "cash_like c c'"
    using assms(1,2) by (auto simp: credit_income_def cash_like_def cash_shape_def Let_def fx_simps bind_eq_Some_conv split: if_splits)
  show "balances_row c' a = (if a = acct then income_money e (balances_row c acct) else balances_row c a)"
    using assms(1) len by (auto simp: credit_income_def income_money_def balances_row_def fx_simps bind_eq_Some_conv
        nth_list_update split: if_splits)
qed

definition income_applied :: "PartitionState \<Rightarrow> u64 \<Rightarrow> u64 \<Rightarrow> bool" where
  "income_applied s action doc \<longleftrightarrow> (\<exists>a<ca_count (cash_ledger s). account_document s ! a = doc
     \<and> (action, of_nat a) \<in> tg_members (applied_income s))"

lemma dividend_paid_cases:
  assumes "ps_inv s" and "dividend_paid e s ctx = Some (st, s', ctx')"
  obtains (rejected) s1 ai where "code st \<in> {ArenaExhausted, AmountMismatch, Overflow, AlreadyApplied}" "grown s s1" "tg_inv ai"
      "tg_members ai = tg_members (applied_income s)"
      "s' = s1 \<or> (\<exists>x. s' = push_exception s1 x False) \<or> s' = s1\<lparr>applied_income := ai\<rparr>" "ctx' = ctx"
  | (credited) s1 acct ai ca where "grown s s1" "acct < ca_count (cash_ledger s1)" "account_document s1 ! acct = dvp_account e"
      "dvp_gross_amount e - dvp_withheld_tax e = dvp_net_amount e"
      "(dvp_action_id e, of_nat acct) \<notin> tg_members (applied_income s)" "tg_inv ai"
      "tg_members ai = insert (dvp_action_id e, of_nat acct) (tg_members (applied_income s))"
      "credit_income e acct (cash_ledger s1) = Some ca" "s' = s1\<lparr>applied_income := ai, cash_ledger := ca\<rparr>" "st = kOk" "ctx' = ctx"
proof -
  obtain acct s1 where i1: "intern_account s (dvp_account e) = (acct, s1)" by (cases "intern_account s (dvp_account e)")
  obtain ok cheio ai where ins: "tg_insert (applied_income s1) (dvp_action_id e) (of_nat acct) = (ok, cheio, ai)"
    by (cases "tg_insert (applied_income s1) (dvp_action_id e) (of_nat acct)") auto
  note g1 = intern_account_grown [OF assms(1) i1]
  have ai1: "applied_income s1 = applied_income s" using grown_same [OF g1(1)] by (simp add: same_books_def)
  have tg: "tg_inv (applied_income s1)" using grown_inv [OF g1(1)] by (simp add: ps_inv_def indexes_ok_def)
  note res = two_gen.ins_result [OF tg, of "(dvp_action_id e, of_nat acct)", simplified, OF ins, unfolded ai1]
  note run = assms(2) [unfolded dividend_paid_def Let_def i1 ins prod.case]
  show thesis
  proof (cases "st = kOk")
    case False
    define out where "out = (\<lambda>st0 s0. st = st0 \<and> s' = s0 \<and> ctx' = ctx)"
    have out: "ret st0 s0 ctx = Some (st, s', ctx') \<longleftrightarrow> out st0 s0" for st0 s0 by (auto simp: ret_def out_def)
    have "out (fail ArenaExhausted 0) s1 \<or> out (fail AmountMismatch 0) s1 \<or> out (fail Overflow (dvp_instrument e)) s1
        \<or> (\<exists>x. out (fail AmountMismatch (dvp_instrument e)) (push_exception s1 x False))
        \<or> \<not> ok \<and> (out (fail ArenaExhausted 0) (s1\<lparr>applied_income := ai\<rparr>) \<or> out (fail AlreadyApplied (ucast (dvp_action_id e))) (s1\<lparr>applied_income := ai\<rparr>))
        \<or> (\<exists>s0. out kOk s0)"
      using run by (auto simp: out bind_eq_Some_conv split: if_splits)
    then have "code st \<in> {ArenaExhausted, AmountMismatch, Overflow, AlreadyApplied} \<and> ctx' = ctx
        \<and> (s' = s1 \<or> (\<exists>x. s' = push_exception s1 x False) \<or> \<not> ok \<and> s' = s1\<lparr>applied_income := ai\<rparr>)"
      unfolding out_def using False by (elim disjE exE conjE) (simp_all, blast)
    then have "code st \<in> {ArenaExhausted, AmountMismatch, Overflow, AlreadyApplied}" "ctx' = ctx"
      and s': "s' = s1 \<or> (\<exists>x. s' = push_exception s1 x False) \<or> \<not> ok \<and> s' = s1\<lparr>applied_income := ai\<rparr>" by blast+
    show thesis
    proof (cases ok)
      case True
      with s' show thesis using tg ai1
        by (intro rejected [OF \<open>code st \<in> _\<close> g1(1), of "applied_income s1"]) (auto intro: \<open>ctx' = ctx\<close>)
    next
      case False
      with s' show thesis using res
        by (intro rejected [OF \<open>code st \<in> _\<close> g1(1), of ai]) (auto intro: \<open>ctx' = ctx\<close>)
    qed
  next
    case True
    with run obtain ca where ca: "acct \<noteq> kEmpty" "dvp_gross_amount e - dvp_withheld_tax e = dvp_net_amount e" "ok"
      "credit_income e acct (cash_ledger s1) = Some ca" "s' = s1\<lparr>applied_income := ai, cash_ledger := ca\<rparr>" "ctx' = ctx"
      by (auto simp: ret_def bind_eq_Some_conv fx_simps fail_def kOk_def split: if_splits)
    show thesis by (rule credited [OF g1(1) _ _ ca(2) _ res(1) _ ca(4,5) True ca(6)]) (use g1(2) ca(1,3) res in auto)
  qed
qed

lemma income_step:
  assumes "ps_inv s1" and "acct < ca_count (cash_ledger s1)" and "credit_income e acct (cash_ledger s1) = Some ca"
  shows "ledger_step s1 (s1\<lparr>cash_ledger := ca\<rparr>) pos (buckets_row (custody s1) pos) acct (income_money e (balances_row (cash_ledger s1) acct))"
proof -
  have sh: "custody_shape (custody s1)" "cash_shape (cash_ledger s1)" using ps_inv_shapes [OF assms(1)] by simp_all
  note row = credit_income_row [OF assms(3) sh(2) assms(2)]
  show ?thesis by (rule ledger_stepI [where cu = "custody s1", OF _ custody_like_refl [OF sh(1)] row(1) _ row(2)]) simp_all
qed

lemma same_rows_position_book: "same_rows s s' \<Longrightarrow> custody s' = custody s \<Longrightarrow> position_book s' = position_book s"
  by (simp add: same_rows_def position_book_def fun_eq_iff cong: option.case_cong)

lemma dividend_paid_inv:
  assumes "ps_inv s" and "dividend_paid e s ctx = Some (st, s', ctx')"
  shows "ps_inv s'" and "lists_ok s \<Longrightarrow> lists_ok s'" and "i3_ok s \<Longrightarrow> i3_ok s'" and "code st \<noteq> StateCorrupt"
    and "trades s' = trades s" and "position_book s' = position_book s"
    and "cash_book s' d = (if is_ok st \<and> d = dvp_account e then income_money e (cash_book s d) else cash_book s d)"
    and "is_ok st \<Longrightarrow> dvp_gross_amount e - dvp_withheld_tax e = dvp_net_amount e
           \<and> \<not> income_applied s (dvp_action_id e) (dvp_account e) \<and> income_applied s' (dvp_action_id e) (dvp_account e)"
proof -
  have "ps_inv s' \<and> (lists_ok s \<longrightarrow> lists_ok s') \<and> (i3_ok s \<longrightarrow> i3_ok s') \<and> code st \<noteq> StateCorrupt \<and> trades s' = trades s
      \<and> position_book s' = position_book s
      \<and> cash_book s' d = (if is_ok st \<and> d = dvp_account e then income_money e (cash_book s d) else cash_book s d)
      \<and> (is_ok st \<longrightarrow> dvp_gross_amount e - dvp_withheld_tax e = dvp_net_amount e
           \<and> \<not> income_applied s (dvp_action_id e) (dvp_account e) \<and> income_applied s' (dvp_action_id e) (dvp_account e))"
    using assms
  proof (cases rule: dividend_paid_cases)
    case (rejected s1 ai)
    have "ps_inv (s1\<lparr>applied_income := ai\<rparr>)" using applied_sets_inv(2) [OF grown_inv [OF rejected(2)] rejected(3) rejected(3)] .
    moreover have "\<not> is_ok st" using rejected(1) by (auto simp: is_ok_def)
    ultimately show ?thesis using rejected(1,2,5) by (auto simp: grown_def same_books_def push_exception_inv push_exception_books)
  next
    case (credited s1 acct ai ca)
    let ?s = "s1\<lparr>applied_income := ai\<rparr>"
    have inv: "ps_inv ?s" using applied_sets_inv(2) [OF grown_inv [OF credited(1)] credited(6) credited(6)] .
    have st: "ledger_step ?s s' pos (buckets_row (custody ?s) pos) acct (income_money e (balances_row (cash_ledger s1) acct))" for pos
      using income_step [OF inv, of acct e ca pos] credited(2,8,9) by simp
    have fr: "ledger_frame ?s s'" by (rule ledger_step_frame [OF st])
    have same: "position_book s1 = position_book s" "cash_book s1 = cash_book s" using credited(1) by (simp_all add: grown_def same_books_def)
    have rows: "same_rows ?s s'" "custody s' = custody s1" using ledger_frame_same_rows [OF fr] credited(9) by simp_all
    then have "position_book s' = position_book ?s" by (intro same_rows_position_book) simp_all
    then have pb: "position_book s' = position_book s" using same(1) by simp
    have "cash_book s' d = (if d = dvp_account e then income_money e (balances_row (cash_ledger s1) acct) else cash_book ?s d)"
      by (rule cash_book_update [OF inv, of _ acct]) (use st credited(2,3) rows in \<open>auto simp: same_rows_def ledger_step_def\<close>)
    moreover have "balances_row (cash_ledger s1) acct = cash_book s (dvp_account e)"
      using cash_book_row [OF grown_inv [OF credited(1)] credited(2)] credited(3) same by simp
    ultimately have cb: "cash_book s' d = (if is_ok st \<and> d = dvp_account e then income_money e (cash_book s d) else cash_book s d)"
      using same(2) credited(10) by (simp add: is_ok_def kOk_def)
    have "income_applied s' (dvp_action_id e) (dvp_account e)" unfolding income_applied_def using fr credited(2,3,7)
      by (intro exI [of _ acct]) (simp add: ledger_frame_def cash_like_def)
    moreover have "\<not> income_applied s (dvp_action_id e) (dvp_account e)"
      unfolding income_applied_def using credited(3,5) grown_account [OF assms(1) credited(1,2)] by auto
    moreover have "i3_ok s' = i3_ok s1" using rows(2) by (simp add: i3_ok_def)
    ultimately show ?thesis using pb cb ledger_frame_inv [OF inv fr] credited(1,4,10) fr
      by (simp add: grown_def same_books_def ledger_frame_def kOk_def)
  qed
  then show "ps_inv s'" "lists_ok s \<Longrightarrow> lists_ok s'" "i3_ok s \<Longrightarrow> i3_ok s'" "code st \<noteq> StateCorrupt" "trades s' = trades s"
    "position_book s' = position_book s"
    "cash_book s' d = (if is_ok st \<and> d = dvp_account e then income_money e (cash_book s d) else cash_book s d)"
    "is_ok st \<Longrightarrow> dvp_gross_amount e - dvp_withheld_tax e = dvp_net_amount e
           \<and> \<not> income_applied s (dvp_action_id e) (dvp_account e) \<and> income_applied s' (dvp_action_id e) (dvp_account e)" by blast+
qed

section \<open>Prices, reconciliation, end of day\<close>

lemma describe_instrument_inv:
  assumes "ps_inv s"
  shows "ps_inv (s\<lparr>instruments := describe_instrument e i (instruments s)\<rparr>)"
    and "position_book (s\<lparr>instruments := describe_instrument e i (instruments s)\<rparr>) = position_book s"
    and "cash_book (s\<lparr>instruments := describe_instrument e i (instruments s)\<rparr>) = cash_book s"
    and "lists_ok (s\<lparr>instruments := describe_instrument e i (instruments s)\<rparr>) = lists_ok s"
    and "i3_ok (s\<lparr>instruments := describe_instrument e i (instruments s)\<rparr>) = i3_ok s"
  using assms
  by (simp_all add: describe_instrument_def ps_inv_def tables_ok_def indexes_ok_def refs_ok_def rows_defs
      instruments_shape_def Let_def position_book_def cash_book_def lists_ok_def i3_ok_def fun_eq_iff cong: option.case_cong)

lemma closing_price_inv:
  assumes "ps_inv s" and "closing_price_set e s ctx = Some (st, s', ctx')"
  shows "ps_inv s'" and "lists_ok s \<Longrightarrow> lists_ok s'" and "i3_ok s \<Longrightarrow> i3_ok s'" and "code st \<noteq> StateCorrupt"
    and "trades s' = trades s" and "position_book s' = position_book s" and "cash_book s' = cash_book s" and "ctx' = ctx"
    and "is_ok st \<Longrightarrow> cps_price_factor e \<noteq> 0 \<and> (\<exists>i<in_count (instruments s'). external_id (instruments s') ! i = cps_instrument e
           \<and> price_factor (instruments s') ! i = cps_price_factor e \<and> closing_price (instruments s') ! i = cps_closing_price e
           \<and> closing_date (instruments s') ! i = cps_date e)"
proof -
  obtain i s1 where i1: "intern_instrument s (cps_instrument e) = (i, s1)" by (cases "intern_instrument s (cps_instrument e)")
  note g1 = intern_instrument_grown [OF assms(1) i1]
  note d = describe_instrument_inv [OF grown_inv [OF g1(1)], of e i]
  note run = assms(2) [unfolded closing_price_set_def i1 prod.case]
  have "(\<not> is_ok st \<and> code st \<noteq> StateCorrupt \<and> grown s s' \<and> ctx' = ctx) \<or> (st = kOk \<and> i \<noteq> kEmpty \<and> cps_price_factor e \<noteq> 0
      \<and> s' = s1\<lparr>instruments := describe_instrument e i (instruments s1)\<rparr> \<and> ctx' = ctx)"
    using run g1(1) grown_refl [OF assms(1)] by (auto simp: ret_def is_ok_def split: if_splits)
  then have "ps_inv s' \<and> (lists_ok s \<longrightarrow> lists_ok s') \<and> (i3_ok s \<longrightarrow> i3_ok s') \<and> code st \<noteq> StateCorrupt \<and> trades s' = trades s
      \<and> position_book s' = position_book s \<and> cash_book s' = cash_book s \<and> ctx' = ctx
      \<and> (is_ok st \<longrightarrow> cps_price_factor e \<noteq> 0 \<and> (\<exists>i<in_count (instruments s'). external_id (instruments s') ! i = cps_instrument e
           \<and> price_factor (instruments s') ! i = cps_price_factor e \<and> closing_price (instruments s') ! i = cps_closing_price e
           \<and> closing_date (instruments s') ! i = cps_date e))"
  proof
    assume "\<not> is_ok st \<and> code st \<noteq> StateCorrupt \<and> grown s s' \<and> ctx' = ctx"
    then show ?thesis by (simp add: grown_def same_books_def)
  next
    assume a: "st = kOk \<and> i \<noteq> kEmpty \<and> cps_price_factor e \<noteq> 0
      \<and> s' = s1\<lparr>instruments := describe_instrument e i (instruments s1)\<rparr> \<and> ctx' = ctx"
    have ix: "i < in_count (instruments s1)" "external_id (instruments s1) ! i = cps_instrument e" using g1(2) a by simp_all
    then have len: "i < length (price_factor (instruments s1))" "i < length (closing_price (instruments s1))" "i < length (closing_date (instruments s1))"
      using grown_inv [OF g1(1)] by (auto simp: ps_inv_def tables_ok_def instruments_shape_def Let_def)
    have "\<exists>i<in_count (instruments s'). external_id (instruments s') ! i = cps_instrument e
           \<and> price_factor (instruments s') ! i = cps_price_factor e \<and> closing_price (instruments s') ! i = cps_closing_price e
           \<and> closing_date (instruments s') ! i = cps_date e"
      using ix len a by (intro exI [of _ i]) (simp add: describe_instrument_def)
    then show ?thesis using a d g1(1,5) by (simp add: grown_def same_books_def kOk_def)
  qed
  then show "ps_inv s'" "lists_ok s \<Longrightarrow> lists_ok s'" "i3_ok s \<Longrightarrow> i3_ok s'" "code st \<noteq> StateCorrupt" "trades s' = trades s"
    "position_book s' = position_book s" "cash_book s' = cash_book s" "ctx' = ctx"
    "is_ok st \<Longrightarrow> cps_price_factor e \<noteq> 0 \<and> (\<exists>i<in_count (instruments s'). external_id (instruments s') ! i = cps_instrument e
           \<and> price_factor (instruments s') ! i = cps_price_factor e \<and> closing_price (instruments s') ! i = cps_closing_price e
           \<and> closing_date (instruments s') ! i = cps_date e)" by blast+
qed

text \<open>Reconciliation reports and never corrects: the ledgers stay, the exception queue records.\<close>

lemma custody_reconciled_frame:
  shows "custody (custody_reconciled e ds s) = custody s" and "cash_ledger (custody_reconciled e ds s) = cash_ledger s"
    and "trades (custody_reconciled e ds s) = trades s" and "ps_inv (custody_reconciled e ds s) = ps_inv s"
    and "position_book (custody_reconciled e ds s) = position_book s" and "cash_book (custody_reconciled e ds s) = cash_book s"
    and "lists_ok (custody_reconciled e ds s) = lists_ok s" and "i3_ok (custody_reconciled e ds s) = i3_ok s"
  unfolding custody_reconciled_def
  by (induction ds arbitrary: s) (simp_all add: push_exception_inv push_exception_books)

lemma eod_marked_frame:
  assumes "eod_marked e s ctx = Some (st, s', ctx')"
  shows "\<exists>f. s' = s\<lparr>ps_flags := f\<rparr>" and "ctx' = ctx" and "is_ok st \<longleftrightarrow> \<not> ((eod_custody_checksum e \<noteq> 0 \<or> eod_cash_checksum e \<noteq> 0)
         \<and> (custody_checksum s \<noteq> eod_custody_checksum e \<or> cash_checksum s \<noteq> eod_cash_checksum e))"
proof -
  have "s' = s \<or> s' = s\<lparr>ps_flags := ps_flags s OR kFlagReconDivergence\<rparr>"
    using assms by (auto simp: eod_marked_def ret_def split: if_splits)
  moreover have "s = s\<lparr>ps_flags := ps_flags s\<rparr>" by simp
  ultimately show "\<exists>f. s' = s\<lparr>ps_flags := f\<rparr>" by metis
  show "ctx' = ctx" using assms by (auto simp: eod_marked_def ret_def split: if_splits)
  show "is_ok st \<longleftrightarrow> \<not> ((eod_custody_checksum e \<noteq> 0 \<or> eod_cash_checksum e \<noteq> 0)
         \<and> (custody_checksum s \<noteq> eod_custody_checksum e \<or> cash_checksum s \<noteq> eod_cash_checksum e))"
    using assms by (auto simp: eod_marked_def ret_def is_ok_def split: if_splits)
qed

lemma flags_frame:
  "ps_inv (s\<lparr>ps_flags := f\<rparr>) = ps_inv s" "position_book (s\<lparr>ps_flags := f\<rparr>) = position_book s"
  "cash_book (s\<lparr>ps_flags := f\<rparr>) = cash_book s" "lists_ok (s\<lparr>ps_flags := f\<rparr>) = lists_ok s" "i3_ok (s\<lparr>ps_flags := f\<rparr>) = i3_ok s"
  by (simp_all add: ps_inv_def tables_ok_def indexes_ok_def refs_ok_def rows_defs position_book_def cash_book_def lists_ok_def
      i3_ok_def fun_eq_iff cong: option.case_cong)

end
