(* ===== verification/RV_Apply.thy ===== *)
theory RV_Apply
  imports RV_Apply_Day RV_Apply_Settle RV_Apply_Income
begin

text \<open>
  The dispatch of \<^verbatim>\<open>src/core/apply.cpp\<close>: the template of the event selects the handler, the LSN
  of the event is recorded whatever the outcome, and the outcome is counted.
\<close>

section \<open>Dispatch\<close>

text \<open>The handler of a template number of the schema.\<close>

definition dispatch :: "bool \<Rightarrow> bool \<Rightarrow> Codec \<Rightarrow> PartitionState \<Rightarrow> EventView \<Rightarrow> ApplyContext \<Rightarrow> HandlerResult" where
  "dispatch dbg rtl cd s ev ctx =
     (let t = ev_tmpl ev in
      if t = 1 then apply_day_opened cd s ev ctx
      else if t = 2 then apply_trade_executed dbg cd s ev ctx
      else if t = 3 then apply_trade_allocated dbg cd s ev ctx
      else if t = 4 then apply_batch_netted cd s ev ctx
      else if t = 5 then apply_trade_settled dbg cd s ev ctx
      else if t = 6 then apply_corporate_action dbg rtl cd s ev ctx
      else if t = 7 then apply_dividend_paid cd s ev ctx
      else if t = 8 then apply_closing_price cd s ev ctx
      else if t = 9 then apply_custody_reconciled cd s ev ctx
      else if t = 10 then apply_eod_marked cd s ev ctx
      else ret (fail UnknownTemplate (ucast t)) s ctx)"

definition count_outcome :: "Status \<Rightarrow> Metrics \<Rightarrow> Metrics" where
  "count_outcome st m =
     (if is_ok st then m\<lparr>apply_accepted := apply_accepted m + 1\<rparr>
      else if status_is_fatal st then m\<lparr>apply_fatal := apply_fatal m + 1\<rparr>
      else count_reject m (err_code (code st)))"

definition apply_event :: "bool \<Rightarrow> bool \<Rightarrow> Codec \<Rightarrow> PartitionState \<Rightarrow> EventView \<Rightarrow> ApplyContext \<Rightarrow> HandlerResult" where
  "apply_event dbg rtl cd s ev ctx =
     do {
       (st, s1, ctx1) \<leftarrow> dispatch dbg rtl cd s ev ctx;
       Some (st, s1\<lparr>applied_lsn := ev_lsn ev\<rparr>,
             ctx1\<lparr>cx_metrics := map_option (count_outcome st) (cx_metrics ctx1)\<rparr>)
     }"

text \<open>The result of a dispatch is the result of one handler, or a refusal in front of it.\<close>

lemma dispatch_cases:
  assumes "dispatch dbg rtl cd s ev ctx = Some r"
  obtains (refused) st where "r = (st, s, ctx)"
  | (day) e where "day_opened e s ctx = Some r"
  | (executed) e where "trade_executed dbg e s ev ctx = Some r"
  | (allocated) e bs where "trade_allocated dbg e s ctx = Some r" "ev_tmpl ev = 3" "decode 64 ev = Inr bs" "e = rd_tal cd bs"
  | (netted) e where "batch_netted e s ctx = Some r"
  | (settled) e where "trade_settled dbg e s ev ctx = Some r"
  | (corporate) e where "corporate_action dbg rtl e s ev ctx = Some r"
  | (dividend) e where "dividend_paid e s ctx = Some r"
  | (price) e where "closing_price_set e s ctx = Some r"
  | (reconciled) e ds where "r = (kOk, custody_reconciled e ds s, ctx)"
  | (eod) e where "eod_marked e s ctx = Some r"
  using assms unfolding dispatch_def Let_def apply_day_opened_def apply_trade_executed_def apply_trade_allocated_def
      apply_batch_netted_def apply_trade_settled_def apply_corporate_action_def apply_dividend_paid_def apply_closing_price_def
      apply_custody_reconciled_def apply_eod_marked_def
  by (simp add: ret_def split: if_splits sum.splits) blast+

section \<open>Every handler keeps the invariant, and a rejection keeps the books\<close>

text \<open>
  What all ten handlers promise: the invariant of the tables, I3 unless the answer is
  \<open>StateCorrupt\<close>, and books and trades untouched by a rejected event.
\<close>

definition keeps :: "PartitionState \<Rightarrow> Status \<Rightarrow> PartitionState \<Rightarrow> bool" where
  "keeps s st s' \<longleftrightarrow> ps_inv s' \<and> (i3_ok s \<longrightarrow> code st \<noteq> StateCorrupt \<longrightarrow> i3_ok s')
     \<and> (classify st = Rejected \<longrightarrow> position_book s' = position_book s \<and> cash_book s' = cash_book s \<and> trades s' = trades s)"

lemma keeps_refl: "ps_inv s \<Longrightarrow> keeps s st s"
  by (simp add: keeps_def)

lemma keeps_grown: "grown s s' \<Longrightarrow> keeps s st s'"
  by (simp add: keeps_def grown_def same_books_def)

lemma classify_Rejected: "classify st = Rejected \<longleftrightarrow> \<not> is_ok st \<and> \<not> status_is_fatal st"
  by (simp add: classify_def)

lemma published_not_rejected:
  "rv_check dbg cond s ctx (publish_ret s ctx ev pos) = Some (st, s', ctx') \<Longrightarrow> classify st \<noteq> Rejected"
  using rv_publish_status(1) [of dbg cond s ctx ev pos st s' ctx']
  by (cases cond) (auto simp: rv_check_def ret_def split: if_splits)

lemma day_opened_keeps_all: "ps_inv s \<Longrightarrow> day_opened e s ctx = Some (st, s', ctx') \<Longrightarrow> keeps s st s'"
  using day_opened_inv [of s e ctx st s' ctx'] day_opened_keeps [of s e ctx st s' ctx'] by (auto simp: keeps_def classify_Rejected)

lemma trade_executed_keeps:
  assumes "ps_inv s" and "trade_executed dbg e s ev ctx = Some (st, s', ctx')"
  shows "keeps s st s'"
  using assms
proof (cases rule: trade_executed_cases)
  case rejected
  then show ?thesis by (simp add: keeps_grown)
next
  case booked
  then show ?thesis using trade_executed_inv [OF assms] published_not_rejected [OF booked(20)] by (simp add: keeps_def)
qed

lemma trade_allocated_keeps:
  assumes "ps_inv s" and "trade_allocated dbg e s ctx = Some (st, s', ctx')"
  shows "keeps s st s'"
  using assms
proof (cases rule: trade_allocated_cases)
  case rejected
  then show ?thesis by (simp add: keeps_grown)
next
  case (confirmed s2 t)
  then show ?thesis using set_trade_state_inv [OF grown_inv [OF confirmed(1)]] by (auto simp: keeps_def grown_def)
next
  case (moved s4 s5 t de para pd pp)
  have g: "ps_inv s4" "trades s4 = trades s" using moved(1) grown_trades [OF moved(1)] by (simp_all add: grown_def)
  have t4: "t < tr_count (trades s4)" using moved(2) g(2) by simp
  note spec = move_trade_spec [OF g(1) moved(19,6-10,11-16,17) t4]
  note st5 = set_trade_state_inv [OF spec(1), of t TsAllocated]
  have "i3_ok s'" if "i3_ok s" "code st \<noteq> StateCorrupt"
  proof -
    have i3: "i3_ok s4" using that(1) moved(1) by (simp add: grown_def)
    have ok: "buckets_non_negative (custody s5) pd" "buckets_non_negative (custody s5) pp" "s' = set_trade_state s5 t TsAllocated"
      using moved(21) that(2) by (auto simp: rv_check_def ret_def split: if_splits)
    have pne: "pd \<noteq> pp" using moved(10,12,15) by auto
    have "i3_ok s5" unfolding i3_ok_def
    proof (intro allI impI)
      fix r assume "r < cu_count (custody s5)"
      with spec(5,6) ok(1,2) i3_row [OF i3] show "buckets_non_negative (custody s5) r"
        unfolding buckets_non_negative_row by (cases "r = pd \<or> r = pp") auto
    qed
    with ok(3) st5(3) show ?thesis by simp
  qed
  moreover have "ps_inv s'" "classify st \<noteq> Rejected"
    using moved(21) spec(1) st5(1) by (auto simp: rv_check_def ret_def split: if_splits)
  ultimately show ?thesis by (simp add: keeps_def)
qed

lemma batch_netted_keeps: "ps_inv s \<Longrightarrow> batch_netted e s ctx = Some (st, s', ctx') \<Longrightarrow> keeps s st s'"
  using batch_netted_inv [of s e ctx st s' ctx'] by (simp add: keeps_def classify_Rejected)

lemma trade_settled_keeps:
  assumes "ps_inv s" and "trade_settled dbg e s ev ctx = Some (st, s', ctx')"
  shows "keeps s st s'"
  using assms
proof (cases rule: trade_settled_books)
  case rejected
  then show ?thesis by (simp add: keeps_grown)
next
  case settled
  then show ?thesis using trade_settled_inv [OF assms] published_not_rejected [OF settled(11)] by (simp add: keeps_def)
qed

lemma corporate_action_keeps:
  "ps_inv s \<Longrightarrow> corporate_action dbg rtl e s ev ctx = Some (st, s', ctx') \<Longrightarrow> keeps s st s'"
  using corporate_action_inv [of s dbg rtl e ev ctx st s' ctx'] by (auto simp: keeps_def classify_Rejected)

lemma dividend_paid_keeps: "ps_inv s \<Longrightarrow> dividend_paid e s ctx = Some (st, s', ctx') \<Longrightarrow> keeps s st s'"
  using dividend_paid_inv [of s e ctx st s' ctx'] by (auto simp: keeps_def classify_Rejected fun_eq_iff)

lemma closing_price_keeps: "ps_inv s \<Longrightarrow> closing_price_set e s ctx = Some (st, s', ctx') \<Longrightarrow> keeps s st s'"
  using closing_price_inv [of s e ctx st s' ctx'] by (simp add: keeps_def)

lemma custody_reconciled_keeps: "ps_inv s \<Longrightarrow> keeps s st (custody_reconciled e ds s)"
  by (simp add: keeps_def custody_reconciled_frame)

lemma eod_marked_keeps:
  assumes "ps_inv s" and "eod_marked e s ctx = Some (st, s', ctx')"
  shows "keeps s st s'"
  using eod_marked_frame(1) [OF assms(2)] assms(1) by (auto simp: keeps_def flags_frame)

lemmas handler_keeps = day_opened_keeps_all trade_executed_keeps trade_allocated_keeps batch_netted_keeps trade_settled_keeps
  corporate_action_keeps dividend_paid_keeps closing_price_keeps eod_marked_keeps

lemma dispatch_keeps:
  assumes "ps_inv s" and "dispatch dbg rtl cd s ev ctx = Some (st, s', ctx')"
  shows "keeps s st s'"
  using assms(2)
proof (cases rule: dispatch_cases)
  case refused
  then show ?thesis using keeps_refl [OF assms(1)] by simp
next
  case reconciled
  then show ?thesis using custody_reconciled_keeps [OF assms(1)] by simp
qed (erule handler_keeps [OF assms(1)])+

section \<open>Trades move along the edges of the state machine\<close>

text \<open>
  A row after an event continues a row before it: same trade, same terms, and a state reached along
  edges of the machine (I5).  A row that continues none is a trade just executed.
\<close>

definition row_follows :: "TradeRow \<Rightarrow> TradeRow \<Rightarrow> bool" where
  "row_follows r r' \<longleftrightarrow> r' = r\<lparr>row_account := row_account r', row_state := row_state r'\<rparr>
     \<and> (\<lambda>a b. \<exists>g. trade_step a g b)\<^sup>*\<^sup>* (row_state r) (row_state r')"

definition trades_evolve :: "PartitionState \<Rightarrow> PartitionState \<Rightarrow> bool" where
  "trades_evolve s s' \<longleftrightarrow> (\<forall>r'\<in>set (trade_list (trades s')). (\<exists>r\<in>set (trade_list (trades s)). row_follows r r')
     \<or> row_state r' = TsExecuted \<and> 0 < row_qty r' \<and> row_id r' \<notin> row_id ` set (trade_list (trades s)))"

lemma row_follows_refl: "row_follows r r"
  by (simp add: row_follows_def)

lemma evolve_subset: "set (trade_list (trades s')) \<subseteq> set (trade_list (trades s)) \<Longrightarrow> trades_evolve s s'"
  unfolding trades_evolve_def using row_follows_refl by blast

lemma evolve_same: "trades s' = trades s \<Longrightarrow> trades_evolve s s'"
  by (simp add: evolve_subset)

lemma evolve_update:
  assumes "trade_list (trades s') = (trade_list (trades s))[t := r']" and "t < tr_count (trades s)"
    and "row_follows (trade_list (trades s) ! t) r'"
  shows "trades_evolve s s'"
proof -
  have "t < length (trade_list (trades s))" using assms(2) by (simp add: trade_list_def)
  then have t: "trade_list (trades s) ! t \<in> set (trade_list (trades s))" by simp
  have "\<exists>r\<in>set (trade_list (trades s)). row_follows r q" if "q \<in> set (trade_list (trades s'))" for q
  proof -
    have "q = r' \<or> q \<in> set (trade_list (trades s))" using that set_update_subset_insert assms(1) by fastforce
    then show ?thesis using assms(3) t row_follows_refl by blast
  qed
  then show ?thesis by (simp add: trades_evolve_def)
qed

lemma steps_back: "(b, a) \<in> {(b, a). trade_step a g b}\<^sup>* \<Longrightarrow> (\<lambda>a b. \<exists>g. trade_step a g b)\<^sup>*\<^sup>* a b"
  by (induction rule: rtrancl_induct) (auto intro: converse_rtranclp_into_rtranclp)

lemma evolve_states:
  assumes "trades s' = (trades s)\<lparr>tr_state := sts\<rparr>"
    and "\<forall>j. (sts ! j, tr_state (trades s) ! j) \<in> {(b, a). trade_step a g b}\<^sup>*"
  shows "trades_evolve s s'"
proof -
  have "row_follows (trade_row (trades s) j) (trade_row (trades s') j)" for j
    using steps_back [of "sts ! j" "tr_state (trades s) ! j" g] assms by (simp add: row_follows_def trade_row_def)
  then show ?thesis unfolding trades_evolve_def trade_list_def by (auto simp: assms(1))
qed

lemma allocate_step: "trade_step TsExecuted TgAllocate TsAllocated"
  by (simp add: trade_step_next is_valid_def)

lemma allocated_row:
  assumes "row_state r = TsExecuted"
  shows "row_follows r (r\<lparr>row_account := a, row_state := TsAllocated\<rparr>)" and "row_follows r (r\<lparr>row_state := TsAllocated\<rparr>)"
    and "row_follows r (r\<lparr>row_account := a\<rparr>)"
  using assms allocate_step by (auto simp: row_follows_def)

lemma trade_list_nth: "t < tr_count tb \<Longrightarrow> trade_list tb ! t = trade_row tb t"
  by (simp add: trade_list_def)

lemma day_opened_evolves:
  assumes "ps_inv s" and "day_opened e s ctx = Some (st, s', ctx')"
  shows "trades_evolve s s'"
proof (cases "is_ok st")
  case True
  then show ?thesis using day_opened_effect(4) [OF assms True] by (intro evolve_subset) auto
next
  case False
  then show ?thesis using day_opened_keeps(4) [OF assms False] by (simp add: evolve_same)
qed

lemma trade_executed_evolves:
  assumes "ps_inv s" and "trade_executed dbg e s ev ctx = Some (st, s', ctx')"
  shows "trades_evolve s s'"
  using assms
proof (cases rule: trade_executed_cases)
  case rejected
  then show ?thesis using grown_trades by (intro evolve_same) blast
next
  case (booked s3 acct inst pos bruto custos)
  have t: "trades s3 = trades s" using grown_trades [OF booked(1)] by simp
  have s3: "ps_inv s3" by (rule grown_inv [OF booked(1)])
  obtain m where m: "trade_list (trades s') = trade_list (trades s) @ [executed_row e acct inst m]"
    using book_trade_spec(4) [OF s3 booked(19,2-11)] t by auto
  have "tex_trade_id e \<notin> set (trade_rows s3)" using fresh_trade(1) [OF s3 booked(10,11)] .
  then have "tex_trade_id e \<notin> row_id ` set (trade_list (trades s))"
    using s3 t by (auto simp: trade_rows_def trade_list_def trade_row_def in_set_conv_nth ps_inv_def tables_ok_def trades_shape_def Let_def)
  then show ?thesis unfolding trades_evolve_def m using row_follows_refl booked(12) by (auto simp: executed_row_def)
qed

lemma trade_allocated_evolves:
  assumes "ps_inv s" and "trade_allocated dbg e s ctx = Some (st, s', ctx')"
  shows "trades_evolve s s'"
  using assms
proof (cases rule: trade_allocated_cases)
  case rejected
  then show ?thesis using grown_trades by (intro evolve_same) blast
next
  case (confirmed s2 t)
  have t: "trades s2 = trades s" using grown_trades [OF confirmed(1)] by simp
  have x: "row_state (trade_list (trades s) ! t) = TsExecuted" using confirmed(2,4) by (simp add: trade_list_nth trade_row_def)
  show ?thesis
    by (rule evolve_update [OF _ confirmed(2) allocated_row(2) [OF x]])
      (use set_trade_state_list [OF grown_inv [OF confirmed(1)], of t TsAllocated] confirmed(2,7) t in simp)
next
  case (moved s4 s5 t de para pd pp)
  have g: "ps_inv s4" "trades s4 = trades s" using moved(1) grown_trades [OF moved(1)] by (simp_all add: grown_def)
  have t4: "t < tr_count (trades s4)" using moved(2) g(2) by simp
  note spec = move_trade_spec [OF g(1) moved(19,6-10,11-16,17) t4]
  have x: "row_state (trade_list (trades s) ! t) = TsExecuted" using moved(2,4) by (simp add: trade_list_nth trade_row_def)
  have l5: "trade_list (trades s5) = (trade_list (trades s))[t := (trade_list (trades s) ! t)\<lparr>row_account := para\<rparr>]"
    "t < tr_count (trades s5)" "t < length (trade_list (trades s))" using spec(7,8) g(2) t4 by (simp_all add: trade_list_def)
  consider "s' = s5" | "s' = set_trade_state s5 t TsAllocated"
    using moved(21) by (auto simp: rv_check_def ret_def split: if_splits)
  then show ?thesis
  proof cases
    case 1
    show ?thesis by (rule evolve_update [OF _ moved(2) allocated_row(3) [OF x]]) (use l5(1) 1 in simp)
  next
    case 2
    show ?thesis
      by (rule evolve_update [OF _ moved(2) allocated_row(1) [OF x]])
        (use l5 2 set_trade_state_list [OF spec(1) l5(2), of TsAllocated] in simp)
  qed
qed

lemma batch_netted_evolves:
  assumes "ps_inv s" and "batch_netted e s ctx = Some (st, s', ctx')"
  shows "trades_evolve s s'"
  using assms
proof (cases rule: batch_netted_cases)
  case (rejected s1)
  then show ?thesis using grown_trades [OF rejected(2)] by (intro evolve_same) auto
next
  case (netted s1 acct sts n)
  obtain sts' where "(trades s)\<lparr>tr_state := sts\<rparr> = (trades s)\<lparr>tr_state := sts'\<rparr>"
    "\<forall>j. (sts' ! j, tr_state (trades s) ! j) \<in> {(b, a). trade_step a TgNet b}\<^sup>*"
    using advance_loop_fields [OF netted(6)] by blast
  moreover have "trades s' = (trades s)\<lparr>tr_state := sts\<rparr>" using netted(10) by auto
  ultimately show ?thesis by (intro evolve_states) simp_all
qed

lemma trade_settled_evolves:
  assumes "ps_inv s" and "trade_settled dbg e s ev ctx = Some (st, s', ctx')"
  shows "trades_evolve s s'"
  using assms
proof (cases rule: trade_settled_cases)
  case rejected
  then show ?thesis using grown_trades by (intro evolve_same) blast
next
  case (settled s2 s3 acct inst pos g p sts n)
  obtain sts' where "(trades s)\<lparr>tr_state := sts\<rparr> = (trades s)\<lparr>tr_state := sts'\<rparr>"
    "\<forall>j. (sts' ! j, tr_state (trades s) ! j) \<in> {(b, a). trade_step a g b}\<^sup>*"
    using advance_loop_fields [OF settled(13)] by blast
  moreover have "trades s' = (trades s)\<lparr>tr_state := sts\<rparr>" using settled(15) by simp
  ultimately show ?thesis by (intro evolve_states) simp_all
qed

lemma other_handlers_evolve:
  assumes "ps_inv s"
  shows "corporate_action dbg rtl ce s ev ctx = Some (st, s', ctx') \<Longrightarrow> trades_evolve s s'"
    and "dividend_paid de s ctx = Some (st, s', ctx') \<Longrightarrow> trades_evolve s s'"
    and "closing_price_set pe s ctx = Some (st, s', ctx') \<Longrightarrow> trades_evolve s s'"
    and "eod_marked ee s ctx = Some (st, s', ctx') \<Longrightarrow> trades_evolve s s'"
proof -
  show "trades_evolve s s'" if "corporate_action dbg rtl ce s ev ctx = Some (st, s', ctx')"
    by (rule evolve_same [OF corporate_action_inv(4) [OF assms that]])
  show "trades_evolve s s'" if "dividend_paid de s ctx = Some (st, s', ctx')"
    by (rule evolve_same [OF dividend_paid_inv(5) [OF assms that]])
  show "trades_evolve s s'" if "closing_price_set pe s ctx = Some (st, s', ctx')"
    by (rule evolve_same [OF closing_price_inv(5) [OF assms that]])
  show "trades_evolve s s'" if "eod_marked ee s ctx = Some (st, s', ctx')"
    using eod_marked_frame(1) [OF that] by (auto intro: evolve_same)
qed

lemmas handler_evolves = day_opened_evolves trade_executed_evolves trade_allocated_evolves batch_netted_evolves
  trade_settled_evolves other_handlers_evolve

lemma dispatch_evolves:
  assumes "ps_inv s" and "dispatch dbg rtl cd s ev ctx = Some (st, s', ctx')"
  shows "trades_evolve s s'"
  using assms(2)
proof (cases rule: dispatch_cases)
  case refused
  then show ?thesis by (simp add: evolve_same)
next
  case reconciled
  then show ?thesis by (simp add: evolve_same custody_reconciled_frame)
qed (erule handler_evolves [OF assms(1)])+

section \<open>What the handlers do with their context\<close>

text \<open>
  A handler hands its context to \<^verbatim>\<open>ret\<close>, to the check of an invariant and to the publication of
  a position, and \<^verbatim>\<open>DayOpened\<close> adds to one counter of it; nothing else.  A property of a function
  from contexts to results that holds of these four holds of every event.
\<close>

locale context_property =
  fixes P :: "(ApplyContext \<Rightarrow> HandlerResult) \<Rightarrow> bool" and ev :: EventView
  assumes no_result: "P (\<lambda>c. None)"
    and ret: "P (ret st s)"
    and publish: "P (\<lambda>c. publish_ret s c ev pos)"
    and closed: "P (\<lambda>c. ret st s (c\<lparr>cx_metrics := map_option (\<lambda>m. m\<lparr>trades_closed := trades_closed m + n\<rparr>) (cx_metrics c)\<rparr>))"
begin

lemma if_rule: "P H \<Longrightarrow> P K \<Longrightarrow> P (\<lambda>c. if b then H c else K c)"
  by (cases b) simp_all

lemma check_rule: "P K \<Longrightarrow> P (\<lambda>c. rv_check dbg cond s c (K c))"
  using no_result ret by (cases cond; cases dbg) (simp_all add: rv_check_def)

lemma bind_rule: "(\<And>x. P (K x)) \<Longrightarrow> P (\<lambda>c. m \<bind> (\<lambda>x. K x c))"
  using no_result by (cases m) simp_all

lemma prod_rule: "(\<And>x y. P (K x y)) \<Longrightarrow> P (\<lambda>c. case p of (x, y) \<Rightarrow> K x y c)"
  by (cases p) simp

lemma sum_rule: "(\<And>x. P (H x)) \<Longrightarrow> (\<And>y. P (K y)) \<Longrightarrow> P (\<lambda>c. case v of Inl x \<Rightarrow> H x c | Inr y \<Rightarrow> K y c)"
  by (cases v) simp_all

lemma option_rule: "P H \<Longrightarrow> (\<And>y. P (K y)) \<Longrightarrow> P (\<lambda>c. case v of None \<Rightarrow> H c | Some y \<Rightarrow> K y c)"
  by (cases v) simp_all

lemmas rules = ret publish closed if_rule check_rule bind_rule prod_rule sum_rule option_rule

lemma handlers:
  "P (day_opened e1 s)" "P (trade_executed dbg e2 s ev)" "P (trade_allocated dbg e3 s)" "P (batch_netted e4 s)"
  "P (trade_settled dbg e5 s ev)" "P (corporate_action dbg rtl e6 s ev)" "P (dividend_paid e7 s)"
  "P (closing_price_set e8 s)" "P (eod_marked e10 s)"
  unfolding day_opened_def [abs_def] trade_executed_def [abs_def] trade_allocated_def [abs_def] batch_netted_def [abs_def]
    trade_settled_def [abs_def] corporate_action_def [abs_def] dividend_paid_def [abs_def] closing_price_set_def [abs_def]
    eod_marked_def [abs_def] Let_def
  by (intro rules)+

lemma dispatch: "P (dispatch dbg rtl cd s ev)"
  unfolding dispatch_def [abs_def] Let_def apply_day_opened_def apply_trade_executed_def apply_trade_allocated_def
    apply_batch_netted_def apply_trade_settled_def apply_corporate_action_def apply_dividend_paid_def apply_closing_price_def
    apply_custody_reconciled_def apply_eod_marked_def
  by (intro if_rule sum_rule handlers ret)

end

text \<open>
  Replay runs the handlers without an outbox and without metrics.  A handler is \<open>blind\<close> when the
  state it leaves is the same then; the status may differ only where publication ran out of room.
\<close>

definition blind :: "(ApplyContext \<Rightarrow> HandlerResult) \<Rightarrow> bool" where
  "blind H \<longleftrightarrow> (\<forall>c c0 st s c'. cx_outbox c0 = None \<longrightarrow> H c = Some (st, s, c') \<longrightarrow>
     (\<exists>st0 c0'. H c0 = Some (st0, s, c0') \<and> cx_outbox c0' = None \<and> (st0 = st \<or> st0 = kOk \<and> code st = ArenaExhausted)))"

lemma blind_publish: "blind (\<lambda>c. publish_ret s c ev pos)"
  unfolding blind_def
proof (intro allI impI)
  fix c c0 :: ApplyContext and st t c' assume c0: "cx_outbox c0 = None" and "publish_ret s c ev pos = Some (st, t, c')"
  then have "t = s" "publica_posicao s c ev pos = (st, c')"
    by (auto simp: publish_ret_def ret_def split: prod.splits)
  with publica_posicao_replay [OF c0] publica_posicao_fatal [of s c ev pos st c'] c0
  show "\<exists>st0 c0'. publish_ret s c0 ev pos = Some (st0, t, c0') \<and> cx_outbox c0' = None \<and> (st0 = st \<or> st0 = kOk \<and> code st = ArenaExhausted)"
    by (auto simp: publish_ret_def ret_def)
qed

interpretation blind: context_property blind ev for ev
  by unfold_locales (auto simp: blind_publish, auto simp: blind_def ret_def)

text \<open>The counters that the outcome of an event moves are untouched before the event ends.\<close>

definition counts_closed :: "(ApplyContext \<Rightarrow> HandlerResult) \<Rightarrow> bool" where
  "counts_closed H \<longleftrightarrow> (\<forall>c st s c'. H c = Some (st, s, c') \<longrightarrow>
     (\<exists>k. cx_metrics c' = map_option (\<lambda>m. m\<lparr>trades_closed := trades_closed m + k\<rparr>) (cx_metrics c)))"

lemma closes_none: "m = map_option (\<lambda>m. m\<lparr>trades_closed := trades_closed m + 0\<rparr>) m" for m :: "Metrics option"
  by (cases m) simp_all

interpretation counting: context_property counts_closed ev for ev
proof (unfold_locales, goal_cases)
  case 1
  then show ?case by (simp add: counts_closed_def)
next
  case (2 st s)
  have "cx_metrics c' = cx_metrics c" if "ret st s c = Some (st', t, c')" for c st' t c' using that by (simp add: ret_def)
  then show ?case using closes_none unfolding counts_closed_def by metis
next
  case (3 s pos)
  have "cx_metrics c' = cx_metrics c" if "publish_ret s c ev pos = Some (st, t, c')" for c st t c'
    using that by (auto simp: publish_ret_def publica_posicao_def ret_def Let_def split: option.splits prod.splits if_splits)
  then show ?case using closes_none unfolding counts_closed_def by metis
next
  case (4 st s n)
  then show ?case by (auto simp: counts_closed_def ret_def)
qed

text \<open>
  With room in the outbox for one output, an event runs exactly as in replay, and stages at most one
  output, under its own LSN.
\<close>

definition stages_one :: "EventView \<Rightarrow> (ApplyContext \<Rightarrow> HandlerResult) \<Rightarrow> bool" where
  "stages_one ev H \<longleftrightarrow> (\<forall>c ob c0 st s c'. cx_outbox c = Some ob \<longrightarrow> ob_inv ob \<longrightarrow> strict_room ob 32 \<longrightarrow> cx_outbox c0 = None \<longrightarrow>
     H c = Some (st, s, c') \<longrightarrow>
     (\<exists>c0'. H c0 = Some (st, s, c0') \<and> cx_outbox c0' = None)
     \<and> (\<exists>ob' out. cx_outbox c' = Some ob' \<and> ob_inv ob' \<and> ob_queue ob' = ob_queue ob @ out \<and> ob_frozen ob' = ob_frozen ob
          \<and> length out \<le> 1 \<and> (\<forall>x\<in>set out. fst x = ev_lsn ev)))"

lemma stages_oneI:
  assumes "\<And>c ob c0 st s c'. cx_outbox c = Some ob \<Longrightarrow> ob_inv ob \<Longrightarrow> strict_room ob 32 \<Longrightarrow> cx_outbox c0 = None \<Longrightarrow>
     H c = Some (st, s, c') \<Longrightarrow>
     (\<exists>c0'. H c0 = Some (st, s, c0') \<and> cx_outbox c0' = None)
     \<and> (\<exists>ob' out. cx_outbox c' = Some ob' \<and> ob_inv ob' \<and> ob_queue ob' = ob_queue ob @ out \<and> ob_frozen ob' = ob_frozen ob
          \<and> length out \<le> 1 \<and> (\<forall>x\<in>set out. fst x = ev_lsn ev))"
  shows "stages_one ev H"
  unfolding stages_one_def using assms by blast

interpretation staging: context_property "stages_one ev" ev for ev
proof (unfold_locales, goal_cases)
  case 1
  then show ?case by (simp add: stages_one_def)
next
  case (2 st s)
  then show ?case by (intro stages_oneI) (auto simp: ret_def intro!: exI [of _ "[]"])
next
  case (3 s pos)
  show ?case
  proof (rule stages_oneI)
    fix c ob st s' c' and c0 :: ApplyContext
    assume a: "cx_outbox c = Some ob" "ob_inv ob" "strict_room ob 32" "cx_outbox c0 = None" "publish_ret s c ev pos = Some (st, s', c')"
    obtain ob' p where p: "publica_posicao s c ev pos = (kOk, c\<lparr>cx_outbox := Some ob'\<rparr>)" "ob_inv ob'"
      "ob_queue ob' = ob_queue ob @ [(ev_lsn ev, ReadModelUpdate, p)]" "ob_frozen ob' = ob_frozen ob"
      using publica_posicao_ok [OF a(1-3)] by blast
    have "st = kOk" "s' = s" "cx_outbox c' = Some ob'" using a(5) p(1) by (auto simp: publish_ret_def ret_def)
    with p a(4) show "(\<exists>c0'. publish_ret s c0 ev pos = Some (st, s', c0') \<and> cx_outbox c0' = None)
     \<and> (\<exists>ob' out. cx_outbox c' = Some ob' \<and> ob_inv ob' \<and> ob_queue ob' = ob_queue ob @ out \<and> ob_frozen ob' = ob_frozen ob
          \<and> length out \<le> 1 \<and> (\<forall>x\<in>set out. fst x = ev_lsn ev))"
      by (simp add: publish_ret_def publica_posicao_replay ret_def)
  qed
next
  case (4 st s n)
  then show ?case by (intro stages_oneI) (auto simp: ret_def intro!: exI [of _ "[]"])
qed

text \<open>Where the payload lies in memory does not matter as long as it is aligned.\<close>

definition same_event :: "EventView \<Rightarrow> EventView \<Rightarrow> bool" where
  "same_event ev ev' \<longleftrightarrow> ev_lsn ev' = ev_lsn ev \<and> ev_tmpl ev' = ev_tmpl ev \<and> ev_len ev' = ev_len ev
     \<and> take (ev_len ev) (bs_bytes (ev_payload ev')) = take (ev_len ev) (bs_bytes (ev_payload ev)) \<and> 8 dvd bs_addr (ev_payload ev) \<and> 8 dvd bs_addr (ev_payload ev')"

lemma aligned_iff: "is_aligned p 8 \<longleftrightarrow> 8 dvd p" "is_aligned p 4 \<longleftrightarrow> 4 dvd p"
proof -
  have "p AND mask 3 = p mod 8" "p AND mask 2 = p mod 4"
    by (simp_all add: take_bit_eq_mask [symmetric] take_bit_eq_mod)
  then show "is_aligned p 8 \<longleftrightarrow> 8 dvd p" "is_aligned p 4 \<longleftrightarrow> 4 dvd p"
    by (simp_all add: is_aligned_def mask_eq_exp_minus_1 dvd_eq_mod_eq_0)
qed

lemma same_event_views:
  assumes "same_event ev ev'"
  shows "decode n ev' = decode n ev" and "view_group 24 8 m (subspan (ev_span ev') 16) = view_group 24 8 m (subspan (ev_span ev) 16)"
    and "publish_ret s c ev' pos = publish_ret s c ev pos"
proof -
  have al: "8 dvd bs_addr (ev_payload ev)" "8 dvd bs_addr (ev_payload ev')"
    "4 dvd bs_addr (ev_payload ev)" "4 dvd bs_addr (ev_payload ev')"
    using assms by (auto simp: same_event_def intro: dvd_trans [of 4 8])
  then have al16: "4 dvd bs_addr (ev_payload ev) + 16" "4 dvd bs_addr (ev_payload ev') + 16"
    "8 dvd bs_addr (ev_payload ev) + 16 + 8" "8 dvd bs_addr (ev_payload ev') + 16 + 8" by simp_all
  show "decode n ev' = decode n ev" using assms al by (auto simp: decode_def view_bytes_def ev_span_def same_event_def aligned_iff)
  show "view_group 24 8 m (subspan (ev_span ev') 16) = view_group 24 8 m (subspan (ev_span ev) 16)"
    using assms al16 by (simp add: view_group_def view_bytes_def subspan_def ev_span_def same_event_def aligned_iff Let_def)
  show "publish_ret s c ev' pos = publish_ret s c ev pos"
  proof -
    have l: "ev_lsn ev' = ev_lsn ev" using assms by (simp add: same_event_def)
    show ?thesis by (simp only: publish_ret_def publica_posicao_def l)
  qed
qed

lemma dispatch_same_event:
  assumes "same_event ev ev'"
  shows "dispatch dbg rtl cd s ev' ctx = dispatch dbg rtl cd s ev ctx"
proof -
  have t: "ev_tmpl ev' = ev_tmpl ev" using assms by (simp add: same_event_def)
  have h: "trade_executed dbg e2 s ev' ctx = trade_executed dbg e2 s ev ctx"
    "trade_settled dbg e5 s ev' ctx = trade_settled dbg e5 s ev ctx"
    "corporate_action dbg rtl e6 s ev' ctx = corporate_action dbg rtl e6 s ev ctx" for e2 e5 e6
    by (simp_all only: trade_executed_def trade_settled_def corporate_action_def same_event_views(3) [OF assms])
  show ?thesis
    by (simp only: dispatch_def Let_def apply_day_opened_def apply_trade_executed_def apply_trade_allocated_def
        apply_batch_netted_def apply_trade_settled_def apply_corporate_action_def apply_dividend_paid_def apply_closing_price_def
        apply_custody_reconciled_def apply_eod_marked_def same_event_views [OF assms] t h)
qed

lemma apply_event_same: "same_event ev ev' \<Longrightarrow> apply_event dbg rtl cd s ev' ctx = apply_event dbg rtl cd s ev ctx"
  by (simp add: apply_event_def dispatch_same_event) (simp add: same_event_def)

section \<open>The whole event\<close>

lemma lsn_frame:
  "ps_inv (s\<lparr>applied_lsn := l\<rparr>) = ps_inv s" "position_book (s\<lparr>applied_lsn := l\<rparr>) = position_book s"
  "cash_book (s\<lparr>applied_lsn := l\<rparr>) = cash_book s" "lists_ok (s\<lparr>applied_lsn := l\<rparr>) = lists_ok s" "i3_ok (s\<lparr>applied_lsn := l\<rparr>) = i3_ok s"
  by (simp_all add: ps_inv_def tables_ok_def indexes_ok_def refs_ok_def rows_defs position_book_def cash_book_def lists_ok_def
      i3_ok_def fun_eq_iff cong: option.case_cong)

lemma apply_event_Some:
  "apply_event dbg rtl cd s ev ctx = Some (st, s', ctx') \<longleftrightarrow>
     (\<exists>s1 c1. dispatch dbg rtl cd s ev ctx = Some (st, s1, c1) \<and> s' = s1\<lparr>applied_lsn := ev_lsn ev\<rparr>
        \<and> ctx' = c1\<lparr>cx_metrics := map_option (count_outcome st) (cx_metrics c1)\<rparr>)"
  by (auto simp: apply_event_def bind_eq_Some_conv)

lemma apply_event_keeps:
  assumes "ps_inv s" and "apply_event dbg rtl cd s ev ctx = Some (st, s', ctx')"
  shows "keeps s st s'" and "trades_evolve s s'" and "applied_lsn s' = ev_lsn ev"
proof -
  obtain s1 c1 where d: "dispatch dbg rtl cd s ev ctx = Some (st, s1, c1)" and s': "s' = s1\<lparr>applied_lsn := ev_lsn ev\<rparr>"
    using assms(2) by (auto simp: apply_event_Some)
  show "keeps s st s'" using dispatch_keeps [OF assms(1) d] by (simp add: keeps_def s' lsn_frame)
  show "trades_evolve s s'" using dispatch_evolves [OF assms(1) d] by (simp add: trades_evolve_def s')
  show "applied_lsn s' = ev_lsn ev" by (simp add: s')
qed

lemma apply_event_blind:
  assumes "apply_event dbg rtl cd s ev ctx = Some (st, s', ctx')" and "cx_outbox c0 = None"
  shows "\<exists>st0 c0'. apply_event dbg rtl cd s ev c0 = Some (st0, s', c0') \<and> cx_outbox c0' = None
           \<and> (st0 = st \<or> st0 = kOk \<and> code st = ArenaExhausted)"
proof -
  obtain s1 c1 where d: "dispatch dbg rtl cd s ev ctx = Some (st, s1, c1)" and s': "s' = s1\<lparr>applied_lsn := ev_lsn ev\<rparr>"
    using assms(1) by (auto simp: apply_event_Some)
  from blind.dispatch [of dbg rtl cd s ev, unfolded blind_def, rule_format, OF assms(2) d] obtain st0 c0' where
    b: "dispatch dbg rtl cd s ev c0 = Some (st0, s1, c0')" "cx_outbox c0' = None" "st0 = st \<or> st0 = kOk \<and> code st = ArenaExhausted"
    by blast
  then show ?thesis using s' by (auto simp: apply_event_def)
qed

text \<open>The counters of the outcome: one of them moves, by one.\<close>

lemma apply_event_metrics:
  assumes "apply_event dbg rtl cd s ev ctx = Some (st, s', ctx')" and "cx_metrics ctx = Some m"
  shows "\<exists>k. cx_metrics ctx' = Some (count_outcome st (m\<lparr>trades_closed := trades_closed m + k\<rparr>))"
proof -
  obtain s1 c1 where d: "dispatch dbg rtl cd s ev ctx = Some (st, s1, c1)"
    and c: "ctx' = c1\<lparr>cx_metrics := map_option (count_outcome st) (cx_metrics c1)\<rparr>" using assms(1) by (auto simp: apply_event_Some)
  from counting.dispatch [of dbg rtl cd s ev] d obtain k where
    "cx_metrics c1 = map_option (\<lambda>m. m\<lparr>trades_closed := trades_closed m + k\<rparr>) (cx_metrics ctx)"
    unfolding counts_closed_def by blast
  then show ?thesis using c assms(2) by (intro exI [of _ k]) simp
qed

end
