(* ===== verification/RV_Journal.thy ===== *)
theory RV_Journal
  imports RV_Bytes RV_Ids
begin

text \<open>
  \<^verbatim>\<open>src/core/journal.hpp\<close>: the interface of the log, and \<^verbatim>\<open>src/core/testing/memory_journal.hpp\<close>, the
  journal in memory.

  The C++ concept \<^verbatim>\<open>Journal\<close> is a list of operations, here a record of functions on a journal of
  any type; what its comments promise of them is the locale \<open>journal\<close>: an append that succeeds adds
  one record under the next LSN and hands back its bytes, aligned; one that fails has no effect; the
  durable LSN never decreases and never passes the last one (I9).
\<close>

section \<open>The interface\<close>

record Appended =
  ap_lsn :: Lsn
  ap_payload :: ByteSpan
  ap_len :: nat

record 'j JournalOps =
  jo_append :: "'j \<Rightarrow> u16 \<Rightarrow> ByteSpan \<Rightarrow> u64 \<Rightarrow> Appended Result \<times> 'j"
  jo_maybe_submit :: "'j \<Rightarrow> u64 \<Rightarrow> Status \<times> 'j"
  jo_reap :: "'j \<Rightarrow> Status \<times> 'j"
  jo_durable_lsn :: "'j \<Rightarrow> Lsn"
  jo_last_lsn :: "'j \<Rightarrow> Lsn"
  jo_halted :: "'j \<Rightarrow> bool"

text \<open>What a log holds, whatever its representation: one entry per event that arrived.\<close>

record LogRecord =
  lr_lsn :: Lsn
  lr_ts_ns :: u64
  lr_tmpl :: u16
  lr_bytes :: "u8 list"

locale journal =
  fixes ops :: "'j JournalOps"
    and inv :: "'j \<Rightarrow> bool"
    and log :: "'j \<Rightarrow> LogRecord list"
  assumes append_ok: "inv j \<Longrightarrow> length (bs_bytes b) < 65536 \<Longrightarrow> unat (jo_last_lsn ops j) + 1 < 2 ^ 64 \<Longrightarrow>
        jo_append ops j tmpl b ts = (Inr a, j') \<Longrightarrow>
        inv j' \<and> ap_lsn a = lsn_next (jo_last_lsn ops j) \<and> jo_last_lsn ops j' = ap_lsn a
        \<and> jo_durable_lsn ops j' = jo_durable_lsn ops j \<and> bs_bytes (ap_payload a) = bs_bytes b \<and> 8 dvd bs_addr (ap_payload a)
        \<and> log j' = log j @ [\<lparr>lr_lsn = ap_lsn a, lr_ts_ns = ts, lr_tmpl = tmpl, lr_bytes = bs_bytes b\<rparr>]"
    and append_fail: "inv j \<Longrightarrow> jo_append ops j tmpl b ts = (Inl st, j') \<Longrightarrow>
        inv j' \<and> log j' = log j \<and> jo_last_lsn ops j' = jo_last_lsn ops j \<and> jo_durable_lsn ops j' = jo_durable_lsn ops j"
    and submit_keeps: "inv j \<Longrightarrow> jo_maybe_submit ops j now = (st, j') \<Longrightarrow>
        inv j' \<and> log j' = log j \<and> jo_last_lsn ops j' = jo_last_lsn ops j \<and> jo_durable_lsn ops j \<le> jo_durable_lsn ops j'"
    and reap_keeps: "inv j \<Longrightarrow> jo_reap ops j = (st, j') \<Longrightarrow>
        inv j' \<and> log j' = log j \<and> jo_last_lsn ops j' = jo_last_lsn ops j \<and> jo_durable_lsn ops j \<le> jo_durable_lsn ops j'"
    and durable_last: "inv j \<Longrightarrow> jo_durable_lsn ops j \<le> jo_last_lsn ops j"

section \<open>The journal in memory\<close>

record Registro =
  rr_lsn :: Lsn
  rr_ts_ns :: u64
  rr_tmpl :: u16
  rr_len :: nat
  rr_offset :: nat

text \<open>\<open>mj_base\<close> is the address the allocator gave to \<^verbatim>\<open>buf_\<close>.\<close>

record MemoryJournal =
  mj_base :: nat
  mj_buf :: "u8 list"
  mj_registros :: "Registro list"
  mj_usado :: nat
  mj_last :: Lsn
  mj_durable :: Lsn
  mj_auto_duravel :: bool
  mj_cheio :: bool
  mj_parado :: bool

definition mj_new :: "nat \<Rightarrow> nat \<Rightarrow> MemoryJournal" where
  "mj_new base bytes = \<lparr>mj_base = base, mj_buf = replicate bytes 0, mj_registros = [], mj_usado = 0, mj_last = 0, mj_durable = 0,
     mj_auto_duravel = True, mj_cheio = False, mj_parado = False\<rparr>"

text \<open>\<^verbatim>\<open>(usado + 7) & ~7\<close>.\<close>

definition align8 :: "nat \<Rightarrow> nat" where
  "align8 n = (n + 7) div 8 * 8"

definition mj_append :: "MemoryJournal \<Rightarrow> u16 \<Rightarrow> ByteSpan \<Rightarrow> u64 \<Rightarrow> Appended Result \<times> MemoryJournal" where
  "mj_append j tmpl payload ts_ns =
     (if mj_parado j then (Inl (fail IoError 0), j)
      else if mj_cheio j then (Inl (fail WalFull 0), j)
      else let len = length (bs_bytes payload) mod 65536; off = align8 (mj_usado j) in
      if length (mj_buf j) < off + len then (Inl (fail WalFull 0), j)
      else let buf = take off (mj_buf j) @ take len (bs_bytes payload) @ drop (off + len) (mj_buf j);
               l = lsn_next (mj_last j) in
        (Inr \<lparr>ap_lsn = l, ap_payload = \<lparr>bs_addr = mj_base j + off, bs_bytes = take len (drop off buf)\<rparr>, ap_len = len\<rparr>,
         j\<lparr>mj_buf := buf, mj_usado := off + len, mj_last := l,
           mj_registros := mj_registros j @ [\<lparr>rr_lsn = l, rr_ts_ns = ts_ns, rr_tmpl = tmpl, rr_len = len,
                                             rr_offset = off mod 4294967296\<rparr>]\<rparr>))"

definition mj_maybe_submit :: "MemoryJournal \<Rightarrow> u64 \<Rightarrow> Status \<times> MemoryJournal" where
  "mj_maybe_submit j now = (kOk, j)"

definition mj_reap :: "MemoryJournal \<Rightarrow> Status \<times> MemoryJournal" where
  "mj_reap j = (kOk, if mj_auto_duravel j then j\<lparr>mj_durable := mj_last j\<rparr> else j)"

definition mj_payload_of :: "MemoryJournal \<Rightarrow> Registro \<Rightarrow> u8 list" where
  "mj_payload_of j r = take (rr_len r) (drop (rr_offset r) (mj_buf j))"

definition memory_ops :: "MemoryJournal JournalOps" where
  "memory_ops = \<lparr>jo_append = mj_append, jo_maybe_submit = mj_maybe_submit, jo_reap = mj_reap,
                 jo_durable_lsn = mj_durable, jo_last_lsn = mj_last, jo_halted = mj_parado\<rparr>"

section \<open>The journal in memory keeps the promises\<close>

definition mj_log :: "MemoryJournal \<Rightarrow> LogRecord list" where
  "mj_log j = map (\<lambda>r. \<lparr>lr_lsn = rr_lsn r, lr_ts_ns = rr_ts_ns r, lr_tmpl = rr_tmpl r, lr_bytes = mj_payload_of j r\<rparr>) (mj_registros j)"

definition mj_inv :: "MemoryJournal \<Rightarrow> bool" where
  "mj_inv j \<longleftrightarrow> 8 dvd mj_base j \<and> mj_usado j \<le> length (mj_buf j) \<and> length (mj_buf j) < 4294967296 \<and> mj_durable j \<le> mj_last j
     \<and> (\<forall>r\<in>set (mj_registros j). rr_offset r + rr_len r \<le> mj_usado j)"

lemma align8_props: "n \<le> align8 n" "8 dvd align8 n"
  by (simp_all add: align8_def)

lemma lsn_next_mono: "unat l + 1 < 2 ^ 64 \<Longrightarrow> l \<le> lsn_next l \<and> unat (lsn_next l) = unat l + 1"
  by (simp add: lsn_next_def word_le_nat_alt unat_word_ariths)

interpretation mem: journal memory_ops mj_inv mj_log
proof (unfold_locales, goal_cases)
  case (1 j b tmpl ts a j')
  define off where "off = align8 (mj_usado j)"
  define len where "len = length (bs_bytes b)"
  define buf where "buf = take off (mj_buf j) @ bs_bytes b @ drop (off + len) (mj_buf j)"
  have lm: "length (bs_bytes b) mod 65536 = len" "take len (bs_bytes b) = bs_bytes b" using 1(2) by (simp_all add: len_def)
  from 1(4) have fit: "off + len \<le> length (mj_buf j)"
    and a: "a = \<lparr>ap_lsn = lsn_next (mj_last j), ap_payload = \<lparr>bs_addr = mj_base j + off, bs_bytes = take len (drop off buf)\<rparr>, ap_len = len\<rparr>"
    and j': "j' = j\<lparr>mj_buf := buf, mj_usado := off + len, mj_last := lsn_next (mj_last j),
           mj_registros := mj_registros j @ [\<lparr>rr_lsn = lsn_next (mj_last j), rr_ts_ns = ts, rr_tmpl = tmpl, rr_len = len,
                                             rr_offset = off mod 4294967296\<rparr>]\<rparr>"
    by (auto simp: memory_ops_def mj_append_def Let_def lm off_def [symmetric] buf_def split: if_splits)
  have off: "mj_usado j \<le> off" "8 dvd off" "off mod 4294967296 = off"
    using align8_props [of "mj_usado j"] fit 1(1) by (auto simp: off_def [symmetric] mj_inv_def)
  have len_buf: "length buf = length (mj_buf j)" using fit by (simp add: buf_def len_def)
  have new: "take len (drop off buf) = bs_bytes b" using fit by (simp add: buf_def len_def)
  have old: "take n (drop k buf) = take n (drop k (mj_buf j))" if "k + n \<le> mj_usado j" for k n
  proof -
    have "take n (drop k buf) = drop k (take (k + n) buf)" by (simp add: drop_take)
    also have "take (k + n) buf = take (k + n) (mj_buf j)" using that off fit by (simp add: buf_def)
    finally show ?thesis by (simp add: drop_take)
  qed
  have pay: "mj_payload_of j' r = mj_payload_of j r" if "r \<in> set (mj_registros j)" for r
    using that 1(1) old by (auto simp: mj_payload_of_def j' mj_inv_def)
  have nx: "mj_last j \<le> lsn_next (mj_last j)" using lsn_next_mono [of "mj_last j"] 1(3) by (simp add: memory_ops_def)
  have regs: "\<forall>r\<in>set (mj_registros j'). rr_offset r + rr_len r \<le> mj_usado j'"
    using 1(1) off by (auto simp: mj_inv_def j')
  have "mj_inv j'" using 1(1) fit len_buf off nx regs unfolding mj_inv_def by (auto simp: j')
  moreover have "mj_log j' = mj_log j @ [\<lparr>lr_lsn = ap_lsn a, lr_ts_ns = ts, lr_tmpl = tmpl, lr_bytes = bs_bytes b\<rparr>]"
    using pay new off(3) by (simp add: mj_log_def j' a) (simp add: mj_payload_of_def)
  ultimately show ?case using 1(1) off new by (auto simp: memory_ops_def a j' mj_inv_def)
next
  case (2 j tmpl b ts st j')
  then have "j' = j" by (auto simp: memory_ops_def mj_append_def Let_def split: if_splits)
  with 2(1) show ?case by simp
next
  case (3 j now st j')
  then show ?case by (simp add: memory_ops_def mj_maybe_submit_def)
next
  case (4 j st j')
  then show ?case
    by (cases "mj_auto_duravel j") (auto simp: memory_ops_def mj_reap_def mj_inv_def mj_log_def mj_payload_of_def)
next
  case (5 j)
  then show ?case by (simp add: memory_ops_def mj_inv_def)
qed

lemma mj_new_inv: "8 dvd base \<Longrightarrow> n < 4294967296 \<Longrightarrow> mj_inv (mj_new base n) \<and> mj_log (mj_new base n) = []"
  by (simp add: mj_inv_def mj_new_def mj_log_def)

end
