(* ===== verification/RV_Partition.thy ===== *)
theory RV_Partition
  imports RV_Apply RV_Spsc_Ring RV_Journal
begin

text \<open>
  \<^verbatim>\<open>src/core/partition.hpp\<close>: the loop of a partition.  \<open>poll\<close> drains the ring, appends every event to
  the log before it applies it, stops at the first fatal outcome, and publishes what the log has made
  durable.

  The loop is proved once, for any journal that keeps the promises of the locale \<open>journal\<close>; the
  journal in memory is an instance.  What the loop promises: the state is the
  replay of the log, an event is consumed exactly when it was logged and applied, nothing leaves
  before its LSN is durable, and after a fatal outcome nothing moves again.
\<close>

section \<open>The loop\<close>

definition kMaxIngressPayload :: nat where "kMaxIngressPayload = 496"

record IngressFrame =
  if_arrival_ts_ns :: u64
  if_tmpl :: u16
  if_len :: nat
  if_payload :: "u8 list"

text \<open>The payload starts 16 bytes into a frame that is aligned to 64.\<close>

definition if_bytes :: "IngressFrame \<Rightarrow> ByteSpan" where
  "if_bytes f = \<lparr>bs_addr = 16, bs_bytes = take (if_len f) (if_payload f)\<rparr>"

record 'j Partition =
  pt_estado :: PartitionState
  pt_diario :: 'j
  pt_entrada :: "IngressFrame SpscRing"
  pt_saida :: Outbox
  pt_metricas :: Metrics
  pt_motivo :: Status
  pt_lsn_da_parada :: Lsn
  pt_publicados :: nat
  pt_parado :: bool

definition kBatch :: nat where "kBatch = 256"

definition kMaxOutputsPerEvent :: nat where "kMaxOutputsPerEvent = 4"

definition kMaxOutputBytesPerEvent :: nat where "kMaxOutputBytesPerEvent = 256"

definition parar :: "Status \<Rightarrow> Lsn \<Rightarrow> 'j Partition \<Rightarrow> 'j Partition" where
  "parar st lsn p =
     p\<lparr>pt_parado := True, pt_motivo := st, pt_lsn_da_parada := lsn,
       pt_metricas := (pt_metricas p)\<lparr>apply_fatal := apply_fatal (pt_metricas p) + 1\<rparr>,
       pt_saida := freeze (pt_saida p)\<rparr>"

definition publicar :: "'j JournalOps \<Rightarrow> 'j Partition \<Rightarrow> 'j Partition" where
  "publicar ops p =
     (let duravel = jo_durable_lsn ops (pt_diario p); n = ready (pt_saida p) duravel in
      if n = 0 then p
      else p\<lparr>pt_publicados := pt_publicados p + n,
             pt_metricas := (pt_metricas p)\<lparr>outbox_released := outbox_released (pt_metricas p) + n\<rparr>,
             pt_saida := ob_commit (pt_saida p) n\<rparr>)"

text \<open>
  The context of \<^verbatim>\<open>apply\<close> refers to the outbox and the metrics of the partition; \<open>with_context\<close>
  writes back what the call did to them.
\<close>

definition context_of :: "'j Partition \<Rightarrow> ApplyContext" where
  "context_of p = \<lparr>cx_outbox = Some (pt_saida p), cx_metrics = Some (pt_metricas p)\<rparr>"

definition with_context :: "'j Partition \<Rightarrow> ApplyContext \<Rightarrow> 'j Partition" where
  "with_context p c =
     p\<lparr>pt_saida := (case cx_outbox c of None \<Rightarrow> pt_saida p | Some ob \<Rightarrow> ob),
       pt_metricas := (case cx_metrics c of None \<Rightarrow> pt_metricas p | Some m \<Rightarrow> m)\<rparr>"

definition event_of :: "IngressFrame \<Rightarrow> Appended \<Rightarrow> EventView" where
  "event_of f a = \<lparr>ev_lsn = ap_lsn a, ev_ts_ns = if_arrival_ts_ns f, ev_payload = ap_payload a, ev_tmpl = if_tmpl f, ev_len = if_len f\<rparr>"

text \<open>The \<^verbatim>\<open>while\<close>: \<open>n\<close> rounds are left of the batch, \<open>k\<close> events were applied.\<close>

primrec poll_loop ::
    "bool \<Rightarrow> bool \<Rightarrow> Codec \<Rightarrow> 'j JournalOps \<Rightarrow> nat \<Rightarrow> nat \<Rightarrow> 'j Partition \<Rightarrow> (nat \<times> 'j Partition) option" where
  "poll_loop dbg rtl cd ops 0 k p = Some (k, p)"
| "poll_loop dbg rtl cd ops (Suc n) k p =
     (case rg_peek (pt_entrada p) of
        (None, r) \<Rightarrow> Some (k, p\<lparr>pt_entrada := r\<rparr>)
      | (Some f, r) \<Rightarrow>
          let p1 = p\<lparr>pt_entrada := r\<rparr> in
          if \<not> has_room (pt_saida p1) kMaxOutputsPerEvent kMaxOutputBytesPerEvent then
            Some (k, p1\<lparr>pt_metricas := (pt_metricas p1)\<lparr>outbox_full := outbox_full (pt_metricas p1) + 1\<rparr>\<rparr>)
          else case jo_append ops (pt_diario p1) (if_tmpl f) (if_bytes f) (if_arrival_ts_ns f) of
            (Inl _, j) \<Rightarrow> Some (k, p1\<lparr>pt_diario := j, pt_metricas := (pt_metricas p1)\<lparr>wal_full := wal_full (pt_metricas p1) + 1\<rparr>\<rparr>)
          | (Inr a, j) \<Rightarrow> do {
              let p2 = p1\<lparr>pt_diario := j\<rparr>;
              (st, s, c) \<leftarrow> apply_event dbg rtl cd (pt_estado p2) (event_of f a) (context_of p2);
              let p3 = with_context (p2\<lparr>pt_estado := s\<rparr>) c;
              if classify st = Fatal then Some (k, parar st (ap_lsn a) p3)
              else poll_loop dbg rtl cd ops n (k + 1) (p3\<lparr>pt_entrada := rg_pop (pt_entrada p3)\<rparr>)
            })"

definition poll :: "bool \<Rightarrow> bool \<Rightarrow> Codec \<Rightarrow> 'j JournalOps \<Rightarrow> u64 \<Rightarrow> 'j Partition \<Rightarrow> (nat \<times> 'j Partition) option" where
  "poll dbg rtl cd ops now_ns p =
     do {
       (aplicados, p1) \<leftarrow> (if pt_parado p then Some (0, p) else poll_loop dbg rtl cd ops kBatch 0 p);
       let p2 = p1\<lparr>pt_diario := snd (jo_maybe_submit ops (pt_diario p1) now_ns)\<rparr>;
       let p3 = p2\<lparr>pt_diario := snd (jo_reap ops (pt_diario p2))\<rparr>;
       Some (aplicados, publicar ops p3)
     }"

definition force_commit :: "'j JournalOps \<Rightarrow> u64 \<Rightarrow> 'j Partition \<Rightarrow> Status \<times> 'j Partition" where
  "force_commit ops now_ns p =
     (case jo_maybe_submit ops (pt_diario p) now_ns of (st, j) \<Rightarrow>
      (st, publicar ops (p\<lparr>pt_diario := snd (jo_reap ops j)\<rparr>)))"

definition pt_halted :: "'j JournalOps \<Rightarrow> 'j Partition \<Rightarrow> bool" where
  "pt_halted ops p \<longleftrightarrow> pt_parado p \<or> jo_halted ops (pt_diario p)"

section \<open>Replay of a log\<close>

text \<open>
  What recovery does with the records of the log: apply each one without an outbox, stop at a fatal
  outcome.  The bytes of a record lie at an aligned address of the file.
\<close>

definition no_outputs :: ApplyContext where
  "no_outputs = \<lparr>cx_outbox = None, cx_metrics = None\<rparr>"

definition event_of_record :: "LogRecord \<Rightarrow> EventView" where
  "event_of_record r = \<lparr>ev_lsn = lr_lsn r, ev_ts_ns = lr_ts_ns r, ev_payload = \<lparr>bs_addr = 0, bs_bytes = lr_bytes r\<rparr>,
     ev_tmpl = lr_tmpl r, ev_len = length (lr_bytes r)\<rparr>"

text \<open>The result also says whether the last record ended the replay.\<close>

primrec replay :: "bool \<Rightarrow> bool \<Rightarrow> Codec \<Rightarrow> PartitionState \<Rightarrow> LogRecord list \<Rightarrow> (bool \<times> PartitionState) option" where
  "replay dbg rtl cd s [] = Some (False, s)"
| "replay dbg rtl cd s (r # rs) =
     do {
       (st, s', _) \<leftarrow> apply_event dbg rtl cd s (event_of_record r) no_outputs;
       if classify st = Fatal then Some (True, s') else replay dbg rtl cd s' rs
     }"

lemma replay_append:
  "replay dbg rtl cd s rs = Some (False, s') \<Longrightarrow> replay dbg rtl cd s (rs @ ts) = replay dbg rtl cd s' ts"
proof (induction rs arbitrary: s)
  case Nil
  then show ?case by simp
next
  case (Cons r rs)
  then obtain st s1 c where a: "apply_event dbg rtl cd s (event_of_record r) no_outputs = Some (st, s1, c)"
    and "classify st \<noteq> Fatal" "replay dbg rtl cd s1 rs = Some (False, s')"
    by (auto simp: bind_eq_Some_conv split: if_splits)
  with Cons.IH show ?case by simp
qed

section \<open>One event\<close>

definition frame_ok :: "IngressFrame \<Rightarrow> bool" where
  "frame_ok f \<longleftrightarrow> if_len f \<le> length (if_payload f) \<and> if_len f \<le> kMaxIngressPayload"

definition record_of :: "Lsn \<Rightarrow> IngressFrame \<Rightarrow> LogRecord" where
  "record_of l f = \<lparr>lr_lsn = l, lr_ts_ns = if_arrival_ts_ns f, lr_tmpl = if_tmpl f, lr_bytes = take (if_len f) (if_payload f)\<rparr>"

primrec records_of :: "Lsn \<Rightarrow> IngressFrame list \<Rightarrow> LogRecord list" where
  "records_of l [] = []"
| "records_of l (f # fs) = record_of (lsn_next l) f # records_of (lsn_next l) fs"

text \<open>Applied from the log's buffer or from a file, an event is the same event.\<close>

lemma event_of_same:
  assumes "frame_ok f" and "bs_bytes (ap_payload a) = take (if_len f) (if_payload f)" and "8 dvd bs_addr (ap_payload a)"
  shows "same_event (event_of_record (record_of (ap_lsn a) f)) (event_of f a)"
  using assms by (simp add: same_event_def event_of_record_def record_of_def event_of_def frame_ok_def min_absorb2)

lemma poll_event:
  assumes "ob_inv (pt_saida p)" and "has_room (pt_saida p) kMaxOutputsPerEvent kMaxOutputBytesPerEvent"
    and "apply_event dbg rtl cd (pt_estado p) ev (context_of p) = Some (st, s, c)" and "same_event ev0 ev"
  shows "\<exists>c0. apply_event dbg rtl cd (pt_estado p) ev0 no_outputs = Some (st, s, c0)"
    and "\<exists>ob out. cx_outbox c = Some ob \<and> ob_inv ob \<and> ob_queue ob = ob_queue (pt_saida p) @ out
           \<and> ob_frozen ob = ob_frozen (pt_saida p) \<and> length out \<le> 1 \<and> (\<forall>x\<in>set out. fst x = ev_lsn ev)"
proof -
  have room: "strict_room (pt_saida p) 32"
    by (rule has_room_strict [OF assms(1,2)]) (simp_all add: kMaxOutputsPerEvent_def kMaxOutputBytesPerEvent_def)
  obtain s1 c1 where d: "dispatch dbg rtl cd (pt_estado p) ev (context_of p) = Some (st, s1, c1)"
    and s: "s = s1\<lparr>applied_lsn := ev_lsn ev\<rparr>" "c = c1\<lparr>cx_metrics := map_option (count_outcome st) (cx_metrics c1)\<rparr>"
    using assms(3) by (auto simp: apply_event_Some)
  have cx: "cx_outbox (context_of p) = Some (pt_saida p)" "cx_outbox no_outputs = None"
    by (simp_all add: context_of_def no_outputs_def)
  from staging.dispatch [of ev dbg rtl cd "pt_estado p", unfolded stages_one_def, rule_format, OF cx(1) assms(1) room cx(2) d]
  obtain c0 ob out where r: "dispatch dbg rtl cd (pt_estado p) ev no_outputs = Some (st, s1, c0)"
    and o: "cx_outbox c1 = Some ob" "ob_inv ob" "ob_queue ob = ob_queue (pt_saida p) @ out" "ob_frozen ob = ob_frozen (pt_saida p)"
      "length out \<le> 1" "\<forall>x\<in>set out. fst x = ev_lsn ev" by blast
  have l: "ev_lsn ev0 = ev_lsn ev" using assms(4) by (simp add: same_event_def)
  show "\<exists>c0. apply_event dbg rtl cd (pt_estado p) ev0 no_outputs = Some (st, s, c0)"
    using r s(1) l by (auto simp: apply_event_Some dispatch_same_event [OF assms(4), symmetric])
  show "\<exists>ob out. cx_outbox c = Some ob \<and> ob_inv ob \<and> ob_queue ob = ob_queue (pt_saida p) @ out
           \<and> ob_frozen ob = ob_frozen (pt_saida p) \<and> length out \<le> 1 \<and> (\<forall>x\<in>set out. fst x = ev_lsn ev)"
    using o s(2) by auto
qed

section \<open>The batch\<close>

definition pt_ok :: "('j \<Rightarrow> bool) \<Rightarrow> 'j Partition \<Rightarrow> bool" where
  "pt_ok jinv p \<longleftrightarrow> ps_inv (pt_estado p) \<and> ob_inv (pt_saida p) \<and> rg_inv (pt_entrada p) \<and> jinv (pt_diario p)
     \<and> list_all frame_ok (rg_items (pt_entrada p))"

text \<open>
  What a batch did: \<open>fs\<close> are the frames it consumed, \<open>gs\<close> the frames it logged (one more when it
  stopped), \<open>out\<close> the outputs it staged.
\<close>

definition batch ::
    "bool \<Rightarrow> bool \<Rightarrow> Codec \<Rightarrow> 'j JournalOps \<Rightarrow> ('j \<Rightarrow> LogRecord list) \<Rightarrow> IngressFrame list \<Rightarrow> IngressFrame list
     \<Rightarrow> (u64 \<times> OutKind \<times> u8 list) list \<Rightarrow> 'j Partition \<Rightarrow> 'j Partition \<Rightarrow> bool" where
  "batch dbg rtl cd ops jlog fs gs out p p' \<longleftrightarrow>
     rg_items (pt_entrada p) = fs @ rg_items (pt_entrada p')
     \<and> gs = (if pt_parado p' then fs @ [hd (rg_items (pt_entrada p'))] else fs)
     \<and> (pt_parado p' \<longrightarrow> rg_items (pt_entrada p') \<noteq> [])
     \<and> jlog (pt_diario p') = jlog (pt_diario p) @ records_of (jo_last_lsn ops (pt_diario p)) gs
     \<and> replay dbg rtl cd (pt_estado p) (records_of (jo_last_lsn ops (pt_diario p)) gs) = Some (pt_parado p', pt_estado p')
     \<and> unat (jo_last_lsn ops (pt_diario p')) = unat (jo_last_lsn ops (pt_diario p)) + length gs
     \<and> jo_durable_lsn ops (pt_diario p') = jo_durable_lsn ops (pt_diario p)
     \<and> ob_queue (pt_saida p') = ob_queue (pt_saida p) @ out
     \<and> (\<forall>x\<in>set out. jo_last_lsn ops (pt_diario p) < fst x \<and> fst x \<le> jo_last_lsn ops (pt_diario p'))
     \<and> ob_frozen (pt_saida p') = (pt_parado p' \<or> ob_frozen (pt_saida p)) \<and> pt_publicados p' = pt_publicados p"

lemma batch_none:
  assumes "pt_parado p' = False" and "rg_items (pt_entrada p') = rg_items (pt_entrada p)" and "jlog (pt_diario p') = jlog (pt_diario p)"
    and "jo_last_lsn ops (pt_diario p') = jo_last_lsn ops (pt_diario p)" and "jo_durable_lsn ops (pt_diario p') = jo_durable_lsn ops (pt_diario p)"
    and "pt_estado p' = pt_estado p" and "pt_saida p' = pt_saida p" and "pt_publicados p' = pt_publicados p"
  shows "batch dbg rtl cd ops jlog [] [] [] p p'"
  using assms by (simp add: batch_def)

lemma batch_step:
  assumes "batch dbg rtl cd ops jlog [f] [f] o1 p p1" and "batch dbg rtl cd ops jlog fs gs o2 p1 p2"
    and "pt_parado p1 = False" and "jo_last_lsn ops (pt_diario p1) = lsn_next (jo_last_lsn ops (pt_diario p))"
  shows "batch dbg rtl cd ops jlog (f # fs) (f # gs) (o1 @ o2) p p2"
proof -
  let ?l = "jo_last_lsn ops (pt_diario p)" and ?l1 = "jo_last_lsn ops (pt_diario p1)" and ?l2 = "jo_last_lsn ops (pt_diario p2)"
  have le: "?l \<le> ?l1" "?l1 \<le> ?l2" using assms(1,2) by (simp_all add: batch_def word_le_nat_alt)
  have r1: "replay dbg rtl cd (pt_estado p) (records_of ?l [f]) = Some (False, pt_estado p1)"
    using assms(1,3) by (simp add: batch_def)
  have "replay dbg rtl cd (pt_estado p) (records_of ?l (f # gs)) = replay dbg rtl cd (pt_estado p1) (records_of ?l1 gs)"
    using replay_append [OF r1, of "records_of ?l1 gs"] assms(4) by simp
  moreover have "\<forall>x\<in>set (o1 @ o2). ?l < fst x \<and> fst x \<le> ?l2"
    using assms(1,2) le unfolding batch_def by (auto intro: le_less_trans)
  ultimately show ?thesis using assms unfolding batch_def by auto
qed

context journal
begin

lemma poll_loop_batch:
  assumes "poll_loop dbg rtl cd ops n k p = Some (k', p')" and "pt_ok inv p" and "\<not> pt_parado p"
    and "unat (jo_last_lsn ops (pt_diario p)) + n < 2 ^ 64"
  shows "pt_ok inv p' \<and> (\<exists>fs gs out. batch dbg rtl cd ops log fs gs out p p' \<and> k' = k + length fs)"
  using assms
proof (induction n arbitrary: k p)
  case 0
  then have "p' = p" "k' = k" by simp_all
  then show ?case using 0 batch_none [of p p log ops dbg rtl cd] by (intro conjI exI [of _ "[]"]) simp_all
next
  case (Suc n)
  obtain r e where pk: "rg_peek (pt_entrada p) = (r, e)" by (cases "rg_peek (pt_entrada p)")
  have ok: "ps_inv (pt_estado p)" "ob_inv (pt_saida p)" "rg_inv (pt_entrada p)" "inv (pt_diario p)"
    "list_all frame_ok (rg_items (pt_entrada p))" using Suc.prems(2) by (simp_all add: pt_ok_def)
  note e = ring.peek_keeps [OF ok(3) pk] ring.peek_result [OF ok(3) pk]
  define p1 where "p1 = p\<lparr>pt_entrada := e\<rparr>"
  have p1: "pt_ok inv p1" using ok e by (simp add: pt_ok_def p1_def)
  show ?case
  proof (cases r)
    case None
    then have "p' = p1" "k' = k" using Suc.prems(1) pk by (simp_all add: p1_def)
    then show ?thesis using p1 e Suc.prems(3) batch_none [of p1 p log ops dbg rtl cd]
      by (intro conjI exI [of _ "[]"]) (simp_all add: p1_def)
  next
    case (Some f)
    have it: "rg_items (pt_entrada p) = f # tl (rg_items (pt_entrada p))" using e(2) Some by (auto split: list.splits)
    then have hd: "hd (rg_items (pt_entrada p)) = f" "rg_items (pt_entrada p) \<noteq> []" by (metis list.sel(1), metis list.distinct(1))
    from it have f: "frame_ok f" using ok(5) by (metis list.pred_inject(2))
    show ?thesis
    proof (cases "has_room (pt_saida p) kMaxOutputsPerEvent kMaxOutputBytesPerEvent")
      case False
      then have q: "p' = p1\<lparr>pt_metricas := (pt_metricas p1)\<lparr>outbox_full := outbox_full (pt_metricas p1) + 1\<rparr>\<rparr>" "k' = k"
        using Suc.prems(1) pk Some by (simp_all add: p1_def Let_def)
      then show ?thesis using p1 e Suc.prems(3) batch_none [of p' p log ops dbg rtl cd]
        by (intro conjI exI [of _ "[]"]) (simp_all add: pt_ok_def p1_def)
    next
      case room: True
      obtain ra j where ap: "jo_append ops (pt_diario p) (if_tmpl f) (if_bytes f) (if_arrival_ts_ns f) = (ra, j)"
        by (cases "jo_append ops (pt_diario p) (if_tmpl f) (if_bytes f) (if_arrival_ts_ns f)")
      show ?thesis
      proof (cases ra)
        case (Inl st)
        note af = append_fail [OF ok(4) ap [unfolded Inl]]
        have q: "p' = p1\<lparr>pt_diario := j, pt_metricas := (pt_metricas p1)\<lparr>wal_full := wal_full (pt_metricas p1) + 1\<rparr>\<rparr>" "k' = k"
          using Suc.prems(1) pk Some room ap Inl by (simp_all add: p1_def Let_def)
        then show ?thesis using p1 e af Suc.prems(3) batch_none [of p' p log ops dbg rtl cd]
          by (intro conjI exI [of _ "[]"]) (simp_all add: pt_ok_def p1_def)
      next
        case (Inr a)
        have small: "length (bs_bytes (if_bytes f)) < 65536" "unat (jo_last_lsn ops (pt_diario p)) + 1 < 2 ^ 64"
          using f Suc.prems(4) by (simp_all add: if_bytes_def frame_ok_def kMaxIngressPayload_def)
        note ao = append_ok [OF ok(4) small ap [unfolded Inr]]
        define p2 where "p2 = p1\<lparr>pt_diario := j\<rparr>"
        from Suc.prems(1) pk Some room ap Inr obtain st s c where
          ae: "apply_event dbg rtl cd (pt_estado p2) (event_of f a) (context_of p2) = Some (st, s, c)"
          and rest: "(if classify st = Fatal then Some (k, parar st (ap_lsn a) (with_context (p2\<lparr>pt_estado := s\<rparr>) c))
            else poll_loop dbg rtl cd ops n (k + 1) (with_context (p2\<lparr>pt_estado := s\<rparr>) c
                   \<lparr>pt_entrada := rg_pop (pt_entrada (with_context (p2\<lparr>pt_estado := s\<rparr>) c))\<rparr>)) = Some (k', p')"
          unfolding p2_def p1_def by (auto simp: Let_def bind_eq_Some_conv)
        have p2: "pt_saida p2 = pt_saida p" "pt_estado p2 = pt_estado p" "pt_entrada p2 = e" "pt_diario p2 = j"
          "pt_parado p2 = pt_parado p" "pt_publicados p2 = pt_publicados p" by (simp_all add: p2_def p1_def)
        have ev: "same_event (event_of_record (record_of (ap_lsn a) f)) (event_of f a)"
          using event_of_same [OF f, of a] ao by (simp add: if_bytes_def)
        have lsn: "ev_lsn (event_of f a) = ap_lsn a" by (simp add: event_of_def)
        have inv2: "ob_inv (pt_saida p2)" "has_room (pt_saida p2) kMaxOutputsPerEvent kMaxOutputBytesPerEvent"
          using ok(2) room p2(1) by simp_all
        note pe = poll_event [OF inv2 ae ev, unfolded lsn]
        obtain ob out where o: "cx_outbox c = Some ob" "ob_inv ob" "ob_queue ob = ob_queue (pt_saida p) @ out"
          "ob_frozen ob = ob_frozen (pt_saida p)" "length out \<le> 1" "\<forall>x\<in>set out. fst x = ap_lsn a"
          using pe(2) p2(1) by auto
        have s: "ps_inv s" using apply_event_keeps(1) [OF _ ae] ok(1) p2(2) by (simp add: keeps_def)
        define p3 where "p3 = with_context (p2\<lparr>pt_estado := s\<rparr>) c"
        have p3: "pt_saida p3 = ob" "pt_estado p3 = s" "pt_entrada p3 = e" "pt_diario p3 = j" "pt_parado p3 = False"
          "pt_publicados p3 = pt_publicados p" using o(1) p2 Suc.prems(3) by (simp_all add: p3_def with_context_def)
        have nx: "unat (ap_lsn a) = unat (jo_last_lsn ops (pt_diario p)) + 1" "jo_last_lsn ops (pt_diario p) < ap_lsn a"
          using ao lsn_next_mono [OF small(2)] by (simp_all add: word_less_nat_alt)
        have rec: "log j = log (pt_diario p) @ records_of (jo_last_lsn ops (pt_diario p)) [f]"
          "records_of (jo_last_lsn ops (pt_diario p)) [f] = [record_of (ap_lsn a) f]"
          using ao by (simp_all add: record_of_def if_bytes_def)
        show ?thesis
        proof (cases "classify st = Fatal")
          case True
          then have q: "p' = parar st (ap_lsn a) p3" "k' = k" using rest by (simp_all add: p3_def)
          have "pt_ok inv p'" using s o(2) e ao ok(5) by (simp add: q(1) pt_ok_def parar_def p3 freeze_inv)
          moreover have "replay dbg rtl cd (pt_estado p) [record_of (ap_lsn a) f] = Some (True, s)"
            using pe(1) p2(2) True by auto
          then have "batch dbg rtl cd ops log [] [f] out p p'"
            unfolding batch_def using e it rec ao nx o hd
            by (simp add: q(1) parar_def p3 freeze_inv) (simp add: freeze_def)
          ultimately show ?thesis using q(2) by auto
        next
          case False
          define p4 where "p4 = p3\<lparr>pt_entrada := rg_pop (pt_entrada p3)\<rparr>"
          have pop: "rg_inv (rg_pop e)" "rg_items (rg_pop e) = tl (rg_items (pt_entrada p))"
            using ring.pop_items [OF ok(3) pk [unfolded Some]] by simp_all
          have fr: "list_all frame_ok (tl (rg_items (pt_entrada p)))" using ok(5) it by (metis list.pred_inject(2))
          have p4: "pt_ok inv p4" using s o(2) ao pop fr by (simp add: pt_ok_def p4_def p3)
          have "replay dbg rtl cd (pt_estado p) [record_of (ap_lsn a) f] = Some (False, s)" using pe(1) p2(2) False by auto
          then have b1: "batch dbg rtl cd ops log [f] [f] out p p4"
            unfolding batch_def using it rec ao nx o pop(2) by (simp add: p4_def p3)
          have "poll_loop dbg rtl cd ops n (k + 1) p4 = Some (k', p')" using rest False by (simp add: p4_def p3_def)
          from Suc.IH [OF this p4] Suc.prems(4) nx ao
          obtain fs gs out2 where "pt_ok inv p'" "batch dbg rtl cd ops log fs gs out2 p4 p'" "k' = k + 1 + length fs"
            by (auto simp: p4_def p3)
          moreover have "jo_last_lsn ops (pt_diario p4) = lsn_next (jo_last_lsn ops (pt_diario p))" "pt_parado p4 = False"
            using ao by (simp_all add: p4_def p3)
          ultimately show ?thesis using batch_step [OF b1] by fastforce
        qed
      qed
    qed
  qed
qed

text \<open>Publication releases exactly the front of the queue that is durable, and nothing when frozen (I10).\<close>

lemma publicar_spec:
  assumes "ob_inv (pt_saida p)" and "p' = publicar ops p"
  shows "ob_inv (pt_saida p')" and "pt_estado p' = pt_estado p" and "pt_diario p' = pt_diario p" and "pt_entrada p' = pt_entrada p"
    and "pt_parado p' = pt_parado p" and "ob_frozen (pt_saida p') = ob_frozen (pt_saida p)"
    and "\<exists>rel. ob_queue (pt_saida p) = rel @ ob_queue (pt_saida p') \<and> pt_publicados p' = pt_publicados p + length rel
           \<and> (\<forall>x\<in>set rel. fst x \<le> jo_durable_lsn ops (pt_diario p))
           \<and> (ob_frozen (pt_saida p) \<longrightarrow> rel = [])
           \<and> (\<not> ob_frozen (pt_saida p) \<longrightarrow> ob_queue (pt_saida p') \<noteq> [] \<longrightarrow> jo_durable_lsn ops (pt_diario p) < fst (hd (ob_queue (pt_saida p'))))"
proof -
  let ?d = "jo_durable_lsn ops (pt_diario p)" and ?ob = "pt_saida p"
  let ?n = "ready ?ob ?d"
  have q: "ob_queue (pt_saida p') = drop ?n (ob_queue ?ob)" "pt_publicados p' = pt_publicados p + ?n"
    "ob_inv (pt_saida p')" "ob_frozen (pt_saida p') = ob_frozen ?ob"
    using assms gate.drp_pend [OF assms(1)] gate.drp_inv [OF assms(1)] gate.drp_closed by (auto simp: publicar_def Let_def)
  show "pt_estado p' = pt_estado p" "pt_diario p' = pt_diario p" "pt_entrada p' = pt_entrada p" "pt_parado p' = pt_parado p"
    using assms(2) by (auto simp: publicar_def Let_def)
  show "ob_inv (pt_saida p')" "ob_frozen (pt_saida p') = ob_frozen (pt_saida p)" by (rule q)+
  have len: "length (gate.released ?ob ?d) = ?n"
  proof (cases "ob_frozen ?ob")
    case True
    then show ?thesis by (simp add: gate.released_def gate.rdy_closed)
  next
    case False
    then show ?thesis by (simp add: gate.released_def gate.rdy_open [OF assms(1)] length_takeWhile_le min_absorb2)
  qed
  show "\<exists>rel. ob_queue (pt_saida p) = rel @ ob_queue (pt_saida p') \<and> pt_publicados p' = pt_publicados p + length rel
           \<and> (\<forall>x\<in>set rel. fst x \<le> ?d) \<and> (ob_frozen (pt_saida p) \<longrightarrow> rel = [])
           \<and> (\<not> ob_frozen (pt_saida p) \<longrightarrow> ob_queue (pt_saida p') \<noteq> [] \<longrightarrow> ?d < fst (hd (ob_queue (pt_saida p'))))"
  proof (intro exI [of _ "gate.released ?ob ?d"] conjI impI)
    show "ob_queue ?ob = gate.released ?ob ?d @ ob_queue (pt_saida p')" using q(1) by (simp add: gate.released_def)
    show "\<forall>x\<in>set (gate.released ?ob ?d). fst x \<le> ?d" using gate.released_durable [OF assms(1)] by blast
    show "pt_publicados p' = pt_publicados p + length (gate.released ?ob ?d)" using q(2) len by simp
    show "gate.released ?ob ?d = []" if "ob_frozen ?ob" using that by (simp add: gate.released_def gate.rdy_closed)
    show "?d < fst (hd (ob_queue (pt_saida p')))" if fz: "\<not> ob_frozen ?ob" and ne: "ob_queue (pt_saida p') \<noteq> []"
    proof -
      obtain x xs where x: "ob_queue (pt_saida p') = x # xs" using ne by (cases "ob_queue (pt_saida p')") auto
      then have "ob_queue (ob_commit ?ob ?n) = x # xs" using q(1) gate.drp_pend [OF assms(1)] by simp
      from gate.release_maximal [OF assms(1) fz this] x show ?thesis by simp
    qed
  qed
qed

lemma poll_live:
  assumes "poll dbg rtl cd ops now p = Some (n, p')" and "pt_ok inv p" and "\<not> pt_parado p"
    and "unat (jo_last_lsn ops (pt_diario p)) + kBatch < 2 ^ 64"
  shows "pt_ok inv p'"
    and "\<exists>fs gs. rg_items (pt_entrada p) = fs @ rg_items (pt_entrada p') \<and> n = length fs
           \<and> gs = (if pt_parado p' then fs @ [hd (rg_items (pt_entrada p'))] else fs)
           \<and> log (pt_diario p') = log (pt_diario p) @ records_of (jo_last_lsn ops (pt_diario p)) gs
           \<and> replay dbg rtl cd (pt_estado p) (records_of (jo_last_lsn ops (pt_diario p)) gs) = Some (pt_parado p', pt_estado p')"
    and "\<exists>out rel. ob_queue (pt_saida p) @ out = rel @ ob_queue (pt_saida p') \<and> pt_publicados p' = pt_publicados p + length rel
           \<and> (\<forall>x\<in>set rel. fst x \<le> jo_durable_lsn ops (pt_diario p')) \<and> (pt_parado p' \<longrightarrow> rel = [])
           \<and> (\<forall>x\<in>set out. jo_last_lsn ops (pt_diario p) < fst x \<and> fst x \<le> jo_last_lsn ops (pt_diario p'))"
    and "ob_frozen (pt_saida p') = (pt_parado p' \<or> ob_frozen (pt_saida p))"
    and "jo_durable_lsn ops (pt_diario p) \<le> jo_durable_lsn ops (pt_diario p')"
proof -
  obtain p1 where l: "poll_loop dbg rtl cd ops kBatch 0 p = Some (n, p1)"
    and p': "p' = publicar ops (p1\<lparr>pt_diario := snd (jo_reap ops (snd (jo_maybe_submit ops (pt_diario p1) now)))\<rparr>)"
    using assms(1,3) by (auto simp: poll_def bind_eq_Some_conv Let_def)
  obtain fs gs out where ok: "pt_ok inv p1" and b: "batch dbg rtl cd ops log fs gs out p p1" and n: "n = length fs"
    using poll_loop_batch [OF l assms(2-4)] by auto
  obtain st1 j1 where s: "jo_maybe_submit ops (pt_diario p1) now = (st1, j1)" by (cases "jo_maybe_submit ops (pt_diario p1) now")
  obtain st2 j2 where r: "jo_reap ops j1 = (st2, j2)" by (cases "jo_reap ops j1")
  have "inv (pt_diario p1)" using ok by (simp add: pt_ok_def)
  note k1 = submit_keeps [OF this s]
  note k2 = reap_keeps [OF k1 [THEN conjunct1] r]
  define p2 where "p2 = p1\<lparr>pt_diario := j2\<rparr>"
  have p'2: "p' = publicar ops p2" using p' s r by (simp add: p2_def)
  have ob: "ob_inv (pt_saida p2)" using ok by (simp add: pt_ok_def p2_def)
  note pub = publicar_spec [OF ob p'2]
  have f2: "pt_saida p2 = pt_saida p1" "pt_estado p2 = pt_estado p1" "pt_entrada p2 = pt_entrada p1" "pt_parado p2 = pt_parado p1"
    "pt_publicados p2 = pt_publicados p1" "pt_diario p2 = j2" by (simp_all add: p2_def)
  show "pt_ok inv p'" using ok k2 pub(1-4) f2 by (simp add: pt_ok_def)
  show "ob_frozen (pt_saida p') = (pt_parado p' \<or> ob_frozen (pt_saida p))" using pub(5,6) f2 b by (simp add: batch_def)
  show "jo_durable_lsn ops (pt_diario p) \<le> jo_durable_lsn ops (pt_diario p')"
    using b k1 k2 pub(3) f2 by (auto simp: batch_def)
  show "\<exists>fs gs. rg_items (pt_entrada p) = fs @ rg_items (pt_entrada p') \<and> n = length fs
           \<and> gs = (if pt_parado p' then fs @ [hd (rg_items (pt_entrada p'))] else fs)
           \<and> log (pt_diario p') = log (pt_diario p) @ records_of (jo_last_lsn ops (pt_diario p)) gs
           \<and> replay dbg rtl cd (pt_estado p) (records_of (jo_last_lsn ops (pt_diario p)) gs) = Some (pt_parado p', pt_estado p')"
    by (rule exI [of _ fs], rule exI [of _ gs]) (cases "pt_parado p1"; use b n k1 k2 pub(2-5) f2 in \<open>auto simp: batch_def\<close>)
  obtain rel where rel: "ob_queue (pt_saida p2) = rel @ ob_queue (pt_saida p')" "pt_publicados p' = pt_publicados p2 + length rel"
    "\<forall>x\<in>set rel. fst x \<le> jo_durable_lsn ops (pt_diario p2)" "ob_frozen (pt_saida p2) \<longrightarrow> rel = []" using pub(7) by blast
  show "\<exists>out rel. ob_queue (pt_saida p) @ out = rel @ ob_queue (pt_saida p') \<and> pt_publicados p' = pt_publicados p + length rel
           \<and> (\<forall>x\<in>set rel. fst x \<le> jo_durable_lsn ops (pt_diario p')) \<and> (pt_parado p' \<longrightarrow> rel = [])
           \<and> (\<forall>x\<in>set out. jo_last_lsn ops (pt_diario p) < fst x \<and> fst x \<le> jo_last_lsn ops (pt_diario p'))"
    by (rule exI [of _ out], rule exI [of _ rel]) (use b rel k1 k2 pub(3,5) f2 in \<open>simp add: batch_def\<close>)
qed

text \<open>A partition that stopped stays as it is: no state, no input, no output moves.\<close>

lemma poll_stopped:
  assumes "pt_ok inv p" and "pt_parado p" and "ob_frozen (pt_saida p)"
  shows "\<exists>p'. poll dbg rtl cd ops now p = Some (0, p') \<and> pt_ok inv p' \<and> pt_parado p' \<and> ob_frozen (pt_saida p')
           \<and> pt_estado p' = pt_estado p \<and> pt_entrada p' = pt_entrada p \<and> log (pt_diario p') = log (pt_diario p)
           \<and> ob_queue (pt_saida p') = ob_queue (pt_saida p) \<and> pt_publicados p' = pt_publicados p"
proof -
  obtain st1 j1 where s: "jo_maybe_submit ops (pt_diario p) now = (st1, j1)" by (cases "jo_maybe_submit ops (pt_diario p) now")
  obtain st2 j2 where r: "jo_reap ops j1 = (st2, j2)" by (cases "jo_reap ops j1")
  have "inv (pt_diario p)" using assms(1) by (simp add: pt_ok_def)
  note k1 = submit_keeps [OF this s]
  note k2 = reap_keeps [OF k1 [THEN conjunct1] r]
  define p2 where "p2 = p\<lparr>pt_diario := j2\<rparr>"
  have run: "poll dbg rtl cd ops now p = Some (0, publicar ops p2)"
    using assms(2) s r by (simp add: poll_def Let_def p2_def)
  have ob: "ob_inv (pt_saida p2)" using assms(1) by (simp add: pt_ok_def p2_def)
  note pub = publicar_spec [OF ob refl]
  have f2: "pt_saida p2 = pt_saida p" "pt_estado p2 = pt_estado p" "pt_entrada p2 = pt_entrada p" "pt_parado p2 = pt_parado p"
    "pt_publicados p2 = pt_publicados p" "pt_diario p2 = j2" by (simp_all add: p2_def)
  have "ob_queue (pt_saida p2) = ob_queue (pt_saida (publicar ops p2)) \<and> pt_publicados (publicar ops p2) = pt_publicados p2"
    using pub(7) assms(3) f2(1) by auto
  then show ?thesis using run pub(1-6) f2 assms k1 k2 by (simp add: pt_ok_def)
qed

end

end
