(* ===== verification/RV_Demo.thy ===== *)
theory RV_Demo
  imports RV_Partition "HOL-Library.Code_Target_Nat"
begin

text \<open>
  A small partition (three accounts, positions, instruments and trades) taken through the life of one
  trade: an instrument is described, a purchase is executed, allocated, netted and settled, and the
  position is then reverse-split; from the executed state the day also turns, and the trade also moves
  to another account.  Every state is written out and every step is evaluated with the handlers of the
  model, so that the properties of the handlers can be applied to runs that exist.
\<close>

definition demo_empty :: PartitionState where
  "demo_empty = \<lparr>pid = 0, business_date = 20260915, prev_business_date = 20260914, window = [20260915, 20260916, 20260917], applied_lsn = 0,
    custody = \<lparr>available = [0,0,0], pending_buy = replicate 9 0, pending_sell = replicate 9 0, overdue_buy = [0,0,0], overdue_sell = [0,0,0],
      blocked = [0,0,0], leftovers = [0,0,0], avg_price = [0,0,0], cu_account = [0,0,0], cu_instrument = [0,0,0], cu_flags = [0,0,0], cu_count = 0, cu_capacity = 3\<rparr>,
    cash_ledger = \<lparr>cash = [0,0,0], pending = replicate 9 0, overdue = [0,0,0], income_receivable = [0,0,0], ca_count = 0, ca_capacity = 3\<rparr>,
    instruments = \<lparr>external_id = [0,0,0], symbol = replicate 3 [], isin = replicate 3 [], in_type = [0,0,0], price_factor = [0,0,0], lot_size = [0,0,0],
       closing_price = [0,0,0], previous_close = [0,0,0], closing_date = [0,0,0], in_count = 0, in_capacity = 3\<rparr>,
    trades = \<lparr>trade_id = [0,0,0], broker_note_id = [0,0,0], tr_account = [0,0,0], tr_instrument = [0,0,0], tr_qty = [0,0,0], tr_price = [0,0,0], tr_cash = [0,0,0],
       settlement_date = [0,0,0], tr_side = [0,0,0], tr_state = replicate 3 TsNone, next_of_account = [0,0,0], tr_count = 0, tr_capacity = 3\<rparr>,
    account_index = di_new 16, position_index = di_new 16, instrument_index = di_new 16, trade_index = di_new 16,
    applied_actions = \<lparr>tg_gen0 = pi_new 16, tg_gen1 = pi_new 16, tg_atual = 0, tg_rotacao = 0\<rparr>,
    applied_income = \<lparr>tg_gen0 = pi_new 16, tg_gen1 = pi_new 16, tg_atual = 0, tg_rotacao = 0\<rparr>,
    account_first_trade = replicate 3 kNil, account_document = [0,0,0], exceptions = replicate 2 ex_zero, exception_count = 0, exception_dropped = 0,
    exception_capacity = 2, ps_flags = 0, ps_cap = default_capacity, arena_bytes = 0\<rparr>"
definition demo_price :: ClosingPriceSet where "demo_price = \<lparr>cps_closing_price = 2000000000, cps_previous_close = 2000000000, cps_instrument = 7, cps_date = 20260915,
  cps_price_factor = 1, cps_lot_size = 100, cps_symbol = replicate 12 0, cps_isin = replicate 12 0, cps_type = 1, cps_status = 1\<rparr>"
definition demo_ctx :: ApplyContext where "demo_ctx = \<lparr>cx_outbox = None, cx_metrics = None\<rparr>"
definition demo_trade :: TradeExecuted where "demo_trade = \<lparr>tex_trade_id = 1, tex_broker_note_id = 2, tex_account = 11122233344, tex_qty = 10000000000, tex_price = 2000000000,
  tex_brokerage_fee = 10, tex_exchange_fee = 1, tex_clearing_fee = 1, tex_taxes = 0, tex_instrument = 7, tex_settlement_date = 20260917,
  tex_flags = 0, tex_side = 1, tex_market = 1\<rparr>"
definition demo_allocation :: TradeAllocated where "demo_allocation = \<lparr>tal_allocation_id = 1, tal_trade_id = 1, tal_from_account = 11122233344, tal_to_account = 11122233344,
  tal_qty = 10000000000, tal_cash_amount = 0, tal_instrument = 7, tal_settlement_date = 20260917, tal_side = 1\<rparr>"
definition demo_batch :: BatchNetted where "demo_batch = \<lparr>bnt_batch_id = 1, bnt_account = 11122233344, bnt_net_amount = - 20000012, bnt_settlement_date = 20260917, bnt_trade_count = 1\<rparr>"
definition demo_settlement :: TradeSettled where "demo_settlement = \<lparr>tst_batch_id = 1, tst_account = 11122233344, tst_qty = 10000000000, tst_cash_amount = - 20000012, tst_cost_basis = 20000012,
  tst_instrument = 7, tst_settlement_date = 20260917, tst_side = 1, tst_outcome = 1\<rparr>"
definition demo_event :: EventView where "demo_event = \<lparr>ev_lsn = 1, ev_ts_ns = 0, ev_payload = \<lparr>bs_addr = 0, bs_bytes = []\<rparr>, ev_tmpl = 2, ev_len = 88\<rparr>"

definition demo_action :: CorporateActionApplied where "demo_action = \<lparr>cac_action_id = 9, cac_account = 11122233344, cac_qty_delta = 0, cac_leftover_delta = 0, cac_cash_delta = 0,
  cac_withheld_tax = 0, cac_unit_cost = 0, cac_instrument = 7, cac_result_instrument = 7, cac_ex_date = 20260915, cac_com_date = 20260914, cac_factor_num = 1, cac_factor_den = 3,
  cac_type = 3, cac_flags = 0\<rparr>"
definition demo_day :: DayOpened where "demo_day = \<lparr>dop_business_date = 20260916, dop_prev_business_date = 20260915, dop_settle_d1 = 20260917, dop_settle_d2 = 20260918, dop_schema_version = 1, dop_partition_id = 0\<rparr>"
definition demo_move :: TradeAllocated where "demo_move = demo_allocation\<lparr>tal_to_account := 55566677788, tal_cash_amount := - 20000012\<rparr>"

definition demo_priced :: PartitionState where
  "demo_priced = demo_empty\<lparr>
     instruments := \<lparr>external_id = [7, 0, 0], symbol = [[0, 0, 0, 0, 0, 0, 0, 0, 0, 0, 0, 0], [], []], isin = [[0, 0, 0, 0,
        0, 0, 0, 0, 0, 0, 0, 0], [], []], in_type = [1, 0, 0], price_factor = [1, 0, 0], lot_size = [100, 0, 0],
        closing_price = [2000000000, 0, 0], previous_close = [2000000000, 0, 0], closing_date = [20260915, 0, 0],
        in_count = 1, in_capacity = 3\<rparr>,
     instrument_index := \<lparr>di_keys = (replicate 16 0)[4 := 7], di_vals = (replicate 16 4294967295)[4 := 0], di_cap = 16,
        di_mask = 15, di_size = 1\<rparr>\<rparr>"

definition demo_executed :: PartitionState where
  "demo_executed = demo_priced\<lparr>
     custody := \<lparr>available = [0, 0, 0], pending_buy = (replicate 9 0)[2 := 10000000000], pending_sell = replicate 9 0,
        overdue_buy = [0, 0, 0], overdue_sell = [0, 0, 0], blocked = [0, 0, 0], leftovers = [0, 0, 0], avg_price = [0,
        0, 0], cu_account = [0, 0, 0], cu_instrument = [0, 0, 0], cu_flags = [0, 0, 0], cu_count = 1,
        cu_capacity = 3\<rparr>,
     cash_ledger := \<lparr>cash = [0, 0, 0], pending = (replicate 9 0)[2 := - 20000012], overdue = [0, 0, 0],
        income_receivable = [0, 0, 0], ca_count = 1, ca_capacity = 3\<rparr>,
     trades := \<lparr>trade_id = [1, 0, 0], broker_note_id = [2, 0, 0], tr_account = [0, 0, 0], tr_instrument = [0, 0, 0],
        tr_qty = [10000000000, 0, 0], tr_price = [2000000000, 0, 0], tr_cash = [- 20000012, 0, 0],
        settlement_date = [20260917, 0, 0], tr_side = [1, 0, 0], tr_state = [TsExecuted, TsNone, TsNone],
        next_of_account = [4294967295, 0, 0], tr_count = 1, tr_capacity = 3\<rparr>,
     account_index := \<lparr>di_keys = (replicate 16 0)[14 := 11122233344], di_vals = (replicate 16 4294967295)[14 := 0],
        di_cap = 16, di_mask = 15, di_size = 1\<rparr>,
     position_index := \<lparr>di_keys = replicate 16 0, di_vals = (replicate 16 4294967295)[0 := 0], di_cap = 16, di_mask = 15,
        di_size = 1\<rparr>,
     trade_index := \<lparr>di_keys = (replicate 16 0)[5 := 1], di_vals = (replicate 16 4294967295)[5 := 0], di_cap = 16,
        di_mask = 15, di_size = 1\<rparr>,
     account_first_trade := [0, 4294967295, 4294967295],
     account_document := [11122233344, 0, 0]\<rparr>"

definition demo_allocated :: PartitionState where
  "demo_allocated = demo_executed\<lparr>
     trades := \<lparr>trade_id = [1, 0, 0], broker_note_id = [2, 0, 0], tr_account = [0, 0, 0], tr_instrument = [0, 0, 0],
        tr_qty = [10000000000, 0, 0], tr_price = [2000000000, 0, 0], tr_cash = [- 20000012, 0, 0],
        settlement_date = [20260917, 0, 0], tr_side = [1, 0, 0], tr_state = [TsAllocated, TsNone, TsNone],
        next_of_account = [4294967295, 0, 0], tr_count = 1, tr_capacity = 3\<rparr>\<rparr>"

definition demo_netted :: PartitionState where
  "demo_netted = demo_allocated\<lparr>
     trades := \<lparr>trade_id = [1, 0, 0], broker_note_id = [2, 0, 0], tr_account = [0, 0, 0], tr_instrument = [0, 0, 0],
        tr_qty = [10000000000, 0, 0], tr_price = [2000000000, 0, 0], tr_cash = [- 20000012, 0, 0],
        settlement_date = [20260917, 0, 0], tr_side = [1, 0, 0], tr_state = [TsNetted, TsNone, TsNone],
        next_of_account = [4294967295, 0, 0], tr_count = 1, tr_capacity = 3\<rparr>\<rparr>"

definition demo_settled :: PartitionState where
  "demo_settled = demo_netted\<lparr>
     custody := \<lparr>available = [10000000000, 0, 0], pending_buy = replicate 9 0, pending_sell = replicate 9 0,
        overdue_buy = [0, 0, 0], overdue_sell = [0, 0, 0], blocked = [0, 0, 0], leftovers = [0, 0, 0],
        avg_price = [2000001200, 0, 0], cu_account = [0, 0, 0], cu_instrument = [0, 0, 0], cu_flags = [0, 0, 0],
        cu_count = 1, cu_capacity = 3\<rparr>,
     cash_ledger := \<lparr>cash = [- 20000012, 0, 0], pending = replicate 9 0, overdue = [0, 0, 0], income_receivable = [0, 0,
        0], ca_count = 1, ca_capacity = 3\<rparr>,
     trades := \<lparr>trade_id = [1, 0, 0], broker_note_id = [2, 0, 0], tr_account = [0, 0, 0], tr_instrument = [0, 0, 0],
        tr_qty = [10000000000, 0, 0], tr_price = [2000000000, 0, 0], tr_cash = [- 20000012, 0, 0],
        settlement_date = [20260917, 0, 0], tr_side = [1, 0, 0], tr_state = [TsSettled, TsNone, TsNone],
        next_of_account = [4294967295, 0, 0], tr_count = 1, tr_capacity = 3\<rparr>\<rparr>"

definition demo_split :: PartitionState where
  "demo_split = demo_settled\<lparr>
     custody := \<lparr>available = [3300000000, 0, 0], pending_buy = replicate 9 0, pending_sell = replicate 9 0,
        overdue_buy = [0, 0, 0], overdue_sell = [0, 0, 0], blocked = [0, 0, 0], leftovers = [33333333, 0, 0],
        avg_price = [6000003600, 0, 0], cu_account = [0, 0, 0], cu_instrument = [0, 0, 0], cu_flags = [0, 0, 0],
        cu_count = 1, cu_capacity = 3\<rparr>,
     applied_actions := \<lparr>tg_gen0 = \<lparr>pi_hi = (replicate 16 0)[7 := 9], pi_lo = replicate 16 0,
        pi_ocupado = (replicate 16 0)[7 := 1], pi_cap = 16, pi_mask = 15, pi_size = 1\<rparr>,
        tg_gen1 = \<lparr>pi_hi = replicate 16 0, pi_lo = replicate 16 0, pi_ocupado = replicate 16 0, pi_cap = 16,
        pi_mask = 15, pi_size = 0\<rparr>, tg_atual = 0, tg_rotacao = 0\<rparr>\<rparr>"

definition demo_next_day :: PartitionState where
  "demo_next_day = demo_executed\<lparr>
     business_date := 20260916,
     prev_business_date := 20260915,
     window := [20260916, 20260917, 20260918],
     custody := \<lparr>available = [0, 0, 0], pending_buy = (replicate 9 0)[1 := 10000000000], pending_sell = replicate 9 0,
        overdue_buy = [0, 0, 0], overdue_sell = [0, 0, 0], blocked = [0, 0, 0], leftovers = [0, 0, 0], avg_price = [0,
        0, 0], cu_account = [0, 0, 0], cu_instrument = [0, 0, 0], cu_flags = [0, 0, 0], cu_count = 1,
        cu_capacity = 3\<rparr>,
     cash_ledger := \<lparr>cash = [0, 0, 0], pending = (replicate 9 0)[1 := - 20000012], overdue = [0, 0, 0],
        income_receivable = [0, 0, 0], ca_count = 1, ca_capacity = 3\<rparr>,
     applied_actions := \<lparr>tg_gen0 = \<lparr>pi_hi = replicate 16 0, pi_lo = replicate 16 0, pi_ocupado = replicate 16 0,
        pi_cap = 16, pi_mask = 15, pi_size = 0\<rparr>, tg_gen1 = \<lparr>pi_hi = replicate 16 0,
        pi_lo = replicate 16 0, pi_ocupado = replicate 16 0, pi_cap = 16, pi_mask = 15, pi_size = 0\<rparr>,
        tg_atual = 0, tg_rotacao = 20260916\<rparr>,
     applied_income := \<lparr>tg_gen0 = \<lparr>pi_hi = replicate 16 0, pi_lo = replicate 16 0, pi_ocupado = replicate 16 0,
        pi_cap = 16, pi_mask = 15, pi_size = 0\<rparr>, tg_gen1 = \<lparr>pi_hi = replicate 16 0,
        pi_lo = replicate 16 0, pi_ocupado = replicate 16 0, pi_cap = 16, pi_mask = 15, pi_size = 0\<rparr>,
        tg_atual = 0, tg_rotacao = 20260916\<rparr>\<rparr>"

definition demo_moved :: PartitionState where
  "demo_moved = demo_executed\<lparr>
     custody := \<lparr>available = [0, 0, 0], pending_buy = (replicate 9 0)[5 := 10000000000], pending_sell = replicate 9 0,
        overdue_buy = [0, 0, 0], overdue_sell = [0, 0, 0], blocked = [0, 0, 0], leftovers = [0, 0, 0], avg_price = [0,
        0, 0], cu_account = [0, 1, 0], cu_instrument = [0, 0, 0], cu_flags = [0, 0, 0], cu_count = 2,
        cu_capacity = 3\<rparr>,
     cash_ledger := \<lparr>cash = [0, 0, 0], pending = (replicate 9 0)[5 := - 20000012], overdue = [0, 0, 0],
        income_receivable = [0, 0, 0], ca_count = 2, ca_capacity = 3\<rparr>,
     trades := \<lparr>trade_id = [1, 0, 0], broker_note_id = [2, 0, 0], tr_account = [1, 0, 0], tr_instrument = [0, 0, 0],
        tr_qty = [10000000000, 0, 0], tr_price = [2000000000, 0, 0], tr_cash = [- 20000012, 0, 0],
        settlement_date = [20260917, 0, 0], tr_side = [1, 0, 0], tr_state = [TsAllocated, TsNone, TsNone],
        next_of_account = [4294967295, 0, 0], tr_count = 1, tr_capacity = 3\<rparr>,
     account_index := \<lparr>di_keys = (replicate 16 0)[9 := 55566677788, 14 := 11122233344],
        di_vals = (replicate 16 4294967295)[9 := 1, 14 := 0], di_cap = 16, di_mask = 15, di_size = 2\<rparr>,
     position_index := \<lparr>di_keys = (replicate 16 0)[15 := 4294967296], di_vals = (replicate 16 4294967295)[0 := 0, 15 := 1],
        di_cap = 16, di_mask = 15, di_size = 2\<rparr>,
     account_first_trade := [4294967295, 0, 4294967295],
     account_document := [11122233344, 55566677788, 0]\<rparr>"

lemma demo_priced_run: "closing_price_set demo_price demo_empty demo_ctx = Some (kOk, demo_priced, demo_ctx)"
  by code_simp

lemma demo_executed_run: "trade_executed True demo_trade demo_priced demo_event demo_ctx = Some (kOk, demo_executed, demo_ctx)"
  by code_simp

lemma demo_allocated_run: "trade_allocated True demo_allocation demo_executed demo_ctx = Some (kOk, demo_allocated, demo_ctx)"
  by code_simp

lemma demo_netted_run: "batch_netted demo_batch demo_allocated demo_ctx = Some (kOk, demo_netted, demo_ctx)"
  by code_simp

lemma demo_settled_run: "trade_settled True demo_settlement demo_netted demo_event demo_ctx = Some (kOk, demo_settled, demo_ctx)"
  by code_simp

lemma demo_split_run: "corporate_action True False demo_action demo_settled demo_event demo_ctx = Some (kOk, demo_split, demo_ctx)"
  by code_simp

lemma demo_next_day_run: "day_opened demo_day demo_executed demo_ctx = Some (kOk, demo_next_day, demo_ctx)"
  by code_simp

lemma demo_moved_run: "trade_allocated True demo_move demo_executed demo_ctx = Some (kOk, demo_moved, demo_ctx)"
  by code_simp

section \<open>The states of the run satisfy the invariants\<close>

lemma demo_empty_inv: "ps_inv demo_empty" "lists_ok demo_empty" "i3_ok demo_empty"
proof -
  have c: "pow2_cap 16" using pow2_capI [of 4] by simp
  note new = di_new_inv [OF c] pi_new_inv [OF c]
  show "ps_inv demo_empty"
    using new
    by (simp add: demo_empty_def ps_inv_def tables_ok_def indexes_ok_def refs_ok_def shape_defs rows_defs indexed_def
        tg_inv_def kEmpty_def sentinel32_def load_limit_def)
      (simp add: di_new_def)
  show "lists_ok demo_empty" "i3_ok demo_empty" by (simp_all add: demo_empty_def lists_ok_def i3_ok_def)
qed

lemma demo_priced_inv: "ps_inv demo_priced" "lists_ok demo_priced" "i3_ok demo_priced"
  using closing_price_inv [OF demo_empty_inv(1) demo_priced_run] demo_empty_inv by simp_all

lemma demo_executed_inv: "ps_inv demo_executed" "lists_ok demo_executed" "i3_ok demo_executed"
  using trade_executed_inv [OF demo_priced_inv(1) demo_executed_run] demo_priced_inv by simp_all

lemma demo_executed_qtys: "qtys_ok demo_executed"
  by (simp add: qtys_ok_def trade_list_def trade_row_def demo_executed_def)

lemma demo_owner: "t < tr_count (trades demo_executed) \<Longrightarrow> owner_of demo_executed t = 11122233344"
  by (simp add: owner_of_def demo_executed_def)

lemma demo_allocated_inv: "ps_inv demo_allocated" "lists_ok demo_allocated" "i3_ok demo_allocated"
  using trade_allocated_inv [OF demo_executed_inv(1) demo_allocated_run] demo_executed_inv demo_executed_qtys demo_owner
  by (simp_all add: demo_allocation_def)

lemma demo_moved_inv: "ps_inv demo_moved" "lists_ok demo_moved" "i3_ok demo_moved"
  using trade_allocated_inv [OF demo_executed_inv(1) demo_moved_run] demo_executed_inv demo_executed_qtys demo_owner
  by (simp_all add: demo_move_def demo_allocation_def)

lemma demo_netted_inv: "ps_inv demo_netted" "lists_ok demo_netted" "i3_ok demo_netted"
  using batch_netted_inv [OF demo_allocated_inv(1) demo_netted_run] demo_allocated_inv by simp_all

lemma demo_settled_inv: "ps_inv demo_settled" "lists_ok demo_settled" "i3_ok demo_settled"
  using trade_settled_inv [OF demo_netted_inv(1) demo_settled_run] demo_netted_inv by (simp_all add: kOk_def)

lemma demo_split_inv: "ps_inv demo_split" "lists_ok demo_split" "i3_ok demo_split"
  using corporate_action_inv [OF demo_settled_inv(1) demo_split_run] demo_settled_inv by (simp_all add: kOk_def)

lemma demo_next_day_inv: "ps_inv demo_next_day" "lists_ok demo_next_day" "i3_ok demo_next_day"
  using day_opened_inv [OF demo_executed_inv(1) demo_next_day_run] day_opened_keeps [OF demo_executed_inv(1) demo_next_day_run]
    demo_executed_inv by simp_all

end
