(* ===== verification/RV_Event_Runs.thy ===== *)
theory RV_Event_Runs
  imports RV_Apply
begin

text \<open>
  What holds along a run of events: an applied corporate action stays applied until the set of keys
  has rotated twice, and the chains of trades stay well-formed as long as every allocation names the
  owner of the trade.
\<close>

section \<open>The two generations of keys\<close>

definition tg_current :: "TwoGenSet \<Rightarrow> (u64 \<times> u32) set" where
  "tg_current s = pi_members (tg_gen s (tg_atual s))"

lemma tg_current_members: "tg_current s \<subseteq> tg_members s"
  by (auto simp: tg_current_def tg_members_def tg_gen_def)

text \<open>A change of the set that forgets nothing, or a rotation, which keeps the current generation.\<close>

definition set_kept :: "TwoGenSet \<Rightarrow> TwoGenSet \<Rightarrow> bool" where
  "set_kept s s' \<longleftrightarrow>
     (if tg_atual s' = tg_atual s then tg_current s \<subseteq> tg_current s' \<and> tg_members s \<subseteq> tg_members s'
      else tg_current s \<subseteq> tg_members s')"

lemma set_kept_refl: "set_kept s s"
  by (simp add: set_kept_def)

lemma tg_insert_current:
  assumes "tg_inv s" and "tg_insert s hi lo = (ok, cheio, s')"
  shows "set_kept s s'" and "ok \<Longrightarrow> (hi, lo) \<in> tg_current s'"
proof -
  let ?g = "tg_gen s (tg_atual s)"
  have "set_kept s s' \<and> (ok \<longrightarrow> (hi, lo) \<in> tg_current s')"
  proof (cases "tg_contains s hi lo")
    case True
    then show ?thesis using assms(2) set_kept_refl by (simp add: tg_insert_def)
  next
    case False
    obtain t where t: "pi_insert ?g hi lo = (ok, cheio, t)" "s' = tg_set_gen s (tg_atual s) t"
      using assms(2) False by (auto simp: tg_insert_def split: prod.splits)
    have "pi_inv ?g" using assms(1) by (simp add: tg_inv_def tg_gen_def)
    from pair_set.ins_result [OF this, of "(hi, lo)" ok cheio t] t(1)
    have "pi_members t = (if ok then insert (hi, lo) (pi_members ?g) else pi_members ?g)" by simp
    then show ?thesis by (auto simp: t(2) set_kept_def tg_current_def tg_members_def tg_set_gen_def tg_gen_def)
  qed
  then show "set_kept s s'" "ok \<Longrightarrow> (hi, lo) \<in> tg_current s'" by blast+
qed

lemma maybe_rotate_kept: "tg_inv s \<Longrightarrow> set_kept s (maybe_rotate s d w)"
  by (cases "tg_atual s = 0")
    (auto simp: set_kept_def maybe_rotate_def Let_def tg_inv_def tg_current_def tg_members_def tg_set_gen_def tg_gen_def)

section \<open>Applied actions through one event\<close>

definition actions_kept :: "PartitionState \<Rightarrow> PartitionState \<Rightarrow> bool" where
  "actions_kept s s' \<longleftrightarrow> ca_count (cash_ledger s) \<le> ca_count (cash_ledger s')
     \<and> (\<forall>a<ca_count (cash_ledger s). account_document s' ! a = account_document s ! a)
     \<and> set_kept (applied_actions s) (applied_actions s')"

lemma actions_kept_same:
  assumes "grown s s1" and "account_document s' = account_document s1" and "ca_count (cash_ledger s') = ca_count (cash_ledger s1)"
    and "set_kept (applied_actions s) (applied_actions s')"
  shows "actions_kept s s'"
  using assms by (simp add: actions_kept_def grown_def)

lemma actions_kept_grown: "grown s s' \<Longrightarrow> actions_kept s s'"
  using actions_kept_same [of s s' s'] set_kept_refl by (simp add: grown_def same_books_def)

lemma actions_kept_frame: "grown s s1 \<Longrightarrow> names_frame s1 s' \<Longrightarrow> actions_kept s s'"
  using set_kept_refl by (intro actions_kept_same) (auto simp: names_frame_def grown_def same_books_def)

lemma grown_actions: "grown s s' \<Longrightarrow> applied_actions s' = applied_actions s"
  by (simp add: grown_def same_books_def)

lemma day_opened_actions:
  assumes "ps_inv s" and "day_opened e s ctx = Some (st, s', ctx')"
  shows "actions_kept s s'"
proof (cases "is_ok st")
  case True
  note eff = day_opened_effect [OF assms True]
  have "tg_inv (applied_actions s)" using assms(1) by (simp add: ps_inv_def indexes_ok_def)
  then show ?thesis using eff(3,9,12) maybe_rotate_kept by (simp add: actions_kept_def cash_rotated_def)
next
  case False
  then show ?thesis using day_opened_keeps(4) [OF assms] set_kept_refl by (simp add: actions_kept_def)
qed

lemma trade_executed_actions:
  assumes "ps_inv s" and "trade_executed dbg e s ev ctx = Some (st, s', ctx')"
  shows "actions_kept s s'"
  using assms
proof (cases rule: trade_executed_cases)
  case rejected
  then show ?thesis by (simp add: actions_kept_grown)
next
  case booked
  then show ?thesis using book_trade_spec(7) [OF grown_inv [OF booked(1)] booked(19,2-11)] actions_kept_frame by blast
qed

lemma set_trade_state_frame: "names_frame s (set_trade_state s t g)"
  by (simp add: names_frame_def set_trade_state_def)

lemma names_frame_trans: "names_frame a b \<Longrightarrow> names_frame b c \<Longrightarrow> names_frame a c"
  by (simp add: names_frame_def)

lemma trade_allocated_actions:
  assumes "ps_inv s" and "trade_allocated dbg e s ctx = Some (st, s', ctx')"
  shows "actions_kept s s'"
  using assms
proof (cases rule: trade_allocated_cases)
  case rejected
  then show ?thesis by (simp add: actions_kept_grown)
next
  case confirmed
  then show ?thesis using actions_kept_frame set_trade_state_frame by blast
next
  case (moved s4 s5 t de para pd pp)
  have t4: "t < tr_count (trades s4)" using moved(1,2) grown_trades [OF moved(1)] by simp
  have "names_frame s4 s5" by (rule move_trade_spec(10) [OF grown_inv [OF moved(1)] moved(19,6-10,11-16,17) t4])
  moreover have "s' = s5 \<or> s' = set_trade_state s5 t TsAllocated"
    using moved(21) by (auto simp: rv_check_def ret_def split: if_splits)
  ultimately show ?thesis using actions_kept_frame [OF moved(1)] names_frame_trans set_trade_state_frame by blast
qed

lemma push_frame_names: "names_frame s (push_exception s x m)"
  by (simp add: names_frame_def)

lemma batch_netted_actions:
  assumes "ps_inv s" and "batch_netted e s ctx = Some (st, s', ctx')"
  shows "actions_kept s s'"
  using assms
proof (cases rule: batch_netted_cases)
  case rejected
  then show ?thesis using actions_kept_grown actions_kept_frame push_frame_names by blast
next
  case netted
  have "names_frame s1 (s1\<lparr>trades := t\<rparr>)" for s1 t by (simp add: names_frame_def)
  then show ?thesis using netted(1,10) actions_kept_frame names_frame_trans push_frame_names by blast
qed

lemma ledger_frame_names: "ledger_frame s s' \<Longrightarrow> names_frame s s'"
  by (simp add: ledger_frame_def names_frame_def cash_like_def)

lemma trade_settled_actions:
  assumes "ps_inv s" and "trade_settled dbg e s ev ctx = Some (st, s', ctx')"
  shows "actions_kept s s'"
  using assms
proof (cases rule: trade_settled_cases)
  case rejected
  then show ?thesis by (simp add: actions_kept_grown)
next
  case (settled s2 s3 acct inst pos g p sts n)
  have "names_frame s2 s3" by (rule ledger_frame_names [OF ledger_step_frame [OF settled(12)]])
  then show ?thesis using actions_kept_frame [OF settled(1), of s'] settled(15) by (simp add: names_frame_def)
qed

lemma corporate_action_actions:
  assumes "ps_inv s" and "corporate_action dbg rtl e s ev ctx = Some (st, s', ctx')"
  shows "actions_kept s s'"
proof -
  have tg: "tg_inv (applied_actions s)" using assms(1) by (simp add: ps_inv_def indexes_ok_def)
  show ?thesis
    using assms
  proof (cases rule: corporate_action_cases)
    case rejected
    then show ?thesis by (simp add: actions_kept_grown)
  next
    case (keyed s3 acct aa)
    then have "set_kept (applied_actions s) aa" using tg_insert_current(1) [OF tg] by blast
    then show ?thesis using actions_kept_same [OF keyed(2), of s'] keyed(7) by simp
  next
    case (applied s3 acct pos b delta aa)
    then have "set_kept (applied_actions s) aa" using tg_insert_current(1) [OF tg] by blast
    moreover have "names_frame (s3\<lparr>applied_actions := aa\<rparr>) s'" by (rule ledger_frame_names [OF ledger_step_frame [OF applied(12)]])
    ultimately show ?thesis using actions_kept_same [OF applied(1), of s'] by (simp add: names_frame_def)
  qed
qed

lemma dividend_paid_actions:
  assumes "ps_inv s" and "dividend_paid e s ctx = Some (st, s', ctx')"
  shows "actions_kept s s'"
  using assms
proof (cases rule: dividend_paid_cases)
  case (rejected s1 ai)
  have "names_frame s1 (s1\<lparr>applied_income := ai\<rparr>)" by (simp add: names_frame_def)
  then show ?thesis using rejected(2,5) actions_kept_grown actions_kept_frame push_frame_names by blast
next
  case (credited s1 acct ai ca)
  have "ca_count ca = ca_count (cash_ledger s1)"
    using credit_income_row(1) [OF credited(8) _ credited(2)] grown_inv [OF credited(1)] by (simp add: ps_inv_def tables_ok_def cash_like_def)
  then show ?thesis using actions_kept_frame [OF credited(1), of s'] credited(9) by (simp add: names_frame_def)
qed

lemma closing_price_actions:
  assumes "ps_inv s" and "closing_price_set e s ctx = Some (st, s', ctx')"
  shows "actions_kept s s'"
proof -
  obtain i s1 where i1: "intern_instrument s (cps_instrument e) = (i, s1)" by (cases "intern_instrument s (cps_instrument e)")
  note g = intern_instrument_grown(1) [OF assms(1) i1]
  have "s' = s \<or> s' = s1 \<or> s' = s1\<lparr>instruments := describe_instrument e i (instruments s1)\<rparr>"
    using assms(2) i1 by (auto simp: closing_price_set_def ret_def split: if_splits)
  then show ?thesis
    using actions_kept_grown [OF g] actions_kept_grown [OF grown_refl [OF assms(1)]]
      actions_kept_same [OF g, of "s1\<lparr>instruments := describe_instrument e i (instruments s1)\<rparr>"] set_kept_refl grown_actions [OF g] by auto
qed

lemma custody_reconciled_names: "names_frame s (custody_reconciled e ds s)"
  unfolding custody_reconciled_def
proof (induction ds arbitrary: s)
  case (Cons d ds)
  show ?case using names_frame_trans [OF push_frame_names Cons.IH, of s "divergence_record e d" True] by simp
qed (simp add: names_frame_def)

lemma eod_marked_actions: "ps_inv s \<Longrightarrow> eod_marked e s ctx = Some (st, s', ctx') \<Longrightarrow> actions_kept s s'"
  using eod_marked_frame(1) [of e s ctx st s' ctx'] set_kept_refl by (auto simp: actions_kept_def)

lemmas handler_actions = day_opened_actions trade_executed_actions trade_allocated_actions batch_netted_actions trade_settled_actions
  corporate_action_actions dividend_paid_actions closing_price_actions eod_marked_actions

lemma apply_event_actions:
  assumes "ps_inv s" and "apply_event dbg rtl cd s ev ctx = Some (st, s', ctx')"
  shows "actions_kept s s'"
proof -
  obtain s1 c1 where d: "dispatch dbg rtl cd s ev ctx = Some (st, s1, c1)" and s': "s' = s1\<lparr>applied_lsn := ev_lsn ev\<rparr>"
    using assms(2) by (auto simp: apply_event_Some)
  from d have "actions_kept s s1"
  proof (cases rule: dispatch_cases)
    case refused
    then show ?thesis using actions_kept_grown [OF grown_refl [OF assms(1)]] by simp
  next
    case reconciled
    then show ?thesis using actions_kept_frame [OF grown_refl [OF assms(1)]] custody_reconciled_names by simp
  qed (erule handler_actions [OF assms(1)])+
  then show ?thesis by (simp add: s' actions_kept_def)
qed

section \<open>Chains of trades through one event\<close>

text \<open>An allocation is made by the account that owns the trade.\<close>

definition owner_allocates :: "Codec \<Rightarrow> PartitionState \<Rightarrow> EventView \<Rightarrow> bool" where
  "owner_allocates cd s ev \<longleftrightarrow>
     (case decode 64 ev of
        Inl _ \<Rightarrow> True
      | Inr bs \<Rightarrow> ev_tmpl ev = 3 \<longrightarrow> list_all (\<lambda>t. trade_id (trades s) ! t = tal_trade_id (rd_tal cd bs)
          \<longrightarrow> owner_of s t = tal_from_account (rd_tal cd bs)) [0..<tr_count (trades s)])"

lemma apply_event_lists:
  assumes "ps_inv s" and "lists_ok s" and "owner_allocates cd s ev" and "apply_event dbg rtl cd s ev ctx = Some (st, s', ctx')"
  shows "lists_ok s'"
proof -
  obtain s1 c1 where d: "dispatch dbg rtl cd s ev ctx = Some (st, s1, c1)" and s': "s' = s1\<lparr>applied_lsn := ev_lsn ev\<rparr>"
    using assms(4) by (auto simp: apply_event_Some)
  from d have "lists_ok s1"
  proof (cases rule: dispatch_cases)
    case (allocated e bs)
    have "owner_of s t = tal_from_account e" if "t < tr_count (trades s)" "trade_id (trades s) ! t = tal_trade_id e" for t
      using assms(3) allocated(2-4) that by (auto simp: owner_allocates_def list_all_iff)
    then show ?thesis using trade_allocated_inv(3) [OF assms(1) allocated(1) assms(2)] by blast
  next
    case refused
    then show ?thesis using assms(2) by simp
  next
    case reconciled
    then show ?thesis using assms(2) custody_reconciled_frame(7) by simp
  next
    case eod
    then show ?thesis using eod_marked_frame(1) assms(2) flags_frame(4) by fastforce
  next
    case day
    then show ?thesis using day_opened_keeps(2) [OF assms(1)] assms(2) by blast
  next
    case executed
    then show ?thesis using trade_executed_inv(2) [OF assms(1)] assms(2) by blast
  next
    case netted
    then show ?thesis using batch_netted_inv(2) [OF assms(1)] assms(2) by blast
  next
    case settled
    then show ?thesis using trade_settled_inv(2) [OF assms(1)] assms(2) by blast
  next
    case corporate
    then show ?thesis using corporate_action_inv(2) [OF assms(1)] assms(2) by blast
  next
    case dividend
    then show ?thesis using dividend_paid_inv(2) [OF assms(1)] assms(2) by blast
  next
    case price
    then show ?thesis using closing_price_inv(2) [OF assms(1)] assms(2) by blast
  qed
  then show ?thesis by (simp add: s' lsn_frame)
qed

section \<open>Runs\<close>

text \<open>A run of events with the number of rotations of the set of applied actions.\<close>

inductive events_run :: "bool \<Rightarrow> bool \<Rightarrow> Codec \<Rightarrow> PartitionState \<Rightarrow> nat \<Rightarrow> PartitionState \<Rightarrow> bool" for dbg rtl cd s where
  start: "events_run dbg rtl cd s 0 s"
| event: "events_run dbg rtl cd s n s1 \<Longrightarrow> apply_event dbg rtl cd s1 ev ctx = Some (st, s2, ctx')
    \<Longrightarrow> m = n + (if tg_atual (applied_actions s2) = tg_atual (applied_actions s1) then 0 else 1)
    \<Longrightarrow> events_run dbg rtl cd s m s2"

text \<open>A run in which every allocation is made by the owner of the trade.\<close>

inductive owner_run :: "bool \<Rightarrow> bool \<Rightarrow> Codec \<Rightarrow> PartitionState \<Rightarrow> PartitionState \<Rightarrow> bool" for dbg rtl cd s where
  start: "owner_run dbg rtl cd s s"
| event: "owner_run dbg rtl cd s s1 \<Longrightarrow> owner_allocates cd s1 ev \<Longrightarrow> apply_event dbg rtl cd s1 ev ctx = Some (st, s2, ctx')
    \<Longrightarrow> owner_run dbg rtl cd s s2"

lemma owner_run_keeps:
  assumes "owner_run dbg rtl cd s s'" and "ps_inv s" and "lists_ok s"
  shows "ps_inv s' \<and> lists_ok s'"
  using assms(1)
proof (induction rule: owner_run.induct)
  case start
  then show ?case using assms(2,3) by simp
next
  case (event s1 ev ctx st s2 ctx')
  then show ?case using apply_event_keeps(1) [of s1] apply_event_lists [of s1] by (auto simp: keeps_def)
qed

text \<open>A key of the current generation survives one rotation.\<close>

definition action_current :: "PartitionState \<Rightarrow> u64 \<Rightarrow> u64 \<Rightarrow> bool" where
  "action_current s action doc \<longleftrightarrow> (\<exists>a<ca_count (cash_ledger s). account_document s ! a = doc
     \<and> (action, of_nat a) \<in> tg_current (applied_actions s))"

lemma action_current_applied: "action_current s k d \<Longrightarrow> action_applied s k d"
  using tg_current_members by (fastforce simp: action_current_def action_applied_def)

lemma action_step:
  assumes "actions_kept s s'"
  shows "tg_atual (applied_actions s') = tg_atual (applied_actions s) \<Longrightarrow> action_current s k d \<Longrightarrow> action_current s' k d"
    and "tg_atual (applied_actions s') = tg_atual (applied_actions s) \<Longrightarrow> action_applied s k d \<Longrightarrow> action_applied s' k d"
    and "action_current s k d \<Longrightarrow> action_applied s' k d"
proof -
  have acc: "a < ca_count (cash_ledger s')" "account_document s' ! a = account_document s ! a" if "a < ca_count (cash_ledger s)" for a
    using assms that by (auto simp: actions_kept_def)
  have kept: "set_kept (applied_actions s) (applied_actions s')" using assms by (simp add: actions_kept_def)
  show "action_current s' k d" if "tg_atual (applied_actions s') = tg_atual (applied_actions s)" "action_current s k d"
    using that acc kept by (fastforce simp: action_current_def set_kept_def)
  show "action_applied s' k d" if "tg_atual (applied_actions s') = tg_atual (applied_actions s)" "action_applied s k d"
    using that acc kept by (fastforce simp: action_applied_def set_kept_def)
  have "tg_current (applied_actions s) \<subseteq> tg_members (applied_actions s')"
    using kept tg_current_members [of "applied_actions s'"] by (auto simp: set_kept_def split: if_splits)
  then show "action_current s k d \<Longrightarrow> action_applied s' k d" using acc by (fastforce simp: action_current_def action_applied_def)
qed

lemma run_keeps_action:
  assumes "events_run dbg rtl cd s n s'" and "ps_inv s" and "action_current s k d"
  shows "ps_inv s' \<and> (n = 0 \<longrightarrow> action_current s' k d) \<and> (n \<le> 1 \<longrightarrow> action_applied s' k d)"
  using assms(1)
proof (induction rule: events_run.induct)
  case start
  then show ?case using assms(2,3) action_current_applied by blast
next
  case (event n s1 ev ctx st s2 ctx' m)
  have inv: "ps_inv s1" "ps_inv s2" using event.IH apply_event_keeps(1) [OF _ event.hyps(2)] by (auto simp: keeps_def)
  note step = action_step [OF apply_event_actions [OF inv(1) event.hyps(2)], of k d]
  show ?case using event.IH event.hyps(3) inv(2) step by (auto split: if_splits)
qed

lemma corporate_action_current:
  assumes "ps_inv s" and "corporate_action dbg rtl e s ev ctx = Some (st, s', ctx')" and "is_ok st"
  shows "action_current s' (cac_action_id e) (cac_account e)"
  using assms(1,2)
proof (cases rule: corporate_action_cases)
  case (applied s3 acct pos b delta aa)
  have tg: "tg_inv (applied_actions s)" using assms(1) by (simp add: ps_inv_def indexes_ok_def)
  have "names_frame (s3\<lparr>applied_actions := aa\<rparr>) s'" by (rule ledger_frame_names [OF ledger_step_frame [OF applied(12)]])
  moreover have "(cac_action_id e, of_nat acct) \<in> tg_current aa" using applied(14) tg_insert_current(2) [OF tg] by blast
  ultimately show ?thesis unfolding action_current_def using applied(2,3) by (intro exI [of _ acct]) (simp add: names_frame_def)
qed (use assms(3) in \<open>auto simp: is_ok_def\<close>)

end
