(* ===== verification/RV_Event_Contracts.thy ===== *)
theory RV_Event_Contracts
  imports RV_Demo RV_Event_Runs
begin

text \<open>
  What each event handler of \<^verbatim>\<open>src/core/apply.cpp\<close> does to the books, named by document and
  instrument rather than by row, and what all of them keep.  Every theorem is followed by its
  application to one step of the run of \<open>RV_Demo\<close>.
\<close>

section \<open>The turn of the day\<close>

text \<open>
  C10: opening a day conserves every position and every account: today's and the projected quantity of
  each row and the money of each account are the same before and after; quantities and money due on a date
  that is still in the window stay due on that date, and what was due on another date, and nothing else,
  becomes overdue; exactly the settled trades whose date has left the window are dropped; and the date
  only moves forward.
\<close>

theorem day_opened_conserves:
  assumes "ps_inv s" and "day_opened e s ctx = Some (st, s', ctx')" and "is_ok st"
  shows "ps_inv s' \<and> window s' = [dop_business_date e, dop_settle_d1 e, dop_settle_d2 e]
       \<and> (business_date s = 0 \<or> business_date s < business_date s')
       \<and> (\<forall>r. today_sum (custody s') r = today_sum (custody s) r \<and> projected_sum (custody s') r = projected_sum (custody s) r)
       \<and> (\<forall>a. cash_sum (cash_ledger s') a = cash_sum (cash_ledger s) a)
       \<and> (\<forall>r<cu_count (custody s). custody_reslotted (window s') (window s) (custody s) (custody s') r)
       \<and> (\<forall>a<ca_count (cash_ledger s). cash_reslotted (window s') (window s) (cash_ledger s) (cash_ledger s') a)
       \<and> trade_list (trades s') = filter (\<lambda>r. \<not> row_finished (window s') r) (trade_list (trades s))"
proof -
  note eff = day_opened_effect [OF assms]
  have n: "length (event_window e) = 3" "length (window s) = 3" using ps_inv_shapes [OF assms(1)] by (simp_all add: event_window_def)
  have "\<forall>r<cu_count (custody s). custody_reslotted (window s') (window s) (custody s) (custody s') r"
    using rotate_custody_dated [OF eff(8) _ _ _ n] ps_inv_shapes [OF assms(1)] eff(5) by auto
  moreover have "\<forall>a<ca_count (cash_ledger s). cash_reslotted (window s') (window s) (cash_ledger s) (cash_ledger s') a"
    using rotate_cash_dated [OF eff(11) _ _ _ n] ps_inv_shapes [OF assms(1)] eff(5) by auto
  ultimately show ?thesis using eff by (simp add: rotated_def cash_rotated_def event_window_def)
qed

theorem day_opened_conserves_witness:
  "ps_inv demo_next_day \<and> today_sum (custody demo_next_day) 0 = today_sum (custody demo_executed) 0
   \<and> projected_sum (custody demo_next_day) 0 = projected_sum (custody demo_executed) 0"
  using day_opened_conserves [OF demo_executed_inv(1) demo_next_day_run] by simp

section \<open>Trades\<close>

text \<open>
  C11: an accepted execution books exactly one trade. The position of the named account and instrument
  and the account's pending cash change by the trade's quantity and money in the slot of its settlement
  date, every other position and account is untouched, and one row is appended with the account, the
  instrument and the terms of the event, in state Executed. The money is the notional, rounded with the
  price factor of the named instrument, plus or minus the fees.
\<close>

theorem trade_executed_books:
  assumes "ps_inv s" and "trade_executed dbg e s ev ctx = Some (st, s', ctx')" and "is_ok st" and "i3_ok s"
  shows "ps_inv s' \<and> i3_ok s'
       \<and> (\<exists>slot<3. slot = slot_of (window s) (tex_settlement_date e)
          \<and> (\<forall>d x. position_book s' d x = (if d = tex_account e \<and> x = tex_instrument e
               then exec_buckets (compra_of e) (descoberto_of e) slot (tex_qty e) (position_book s d x) else position_book s d x))
          \<and> (\<exists>i<in_count (instruments s). \<exists>a<ca_count (cash_ledger s'). \<exists>bruto custos m.
               external_id (instruments s) ! i = tex_instrument e \<and> account_document s' ! a = tex_account e
               \<and> price_factor (instruments s) ! i \<noteq> 0
               \<and> notional_half_even (tex_qty e) (tex_price e) (price_factor (instruments s) ! i) = Some bruto \<and> fees_of e = Some custos
               \<and> m = (if compra_of e then - (bruto + custos) else bruto - custos)
               \<and> (\<forall>d. cash_book s' d = (if d = tex_account e then pend_cash slot m (cash_book s d) else cash_book s d))
               \<and> 0 < tex_qty e
               \<and> trade_list (trades s') = trade_list (trades s) @
                   [\<lparr>row_id = tex_trade_id e, row_note = tex_broker_note_id e, row_account = a, row_instrument = i, row_qty = tex_qty e,
                     row_price = tex_price e, row_cash = m, row_date = tex_settlement_date e, row_side = tex_side e, row_state = TsExecuted\<rparr>]))"
  using assms(1,2)
proof (cases rule: trade_executed_cases)
  case rejected
  with assms(3) show ?thesis by (auto simp: is_ok_def)
next
  case (booked s3 acct inst pos bruto custos)
  let ?slot = "slot_of (window s) (tex_settlement_date e)"
  have same: "position_book s3 = position_book s" "cash_book s3 = cash_book s" "trades s3 = trades s"
    using booked(1) by (auto simp: grown_def same_books_def)
  note spec = book_trade_spec [OF grown_inv [OF booked(1)] booked(19,2-11)]
  obtain m where m: "trade_cash (compra_of e) bruto custos = Some m"
    "\<forall>d. cash_book s' d = (if d = tex_account e then pend_cash ?slot m (cash_book s d) else cash_book s d)"
    "trade_list (trades s') = trade_list (trades s) @ [executed_row e acct inst m]"
    using spec(4) same by auto
  have sign: "m = (if compra_of e then - (bruto + custos) else bruto - custos)"
    using m(1) by (auto simp: trade_cash_def fx_simps bind_eq_Some_conv split: if_splits)
  have inst: "external_id (instruments s) ! inst = tex_instrument e" "price_factor (instruments s3) ! inst = price_factor (instruments s) ! inst"
    using booked(1,5,21) by (auto simp: grown_def)
  have acct: "acct < ca_count (cash_ledger s')" "account_document s' ! acct = tex_account e"
    using spec(7) booked(2,3) by (simp_all add: names_frame_def)
  have "\<exists>i<in_count (instruments s). \<exists>a<ca_count (cash_ledger s'). \<exists>bruto custos m.
               external_id (instruments s) ! i = tex_instrument e \<and> account_document s' ! a = tex_account e
               \<and> price_factor (instruments s) ! i \<noteq> 0
               \<and> notional_half_even (tex_qty e) (tex_price e) (price_factor (instruments s) ! i) = Some bruto \<and> fees_of e = Some custos
               \<and> m = (if compra_of e then - (bruto + custos) else bruto - custos)
               \<and> (\<forall>d. cash_book s' d = (if d = tex_account e then pend_cash ?slot m (cash_book s d) else cash_book s d))
               \<and> 0 < tex_qty e
               \<and> trade_list (trades s') = trade_list (trades s) @
                   [\<lparr>row_id = tex_trade_id e, row_note = tex_broker_note_id e, row_account = a, row_instrument = i, row_qty = tex_qty e,
                     row_price = tex_price e, row_cash = m, row_date = tex_settlement_date e, row_side = tex_side e, row_state = TsExecuted\<rparr>]"
    by (intro exI [of _ inst] conjI exI [of _ acct] exI [of _ bruto] exI [of _ custos] exI [of _ m])
      (use booked(12,14-16,21) inst acct sign m(2,3) in \<open>simp_all add: executed_row_def\<close>)
  with trade_executed_inv [OF assms(1,2)] assms(4) spec(3) same booked(9) show ?thesis by auto
qed

theorem trade_executed_books_witness:
  "ps_inv demo_executed \<and> i3_ok demo_executed
   \<and> position_book demo_executed 11122233344 7
     = exec_buckets True False 2 10000000000 (position_book demo_priced 11122233344 7)"
proof -
  have slot: "slot_of (window demo_priced) (tex_settlement_date demo_trade) = 2" by code_simp
  have side: "compra_of demo_trade" "\<not> descoberto_of demo_trade" "tex_qty demo_trade = 10000000000"
    "tex_account demo_trade = 11122233344" "tex_instrument demo_trade = 7"
    by (simp_all add: compra_of_def descoberto_of_def demo_trade_def Side_Buy_def)
  note eff = trade_executed_books [OF demo_priced_inv(1) demo_executed_run _ demo_priced_inv(3), unfolded slot side(3-5)]
  have ok: "is_ok kOk" by simp
  have inv: "ps_inv demo_executed" "i3_ok demo_executed" using eff [OF ok] by blast+
  obtain k where "k = 2" "\<forall>d x. position_book demo_executed d x = (if d = 11122233344 \<and> x = 7
      then exec_buckets (compra_of demo_trade) (descoberto_of demo_trade) k 10000000000 (position_book demo_priced d x)
      else position_book demo_priced d x)"
    using eff [OF ok] by (elim exE conjE) (rule that)
  with inv side(1,2) show ?thesis by simp
qed

lemma trade_ids_inj:
  assumes "ps_inv s" and "t < tr_count (trades s)" and "u < tr_count (trades s)" and "trade_id (trades s) ! t = trade_id (trades s) ! u"
  shows "t = u"
proof -
  let ?ids = "take (tr_count (trades s)) (trade_id (trades s))"
  have "indexed (trade_index s) ?ids" using assms(1) by (simp add: ps_inv_def indexes_ok_def trade_rows_def)
  from indexed_distinct [OF this] have d: "distinct ?ids" .
  have "tr_count (trades s) \<le> length (trade_id (trades s))" using ps_inv_shapes [OF assms(1)] by (simp add: shape_defs)
  then have "?ids ! t = ?ids ! u" "t < length ?ids" "u < length ?ids" using assms(2-4) by simp_all
  with nth_eq_iff_index_eq [OF d] show ?thesis by blast
qed

text \<open>
  C12: an accepted allocation moves one executed trade, whole. The row becomes Allocated and nothing else
  of the trade table changes but, when the accounts differ, its owner, who is then the taker; in that case
  the quantity of the trade's instrument and the money leave the giver's books and enter the taker's in the
  slot of the settlement date, and no other book changes. When the giver owned the trade, the taker owns it
  afterwards and the chains of trades stay well-formed.
\<close>

theorem trade_allocated_moves:
  assumes "ps_inv s" and "trade_allocated dbg e s ctx = Some (st, s', ctx')" and "is_ok st"
  shows "ps_inv s' \<and> (\<exists>t<tr_count (trades s). trade_id (trades s) ! t = tal_trade_id e
       \<and> tr_state (trades s) ! t = TsExecuted \<and> tr_qty (trades s) ! t = tal_qty e
       \<and> (if tal_from_account e = tal_to_account e
          then trade_list (trades s') = (trade_list (trades s))[t := (trade_row (trades s) t)\<lparr>row_state := TsAllocated\<rparr>]
             \<and> position_book s' = position_book s \<and> cash_book s' = cash_book s
          else slot_of (window s) (tal_settlement_date e) < 3
             \<and> (\<exists>a<ca_count (cash_ledger s'). account_document s' ! a = tal_to_account e
                  \<and> trade_list (trades s') = (trade_list (trades s))[t := (trade_row (trades s) t)\<lparr>row_account := a, row_state := TsAllocated\<rparr>])
             \<and> (\<forall>d x. position_book s' d x = moved_position e (slot_of (window s) (tal_settlement_date e))
                  (external_id (instruments s) ! (tr_instrument (trades s) ! t)) d x (position_book s d x))
             \<and> (\<forall>d. cash_book s' d = moved_cash e (slot_of (window s) (tal_settlement_date e)) d (cash_book s d)))
       \<and> (owner_of s t = tal_from_account e \<longrightarrow> owner_of s' t = tal_to_account e \<and> (lists_ok s \<longrightarrow> lists_ok s')))"
proof -
  have ids: "t' = t" if "t < tr_count (trades s)" "t' < tr_count (trades s)" "trade_id (trades s) ! t' = trade_id (trades s) ! t" for t t'
    using trade_ids_inj [OF assms(1) that(2,1)] that(3) by simp
  have lists: "lists_ok s'" if "lists_ok s" "t < tr_count (trades s)" "trade_id (trades s) ! t = tal_trade_id e" "owner_of s t = tal_from_account e" for t
    using trade_allocated_inv(3) [OF assms(1,2) that(1)] ids [OF that(2)] that(3,4) by metis
  show ?thesis
    using assms(1,2)
  proof (cases rule: trade_allocated_cases)
    case rejected
    with assms(3) show ?thesis by (auto simp: is_ok_def)
  next
    case (confirmed s2 t)
    note same = grown_trades [OF confirmed(1)] grown_same [OF confirmed(1), unfolded same_books_def]
    have lst: "trade_list (trades s') = (trade_list (trades s))[t := (trade_row (trades s) t)\<lparr>row_state := TsAllocated\<rparr>]"
      using set_trade_state_list [OF grown_inv [OF confirmed(1)], of t TsAllocated] same confirmed(2,7) by (simp add: trade_list_nth)
    have "tr_account (trades s) ! t < ca_count (cash_ledger s)" using assms(1) confirmed(2) by (simp add: ps_inv_def refs_ok_def)
    then have own: "owner_of s' t = owner_of s t" using confirmed(1,7) same by (auto simp: owner_of_def grown_def set_trade_state_def)
    show ?thesis
      by (intro conjI exI [of _ t])
        (use confirmed(2-7) same lst own lists [OF _ confirmed(2,3)] set_trade_state_inv [OF grown_inv [OF confirmed(1)]] in auto)
  next
    case (moved s4 s5 t de para pd pp)
    let ?slot = "slot_of (window s) (tal_settlement_date e)"
    note inv4 = grown_inv [OF moved(1)] and same = grown_trades [OF moved(1)] grown_same [OF moved(1), unfolded same_books_def]
    have t4: "t < tr_count (trades s4)" using moved(2) same by simp
    note spec = move_trade_spec [OF inv4 moved(19) moved(6-17) t4]
    have fin: "s' = set_trade_state s5 t TsAllocated"
      using moved(21) assms(3) by (auto simp: rv_check_def ret_def is_ok_def fail_def split: if_splits)
    have ne: "tal_from_account e \<noteq> tal_to_account e" using account_names_inj [OF inv4 moved(6,8)] moved(7,9,10) by auto
    have t5: "t < tr_count (trades s5)" using t4 spec by simp
    have lst: "trade_list (trades s') = (trade_list (trades s))[t := (trade_row (trades s) t)\<lparr>row_account := para, row_state := TsAllocated\<rparr>]"
      using set_trade_state_list [OF spec(1) t5, of TsAllocated] spec(7) fin same moved(2) by (simp add: trade_list_nth) (simp add: trade_list_def)
    have "tr_count (trades s') = tr_count (trades s)" using spec(8) fin same by (simp add: set_trade_state_def)
    then have "trade_row (trades s') t = (trade_row (trades s) t)\<lparr>row_account := para, row_state := TsAllocated\<rparr>"
      using arg_cong [OF lst, of "\<lambda>xs. xs ! t"] moved(2) by (simp add: trade_list_def)
    then have owner: "tr_account (trades s') ! t = para" using arg_cong [of "trade_row (trades s') t" _ row_account] by (simp add: trade_row_def)
    have names: "para < ca_count (cash_ledger s')" "account_document s' ! para = tal_to_account e"
      using spec(10) moved(8,9) fin by (simp_all add: names_frame_def set_trade_state_def)
    have "tr_instrument (trades s) ! t < in_count (instruments s)" using assms(1) moved(2) by (simp add: ps_inv_def refs_ok_def)
    then have ext: "external_id (instruments s4) ! (tr_instrument (trades s) ! t) = external_id (instruments s) ! (tr_instrument (trades s) ! t)"
      using moved(1) by (simp add: grown_def)
    have taker: "\<exists>a<ca_count (cash_ledger s'). account_document s' ! a = tal_to_account e
        \<and> trade_list (trades s') = (trade_list (trades s))[t := (trade_row (trades s) t)\<lparr>row_account := a, row_state := TsAllocated\<rparr>]"
      using names lst by blast
    have books: "\<forall>d x. position_book s' d x = moved_position e ?slot (external_id (instruments s) ! (tr_instrument (trades s) ! t)) d x (position_book s d x)"
      "\<forall>d. cash_book s' d = moved_cash e ?slot d (cash_book s d)"
      using spec(3,4) set_trade_state_inv [OF spec(1)] fin same ext by simp_all
    have own: "owner_of s' t = tal_to_account e" using owner names(2) by (simp add: owner_of_def)
    show ?thesis
      by (intro conjI exI [of _ t])
        (use moved(2-5,17) ne own taker books lists [OF _ moved(2,3)] set_trade_state_inv [OF spec(1)] fin in auto)
  qed
qed

theorem trade_allocated_moves_witness:
  "ps_inv demo_moved \<and> (\<exists>t<tr_count (trades demo_executed). trade_id (trades demo_executed) ! t = tal_trade_id demo_move
     \<and> (\<forall>d x. position_book demo_moved d x = moved_position demo_move 2
          (external_id (instruments demo_executed) ! (tr_instrument (trades demo_executed) ! t)) d x (position_book demo_executed d x)))"
proof -
  have "slot_of (window demo_executed) (tal_settlement_date demo_move) = 2" by code_simp
  moreover have "tal_from_account demo_move \<noteq> tal_to_account demo_move" by (simp add: demo_move_def demo_allocation_def)
  ultimately show ?thesis using trade_allocated_moves [OF demo_executed_inv(1) demo_moved_run] by auto
qed

lemma in_batch_moves:
  assumes "ps_inv s" and "grown s s1" and "a < ca_count (cash_ledger s1)" and "account_document s1 ! a = doc" and "t < tr_count (trades s)"
  shows "moves (in_batch a date) TgNet (trades s) t
       \<longleftrightarrow> owner_of s t = doc \<and> settlement_date (trades s) ! t = date \<and> tr_state (trades s) ! t = TsAllocated"
proof -
  let ?b = "tr_account (trades s) ! t"
  have b: "?b < ca_count (cash_ledger s)" using assms(1,5) by (simp add: ps_inv_def refs_ok_def)
  have doc: "account_document s1 ! ?b = account_document s ! ?b" "?b < ca_count (cash_ledger s1)" using assms(2) b by (auto simp: grown_def)
  have "?b = a \<longleftrightarrow> owner_of s t = doc"
    using account_names_inj [OF grown_inv [OF assms(2)] doc(2) assms(3)] doc(1) assms(4) by (auto simp: owner_of_def)
  moreover have "is_valid g TgNet \<longleftrightarrow> g = TsAllocated" for g by (cases g) (simp_all add: is_valid_def)
  ultimately show ?thesis by (auto simp: moves_def in_batch_def)
qed

lemma batch_netted_total:
  assumes "ps_inv s" and "lists_ok s"
  shows "\<exists>st s'. batch_netted e s ctx = Some (st, s', ctx) \<and> ps_inv s' \<and> lists_ok s'
       \<and> position_book s' = position_book s \<and> cash_book s' = cash_book s
       \<and> (is_ok st \<longrightarrow> (\<forall>t<tr_count (trades s). tr_state (trades s') ! t =
            (if owner_of s t = bnt_account e \<and> settlement_date (trades s) ! t = bnt_settlement_date e \<and> tr_state (trades s) ! t = TsAllocated
             then TsNetted else tr_state (trades s) ! t)))"
proof -
  obtain a s1 where ia: "intern_account s (bnt_account e) = (a, s1)" by fastforce
  note g = intern_account_grown [OF assms(1) ia]
  have "\<exists>r. batch_netted e s ctx = Some r"
  proof (cases "a = kEmpty")
    case False
    from advance_account [OF grown_inv [OF g(1)] _ _ in_batch_blind, of a a "bnt_settlement_date e" TgNet] g(1,2) assms(2) False
    show ?thesis by (auto simp: batch_netted_def ia Let_def ret_def grown_def in_batch_def)
  qed (simp add: batch_netted_def ia ret_def)
  then obtain st s' c where run: "batch_netted e s ctx = Some (st, s', c)" by (metis prod_cases3)
  have c: "c = ctx" using assms(1) run by (cases rule: batch_netted_cases) simp_all
  have "is_ok st \<longrightarrow> (\<forall>t<tr_count (trades s). tr_state (trades s') ! t =
            (if owner_of s t = bnt_account e \<and> settlement_date (trades s) ! t = bnt_settlement_date e \<and> tr_state (trades s) ! t = TsAllocated
             then TsNetted else tr_state (trades s) ! t))"
    using assms(1) run
  proof (cases rule: batch_netted_cases)
    case (rejected s1)
    then show ?thesis by (auto simp: is_ok_def)
  next
    case (netted s2 acct sts n)
    have tr: "trades s2 = trades s" using grown_trades [OF netted(1)] by blast
    have "lists_ok s2" using netted(1) assms(2) by (simp add: grown_def)
    from advance_account [OF grown_inv [OF netted(1)] this netted(2) in_batch_blind, of acct "bnt_settlement_date e" TgNet, unfolded tr]
    obtain sts' m where adv: "advance_loop (tr_capacity (trades s) + 1) (in_batch acct (bnt_settlement_date e)) TgNet (account_first_trade s2 ! acct)
          (trades s) 0 = Some ((trades s)\<lparr>tr_state := sts'\<rparr>, m)"
      and "\<forall>t<tr_count (trades s). sts' ! t = (if moves (in_batch acct (bnt_settlement_date e)) TgNet (trades s) t
        then next_state (tr_state (trades s) ! t) TgNet else tr_state (trades s) ! t)"
      by (auto simp: in_batch_def simp del: advance_loop.simps)
    moreover have "sts' = sts" using adv netted(6) arg_cong [of _ _ tr_state] by fastforce
    moreover have "tr_state (trades s') = sts" using netted(10) by auto
    ultimately show ?thesis using in_batch_moves [OF assms(1) netted(1-3)] by auto
  qed
  with run c batch_netted_inv [OF assms(1) run] assms(2) show ?thesis by auto
qed

text \<open>
  C13: a netting batch returns after every run that starts with well-formed chains of trades and in which
  each allocation is made by the account that owns the trade: the account's chain then ends. The batch moves
  no quantity and no money, and when accepted it nets exactly the account's allocated trades of the
  settlement date. The chains are well-formed after initialisation; an allocation that names an account
  that does not own the trade can close a chain into a cycle, on which the loop of the code does not end,
  so such runs are excluded.
\<close>

theorem batch_netted_returns:
  assumes "ps_inv s0" and "lists_ok s0" and "owner_run dbg rtl cd s0 s"
  shows "\<exists>st s'. batch_netted e s ctx = Some (st, s', ctx) \<and> ps_inv s' \<and> lists_ok s'
       \<and> position_book s' = position_book s \<and> cash_book s' = cash_book s
       \<and> (is_ok st \<longrightarrow> (\<forall>t<tr_count (trades s). tr_state (trades s') ! t =
            (if owner_of s t = bnt_account e \<and> settlement_date (trades s) ! t = bnt_settlement_date e \<and> tr_state (trades s) ! t = TsAllocated
             then TsNetted else tr_state (trades s) ! t)))"
  using owner_run_keeps [OF assms(3,1,2)] by (intro batch_netted_total) simp_all

theorem batch_netted_returns_witness:
  "\<exists>st s'. batch_netted demo_batch demo_allocated demo_ctx = Some (st, s', demo_ctx) \<and> ps_inv s' \<and> lists_ok s'"
  using batch_netted_returns [OF demo_allocated_inv(1,2) owner_run.start, of demo_batch demo_ctx] by blast

definition bl_total :: "Balances \<Rightarrow> int" where
  "bl_total b = bl_cash b + bl_overdue b + sum_list (bl_pending b)"

lemma settle_balances_total:
  assumes "g = TgBuyIn \<or> slot < length (bl_pending b)" and "outcome_trigger o' = Some g"
  shows "bl_total (settle_balances g slot m b) = bl_total b"
proof -
  have "g = TgSettle \<or> g = TgFail \<or> g = TgBuyIn" using assms(2) by (auto simp: outcome_trigger_def split: if_splits)
  with assms(1) show ?thesis by (auto simp: bl_total_def settle_balances_def Let_def sum_list_slot)
qed

lemma cash_book_slots: "length (bl_pending (cash_book s d)) = 3"
  by (auto simp: cash_book_def zero_balances_def balances_row_def row_slots_def split: option.split)

text \<open>
  C14: a settlement outcome changes one position and one account by the effect of its trigger, and is only
  accepted when the bucket it draws from covers the quantity. Delivery and buy-in change today's quantity
  by exactly the settled quantity and a failure changes nothing of it; the projected quantity and the
  total of the account's cash, pending and overdue money never change.
\<close>

theorem trade_settled_effect:
  assumes "ps_inv s" and "trade_settled dbg e s ev ctx = Some (st, s', ctx')" and "is_ok st"
  shows "ps_inv s' \<and> (\<exists>g p slot. outcome_trigger (tst_outcome e) = Some g \<and> slot = slot_of (window s) (tst_settlement_date e)
       \<and> settle_covered g (tst_side e = Side_Buy) slot (tst_qty e) (position_book s (tst_account e) (tst_instrument e))
       \<and> (\<forall>d x. position_book s' d x = (if d = tst_account e \<and> x = tst_instrument e
            then settle_buckets g (tst_side e = Side_Buy) slot (tst_qty e) p (position_book s d x) else position_book s d x))
       \<and> (\<forall>d. cash_book s' d = (if d = tst_account e then settle_balances g slot (tst_cash_amount e) (cash_book s d) else cash_book s d))
       \<and> bk_today (position_book s' (tst_account e) (tst_instrument e))
           = bk_today (position_book s (tst_account e) (tst_instrument e))
             + (if g = TgFail then 0 else if tst_side e = Side_Buy then tst_qty e else - tst_qty e)
       \<and> bk_projected (position_book s' (tst_account e) (tst_instrument e)) = bk_projected (position_book s (tst_account e) (tst_instrument e))
       \<and> bl_total (cash_book s' (tst_account e)) = bl_total (cash_book s (tst_account e)))"
  using assms(1,2)
proof (cases rule: trade_settled_books)
  case rejected
  with assms(3) show ?thesis by (auto simp: is_ok_def)
next
  case (settled g p pos)
  let ?slot = "slot_of (window s) (tst_settlement_date e)" and ?b = "position_book s (tst_account e) (tst_instrument e)"
  note sums = settle_buckets_sums [OF settled(2,1), of p] and total = settle_balances_total [OF _ settled(1), of ?slot "cash_book s (tst_account e)"]
  show ?thesis
    using settled(1,2,5,7,8) sums total settled(4) by (intro conjI exI [of _ g] exI [of _ p] exI [of _ ?slot])
      (auto simp: position_book_slots cash_book_slots)
qed

theorem trade_settled_effect_witness:
  "ps_inv demo_settled \<and> bk_projected (position_book demo_settled 11122233344 7) = bk_projected (position_book demo_netted 11122233344 7)"
  using trade_settled_effect [OF demo_netted_inv(1) demo_settled_run] by (auto simp: demo_settlement_def)

section \<open>Corporate actions and income\<close>

text \<open>
  C15: a corporate action is applied to an account once for as long as its key is retained. An accepted
  one was not applied before; and after it, through any run of events in which the set of keys rotates at
  most once, any further event with the same action and account is refused and leaves every book as it
  was. The second rotation forgets the key: the retention is between one and two windows of days.
\<close>

theorem corporate_action_once:
  assumes "ps_inv s" and "corporate_action dbg rtl e s ev ctx = Some (st, s', ctx')" and "is_ok st"
    and "events_run dbg rtl cd s' n s1" and "n \<le> 1"
    and "corporate_action dbg rtl e2 s1 ev2 ctx2 = Some (st2, s2, ctx2')"
    and "cac_action_id e2 = cac_action_id e" and "cac_account e2 = cac_account e"
  shows "\<not> action_applied s (cac_action_id e) (cac_account e)
       \<and> code st2 \<in> {ArenaExhausted, InvalidArgument, AlreadyApplied} \<and> position_book s2 = position_book s1
       \<and> cash_book s2 = cash_book s1 \<and> trades s2 = trades s1"
proof -
  have inv: "ps_inv s'" using corporate_action_inv(1) [OF assms(1,2)] .
  note kept = run_keeps_action [OF assms(4) inv corporate_action_current [OF assms(1-3)]]
  have inv1: "ps_inv s1" and "action_applied s1 (cac_action_id e2) (cac_account e2)" using kept assms(5,7,8) by simp_all
  with corporate_action_again [OF inv1 assms(6)] corporate_action_inv(4) [OF inv1 assms(6)] corporate_action_records(2) [OF assms(1-3)]
  show ?thesis by blast
qed


text \<open>
  C17: a dividend moves money of one account only: the net amount becomes receivable when it accrues and
  turns into cash when it is paid, it is gross less tax, an accepted one was not applied before and is
  afterwards, and a refused one changes no book. The key is the action and the account, whatever the stage,
  so a payment that follows an accrual of the same action is refused.
\<close>

theorem dividend_paid_credits:
  assumes "ps_inv s" and "dividend_paid e s ctx = Some (st, s', ctx')"
  shows "ps_inv s' \<and> position_book s' = position_book s \<and> trades s' = trades s
       \<and> (\<forall>d. cash_book s' d = (if is_ok st \<and> d = dvp_account e then income_money e (cash_book s d) else cash_book s d))
       \<and> (is_ok st \<longrightarrow> dvp_gross_amount e - dvp_withheld_tax e = dvp_net_amount e
            \<and> \<not> income_applied s (dvp_action_id e) (dvp_account e) \<and> income_applied s' (dvp_action_id e) (dvp_account e))"
  using dividend_paid_inv [OF assms] by blast

text \<open>The two stages of one income cannot both be accepted.\<close>

lemma paid_after_accrued_refused:
  assumes "ps_inv s" and "dividend_paid e s ctx = Some (st, s', ctx')" and "is_ok st"
    and "dividend_paid e2 s' ctx2 = Some (st2, s2, ctx2')" and "dvp_action_id e2 = dvp_action_id e" and "dvp_account e2 = dvp_account e"
  shows "\<not> is_ok st2"
proof -
  note first = dividend_paid_inv [OF assms(1,2)]
  have inv: "ps_inv s'" and "income_applied s' (dvp_action_id e2) (dvp_account e2)" using first assms(3,5,6) by (blast, simp)
  with dividend_paid_inv [OF inv assms(4)] show ?thesis by blast
qed

definition demo_dividend :: DividendPaid where
  "demo_dividend = \<lparr>dvp_action_id = 77, dvp_account = 11122233344, dvp_qty_basis = 10000000000, dvp_rate_per_share = 5000,
     dvp_gross_amount = 500000, dvp_withheld_tax = 75000, dvp_net_amount = 425000, dvp_instrument = 7, dvp_ex_date = 20260915,
     dvp_payment_date = 20260930, dvp_kind = 1, dvp_stage = 1\<rparr>"

lemma demo_dividend_ok: "map_option fst (dividend_paid demo_dividend demo_settled demo_ctx) = Some kOk"
  by code_simp

lemma demo_action_again: "map_option fst (corporate_action True False demo_action demo_split demo_event demo_ctx) = Some (fail AlreadyApplied 9)"
  by code_simp

theorem dividend_paid_credits_witness:
  "\<exists>s' c. dividend_paid demo_dividend demo_settled demo_ctx = Some (kOk, s', c) \<and> ps_inv s'
     \<and> cash_book s' 11122233344 = income_money demo_dividend (cash_book demo_settled 11122233344)"
proof -
  obtain s' c where run: "dividend_paid demo_dividend demo_settled demo_ctx = Some (kOk, s', c)"
    using demo_dividend_ok by (cases "dividend_paid demo_dividend demo_settled demo_ctx") auto
  with dividend_paid_credits [OF demo_settled_inv(1) run] show ?thesis by (auto simp: demo_dividend_def)
qed

theorem corporate_action_once_witness:
  "\<exists>s2 c. corporate_action True False demo_action demo_split demo_event demo_ctx = Some (fail AlreadyApplied 9, s2, c)
     \<and> position_book s2 = position_book demo_split \<and> cash_book s2 = cash_book demo_split"
proof -
  obtain s2 c where run: "corporate_action True False demo_action demo_split demo_event demo_ctx = Some (fail AlreadyApplied 9, s2, c)"
    using demo_action_again by (cases "corporate_action True False demo_action demo_split demo_event demo_ctx") auto
  with corporate_action_once [OF demo_settled_inv(1) demo_split_run _ events_run.start _ run] show ?thesis by auto
qed


end
