(* ===== verification/RV_Crc.thy ===== *)
theory RV_Crc
  imports RV_Bytes "HOL-Library.Code_Target_Nat"
begin

text \<open>
  \<^verbatim>\<open>src/base/crc32c.cpp\<close>: the Castagnoli checksum, by a table of 256 entries and by the
  processor's instruction.  The two instructions are not code of the repository, so they are
  parameters, and the locale \<open>crc_unit\<close> states what the processor's manual says of them.
\<close>

section \<open>The table\<close>

definition kPoly :: u32 where "kPoly = 0x82F63B78"

definition crc_shift :: "u32 \<Rightarrow> u32" where
  "crc_shift c = (if c AND 1 \<noteq> 0 then kPoly XOR drop_bit 1 c else drop_bit 1 c)"

primrec crc_bits :: "nat \<Rightarrow> u32 \<Rightarrow> u32" where
  "crc_bits 0 c = c"
| "crc_bits (Suc k) c = crc_bits k (crc_shift c)"

definition crc_table :: "u32 list" where
  "crc_table = map (\<lambda>i. crc_bits 8 (of_nat i)) [0..<256]"

definition crc_step :: "u32 \<Rightarrow> u8 \<Rightarrow> u32" where
  "crc_step c b = crc_table ! unat ((c XOR ucast b) AND 0xFF) XOR drop_bit 8 c"

definition crc32c_table :: "u32 \<Rightarrow> u8 list \<Rightarrow> u32" where
  "crc32c_table crc bs = NOT (foldl crc_step (NOT crc) bs)"

section \<open>The instruction\<close>

text \<open>
  The byte loop up to an aligned address, the loop over words of eight bytes, and the byte loop of
  the rest.  \<^verbatim>\<open>c\<close> is a 64-bit variable whose low half is the running value.
\<close>

definition word_of :: "u8 list \<Rightarrow> u64" where
  "word_of bs = of_nat (load_le 8 bs)"

primrec hw_bytes :: "(u32 \<Rightarrow> u8 \<Rightarrow> u32) \<Rightarrow> u64 \<Rightarrow> u8 list \<Rightarrow> u64" where
  "hw_bytes crc_u8 c [] = c"
| "hw_bytes crc_u8 c (b # bs) = hw_bytes crc_u8 (ucast (crc_u8 (ucast c) b)) bs"

fun hw_words :: "(u64 \<Rightarrow> u64 \<Rightarrow> u64) \<Rightarrow> u64 \<Rightarrow> u8 list \<Rightarrow> u64 \<times> u8 list" where
  "hw_words crc_u64 c bs =
     (if length bs < 8 then (c, bs) else hw_words crc_u64 (crc_u64 c (word_of bs)) (drop 8 bs))"

declare hw_words.simps [simp del]

definition crc32c_hw :: "(u32 \<Rightarrow> u8 \<Rightarrow> u32) \<Rightarrow> (u64 \<Rightarrow> u64 \<Rightarrow> u64) \<Rightarrow> nat \<Rightarrow> u32 \<Rightarrow> u8 list \<Rightarrow> u32" where
  "crc32c_hw crc_u8 crc_u64 addr crc bs =
     (let head = (if addr mod 8 = 0 then 0 else 8 - addr mod 8);
          c1 = hw_bytes crc_u8 (ucast (NOT crc)) (take head bs);
          (c2, rest) = hw_words crc_u64 c1 (drop head bs)
      in NOT (ucast (hw_bytes crc_u8 c2 rest)))"

definition crc32c :: "bool \<Rightarrow> (u32 \<Rightarrow> u8 \<Rightarrow> u32) \<Rightarrow> (u64 \<Rightarrow> u64 \<Rightarrow> u64) \<Rightarrow> nat \<Rightarrow> u32 \<Rightarrow> u8 list \<Rightarrow> u32" where
  "crc32c g_hw crc_u8 crc_u64 addr crc bs =
     (if g_hw then crc32c_hw crc_u8 crc_u64 addr crc bs else crc32c_table crc bs)"

section \<open>Eight shifts are one table step\<close>

lemma odd_bit0: "(x AND 1 \<noteq> 0) = bit x 0" for x :: u32
  by (simp add: and_one_eq odd_iff_mod_2_eq_one bit_0)

lemma crc_shift_xor: "crc_shift (a XOR b) = crc_shift a XOR crc_shift b"
  unfolding crc_shift_def odd_bit0 by (rule bit_eqI) (auto simp: bit_xor_iff bit_drop_bit_eq)

lemma crc_bits_xor: "crc_bits n (a XOR b) = crc_bits n a XOR crc_bits n b"
  by (induction n arbitrary: a b) (simp_all add: crc_shift_xor)

lemma crc_bits_high: "(\<forall>k<n. \<not> bit a k) \<Longrightarrow> crc_bits n a = drop_bit n a"
proof (induction n arbitrary: a)
  case (Suc n)
  then have "\<not> bit a 0" and "\<forall>k<n. \<not> bit (drop_bit 1 a) k" by (auto simp: bit_drop_bit_eq)
  with Suc.IH show ?case by (simp add: crc_shift_def odd_bit0)
qed simp

lemma ff_mask: "(0xFF :: u32) = mask 8"
  by (simp add: mask_eq_exp_minus_1)

lemma low_byte: "(x :: u32) = (x AND mask 8) XOR (x AND NOT (mask 8))" "unat (x AND mask 8) < 256"
proof -
  show "x = (x AND mask 8) XOR (x AND NOT (mask 8))" by (rule bit_eqI) (auto simp: bit_xor_iff bit_and_iff bit_not_iff)
  have "x AND mask 8 = take_bit 8 x" by (simp add: take_bit_eq_mask)
  then show "unat (x AND mask 8) < 256" by (simp add: unsigned_take_bit_eq take_bit_nat_def)
qed

lemma crc_step_bits: "crc_step c b = crc_bits 8 (c XOR ucast b)"
proof -
  let ?x = "c XOR ucast b"
  have "crc_bits 8 ?x = crc_bits 8 (?x AND mask 8) XOR crc_bits 8 (?x AND NOT (mask 8))"
    by (subst low_byte(1)) (rule crc_bits_xor)
  also have "crc_bits 8 (?x AND NOT (mask 8)) = drop_bit 8 (?x AND NOT (mask 8))"
    by (rule crc_bits_high) (auto simp: bit_and_iff bit_not_iff bit_mask_iff)
  also have "\<dots> = drop_bit 8 c"
    by (rule bit_eqI) (auto simp: bit_drop_bit_eq bit_and_iff bit_not_iff bit_mask_iff bit_xor_iff bit_ucast_iff dest: bit_imp_le_length)
  also have "crc_bits 8 (?x AND mask 8) = crc_table ! unat (?x AND mask 8)"
    using low_byte(2) [of ?x] by (simp add: crc_table_def)
  finally show ?thesis by (simp add: crc_step_def ff_mask)
qed

section \<open>The two paths agree\<close>

text \<open>
  The instruction on a byte shifts the value out bit by bit; on a word it does so for each byte, the
  lowest first, and clears the upper half.
\<close>

locale crc_unit =
  fixes crc_u8 :: "u32 \<Rightarrow> u8 \<Rightarrow> u32" and crc_u64 :: "u64 \<Rightarrow> u64 \<Rightarrow> u64"
  assumes u8: "crc_u8 c b = crc_bits 8 (c XOR ucast b)"
    and u64: "length bs = 8 \<Longrightarrow> crc_u64 d (word_of bs) = ucast (foldl crc_u8 (ucast d) bs)"
begin

lemma u8_step: "crc_u8 = crc_step"
  by (simp add: fun_eq_iff u8 crc_step_bits)

lemma narrow: "(ucast (ucast (x :: u32) :: u64) :: u32) = x"
  by (rule bit_eqI) (auto simp: bit_ucast_iff dest: bit_imp_le_length)

lemma bytes_fold: "ucast (hw_bytes crc_u8 c bs) = foldl crc_step (ucast c) bs"
  by (induction bs arbitrary: c) (simp_all add: narrow u8_step)

lemma load_le_take: "load_le n (take n bs) = load_le n bs"
  by (induction n arbitrary: bs) (simp_all add: tl_take hd_take)

lemma words_fold: "hw_words crc_u64 c bs = (c', rest) \<Longrightarrow> foldl crc_step (ucast c') rest = foldl crc_step (ucast c) bs"
proof (induction bs arbitrary: c rule: length_induct)
  case (1 bs)
  show ?case
  proof (cases "length bs < 8")
    case True
    with 1(2) show ?thesis by (subst (asm) hw_words.simps) simp
  next
    case False
    let ?c = "crc_u64 c (word_of bs)"
    have "word_of bs = word_of (take 8 bs)" by (simp add: word_of_def load_le_take)
    then have c: "?c = ucast (foldl crc_step (ucast c) (take 8 bs))" using u64 [of "take 8 bs" c] False by (simp add: u8_step)
    have "hw_words crc_u64 ?c (drop 8 bs) = (c', rest)" using 1(2) False by (subst (asm) hw_words.simps) simp
    with 1(1) False have "foldl crc_step (ucast c') rest = foldl crc_step (ucast ?c) (drop 8 bs)" by simp
    also have "\<dots> = foldl crc_step (ucast c) (take 8 bs @ drop 8 bs)" by (simp only: c narrow foldl_append)
    finally show ?thesis by simp
  qed
qed

lemma hw_table: "crc32c_hw crc_u8 crc_u64 addr crc bs = crc32c_table crc bs"
proof -
  define head where "head = (if addr mod 8 = 0 then 0 else 8 - addr mod 8)"
  define c1 where "c1 = hw_bytes crc_u8 (ucast (NOT crc)) (take head bs)"
  obtain c2 rest where w: "hw_words crc_u64 c1 (drop head bs) = (c2, rest)" by fastforce
  have "ucast (hw_bytes crc_u8 c2 rest) = foldl crc_step (NOT crc) (take head bs @ drop head bs)"
    by (simp only: bytes_fold words_fold [OF w] foldl_append) (simp add: c1_def bytes_fold narrow)
  then show ?thesis unfolding crc32c_hw_def crc32c_table_def Let_def head_def [symmetric] c1_def [symmetric] w by simp
qed

end

text \<open>An instance: the bit-by-bit reading of the instructions.\<close>

definition sw_u8 :: "u32 \<Rightarrow> u8 \<Rightarrow> u32" where
  "sw_u8 c b = crc_bits 8 (c XOR ucast b)"

definition sw_u64 :: "u64 \<Rightarrow> u64 \<Rightarrow> u64" where
  "sw_u64 c w = ucast (foldl sw_u8 (ucast c) (store_le 8 (unat w)))"

lemma word_of_bytes: "length bs = 8 \<Longrightarrow> store_le 8 (unat (word_of bs)) = bs"
  using load_le_bound [of 8 bs] store_load_le [of bs 8] by (simp add: word_of_def unat_of_nat take_bit_nat_eq_self)

interpretation sse: crc_unit sw_u8 sw_u64
  by unfold_locales (simp_all add: sw_u8_def sw_u64_def word_of_bytes)

section \<open>What the checksum detects\<close>

lemma crc_table_append: "crc32c_table (crc32c_table crc xs) ys = crc32c_table crc (xs @ ys)"
  by (simp add: crc32c_table_def)

lemma xor_cancel: "z XOR x = z XOR y \<longleftrightarrow> x = (y :: u32)"
proof
  assume "z XOR x = z XOR y"
  then have "z XOR (z XOR x) = z XOR (z XOR y)" by simp
  then show "x = y" by (simp add: xor.assoc [symmetric])
qed simp

lemma crc_shift_inj: "crc_shift a = crc_shift b \<Longrightarrow> a = b"
proof -
  assume eq: "crc_shift a = crc_shift b"
  have "bit (crc_shift x) 31 = bit x 0" for x
    by (simp add: crc_shift_def odd_bit0 bit_xor_iff bit_drop_bit_eq kPoly_def bit_numeral_word_iff) (auto dest: bit_imp_le_length)
  with eq have low: "bit a 0 = bit b 0" by metis
  with eq have "drop_bit 1 a = drop_bit 1 b"
    by (cases "bit a 0") (simp_all add: crc_shift_def odd_bit0 xor_cancel)
  then have "bit a (Suc n) = bit b (Suc n)" for n by (metis bit_drop_bit_eq comp_apply plus_1_eq_Suc)
  with low show "a = b" by (intro bit_eqI) (metis not0_implies_Suc)
qed

lemma crc_bits_inj: "crc_bits n a = crc_bits n b \<Longrightarrow> a = b"
  by (induction n arbitrary: a b) (auto dest: crc_shift_inj)

lemma crc_step_inj: "crc_step c b = crc_step d b \<Longrightarrow> c = d" "crc_step c x = crc_step c y \<Longrightarrow> x = y"
proof -
  show "crc_step c b = crc_step d b \<Longrightarrow> c = d"
    by (auto simp: crc_step_bits xor.commute [of _ "ucast b"] xor_cancel dest!: crc_bits_inj)
  assume "crc_step c x = crc_step c y"
  then have "(ucast x :: u32) = ucast y" by (auto simp: crc_step_bits xor_cancel dest!: crc_bits_inj)
  then have "uint (ucast x :: u32) = uint (ucast y :: u32)" by simp
  then show "x = y" by (simp add: unsigned_ucast_eq take_bit_int_eq_self uint_lt2p [THEN order_less_le_trans] word_uint_eq_iff)
qed

lemma foldl_crc_inj: "foldl crc_step c xs = foldl crc_step d xs \<Longrightarrow> c = d"
  by (induction xs arbitrary: c d) (auto dest: crc_step_inj(1))

lemma foldl_crc_update: "i < length xs \<Longrightarrow> b \<noteq> xs ! i \<Longrightarrow> foldl crc_step c (xs[i := b]) \<noteq> foldl crc_step c xs"
proof
  assume i: "i < length xs" "b \<noteq> xs ! i" and eq: "foldl crc_step c (xs[i := b]) = foldl crc_step c xs"
  let ?d = "foldl crc_step c (take i xs)"
  have "foldl crc_step (crc_step ?d b) (drop (Suc i) xs) = foldl crc_step (crc_step ?d (xs ! i)) (drop (Suc i) xs)"
    using eq i(1) by (subst (asm) (2) id_take_nth_drop [OF i(1)]) (simp add: upd_conv_take_nth_drop)
  with i(2) foldl_crc_inj crc_step_inj(2) show False by blast
qed

lemma crc_table_update: "i < length xs \<Longrightarrow> b \<noteq> xs ! i \<Longrightarrow> crc32c_table c (xs[i := b]) \<noteq> crc32c_table c xs"
proof
  assume i: "i < length xs" "b \<noteq> xs ! i" and "crc32c_table c (xs[i := b]) = crc32c_table c xs"
  then have "NOT (NOT (foldl crc_step (NOT c) (xs[i := b]))) = NOT (NOT (foldl crc_step (NOT c) xs))" by (simp add: crc32c_table_def)
  with foldl_crc_update [OF i] show False by simp
qed

text \<open>The check value of the catalogue of checksums, over the digits one to nine.\<close>

lemma crc_step_shifts: "crc_step c b = crc_shift (crc_shift (crc_shift (crc_shift (crc_shift (crc_shift (crc_shift (crc_shift (c XOR ucast b))))))))"
  by (simp add: crc_step_bits eval_nat_numeral)

lemma crc_check_value: "crc32c_table 0 [49, 50, 51, 52, 53, 54, 55, 56, 57] = 0xE3069283"
  by (simp add: crc32c_table_def crc_step_shifts crc_shift_def kPoly_def)

end
