(* ===== verification/RV_Wal_Format.thy ===== *)
theory RV_Wal_Format
  imports RV_Crc RV_Arena RV_Ids RV_Status
begin

text \<open>
  \<^verbatim>\<open>src/wal/wal_format.hpp\<close> and \<^verbatim>\<open>src/wal/block_align.cpp\<close>: the bytes of the log on
  disk and the arithmetic both its writer and its reader do.  A header is a record whose fields have
  the widths of the struct; \<open>wal_hdr_bytes\<close> and \<open>segment_hdr_bytes\<close> are the memory images the
  code copies, which the offsets asserted in the source fix.
\<close>

section \<open>Constants\<close>

definition fourcc :: "char \<Rightarrow> char \<Rightarrow> char \<Rightarrow> char \<Rightarrow> u32" where
  "fourcc a b c d = of_char a OR push_bit 8 (of_char b) OR push_bit 16 (of_char c) OR push_bit 24 (of_char d)"

definition kWalMagic :: u32 where "kWalMagic = fourcc CHR ''R'' CHR ''V'' CHR ''W'' CHR ''1''"
definition kSegmentMagic :: u32 where "kSegmentMagic = fourcc CHR ''R'' CHR ''V'' CHR ''S'' CHR ''1''"
definition kSegmentFormatVersion :: u16 where "kSegmentFormatVersion = 1"
definition kMaxPayload :: nat where "kMaxPayload = 65535"
definition kFallbackBlock :: u32 where "kFallbackBlock = 4096"
definition kMinBlock :: u32 where "kMinBlock = 512"
definition kSegmentHdrBytes :: nat where "kSegmentHdrBytes = 4096"
definition kMaxBlock :: u32 where "kMaxBlock = 4096"
definition kMaxGroupBytes :: nat where "kMaxGroupBytes = 65536"

text \<open>The two values asserted in the source.\<close>

lemma magics: "kWalMagic = 0x31575652" "kSegmentMagic = 0x31535652"
  by (simp_all add: kWalMagic_def kSegmentMagic_def fourcc_def)

section \<open>Headers\<close>

record WalHdr =
  wh_magic :: u32
  wh_crc32c :: u32
  wh_lsn :: u64
  wh_ts_ns :: u64
  wh_epoch :: u32
  wh_tmpl :: u16
  wh_len :: u16

definition wal_hdr_bytes :: "WalHdr \<Rightarrow> u8 list" where
  "wal_hdr_bytes h =
     store_le 4 (unat (wh_magic h)) @ store_le 4 (unat (wh_crc32c h)) @ store_le 8 (unat (wh_lsn h))
     @ store_le 8 (unat (wh_ts_ns h)) @ store_le 4 (unat (wh_epoch h)) @ store_le 2 (unat (wh_tmpl h))
     @ store_le 2 (unat (wh_len h))"

definition wal_hdr_of :: "u8 list \<Rightarrow> WalHdr" where
  "wal_hdr_of bs =
     \<lparr>wh_magic = of_nat (load_le 4 bs), wh_crc32c = of_nat (load_le 4 (drop 4 bs)),
      wh_lsn = of_nat (load_le 8 (drop 8 bs)), wh_ts_ns = of_nat (load_le 8 (drop 16 bs)),
      wh_epoch = of_nat (load_le 4 (drop 24 bs)), wh_tmpl = of_nat (load_le 2 (drop 28 bs)),
      wh_len = of_nat (load_le 2 (drop 30 bs))\<rparr>"

datatype BlockSource = BsUnknown | BsStatxDioAlign | BsFallback | BsOverride

fun block_source_code :: "BlockSource \<Rightarrow> nat" where
  "block_source_code BsUnknown = 0"
| "block_source_code BsStatxDioAlign = 1"
| "block_source_code BsFallback = 2"
| "block_source_code BsOverride = 3"

record SegmentHdr =
  sh_magic :: u32
  sh_crc32c :: u32
  sh_format_version :: u16
  sh_partition :: u16
  sh_epoch :: u32
  sh_first_lsn :: u64
  sh_segment_bytes :: u64
  sh_block_size :: u32
  sh_block_source :: u8
  sh_pad0 :: "u8 list"
  sh_created_ts_ns :: u64
  sh_reserved0 :: u64
  sh_reserved1 :: u64

definition segment_hdr_bytes :: "SegmentHdr \<Rightarrow> u8 list" where
  "segment_hdr_bytes h =
     store_le 4 (unat (sh_magic h)) @ store_le 4 (unat (sh_crc32c h)) @ store_le 2 (unat (sh_format_version h))
     @ store_le 2 (unat (sh_partition h)) @ store_le 4 (unat (sh_epoch h)) @ store_le 8 (unat (sh_first_lsn h))
     @ store_le 8 (unat (sh_segment_bytes h)) @ store_le 4 (unat (sh_block_size h)) @ [sh_block_source h] @ sh_pad0 h
     @ store_le 8 (unat (sh_created_ts_ns h)) @ store_le 8 (unat (sh_reserved0 h)) @ store_le 8 (unat (sh_reserved1 h))"

definition segment_hdr_of :: "u8 list \<Rightarrow> SegmentHdr" where
  "segment_hdr_of bs =
     \<lparr>sh_magic = of_nat (load_le 4 bs), sh_crc32c = of_nat (load_le 4 (drop 4 bs)),
      sh_format_version = of_nat (load_le 2 (drop 8 bs)), sh_partition = of_nat (load_le 2 (drop 10 bs)),
      sh_epoch = of_nat (load_le 4 (drop 12 bs)), sh_first_lsn = of_nat (load_le 8 (drop 16 bs)),
      sh_segment_bytes = of_nat (load_le 8 (drop 24 bs)), sh_block_size = of_nat (load_le 4 (drop 32 bs)),
      sh_block_source = bs ! 36, sh_pad0 = take 3 (drop 37 bs), sh_created_ts_ns = of_nat (load_le 8 (drop 40 bs)),
      sh_reserved0 = of_nat (load_le 8 (drop 48 bs)), sh_reserved1 = of_nat (load_le 8 (drop 56 bs))\<rparr>"

section \<open>Arithmetic\<close>

definition pad8 :: "u32 \<Rightarrow> u32" where
  "pad8 n = (n + 7) AND NOT 7"

definition record_bytes :: "u32 \<Rightarrow> u32" where
  "record_bytes payload_len = 32 + pad8 payload_len"

definition pad_to_block :: "u64 \<Rightarrow> u32 \<Rightarrow> u64" where
  "pad_to_block len block = (let b = ucast block in (len + b - 1) AND NOT (b - 1))"

definition is_valid_block :: "u32 \<Rightarrow> bool" where
  "is_valid_block block \<longleftrightarrow> kMinBlock \<le> block \<and> block \<le> kMaxBlock \<and> block AND (block - 1) = 0"

section \<open>Block alignment of the device\<close>

text \<open>
  \<^verbatim>\<open>probe_block_align\<close>: what \<^verbatim>\<open>statx\<close> answered is the argument, an error number or the mask
  and the two alignments; the error numbers are those of Linux.
\<close>

record BlockAlign =
  ba_block :: u32
  ba_mem_align :: u32
  ba_source :: BlockSource

datatype StatxAnswer = StatxFailed int | StatxOk u32 u32 u32

definition EBADF :: int where "EBADF = 9"
definition EINVAL :: int where "EINVAL = 22"
definition ENOSYS :: int where "ENOSYS = 38"
definition EOPNOTSUPP :: int where "EOPNOTSUPP = 95"
definition STATX_DIOALIGN :: u32 where "STATX_DIOALIGN = 0x00002000"

definition aceitar :: "u32 \<Rightarrow> u32 \<Rightarrow> BlockSource \<Rightarrow> BlockAlign Result" where
  "aceitar block mem src =
     (if \<not> is_valid_block block then Inl (fail IoError block)
      else if mem = 0 \<or> mem AND (mem - 1) \<noteq> 0 \<or> kMaxBlock < mem then Inl (fail IoError mem)
      else Inr \<lparr>ba_block = block, ba_mem_align = mem, ba_source = src\<rparr>)"

definition probe_block_align :: "int \<Rightarrow> StatxAnswer \<Rightarrow> BlockAlign Result" where
  "probe_block_align fd answer =
     (if fd < 0 then Inl (fail IoError (word_of_int EBADF))
      else case answer of
        StatxFailed err \<Rightarrow>
          if err = ENOSYS \<or> err = EINVAL \<or> err = EOPNOTSUPP then aceitar kFallbackBlock kFallbackBlock BsFallback
          else Inl (fail IoError (word_of_int err))
      | StatxOk stx_mask off_align mem \<Rightarrow>
          if stx_mask AND STATX_DIOALIGN = 0 \<or> off_align = 0 then aceitar kFallbackBlock kFallbackBlock BsFallback
          else aceitar off_align (if mem \<noteq> 0 then mem else off_align) BsStatxDioAlign)"

section \<open>Laws\<close>

lemma of_nat_load: "of_nat (load_le n (store_le n (unat (w :: 'a::len word)) @ rest)) = w" if "unat w < 256 ^ n" for n
  using load_store_le [OF that, of rest] by simp

lemma field_bounds: "unat (a :: u64) < 256 ^ 8" "unat (b :: u32) < 256 ^ 4" "unat (c :: u16) < 256 ^ 2"
  using unsigned_less [of a, where 'a = nat] unsigned_less [of b, where 'a = nat] unsigned_less [of c, where 'a = nat] by simp_all

lemma load_fields:
  "of_nat (load_le 8 (store_le 8 (unat (a :: u64)) @ rest)) = a"
  "of_nat (load_le 4 (store_le 4 (unat (b :: u32)) @ rest)) = b"
  "of_nat (load_le 2 (store_le 2 (unat (c :: u16)) @ rest)) = c"
  by (rule of_nat_load, rule field_bounds)+

lemma length_wal_hdr [simp]: "length (wal_hdr_bytes h) = 32"
  by (simp add: wal_hdr_bytes_def del: store_le.simps)

lemma length_segment_hdr: "length (sh_pad0 h) = 3 \<Longrightarrow> length (segment_hdr_bytes h) = 64"
  by (simp add: segment_hdr_bytes_def del: store_le.simps)

lemma wal_hdr_roundtrip: "wal_hdr_of (wal_hdr_bytes h @ rest) = h"
  by (simp add: wal_hdr_of_def wal_hdr_bytes_def load_fields del: store_le.simps)

lemma segment_hdr_roundtrip: "length (sh_pad0 h) = 3 \<Longrightarrow> segment_hdr_of (segment_hdr_bytes h @ rest) = h"
  by (simp add: segment_hdr_of_def segment_hdr_bytes_def load_fields nth_append del: store_le.simps)

lemma and_pred_zero: "(n :: nat) AND (n - 1) = 0 \<Longrightarrow> 0 < n \<Longrightarrow> \<exists>k. n = 2 ^ k"
proof (induction n rule: less_induct)
  case (less n)
  show ?case
  proof (cases "even n")
    case True
    then obtain m where m: "n = 2 * m" by blast
    with less(3) have "0 < m" and half: "(n - 1) div 2 = m - 1" "n div 2 = m" by auto
    have "m AND (m - 1) = 0" using less(2) and_rec [of n "n - 1"] half by simp
    with less(1) [of m] \<open>0 < m\<close> m obtain k where "m = 2 ^ k" by auto
    with m have "n = 2 ^ Suc k" by simp
    then show ?thesis ..
  next
    case False
    then obtain m where m: "n = 2 * m + 1" by (elim oddE)
    then have half: "(n - 1) div 2 = m" "n div 2 = m" by auto
    have "m = 0" using less(2) and_rec [of n "n - 1"] half by simp
    with m have "n = 2 ^ 0" by simp
    then show ?thesis ..
  qed
qed

lemma valid_block:
  assumes "is_valid_block b"
  obtains k where "unat b = 2 ^ k" "9 \<le> k" "k \<le> 12"
proof -
  have r: "512 \<le> unat b" "unat b \<le> 4096" using assms by (simp_all add: is_valid_block_def kMinBlock_def kMaxBlock_def word_le_nat_alt)
  have "unat (b AND (b - 1)) = 0" using assms by (simp add: is_valid_block_def)
  then have "unat b AND (unat b - 1) = 0" using r by (simp add: unsigned_and_eq unat_sub word_le_nat_alt)
  then obtain k where k: "unat b = 2 ^ k" using and_pred_zero [of "unat b"] r by auto
  have "9 \<le> k" using r(1) k power_strict_increasing [of k 9 "2 :: nat"] by (cases "k < 9") auto
  moreover have "k \<le> 12" using r(2) k power_strict_increasing [of 12 k "2 :: nat"] by (cases "12 < k") auto
  ultimately have "9 \<le> k" "k \<le> 12" by simp_all
  with k that show thesis by blast
qed

lemma fallback_valid: "is_valid_block kFallbackBlock"
  by (simp add: is_valid_block_def kFallbackBlock_def kMinBlock_def kMaxBlock_def)

lemma block_pos: "is_valid_block b \<Longrightarrow> 0 < unat b"
  by (erule valid_block) simp

lemma eight_dvd_block: "is_valid_block b \<Longrightarrow> 8 dvd unat b"
proof -
  assume "is_valid_block b"
  then obtain i where "unat b = 2 ^ i" "9 \<le> i" by (rule valid_block)
  moreover have "(2 :: nat) ^ 3 dvd 2 ^ i" using \<open>9 \<le> i\<close> by (intro le_imp_power_dvd) simp
  ultimately show ?thesis by simp
qed

lemma round_up_unat:
  fixes x :: "'a::len word"
  assumes "k < LENGTH('a)" and "unat x + 2 ^ k < 2 ^ LENGTH('a)"
  shows "unat ((x + 2 ^ k - 1) AND NOT (2 ^ k - 1)) = (unat x + 2 ^ k - 1) div 2 ^ k * 2 ^ k"
proof -
  have "unat (2 ^ k :: 'a word) = 2 ^ k" using assms(1) unat_of_nat [of "2 ^ k", where 'a = 'a] by (simp add: take_bit_nat_eq_self)
  then have sum: "unat (x + 2 ^ k) = unat x + 2 ^ k" using assms(2) by (simp add: unat_word_ariths)
  moreover have "0 < (2 :: nat) ^ k" by simp
  ultimately have "1 \<le> unat (x + 2 ^ k)" by linarith
  with sum have "unat (x + 2 ^ k - 1) = unat x + 2 ^ k - 1" by (simp add: unat_sub word_le_nat_alt)
  moreover have "unat ((x + 2 ^ k - 1) AND NOT (2 ^ k - 1)) = unat (x + 2 ^ k - 1) - unat (x + 2 ^ k - 1) mod 2 ^ k"
    unfolding unat_eq_nat_uint and_not_mask_mod by (simp add: nat_diff_distrib' nat_mod_distrib nat_power_eq)
  ultimately show ?thesis by (simp add: minus_mod_eq_div_mult)
qed

text \<open>On the sizes the code meets, the masks are the roundings they stand for.\<close>

definition up_to :: "nat \<Rightarrow> nat \<Rightarrow> nat" where
  "up_to b n = (n + b - 1) div b * b"

lemma up_to_props:
  assumes "0 < b"
  shows "n \<le> up_to b n" and "b dvd up_to b n" and "up_to b n < n + b" and "b dvd n \<Longrightarrow> up_to b n = n"
proof -
  have e: "up_to b n + (n + b - 1) mod b = n + b - 1" by (simp add: up_to_def)
  have m: "(n + b - 1) mod b < b" using assms by simp
  show "n \<le> up_to b n" "up_to b n < n + b" using e m assms by linarith+
  show "b dvd up_to b n" by (simp add: up_to_def)
  assume "b dvd n"
  then obtain k where n: "n = k * b" by (metis dvdE mult.commute)
  have "n + b - 1 = (b - 1) + k * b" using assms n by simp
  then show "up_to b n = n" using assms n by (simp add: up_to_def del: add_diff_assoc add_diff_assoc2)
qed

lemma pad8_up: "unat n + 8 < 2 ^ 32 \<Longrightarrow> unat (pad8 n) = up_to 8 (unat n)"
  using round_up_unat [of 3 n] by (simp add: up_to_def) (simp add: pad8_def add.commute)

lemma record_bytes_up: "len \<le> kMaxPayload \<Longrightarrow> unat (record_bytes (of_nat len)) = 32 + up_to 8 len"
proof -
  assume "len \<le> kMaxPayload"
  then have l: "len < 65536" by (simp add: kMaxPayload_def)
  then have u: "unat (of_nat len :: u32) = len" by (simp add: unat_of_nat take_bit_nat_eq_self)
  with l pad8_up [of "of_nat len"] up_to_props(3) [of 8 len] show ?thesis
    by (simp add: record_bytes_def unat_word_ariths)
qed

lemma pad_to_block_up:
  assumes "is_valid_block b" and "n + 4096 < 2 ^ 64"
  shows "unat (pad_to_block (of_nat n) b) = up_to (unat b) n"
proof -
  obtain k where k: "unat b = 2 ^ k" "9 \<le> k" "k \<le> 12" using valid_block [OF assms(1)] by blast
  have "(ucast b :: u64) = of_nat (unat b)" by (simp add: unsigned_of_nat)
  then have b: "(ucast b :: u64) = 2 ^ k" using k by simp
  have "(2 :: nat) ^ k \<le> 2 ^ 12" using k(3) by (rule power_increasing) simp
  then have "unat (of_nat n :: u64) + 2 ^ k < 2 ^ 64" and n: "unat (of_nat n :: u64) = n"
    using assms(2) by (simp_all add: unat_of_nat take_bit_nat_eq_self)
  with round_up_unat [of k "of_nat n :: u64"] k show ?thesis by (simp add: pad_to_block_def Let_def b up_to_def)
qed

end
