(* ===== verification/RV_Io_Backend.thy ===== *)
theory RV_Io_Backend
  imports RV_Wal_Format "HOL-Library.Multiset"
begin

text \<open>
  \<^verbatim>\<open>src/wal/io_backend.hpp\<close>: the interface between the log and what writes its bytes, and
  \<^verbatim>\<open>src/wal/pwrite_backend.cpp\<close>, the synchronous backend with a programmable order of completion.
  The virtual class is a record of functions on a backend of any type; what its comments promise is the
  locale \<open>io_backend\<close>: a completion answers one accepted request, once.  The system call
  \<^verbatim>\<open>pwrite\<close> is a parameter that answers the bytes written or the negated error number.
\<close>

section \<open>The interface\<close>

definition kMaxInflight :: nat where "kMaxInflight = 32"

text \<open>\<open>wr_buf\<close> is the address in the buffer and the bytes that lie there.\<close>

record WriteRequest =
  wr_buf :: ByteSpan
  wr_offset :: u64
  wr_token :: u64
  wr_len :: nat
  wr_buf_idx :: nat
  wr_file_idx :: nat

record Completion =
  cp_token :: u64
  cp_res :: int
  cp_expected :: nat

definition cp_ok :: "Completion \<Rightarrow> bool" where
  "cp_ok c \<longleftrightarrow> 0 \<le> cp_res c \<and> nat (cp_res c) = cp_expected c"

definition cp_short_write :: "Completion \<Rightarrow> bool" where
  "cp_short_write c \<longleftrightarrow> 0 \<le> cp_res c \<and> nat (cp_res c) < cp_expected c"

record 'b IoBackend =
  io_register_files :: "'b \<Rightarrow> int list \<Rightarrow> Status \<times> 'b"
  io_register_buffers :: "'b \<Rightarrow> ByteSpan list \<Rightarrow> Status \<times> 'b"
  io_submit :: "'b \<Rightarrow> WriteRequest \<Rightarrow> Status \<times> 'b"
  io_reap :: "'b \<Rightarrow> nat \<Rightarrow> Completion list \<times> 'b"
  io_inflight :: "'b \<Rightarrow> nat"

text \<open>
  The promise: \<open>out\<close> are the tokens accepted and not yet returned.  A refused request is not one of
  them, and \<^verbatim>\<open>reap\<close> returns some of them, each once.
\<close>

locale io_backend =
  fixes be :: "'b IoBackend" and live :: "'b \<Rightarrow> bool" and out :: "'b \<Rightarrow> u64 multiset"
  assumes submit_adds: "live b \<Longrightarrow> io_submit be b req = (st, b') \<Longrightarrow>
      live b' \<and> out b' = (if is_ok st then add_mset (wr_token req) (out b) else out b)"
    and reap_takes: "live b \<Longrightarrow> io_reap be b n = (cs, b') \<Longrightarrow>
      live b' \<and> length cs \<le> n \<and> out b = mset (map cp_token cs) + out b'"
    and inflight_size: "live b \<Longrightarrow> io_inflight be b = size (out b)"

section \<open>The synchronous backend\<close>

datatype CompletionOrder = Fifo | Lifo

text \<open>The arrays \<^verbatim>\<open>fds_\<close> and \<^verbatim>\<open>bufs_\<close> are lists of their registered entries; \<open>pb_fs\<close> is the file system.\<close>

record 'f PwriteBackend =
  pb_ring :: "Completion list"
  pb_head :: nat
  pb_count :: nat
  pb_fds :: "int list"
  pb_bufs :: "(nat \<times> nat) list"
  pb_order :: CompletionOrder
  pb_bytes_written :: u64
  pb_fs :: 'f

definition kMaxFiles :: nat where "kMaxFiles = 8"
definition kMaxRegBuffers :: nat where "kMaxRegBuffers = 16"

definition pb_new :: "'f \<Rightarrow> 'f PwriteBackend" where
  "pb_new fs = \<lparr>pb_ring = replicate kMaxInflight \<lparr>cp_token = 0, cp_res = 0, cp_expected = 0\<rparr>, pb_head = 0, pb_count = 0,
     pb_fds = [], pb_bufs = [], pb_order = Fifo, pb_bytes_written = 0, pb_fs = fs\<rparr>"

definition set_completion_order :: "CompletionOrder \<Rightarrow> 'f PwriteBackend \<Rightarrow> 'f PwriteBackend" where
  "set_completion_order ord b = b\<lparr>pb_order := ord\<rparr>"

primrec register_fds :: "int list \<Rightarrow> 'f PwriteBackend \<Rightarrow> Status \<times> 'f PwriteBackend" where
  "register_fds [] b = (kOk, b)"
| "register_fds (fd # fds) b =
     (if fd < 0 then (fail InvalidArgument (of_nat (length (pb_fds b))), b) else register_fds fds (b\<lparr>pb_fds := pb_fds b @ [fd]\<rparr>))"

definition pb_register_files :: "'f PwriteBackend \<Rightarrow> int list \<Rightarrow> Status \<times> 'f PwriteBackend" where
  "pb_register_files b fds =
     (if kMaxFiles < length fds then (fail InvalidArgument (of_nat (length fds)), b) else register_fds fds (b\<lparr>pb_fds := []\<rparr>))"

primrec register_bufs :: "ByteSpan list \<Rightarrow> 'f PwriteBackend \<Rightarrow> Status \<times> 'f PwriteBackend" where
  "register_bufs [] b = (kOk, b)"
| "register_bufs (m # ms) b =
     (if bs_addr m = 0 \<or> bs_bytes m = [] then (fail InvalidArgument (of_nat (length (pb_bufs b))), b)
      else register_bufs ms (b\<lparr>pb_bufs := pb_bufs b @ [(bs_addr m, length (bs_bytes m))]\<rparr>))"

definition pb_register_buffers :: "'f PwriteBackend \<Rightarrow> ByteSpan list \<Rightarrow> Status \<times> 'f PwriteBackend" where
  "pb_register_buffers b bufs =
     (if kMaxRegBuffers < length bufs then (fail InvalidArgument (of_nat (length bufs)), b) else register_bufs bufs (b\<lparr>pb_bufs := []\<rparr>))"

type_synonym 'f pwrite_call = "'f \<Rightarrow> int \<Rightarrow> u8 list \<Rightarrow> int \<Rightarrow> int \<times> 'f"

definition pb_submit :: "'f pwrite_call \<Rightarrow> 'f PwriteBackend \<Rightarrow> WriteRequest \<Rightarrow> Status \<times> 'f PwriteBackend" where
  "pb_submit pwrite b req =
     (if kMaxInflight \<le> pb_count b then (fail WalFull (of_nat (pb_count b)), b)
      else if length (pb_fds b) \<le> wr_file_idx req then (fail InvalidArgument (of_nat (wr_file_idx req)), b)
      else if length (pb_bufs b) \<le> wr_buf_idx req then (fail InvalidArgument (of_nat (wr_buf_idx req)), b)
      else let (base, len) = pb_bufs b ! wr_buf_idx req in
      if bs_addr (wr_buf req) < base \<or> base + len < bs_addr (wr_buf req) + wr_len req then
        (fail InvalidArgument (of_nat (wr_buf_idx req)), b)
      else let (n, fs) = pwrite (pb_fs b) (pb_fds b ! wr_file_idx req) (take (wr_len req) (bs_bytes (wr_buf req)))
                            (cast_i64 (uint (wr_offset req)));
               c = \<lparr>cp_token = wr_token req, cp_res = (if n < 0 then n else cast_i32 n), cp_expected = wr_len req\<rparr> in
        (kOk, b\<lparr>pb_fs := fs, pb_bytes_written := (if 0 < n then pb_bytes_written b + word_of_int n else pb_bytes_written b),
                pb_ring := (pb_ring b)[(pb_head b + pb_count b) mod kMaxInflight := c], pb_count := pb_count b + 1\<rparr>))"

text \<open>The loop of \<^verbatim>\<open>reap\<close>: \<open>n\<close> is the room left in the span.\<close>

primrec pb_reap_loop :: "nat \<Rightarrow> 'f PwriteBackend \<Rightarrow> Completion list \<times> 'f PwriteBackend" where
  "pb_reap_loop 0 b = ([], b)"
| "pb_reap_loop (Suc n) b =
     (if pb_count b = 0 then ([], b)
      else case pb_order b of
        Fifo \<Rightarrow> let (cs, b') = pb_reap_loop n (b\<lparr>pb_head := (pb_head b + 1) mod kMaxInflight, pb_count := pb_count b - 1\<rparr>) in
                (pb_ring b ! pb_head b # cs, b')
      | Lifo \<Rightarrow> let (cs, b') = pb_reap_loop n (b\<lparr>pb_count := pb_count b - 1\<rparr>) in
                (pb_ring b ! ((pb_head b + pb_count b - 1) mod kMaxInflight) # cs, b'))"

definition pb_reap :: "'f PwriteBackend \<Rightarrow> nat \<Rightarrow> Completion list \<times> 'f PwriteBackend" where
  "pb_reap b n = pb_reap_loop n b"

definition pwrite_ops :: "'f pwrite_call \<Rightarrow> 'f PwriteBackend IoBackend" where
  "pwrite_ops pwrite = \<lparr>io_register_files = pb_register_files, io_register_buffers = pb_register_buffers,
     io_submit = pb_submit pwrite, io_reap = pb_reap, io_inflight = pb_count\<rparr>"

section \<open>The synchronous backend keeps the promise\<close>

text \<open>What a circular array of \<open>m\<close> slots holds, from slot \<open>h\<close> on, oldest first.\<close>

definition ring_view :: "nat \<Rightarrow> 'a list \<Rightarrow> nat \<Rightarrow> nat \<Rightarrow> 'a list" where
  "ring_view m xs h c = map (\<lambda>k. xs ! ((h + k) mod m)) [0..<c]"

lemma length_ring_view [simp]: "length (ring_view m xs h c) = c"
  by (simp add: ring_view_def)

lemma nth_ring_view: "k < c \<Longrightarrow> ring_view m xs h c ! k = xs ! ((h + k) mod m)"
  by (simp add: ring_view_def)

lemma ring_pop_front: "h < m \<Longrightarrow> 0 < c \<Longrightarrow> ring_view m xs h c = xs ! h # ring_view m xs ((h + 1) mod m) (c - 1)"
proof -
  assume "h < m" "0 < c"
  then have "[0..<c] = 0 # map Suc [0..<c - 1]" by (cases c) (simp_all add: upt_conv_Cons map_Suc_upt del: upt_Suc)
  with \<open>h < m\<close> show ?thesis by (simp add: ring_view_def mod_add_left_eq)
qed

lemma ring_pop_back: "0 < c \<Longrightarrow> ring_view m xs h c = ring_view m xs h (c - 1) @ [xs ! ((h + c - 1) mod m)]"
  by (cases c) (simp_all add: ring_view_def)

lemma ring_slots_differ:
  assumes "k < c" and "c < m"
  shows "(h + c) mod m \<noteq> (h + k) mod (m :: nat)"
proof
  assume "(h + c) mod m = (h + k) mod m"
  then have "m dvd (h + c) - (h + k)" using assms by (metis mod_eq_dvd_iff_nat add_le_cancel_left less_imp_le)
  with assms show False by (auto dest: dvd_imp_le)
qed

lemma ring_push:
  assumes "length xs = m" and "c < m"
  shows "ring_view m (xs[(h + c) mod m := x]) h (c + 1) = ring_view m xs h c @ [x]"
proof -
  have "0 < m" using assms(2) by simp
  then show ?thesis using assms ring_slots_differ by (auto simp: ring_view_def)
qed

lemma ring_update_outside:
  assumes "\<And>k. k < c \<Longrightarrow> i \<noteq> (h + k) mod m"
  shows "ring_view m (xs[i := x]) h c = ring_view m xs h c"
  using assms by (simp add: ring_view_def)

text \<open>The completions waiting in the backend.\<close>

definition pb_waiting :: "'f PwriteBackend \<Rightarrow> Completion list" where
  "pb_waiting b = ring_view kMaxInflight (pb_ring b) (pb_head b) (pb_count b)"

definition pb_live :: "'f PwriteBackend \<Rightarrow> bool" where
  "pb_live b \<longleftrightarrow> length (pb_ring b) = kMaxInflight \<and> pb_head b < kMaxInflight \<and> pb_count b \<le> kMaxInflight"

text \<open>In either order, what is reaped comes out of what was waiting.\<close>

lemma reap_loop_waiting:
  assumes "pb_live b" and "pb_reap_loop n b = (cs, b')"
  shows "pb_live b' \<and> length cs = min n (pb_count b) \<and> mset (pb_waiting b) = mset cs + mset (pb_waiting b') \<and> pb_fs b' = pb_fs b"
  using assms
proof (induction n arbitrary: b cs b')
  case (Suc n)
  show ?case
  proof (cases "pb_count b = 0")
    case True
    with Suc.prems show ?thesis by auto
  next
    case False
    show ?thesis
    proof (cases "pb_order b")
      case Fifo
      let ?b = "b\<lparr>pb_head := (pb_head b + 1) mod kMaxInflight, pb_count := pb_count b - 1\<rparr>"
      obtain ds where r: "pb_reap_loop n ?b = (ds, b')" and cs: "cs = pb_ring b ! pb_head b # ds"
        using Suc.prems(2) False Fifo by (auto split: prod.splits)
      have "pb_live ?b" using Suc.prems(1) by (auto simp: pb_live_def kMaxInflight_def)
      from Suc.IH [OF this r] show ?thesis using ring_pop_front [of "pb_head b" kMaxInflight "pb_count b" "pb_ring b"] Suc.prems(1) False cs
        by (auto simp: pb_waiting_def pb_live_def)
    next
      case Lifo
      let ?b = "b\<lparr>pb_count := pb_count b - 1\<rparr>"
      obtain ds where r: "pb_reap_loop n ?b = (ds, b')" and cs: "cs = pb_ring b ! ((pb_head b + pb_count b - 1) mod kMaxInflight) # ds"
        using Suc.prems(2) False Lifo by (auto split: prod.splits)
      have "pb_live ?b" using Suc.prems(1) by (auto simp: pb_live_def)
      from Suc.IH [OF this r] show ?thesis using ring_pop_back [of "pb_count b" kMaxInflight "pb_ring b" "pb_head b"] False cs by (auto simp: pb_waiting_def)
    qed
  qed
qed auto

lemma reap_loop_fds: "pb_reap_loop n b = (cs, b') \<Longrightarrow> pb_fds b' = pb_fds b"
  by (induction n arbitrary: b cs) (auto split: if_splits CompletionOrder.splits prod.splits)

lemma submit_waiting:
  assumes "pb_live b" and "pb_submit pwrite b req = (st, b')"
  shows "pb_live b' \<and> (if is_ok st then \<exists>c. cp_token c = wr_token req \<and> cp_expected c = wr_len req \<and> pb_waiting b' = pb_waiting b @ [c]
                       else b' = b)"
proof (cases "is_ok st")
  case True
  have "\<exists>res. pb_count b < kMaxInflight \<and> pb_head b' = pb_head b \<and> pb_count b' = pb_count b + 1
      \<and> pb_ring b' = (pb_ring b)[(pb_head b + pb_count b) mod kMaxInflight := \<lparr>cp_token = wr_token req, cp_res = res, cp_expected = wr_len req\<rparr>]"
    using assms(2) True by (auto simp: pb_submit_def Let_def is_ok_def fail_def not_le split: if_splits prod.splits)
  then obtain res where r: "pb_count b < kMaxInflight" "pb_head b' = pb_head b" "pb_count b' = pb_count b + 1"
    "pb_ring b' = (pb_ring b)[(pb_head b + pb_count b) mod kMaxInflight := \<lparr>cp_token = wr_token req, cp_res = res, cp_expected = wr_len req\<rparr>]"
    by blast
  obtain c where c: "cp_token c = wr_token req" "cp_expected c = wr_len req" and lt: "pb_count b < kMaxInflight"
    and b': "pb_head b' = pb_head b" "pb_count b' = pb_count b + 1" "pb_ring b' = (pb_ring b)[(pb_head b + pb_count b) mod kMaxInflight := c]"
    by (rule that [OF _ _ r]) simp_all
  have "pb_waiting b' = pb_waiting b @ [c]" using ring_push [OF _ lt, of "pb_ring b"] assms(1) by (simp add: b' pb_waiting_def pb_live_def)
  moreover have "pb_live b'" using assms(1) lt by (simp add: b' pb_live_def)
  ultimately show ?thesis using True by (auto simp: c)
next
  case False
  then have "b' = b" using assms(2) by (auto simp: pb_submit_def Let_def is_ok_def kOk_def split: if_splits prod.splits)
  with False assms(1) show ?thesis by simp
qed

interpretation pwrite: io_backend "pwrite_ops pwrite" pb_live "\<lambda>b. mset (map cp_token (pb_waiting b))"
  for pwrite :: "'f pwrite_call"
proof (unfold_locales, goal_cases)
  case (1 b req st b')
  then show ?case using submit_waiting [of b pwrite req st b'] by (auto simp: pwrite_ops_def split: if_splits)
next
  case (2 b n cs b')
  then have r: "pb_live b' \<and> length cs = min n (pb_count b) \<and> mset (pb_waiting b) = mset cs + mset (pb_waiting b')"
    using reap_loop_waiting [of b n cs b'] by (simp add: pwrite_ops_def pb_reap_def)
  then have "image_mset cp_token (mset (pb_waiting b)) = image_mset cp_token (mset cs) + image_mset cp_token (mset (pb_waiting b'))" by simp
  with r show ?case by simp
next
  case (3 b)
  then show ?case by (simp add: pwrite_ops_def pb_waiting_def)
qed

end
