(* ===== verification/RV_Group_Commit.thy ===== *)
theory RV_Group_Commit
  imports RV_Io_Backend RV_Journal
begin

text \<open>
  \<^verbatim>\<open>src/wal/group_commit.cpp\<close>: appends gathered into a group, groups handed to the backend, and the
  durable position advanced in the order the groups were handed over (I9).  The eight buffers are spans
  of bytes at the addresses the allocator gave; a freed buffer is the empty span at address 0.  The
  backend is any record of operations.  The checksum is \<open>crc32c_table\<close>, to which \<open>RV_Crc\<close>
  reduces both paths of \<^verbatim>\<open>crc32c\<close>.
\<close>

section \<open>State\<close>

definition kMaxBuffers :: nat where "kMaxBuffers = 8"

record InflightGroup =
  ig_token :: u64
  ig_buf_idx :: nat
  ig_len :: nat
  ig_in_use :: bool
  ig_completed :: bool
  ig_ok :: bool

record GroupCommit =
  gc_buffers :: "ByteSpan list"
  gc_buf_free :: "bool list"
  gc_block_size :: u32
  gc_window_ns :: u64
  gc_cur_buf_idx :: nat
  gc_cur_len :: nat
  gc_cur_deadline_ns :: u64
  gc_cur_first_lsn :: Lsn
  gc_cur_last_lsn :: Lsn
  gc_inflight :: "InflightGroup list"
  gc_head :: nat
  gc_tail :: nat
  gc_inflight_count :: nat
  gc_durable_lsn :: Lsn
  gc_halted :: bool
  gc_initialized :: bool

definition null_span :: ByteSpan where "null_span = \<lparr>bs_addr = 0, bs_bytes = []\<rparr>"

definition empty_group :: InflightGroup where
  "empty_group = \<lparr>ig_token = 0, ig_buf_idx = 0, ig_len = 0, ig_in_use = False, ig_completed = False, ig_ok = False\<rparr>"

definition gc_new :: GroupCommit where
  "gc_new = \<lparr>gc_buffers = replicate kMaxBuffers null_span, gc_buf_free = replicate kMaxBuffers False, gc_block_size = kFallbackBlock,
     gc_window_ns = 100000, gc_cur_buf_idx = 0, gc_cur_len = 0, gc_cur_deadline_ns = 0, gc_cur_first_lsn = 0, gc_cur_last_lsn = 0,
     gc_inflight = replicate kMaxInflight empty_group, gc_head = 0, gc_tail = 0, gc_inflight_count = 0, gc_durable_lsn = 0,
     gc_halted = False, gc_initialized = False\<rparr>"

section \<open>Start and end\<close>

definition gc_shutdown :: "GroupCommit \<Rightarrow> GroupCommit" where
  "gc_shutdown g = g\<lparr>gc_buffers := replicate kMaxBuffers null_span, gc_buf_free := replicate kMaxBuffers False, gc_initialized := False\<rparr>"

text \<open>\<open>memalign i\<close> is the answer to the \<open>i\<close>-th \<^verbatim>\<open>posix_memalign\<close>; \<open>None\<close> is a failure.\<close>

primrec alloc_buffers :: "(nat \<Rightarrow> nat option) \<Rightarrow> nat \<Rightarrow> ByteSpan list option" where
  "alloc_buffers memalign 0 = Some []"
| "alloc_buffers memalign (Suc n) =
     (case alloc_buffers memalign n of None \<Rightarrow> None
      | Some bs \<Rightarrow> (case memalign n of None \<Rightarrow> None
                    | Some addr \<Rightarrow> Some (bs @ [\<lparr>bs_addr = addr, bs_bytes = replicate kMaxGroupBytes 0\<rparr>])))"

definition gc_init :: "'b IoBackend \<Rightarrow> (nat \<Rightarrow> nat option) \<Rightarrow> 'b \<Rightarrow> u32 \<Rightarrow> u64 \<Rightarrow> GroupCommit \<Rightarrow> Status \<times> 'b \<times> GroupCommit" where
  "gc_init be memalign b block_size window_ns g0 =
     (let g = (gc_shutdown g0)\<lparr>gc_block_size := block_size, gc_window_ns := window_ns, gc_cur_buf_idx := 0, gc_cur_len := 0,
                gc_cur_deadline_ns := 0, gc_cur_first_lsn := 0, gc_cur_last_lsn := 0, gc_head := 0, gc_tail := 0,
                gc_inflight_count := 0, gc_durable_lsn := 0, gc_halted := False\<rparr> in
      case alloc_buffers memalign kMaxBuffers of
        None \<Rightarrow> (fail ArenaExhausted 0, b, gc_shutdown g)
      | Some bufs \<Rightarrow>
          let (st, b') = io_register_buffers be b bufs in
          if \<not> is_ok st then (st, b', gc_shutdown g)
          else (kOk, b', g\<lparr>gc_buffers := bufs, gc_buf_free := replicate kMaxBuffers True, gc_initialized := True\<rparr>))"

section \<open>Appending a record\<close>

text \<open>The bytes a record leaves in the buffer: the header with its checksum, the payload, and zeros up to a multiple of eight.\<close>

definition wal_hdr_for :: "u16 \<Rightarrow> nat \<Rightarrow> u64 \<Rightarrow> u32 \<Rightarrow> Lsn \<Rightarrow> WalHdr" where
  "wal_hdr_for tmpl len ts_ns epoch lsn =
     \<lparr>wh_magic = kWalMagic, wh_crc32c = 0, wh_lsn = lsn, wh_ts_ns = ts_ns, wh_epoch = epoch, wh_tmpl = tmpl, wh_len = of_nat len\<rparr>"

definition wal_record :: "u16 \<Rightarrow> u8 list \<Rightarrow> u64 \<Rightarrow> u32 \<Rightarrow> Lsn \<Rightarrow> u8 list" where
  "wal_record tmpl payload ts_ns epoch lsn =
     (let h = wal_hdr_for tmpl (length payload) ts_ns epoch lsn;
          crc = crc32c_table (crc32c_table 0 (wal_hdr_bytes h)) payload in
      wal_hdr_bytes (h\<lparr>wh_crc32c := crc\<rparr>) @ payload
      @ replicate (unat (record_bytes (of_nat (length payload))) - (32 + length payload)) 0)"

definition write_at :: "nat \<Rightarrow> u8 list \<Rightarrow> ByteSpan \<Rightarrow> ByteSpan" where
  "write_at off bs m = m\<lparr>bs_bytes := take off (bs_bytes m) @ bs @ drop (off + length bs) (bs_bytes m)\<rparr>"

text \<open>Past the guards: the record is written after the ones of the current group, which it joins or opens.\<close>

definition gc_write :: "GroupCommit \<Rightarrow> u16 \<Rightarrow> u8 list \<Rightarrow> u64 \<Rightarrow> u32 \<Rightarrow> Lsn \<Rightarrow> nat \<Rightarrow> Appended \<times> GroupCommit" where
  "gc_write g tmpl payload ts_ns epoch lsn rec_len =
     (let idx = gc_cur_buf_idx g; at = gc_cur_len g; m = write_at at (wal_record tmpl payload ts_ns epoch lsn) (gc_buffers g ! idx) in
      (\<lparr>ap_lsn = lsn, ap_payload = \<lparr>bs_addr = bs_addr m + at + 32, bs_bytes = take (length payload) (drop (at + 32) (bs_bytes m))\<rparr>,
        ap_len = length payload\<rparr>,
       g\<lparr>gc_buffers := (gc_buffers g)[idx := m],
         gc_cur_first_lsn := (if at = 0 then lsn else gc_cur_first_lsn g),
         gc_cur_deadline_ns := (if at = 0 then ts_ns + gc_window_ns g else gc_cur_deadline_ns g),
         gc_cur_len := at + rec_len, gc_cur_last_lsn := lsn\<rparr>))"

definition gc_append :: "GroupCommit \<Rightarrow> u16 \<Rightarrow> ByteSpan \<Rightarrow> u64 \<Rightarrow> u32 \<Rightarrow> Lsn \<Rightarrow> Appended Result \<times> GroupCommit" where
  "gc_append g tmpl payload ts_ns epoch lsn =
     (if gc_halted g then (Inl (fail IoError 0), g)
      else if \<not> gc_initialized g then (Inl (fail InvalidArgument 0), g)
      else if kMaxPayload < length (bs_bytes payload) then (Inl (fail OutOfRange 0), g)
      else let rec_len = unat (record_bytes (of_nat (length (bs_bytes payload)))) in
      if kMaxGroupBytes < rec_len then (Inl (fail OutOfRange 0), g)
      else if kMaxBuffers \<le> gc_cur_buf_idx g then (Inl (fail WalFull 0), g)
      else if 0 < gc_cur_len g \<and> kMaxGroupBytes < gc_cur_len g + rec_len then (Inl (fail WalFull 0), g)
      else let (a, g') = gc_write g tmpl (bs_bytes payload) ts_ns epoch lsn rec_len in (Inr a, g'))"

section \<open>Handing a group to the backend\<close>

text \<open>The scan for a free buffer; \<open>kMaxBuffers\<close> when there is none.\<close>

fun first_free :: "bool list \<Rightarrow> nat" where
  "first_free [] = 0"
| "first_free (f # fs) = (if f then 0 else 1 + first_free fs)"

definition gc_request :: "GroupCommit \<Rightarrow> nat \<Rightarrow> ByteSpan \<Rightarrow> u64 \<Rightarrow> nat \<Rightarrow> WriteRequest" where
  "gc_request g padded m file_offset file_idx =
     \<lparr>wr_buf = m, wr_offset = file_offset, wr_token = gc_cur_last_lsn g, wr_len = padded, wr_buf_idx = gc_cur_buf_idx g, wr_file_idx = file_idx\<rparr>"

definition gc_enqueue :: "GroupCommit \<Rightarrow> nat \<Rightarrow> GroupCommit" where
  "gc_enqueue g padded =
     (let fr = (gc_buf_free g)[gc_cur_buf_idx g := False] in
      g\<lparr>gc_inflight := (gc_inflight g)[gc_tail g := \<lparr>ig_token = gc_cur_last_lsn g, ig_buf_idx = gc_cur_buf_idx g, ig_len = padded,
                                                  ig_in_use = True, ig_completed = False, ig_ok = False\<rparr>],
        gc_tail := (gc_tail g + 1) mod kMaxInflight, gc_inflight_count := gc_inflight_count g + 1, gc_buf_free := fr,
        gc_cur_buf_idx := first_free fr, gc_cur_len := 0, gc_cur_first_lsn := 0, gc_cur_last_lsn := 0, gc_cur_deadline_ns := 0\<rparr>)"

text \<open>Past the guards: the group is padded to the block and handed over.\<close>

definition gc_submit :: "'b IoBackend \<Rightarrow> GroupCommit \<Rightarrow> 'b \<Rightarrow> u64 \<Rightarrow> nat \<Rightarrow> nat Result \<times> GroupCommit \<times> 'b" where
  "gc_submit be g b file_offset file_idx =
     (let padded = unat (ucast (pad_to_block (of_nat (gc_cur_len g)) (gc_block_size g)) :: u32);
          m = write_at (gc_cur_len g) (replicate (padded - gc_cur_len g) 0) (gc_buffers g ! gc_cur_buf_idx g);
          g1 = g\<lparr>gc_buffers := (gc_buffers g)[gc_cur_buf_idx g := m]\<rparr>;
          (st, b') = io_submit be b (gc_request g padded m file_offset file_idx) in
      if \<not> is_ok st then (Inl st, g1, b') else (Inr padded, gc_enqueue g1 padded, b'))"

definition gc_maybe_submit ::
    "'b IoBackend \<Rightarrow> GroupCommit \<Rightarrow> 'b \<Rightarrow> u64 \<Rightarrow> u64 \<Rightarrow> nat \<Rightarrow> bool \<Rightarrow> nat Result \<times> GroupCommit \<times> 'b" where
  "gc_maybe_submit be g b now_ns file_offset file_idx force =
     (if gc_halted g then (Inl (fail IoError 0), g, b)
      else if \<not> gc_initialized g then (Inl (fail InvalidArgument 0), g, b)
      else if gc_cur_len g = 0 then (Inr 0, g, b)
      else if \<not> force \<and> now_ns < gc_cur_deadline_ns g \<and> gc_cur_len g < kMaxGroupBytes then (Inr 0, g, b)
      else if kMaxInflight \<le> gc_inflight_count g then (Inl (fail WalFull 0), g, b)
      else gc_submit be g b file_offset file_idx)"

section \<open>Completions\<close>

text \<open>The inner loop of \<^verbatim>\<open>reap\<close>: the first group in use with the token is marked.\<close>

fun mark_group :: "Completion \<Rightarrow> InflightGroup list \<Rightarrow> InflightGroup list" where
  "mark_group c [] = []"
| "mark_group c (ig # igs) =
     (if ig_in_use ig \<and> ig_token ig = cp_token c then ig\<lparr>ig_completed := True, ig_ok := cp_ok c\<rparr> # igs else ig # mark_group c igs)"

definition gc_mark :: "GroupCommit \<Rightarrow> Completion \<Rightarrow> GroupCommit" where
  "gc_mark g c =
     g\<lparr>gc_inflight := mark_group c (gc_inflight g),
       gc_halted := (gc_halted g \<or> (\<not> cp_ok c \<and> list_ex (\<lambda>ig. ig_in_use ig \<and> ig_token ig = cp_token c) (gc_inflight g)))\<rparr>"

text \<open>One round of the second loop, and the loop: it pops completed groups from the front.\<close>

definition gc_pop :: "GroupCommit \<Rightarrow> GroupCommit" where
  "gc_pop g =
     (let h = gc_inflight g ! gc_head g in
      g\<lparr>gc_durable_lsn := ig_token h, gc_buf_free := (gc_buf_free g)[ig_buf_idx h := True],
        gc_cur_buf_idx := (if kMaxBuffers \<le> gc_cur_buf_idx g then ig_buf_idx h else gc_cur_buf_idx g),
        gc_inflight := (gc_inflight g)[gc_head g := h\<lparr>ig_in_use := False\<rparr>],
        gc_head := (gc_head g + 1) mod kMaxInflight, gc_inflight_count := gc_inflight_count g - 1\<rparr>)"

function gc_drain :: "GroupCommit \<Rightarrow> Status \<times> GroupCommit" where
  "gc_drain g =
     (if 0 < gc_inflight_count g \<and> ig_completed (gc_inflight g ! gc_head g) then
        if \<not> ig_ok (gc_inflight g ! gc_head g) then (fail IoError 0, g\<lparr>gc_halted := True\<rparr>)
        else gc_drain (gc_pop g)
      else (if gc_halted g then fail IoError 0 else kOk, g))"
  by pat_completeness auto
termination
  by (relation "measure gc_inflight_count") (simp_all add: gc_pop_def Let_def)

declare gc_drain.simps [simp del]

definition gc_reap :: "'b IoBackend \<Rightarrow> GroupCommit \<Rightarrow> 'b \<Rightarrow> Status \<times> GroupCommit \<times> 'b" where
  "gc_reap be g b =
     (if \<not> gc_initialized g then (fail InvalidArgument 0, g, b)
      else let (cs, b') = io_reap be b kMaxInflight; (st, g') = gc_drain (foldl gc_mark g cs) in (st, g', b'))"

end
