(* ===== verification/RV_Group_Laws.thy ===== *)
theory RV_Group_Laws
  imports RV_Group_Commit
begin

text \<open>
  What the operations of \<open>RV_Group_Commit\<close> keep.  \<open>gc_shape\<close> is the consistency of buffers and
  ring, \<open>gc_order\<close> the order of the log positions, and \<open>gc_holds\<close> ties the bytes of the buffers
  to the records they encode: one list of records per group in flight, and the records of the current
  group.  A buffer in flight is never written: its bytes stay those of its group until the group is
  popped.
\<close>

section \<open>Bytes of records and groups\<close>

definition rec_of :: "u32 \<Rightarrow> LogRecord \<Rightarrow> u8 list" where
  "rec_of e r = wal_record (lr_tmpl r) (lr_bytes r) (lr_ts_ns r) e (lr_lsn r)"

definition run_bytes :: "u32 \<Rightarrow> LogRecord list \<Rightarrow> u8 list" where
  "run_bytes e rs = concat (map (rec_of e) rs)"

definition group_image :: "u32 \<Rightarrow> u32 \<Rightarrow> LogRecord list \<Rightarrow> u8 list" where
  "group_image block e rs =
     run_bytes e rs @ replicate (up_to (unat block) (length (run_bytes e rs)) - length (run_bytes e rs)) 0"

lemma length_wal_record:
  assumes "length p \<le> kMaxPayload"
  shows "length (wal_record tmpl p ts e lsn) = unat (record_bytes (of_nat (length p)))"
  using up_to_props(1) [of 8 "length p"] record_bytes_up [OF assms] by (simp add: wal_record_def Let_def)

lemma record_bytes_dvd: "len \<le> kMaxPayload \<Longrightarrow> 8 dvd unat (record_bytes (of_nat len)) \<and> 32 + len \<le> unat (record_bytes (of_nat len))"
  using up_to_props(1,2) [of 8 len] by (simp add: record_bytes_up)

lemma run_bytes_snoc [simp]: "run_bytes e (rs @ [r]) = run_bytes e rs @ rec_of e r"
  by (simp add: run_bytes_def)

lemma run_bytes_nil [simp]: "run_bytes e [] = []"
  by (simp add: run_bytes_def)

lemma run_bytes_empty: "run_bytes e rs = [] \<longleftrightarrow> rs = []"
proof -
  have "rec_of e r \<noteq> []" for r
  proof -
    have "32 \<le> length (rec_of e r)" by (simp add: rec_of_def wal_record_def Let_def)
    then show ?thesis by auto
  qed
  then show ?thesis by (cases rs) (simp_all add: run_bytes_def)
qed

lemma length_group: "is_valid_block b \<Longrightarrow> length (group_image b e rs) = up_to (unat b) (length (run_bytes e rs))"
  using up_to_props(1) [OF block_pos] by (simp add: group_image_def)

section \<open>Writing into a buffer\<close>

lemma write_at_length: "off + length bs \<le> length (bs_bytes m) \<Longrightarrow> length (bs_bytes (write_at off bs m)) = length (bs_bytes m)"
  by (simp add: write_at_def)

lemma write_at_addr [simp]: "bs_addr (write_at off bs m) = bs_addr m"
  by (simp add: write_at_def)

lemma write_at_extends:
  assumes "off + length bs \<le> length (bs_bytes m)"
  shows "take (off + length bs) (bs_bytes (write_at off bs m)) = take off (bs_bytes m) @ bs"
  using assms by (simp add: write_at_def)

section \<open>Invariants\<close>

definition gc_queue :: "GroupCommit \<Rightarrow> InflightGroup list" where
  "gc_queue g = ring_view kMaxInflight (gc_inflight g) (gc_head g) (gc_inflight_count g)"

definition gc_shape :: "GroupCommit \<Rightarrow> bool" where
  "gc_shape g \<longleftrightarrow> gc_initialized g \<and> is_valid_block (gc_block_size g)
     \<and> length (gc_buffers g) = kMaxBuffers \<and> length (gc_buf_free g) = kMaxBuffers \<and> length (gc_inflight g) = kMaxInflight
     \<and> (\<forall>m\<in>set (gc_buffers g). length (bs_bytes m) = kMaxGroupBytes \<and> 8 dvd bs_addr m)
     \<and> gc_head g < kMaxInflight \<and> gc_inflight_count g \<le> kMaxInflight
     \<and> gc_tail g = (gc_head g + gc_inflight_count g) mod kMaxInflight
     \<and> distinct (map ig_buf_idx (gc_queue g))
     \<and> (\<forall>i<kMaxBuffers. gc_buf_free g ! i \<longleftrightarrow> i \<notin> set (map ig_buf_idx (gc_queue g)))
     \<and> (\<forall>q\<in>set (gc_queue g). ig_buf_idx q < kMaxBuffers)
     \<and> gc_cur_buf_idx g \<le> kMaxBuffers \<and> gc_cur_buf_idx g \<notin> set (map ig_buf_idx (gc_queue g))
     \<and> (gc_cur_buf_idx g = kMaxBuffers \<longrightarrow> gc_cur_len g = 0)
     \<and> gc_cur_len g \<le> kMaxGroupBytes \<and> 8 dvd gc_cur_len g"

text \<open>The durable position, the last positions of the groups in flight and that of the current group, in order.\<close>

definition gc_marks :: "GroupCommit \<Rightarrow> Lsn list" where
  "gc_marks g = gc_durable_lsn g # map ig_token (gc_queue g) @ (if gc_cur_len g = 0 then [] else [gc_cur_last_lsn g])"

definition gc_order :: "GroupCommit \<Rightarrow> Lsn \<Rightarrow> bool" where
  "gc_order g lst \<longleftrightarrow> sorted_wrt (<) (gc_marks g) \<and> (\<forall>x\<in>set (gc_marks g). x \<le> lst)"

definition group_in :: "GroupCommit \<Rightarrow> u32 \<Rightarrow> InflightGroup \<Rightarrow> LogRecord list \<Rightarrow> bool" where
  "group_in g e q rs \<longleftrightarrow> rs \<noteq> [] \<and> ig_token q = lr_lsn (last rs)
     \<and> take (ig_len q) (bs_bytes (gc_buffers g ! ig_buf_idx q)) = group_image (gc_block_size g) e rs"

definition gc_holds :: "GroupCommit \<Rightarrow> u32 \<Rightarrow> LogRecord list list \<Rightarrow> LogRecord list \<Rightarrow> bool" where
  "gc_holds g e gs cur \<longleftrightarrow> list_all2 (group_in g e) (gc_queue g) gs
     \<and> gc_cur_len g = length (run_bytes e cur)
     \<and> (cur \<noteq> [] \<longrightarrow> gc_cur_last_lsn g = lr_lsn (last cur)
                    \<and> take (gc_cur_len g) (bs_bytes (gc_buffers g ! gc_cur_buf_idx g)) = run_bytes e cur)"

lemmas gc_defs = gc_shape_def gc_order_def gc_marks_def gc_holds_def

text \<open>Writing into the current buffer disturbs no group in flight.\<close>

lemma holds_groups_cong:
  assumes "list_all2 (group_in g e) (gc_queue g) gs" and "gc_queue g' = gc_queue g" and "gc_block_size g' = gc_block_size g"
    and "\<And>q. q \<in> set (gc_queue g) \<Longrightarrow> gc_buffers g' ! ig_buf_idx q = gc_buffers g ! ig_buf_idx q"
  shows "list_all2 (group_in g' e) (gc_queue g') gs"
  using assms(1) unfolding assms(2) by (rule list.rel_mono_strong) (simp add: group_in_def assms(3,4))

lemma sorted_snoc_replace:
  assumes "sorted_wrt (<) (xs @ ys)" and "\<And>x. x \<in> set xs \<Longrightarrow> x < (z :: Lsn)"
  shows "sorted_wrt (<) (xs @ [z])"
  using assms by (auto simp: sorted_wrt_append)

section \<open>Appending\<close>

lemma gc_append_fail: "gc_append g tmpl p ts e lsn = (Inl st, g') \<Longrightarrow> g' = g"
  by (auto simp: gc_append_def Let_def split: if_splits prod.splits)

lemma gc_append_ok:
  assumes "gc_append g tmpl p ts e lsn = (Inr a, g')" and "l = unat (record_bytes (of_nat (length (bs_bytes p))))"
  shows "length (bs_bytes p) \<le> kMaxPayload" "\<not> gc_halted g" "gc_cur_buf_idx g < kMaxBuffers" "gc_cur_len g + l \<le> kMaxGroupBytes"
    "gc_write g tmpl (bs_bytes p) ts e lsn l = (a, g')"
proof -
  obtain a0 g0 where w: "gc_write g tmpl (bs_bytes p) ts e lsn l = (a0, g0)" by fastforce
  have "length (bs_bytes p) \<le> kMaxPayload \<and> \<not> gc_halted g \<and> gc_cur_buf_idx g < kMaxBuffers \<and> gc_cur_len g + l \<le> kMaxGroupBytes
      \<and> a0 = a \<and> g0 = g'"
    using assms(1) unfolding gc_append_def Let_def assms(2) [symmetric] w by (simp split: if_split_asm) (auto simp: not_less)
  with w show "length (bs_bytes p) \<le> kMaxPayload" "\<not> gc_halted g" "gc_cur_buf_idx g < kMaxBuffers" "gc_cur_len g + l \<le> kMaxGroupBytes"
    "gc_write g tmpl (bs_bytes p) ts e lsn l = (a, g')" by simp_all
qed

lemma marks_lt:
  assumes "gc_order g lst" and "lst < lsn"
  shows "sorted_wrt (<) (gc_durable_lsn g # map ig_token (gc_queue g) @ [lsn])"
    and "\<forall>x\<in>set (gc_durable_lsn g # map ig_token (gc_queue g) @ [lsn]). x \<le> lsn"
proof -
  have le: "\<forall>x\<in>set (gc_durable_lsn g # map ig_token (gc_queue g)). x < lsn"
    using assms unfolding gc_order_def gc_marks_def by (simp only: set_simps set_append ball_simps ball_Un) (blast intro: le_less_trans)
  have "sorted_wrt (<) (gc_durable_lsn g # map ig_token (gc_queue g))"
    using assms(1) by (simp add: gc_order_def gc_marks_def sorted_wrt_append)
  with le show "sorted_wrt (<) (gc_durable_lsn g # map ig_token (gc_queue g) @ [lsn])"
    by (simp add: sorted_wrt_append)
  show "\<forall>x\<in>set (gc_durable_lsn g # map ig_token (gc_queue g) @ [lsn]). x \<le> lsn" using le by (auto intro: less_imp_le)
qed

lemma buffers_update:
  assumes "\<forall>m\<in>set ms. P m" and "P m'"
  shows "\<forall>m\<in>set (ms[i := m']). P m"
  using assms set_update_subset_insert [of ms i m'] by blast

lemma gc_append_keeps:
  assumes s: "gc_shape g" and o: "gc_order g lst" "lst < lsn" and h: "gc_holds g e gs cur"
    and a: "gc_append g tmpl p ts e lsn = (Inr a, g')"
  shows "gc_shape g' \<and> gc_order g' lsn
    \<and> gc_holds g' e gs (cur @ [\<lparr>lr_lsn = lsn, lr_ts_ns = ts, lr_tmpl = tmpl, lr_bytes = bs_bytes p\<rparr>])
    \<and> gc_durable_lsn g' = gc_durable_lsn g \<and> gc_block_size g' = gc_block_size g
    \<and> ap_lsn a = lsn \<and> bs_bytes (ap_payload a) = bs_bytes p \<and> ap_len a = length (bs_bytes p) \<and> 8 dvd bs_addr (ap_payload a)
    \<and> ap_len a \<le> kMaxPayload"
proof -
  let ?r = "wal_record tmpl (bs_bytes p) ts e lsn" and ?m0 = "gc_buffers g ! gc_cur_buf_idx g"
  let ?L = "unat (record_bytes (of_nat (length (bs_bytes p))))"
  define m where "m = write_at (gc_cur_len g) ?r ?m0"
  note ok = gc_append_ok [OF a refl]
  note len = ok(1) and idx = ok(3) and fit = ok(4)
  have L: "length ?r = ?L" "8 dvd ?L" "32 + length (bs_bytes p) \<le> ?L" using length_wal_record [OF len] record_bytes_dvd [OF len] by auto
  from ok(5) have a': "a = \<lparr>ap_lsn = lsn, ap_payload = \<lparr>bs_addr = bs_addr m + gc_cur_len g + 32,
            bs_bytes = take (length (bs_bytes p)) (drop (gc_cur_len g + 32) (bs_bytes m))\<rparr>, ap_len = length (bs_bytes p)\<rparr>"
    and g': "g' = g\<lparr>gc_buffers := (gc_buffers g)[gc_cur_buf_idx g := m],
            gc_cur_first_lsn := (if gc_cur_len g = 0 then lsn else gc_cur_first_lsn g),
            gc_cur_deadline_ns := (if gc_cur_len g = 0 then ts + gc_window_ns g else gc_cur_deadline_ns g),
            gc_cur_len := gc_cur_len g + ?L, gc_cur_last_lsn := lsn\<rparr>"
    unfolding gc_write_def Let_def m_def [symmetric] by simp_all
  have q: "gc_queue g' = gc_queue g" by (simp add: g' gc_queue_def)
  have lb: "length (gc_buffers g) = kMaxBuffers" and bufs: "\<forall>m\<in>set (gc_buffers g). length (bs_bytes m) = kMaxGroupBytes \<and> 8 dvd bs_addr m"
    using s by (auto simp: gc_shape_def)
  have "?m0 \<in> set (gc_buffers g)" using idx lb by simp
  then have m0: "length (bs_bytes ?m0) = kMaxGroupBytes" "8 dvd bs_addr ?m0" using bufs by auto
  have m': "length (bs_bytes m) = kMaxGroupBytes" "bs_addr m = bs_addr ?m0" "take (gc_cur_len g + ?L) (bs_bytes m) = take (gc_cur_len g) (bs_bytes ?m0) @ ?r"
    using fit m0(1) write_at_length [of "gc_cur_len g" ?r ?m0] write_at_extends [of "gc_cur_len g" ?r ?m0] by (simp_all add: m_def L)
  have shape: "gc_shape g'"
    using s idx fit L(2) bufs m' m0(2) buffers_update [OF bufs, of m "gc_cur_buf_idx g"] unfolding gc_shape_def q by (simp add: g')
  have "0 < ?L" using L(3) by simp
  then have "gc_marks g' = gc_durable_lsn g # map ig_token (gc_queue g) @ [lsn]" unfolding gc_marks_def q by (simp add: g')
  then have order: "gc_order g' lsn" using marks_lt [OF o] by (simp add: gc_order_def)
  have other: "gc_buffers g' ! ig_buf_idx x = gc_buffers g ! ig_buf_idx x" if "x \<in> set (gc_queue g)" for x
  proof -
    have "gc_cur_buf_idx g \<noteq> ig_buf_idx x" using s that by (auto simp: gc_shape_def)
    then show ?thesis by (simp add: g')
  qed
  have groups: "list_all2 (group_in g' e) (gc_queue g') gs"
  proof (rule holds_groups_cong [OF _ q])
    show "list_all2 (group_in g e) (gc_queue g) gs" using h by (simp add: gc_holds_def)
    show "gc_block_size g' = gc_block_size g" by (simp add: g')
  qed (rule other)
  have cur: "take (gc_cur_len g) (bs_bytes ?m0) = run_bytes e cur" "gc_cur_len g = length (run_bytes e cur)"
    using h by (cases "cur = []", auto simp: gc_holds_def)
  have holds: "gc_holds g' e gs (cur @ [\<lparr>lr_lsn = lsn, lr_ts_ns = ts, lr_tmpl = tmpl, lr_bytes = bs_bytes p\<rparr>])"
    using groups cur m'(3) idx lb L(1) by (simp add: gc_holds_def rec_of_def g')
  have "take (length (bs_bytes p)) (drop (gc_cur_len g + 32) (bs_bytes m)) = take (length (bs_bytes p)) (drop 32 ?r)"
    using m0(1) fit L by (simp add: m_def write_at_def)
  also have "\<dots> = bs_bytes p" by (simp add: wal_record_def Let_def)
  finally have pay: "bs_bytes (ap_payload a) = bs_bytes p" by (simp add: a')
  have "8 dvd bs_addr (ap_payload a)" using m'(2) m0(2) s by (simp add: a' gc_shape_def)
  with shape order holds pay len show ?thesis by (simp add: a' g')
qed

section \<open>Handing a group over\<close>

lemma up_to_le:
  assumes "0 < b" and "n \<le> m" and "b dvd m"
  shows "up_to b n \<le> m"
proof -
  have "up_to b n < m + b" using up_to_props(3) [OF assms(1), of n] assms(2) by linarith
  moreover obtain i j where "up_to b n = b * i" "m = b * j" using up_to_props(2) [OF assms(1)] assms(3) by (meson dvdE)
  ultimately show ?thesis using assms(1) by (metis add.commute mult_Suc_right less_Suc_eq_le mult_le_mono2 nat_mult_less_cancel1)
qed

lemma block_dvd_max: "is_valid_block b \<Longrightarrow> unat b dvd kMaxGroupBytes"
proof -
  assume "is_valid_block b"
  then obtain k where "unat b = 2 ^ k" "k \<le> 12" by (rule valid_block)
  moreover have "(2 :: nat) ^ k dvd 2 ^ 16" using \<open>k \<le> 12\<close> by (intro le_imp_power_dvd) simp
  ultimately show ?thesis by (simp add: kMaxGroupBytes_def)
qed

lemma padded_len:
  assumes "is_valid_block b" and "n \<le> kMaxGroupBytes"
  shows "unat (ucast (pad_to_block (of_nat n) b) :: u32) = up_to (unat b) n" and "up_to (unat b) n \<le> kMaxGroupBytes"
proof -
  show le: "up_to (unat b) n \<le> kMaxGroupBytes" using up_to_le [OF block_pos [OF assms(1)] assms(2) block_dvd_max [OF assms(1)]] .
  have "unat (pad_to_block (of_nat n) b) = up_to (unat b) n" using pad_to_block_up [OF assms(1)] assms(2) by (simp add: kMaxGroupBytes_def)
  moreover have "up_to (unat b) n < 2 ^ 32" using le by (simp add: kMaxGroupBytes_def)
  ultimately show "unat (ucast (pad_to_block (of_nat n) b) :: u32) = up_to (unat b) n"
    by (simp add: unsigned_ucast_eq take_bit_nat_eq_self)
qed

lemma first_free_le: "first_free fs \<le> length fs"
  by (induction fs) auto

lemma first_free_free: "first_free fs < length fs \<Longrightarrow> fs ! first_free fs"
  by (induction fs) (auto split: if_splits)

text \<open>The group keeps its bytes when it is padded.\<close>

definition gc_padded :: "GroupCommit \<Rightarrow> GroupCommit" where
  "gc_padded g = g\<lparr>gc_buffers := (gc_buffers g)[gc_cur_buf_idx g :=
     write_at (gc_cur_len g) (replicate (up_to (unat (gc_block_size g)) (gc_cur_len g) - gc_cur_len g) 0) (gc_buffers g ! gc_cur_buf_idx g)]\<rparr>"

lemma padded_keeps:
  assumes s: "gc_shape g" and o: "gc_order g lst" and h: "gc_holds g e gs cur" and c: "gc_cur_len g \<noteq> 0"
  shows "gc_shape (gc_padded g)" and "gc_order (gc_padded g) lst" and "gc_holds (gc_padded g) e gs cur" and "gc_queue (gc_padded g) = gc_queue g"
    and "take (up_to (unat (gc_block_size g)) (gc_cur_len g)) (bs_bytes (gc_buffers (gc_padded g) ! gc_cur_buf_idx g))
      = group_image (gc_block_size g) e cur"
proof -
  let ?m0 = "gc_buffers g ! gc_cur_buf_idx g" and ?n = "gc_cur_len g" and ?p = "up_to (unat (gc_block_size g)) (gc_cur_len g)"
  let ?z = "replicate (?p - ?n) 0 :: u8 list"
  define m where "m = write_at ?n ?z ?m0"
  have g': "gc_padded g = g\<lparr>gc_buffers := (gc_buffers g)[gc_cur_buf_idx g := m]\<rparr>" by (simp add: gc_padded_def m_def)
  show q: "gc_queue (gc_padded g) = gc_queue g" by (simp add: g' gc_queue_def)
  have idx: "gc_cur_buf_idx g < kMaxBuffers" and lb: "length (gc_buffers g) = kMaxBuffers" and v: "is_valid_block (gc_block_size g)"
    and bufs: "\<forall>m\<in>set (gc_buffers g). length (bs_bytes m) = kMaxGroupBytes \<and> 8 dvd bs_addr m" and n: "?n \<le> kMaxGroupBytes"
    using s c by (auto simp: gc_shape_def le_less)
  have m0: "length (bs_bytes ?m0) = kMaxGroupBytes" "8 dvd bs_addr ?m0" using bufs idx lb by auto
  have p: "?n \<le> ?p" "?p \<le> kMaxGroupBytes" using up_to_props(1) [OF block_pos [OF v]] padded_len(2) [OF v n] by auto
  have m': "length (bs_bytes m) = kMaxGroupBytes" "bs_addr m = bs_addr ?m0" "take ?p (bs_bytes m) = take ?n (bs_bytes ?m0) @ ?z"
    using p m0(1) write_at_length [of ?n ?z ?m0] write_at_extends [of ?n ?z ?m0] by (simp_all add: m_def)
  show "gc_shape (gc_padded g)" using s m' m0(2) buffers_update [OF bufs, of m "gc_cur_buf_idx g"] unfolding gc_shape_def q by (simp add: g')
  have "gc_marks (gc_padded g) = gc_marks g" unfolding gc_marks_def q by (simp add: g')
  with o show "gc_order (gc_padded g) lst" by (simp add: gc_order_def)
  have "take ?n (take ?p (bs_bytes m)) = take ?n (take ?n (bs_bytes ?m0) @ ?z)" by (simp only: m'(3))
  then have keep: "take ?n (bs_bytes m) = take ?n (bs_bytes ?m0)" using p m0(1) n by (simp add: min_def)
  have other: "gc_buffers (gc_padded g) ! ig_buf_idx x = gc_buffers g ! ig_buf_idx x" if "x \<in> set (gc_queue g)" for x
  proof -
    have "gc_cur_buf_idx g \<noteq> ig_buf_idx x" using s that by (auto simp: gc_shape_def)
    then show ?thesis by (simp add: g')
  qed
  have "list_all2 (group_in (gc_padded g) e) (gc_queue (gc_padded g)) gs"
  proof (rule holds_groups_cong [OF _ q])
    show "list_all2 (group_in g e) (gc_queue g) gs" using h by (simp add: gc_holds_def)
    show "gc_block_size (gc_padded g) = gc_block_size g" by (simp add: g')
  qed (rule other)
  then show "gc_holds (gc_padded g) e gs cur" using h keep idx lb by (auto simp: gc_holds_def g')
  have "cur \<noteq> []" using h c by (auto simp: gc_holds_def)
  with h have "take ?n (bs_bytes ?m0) = run_bytes e cur" "?n = length (run_bytes e cur)" by (auto simp: gc_holds_def)
  then show "take ?p (bs_bytes (gc_buffers (gc_padded g) ! gc_cur_buf_idx g)) = group_image (gc_block_size g) e cur"
    using m'(3) idx lb by (simp add: g' group_image_def)
qed

lemma enqueue_queue:
  assumes "gc_shape g" and "gc_inflight_count g < kMaxInflight"
  shows "gc_queue (gc_enqueue g p) = gc_queue g @ [\<lparr>ig_token = gc_cur_last_lsn g, ig_buf_idx = gc_cur_buf_idx g, ig_len = p,
           ig_in_use = True, ig_completed = False, ig_ok = False\<rparr>]"
  using ring_push [of "gc_inflight g", OF _ assms(2)] assms(1) by (simp add: gc_shape_def gc_queue_def gc_enqueue_def Let_def)

lemma enqueue_keeps:
  assumes s: "gc_shape g" and o: "gc_order g lst" and h: "gc_holds g e gs cur" and c: "gc_cur_len g \<noteq> 0" and room: "gc_inflight_count g < kMaxInflight"
    and p: "take p (bs_bytes (gc_buffers g ! gc_cur_buf_idx g)) = group_image (gc_block_size g) e cur"
  shows "gc_shape (gc_enqueue g p)" and "gc_order (gc_enqueue g p) lst" and "gc_holds (gc_enqueue g p) e (gs @ [cur]) []"
proof -
  define new where "new = \<lparr>ig_token = gc_cur_last_lsn g, ig_buf_idx = gc_cur_buf_idx g, ig_len = p, ig_in_use = True, ig_completed = False, ig_ok = False\<rparr>"
  let ?fr = "(gc_buf_free g)[gc_cur_buf_idx g := False]" and ?g = "gc_enqueue g p"
  note sh = s [unfolded gc_shape_def]
  have q: "gc_queue ?g = gc_queue g @ [new]"
    using enqueue_queue [OF s room] by (simp add: new_def)
  have idx: "gc_cur_buf_idx g < kMaxBuffers" using sh c by (auto simp: le_less)
  have fr: "?fr ! i \<longleftrightarrow> i \<notin> set (map ig_buf_idx (gc_queue ?g))" if "i < kMaxBuffers" for i
    using sh that idx by (auto simp: q new_def nth_list_update)
  have bound: "\<forall>x\<in>set (gc_queue ?g). ig_buf_idx x < kMaxBuffers" using sh idx by (auto simp: q new_def)
  have lf: "length ?fr = kMaxBuffers" using sh by simp
  then have ff: "first_free ?fr \<le> kMaxBuffers" using first_free_le [of ?fr] by simp
  have fresh: "first_free ?fr \<notin> set (map ig_buf_idx (gc_queue ?g))"
  proof (cases "first_free ?fr < kMaxBuffers")
    case True
    then show ?thesis using fr first_free_free [of ?fr] lf by simp
  next
    case False
    then show ?thesis using bound by auto
  qed
  have dist: "distinct (map ig_buf_idx (gc_queue ?g))" using sh by (simp add: q new_def)
  have tail: "(gc_tail g + 1) mod kMaxInflight = (gc_head g + (gc_inflight_count g + 1)) mod kMaxInflight"
    using sh by (simp add: mod_simps)
  show "gc_shape ?g"
    unfolding gc_shape_def using sh fr bound ff fresh dist tail room lf by (simp add: gc_enqueue_def Let_def)
  have "gc_marks ?g = gc_marks g" using c unfolding gc_marks_def q by (simp add: gc_enqueue_def Let_def new_def)
  with o show "gc_order ?g lst" by (simp add: gc_order_def)
  have "cur \<noteq> []" using h c by (auto simp: gc_holds_def)
  then have "group_in ?g e new cur" using h p by (simp add: group_in_def gc_holds_def new_def gc_enqueue_def Let_def)
  moreover have "list_all2 (group_in ?g e) (gc_queue g) gs"
    using h unfolding gc_holds_def by (elim conjE list.rel_mono_strong) (simp add: group_in_def gc_enqueue_def Let_def)
  ultimately have "list_all2 (group_in ?g e) (gc_queue ?g) (gs @ [cur])" by (simp add: q list_all2_appendI)
  then show "gc_holds ?g e (gs @ [cur]) []" by (simp add: gc_holds_def gc_enqueue_def Let_def)
qed

text \<open>The backend accepted one request, for these bytes at this offset.\<close>

definition submitted :: "'b IoBackend \<Rightarrow> 'b \<Rightarrow> u64 \<Rightarrow> nat \<Rightarrow> u64 \<Rightarrow> u8 list \<Rightarrow> 'b \<Rightarrow> bool" where
  "submitted be b off idx token bs b' \<longleftrightarrow>
     (\<exists>req st. io_submit be b req = (st, b') \<and> is_ok st \<and> wr_offset req = off \<and> wr_file_idx req = idx \<and> wr_len req = length bs
        \<and> wr_token req = token \<and> take (length bs) (bs_bytes (wr_buf req)) = bs)"

text \<open>
  What \<^verbatim>\<open>maybe_submit\<close> does: nothing, or a refused request, or one accepted request with exactly the
  bytes of the current group.
\<close>

lemma gc_maybe_submit_keeps:
  assumes s: "gc_shape g" and o: "gc_order g lst" and h: "gc_holds g e gs cur"
    and r: "gc_maybe_submit be g b now off idx force = (res, g', b')"
  shows "gc_shape g' \<and> gc_order g' lst \<and> gc_durable_lsn g' = gc_durable_lsn g \<and> gc_block_size g' = gc_block_size g
    \<and> (case res of
         Inl st \<Rightarrow> gc_holds g' e gs cur \<and> gc_queue g' = gc_queue g \<and> (b' = b \<or> (\<exists>req st. io_submit be b req = (st, b') \<and> \<not> is_ok st))
       | Inr n \<Rightarrow> if n = 0 then g' = g \<and> b' = b
           else cur \<noteq> [] \<and> gc_holds g' e (gs @ [cur]) [] \<and> n = length (group_image (gc_block_size g) e cur)
             \<and> (\<exists>q. gc_queue g' = gc_queue g @ [q] \<and> \<not> ig_completed q \<and> ig_token q = lr_lsn (last cur))
             \<and> submitted be b off idx (lr_lsn (last cur)) (group_image (gc_block_size g) e cur) b')"
proof (cases "gc_halted g \<or> gc_cur_len g = 0 \<or> (\<not> force \<and> now < gc_cur_deadline_ns g \<and> gc_cur_len g < kMaxGroupBytes)
      \<or> kMaxInflight \<le> gc_inflight_count g")
  case True
  then have "g' = g \<and> b' = b \<and> (\<forall>n. res = Inr n \<longrightarrow> n = 0)" using r s unfolding gc_maybe_submit_def gc_shape_def by (auto split: if_splits)
  then show ?thesis using s o h by (auto split: sum.splits)
next
  case False
  let ?p = "up_to (unat (gc_block_size g)) (gc_cur_len g)"
  have c: "gc_cur_len g \<noteq> 0" and room: "gc_inflight_count g < kMaxInflight" using False by auto
  have v: "is_valid_block (gc_block_size g)" and n: "gc_cur_len g \<le> kMaxGroupBytes" using s by (simp_all add: gc_shape_def)
  let ?req = "gc_request g ?p (gc_buffers (gc_padded g) ! gc_cur_buf_idx g) off idx"
  note k = padded_keeps [OF s o h c]
  have idx: "gc_cur_buf_idx g < length (gc_buffers g)" using s c by (auto simp: gc_shape_def le_less)
  obtain st where st: "io_submit be b ?req = (st, b')"
    and out: "(res, g') = (if is_ok st then (Inr ?p, gc_enqueue (gc_padded g) ?p) else (Inl st, gc_padded g))"
    using r False s idx unfolding gc_maybe_submit_def gc_submit_def Let_def padded_len(1) [OF v n]
    by (auto simp: gc_shape_def gc_padded_def split: prod.splits if_splits)
  have cur: "cur \<noteq> []" "gc_cur_last_lsn g = lr_lsn (last cur)" "gc_cur_len g = length (run_bytes e cur)" using h c by (auto simp: gc_holds_def)
  have pp: "?p \<noteq> 0" using up_to_props(1) [OF block_pos [OF v], of "gc_cur_len g"] c by simp
  show ?thesis
  proof (cases "is_ok st")
    case True
    with out have g': "res = Inr ?p" "g' = gc_enqueue (gc_padded g) ?p" by simp_all
    have e: "gc_shape g'" "gc_order g' lst" "gc_holds g' e (gs @ [cur]) []"
      using enqueue_keeps [OF k(1-3), of ?p] c room k(5) by (simp_all add: g' gc_padded_def)
    have len: "?p = length (group_image (gc_block_size g) e cur)" using length_group [OF v] cur(3) by simp
    have "submitted be b off idx (lr_lsn (last cur)) (group_image (gc_block_size g) e cur) b'"
      unfolding submitted_def len [symmetric] using st True k(5) cur(2) by (intro exI [of _ ?req] exI [of _ st]) (simp add: gc_request_def)
    moreover have "\<exists>q. gc_queue g' = gc_queue g @ [q] \<and> \<not> ig_completed q \<and> ig_token q = lr_lsn (last cur)"
      using enqueue_queue [OF k(1), of ?p] room cur(2) by (simp add: g' k(4)) (simp add: gc_padded_def)
    ultimately show ?thesis using e len pp cur(1) by (simp add: g' gc_enqueue_def gc_padded_def Let_def)
  next
    case False
    with out have g': "res = Inl st" "g' = gc_padded g" by simp_all
    show ?thesis using st False k(1-4) by (auto simp: g', auto simp: gc_padded_def)
  qed
qed

section \<open>Completions\<close>

text \<open>Marking changes only the two flags of a group.\<close>

definition same_group :: "InflightGroup \<Rightarrow> InflightGroup \<Rightarrow> bool" where
  "same_group x y \<longleftrightarrow> ig_token x = ig_token y \<and> ig_buf_idx x = ig_buf_idx y \<and> ig_len x = ig_len y \<and> ig_in_use x = ig_in_use y"

lemma mark_same: "list_all2 same_group (mark_group c igs) igs"
  by (induction c igs rule: mark_group.induct) (simp_all add: same_group_def list_all2_refl)

lemma ring_view_all2:
  assumes "list_all2 P xs ys" and "length xs = m" and "0 < m"
  shows "list_all2 P (ring_view m xs h c) (ring_view m ys h c)"
  using assms by (simp add: ring_view_def list_all2_conv_all_nth)

lemma same_queue:
  assumes "list_all2 same_group (gc_queue g') (gc_queue g)"
  shows "map ig_token (gc_queue g') = map ig_token (gc_queue g)" and "map ig_buf_idx (gc_queue g') = map ig_buf_idx (gc_queue g)"
  using assms by (auto simp: list_all2_conv_all_nth same_group_def intro: nth_equalityI)

lemma mark_keeps:
  assumes s: "gc_shape g" and o: "gc_order g lst" and h: "gc_holds g e gs cur"
  shows "gc_shape (gc_mark g c)" and "gc_order (gc_mark g c) lst" and "gc_holds (gc_mark g c) e gs cur"
    and "gc_durable_lsn (gc_mark g c) = gc_durable_lsn g" and "gc_block_size (gc_mark g c) = gc_block_size g"
proof -
  let ?g = "gc_mark g c"
  have len: "length (mark_group c (gc_inflight g)) = length (gc_inflight g)" using mark_same by (rule list_all2_lengthD)
  then have q: "list_all2 same_group (gc_queue ?g) (gc_queue g)"
    using ring_view_all2 [OF mark_same [of c "gc_inflight g"], of kMaxInflight "gc_head g" "gc_inflight_count g"] s
    by (simp add: gc_queue_def gc_mark_def gc_shape_def kMaxInflight_def)
  note sq = same_queue [OF q]
  have bound: "(\<forall>x\<in>set (gc_queue ?g). ig_buf_idx x < kMaxBuffers) = (\<forall>x\<in>set (gc_queue g). ig_buf_idx x < kMaxBuffers)"
    using arg_cong [OF sq(2), of "\<lambda>xs. \<forall>x\<in>set xs. x < kMaxBuffers"] by simp
  show "gc_shape ?g" using s unfolding gc_shape_def sq bound by (simp add: gc_mark_def len)
  have "gc_marks ?g = gc_marks g" unfolding gc_marks_def sq by (simp add: gc_mark_def)
  with o show "gc_order ?g lst" by (simp add: gc_order_def)
  have "list_all2 (group_in ?g e) (gc_queue ?g) gs"
  proof (rule list_all2_trans [OF _ q])
    show "list_all2 (group_in g e) (gc_queue g) gs" using h by (simp add: gc_holds_def)
    show "same_group x y \<Longrightarrow> group_in g e y rs \<Longrightarrow> group_in ?g e x rs" for x y rs
      by (simp add: same_group_def group_in_def gc_mark_def)
  qed
  then show "gc_holds ?g e gs cur" using h by (auto simp: gc_holds_def gc_mark_def)
  show "gc_durable_lsn ?g = gc_durable_lsn g" "gc_block_size ?g = gc_block_size g" by (simp_all add: gc_mark_def)
qed

lemma marks_keep:
  assumes "gc_shape g" and "gc_order g lst" and "gc_holds g e gs cur"
  shows "gc_shape (foldl gc_mark g cs)" "gc_order (foldl gc_mark g cs) lst" "gc_holds (foldl gc_mark g cs) e gs cur"
    "gc_durable_lsn (foldl gc_mark g cs) = gc_durable_lsn g" "gc_block_size (foldl gc_mark g cs) = gc_block_size g"
  using assms by (induction cs arbitrary: g) (simp_all add: mark_keeps)

text \<open>Popping the front group makes it durable.\<close>

lemma pop_fields:
  "gc_initialized (gc_pop g) = gc_initialized g" "gc_block_size (gc_pop g) = gc_block_size g" "gc_buffers (gc_pop g) = gc_buffers g"
  "gc_buf_free (gc_pop g) = (gc_buf_free g)[ig_buf_idx (gc_inflight g ! gc_head g) := True]"
  "length (gc_inflight (gc_pop g)) = length (gc_inflight g)" "gc_head (gc_pop g) = (gc_head g + 1) mod kMaxInflight"
  "gc_inflight_count (gc_pop g) = gc_inflight_count g - 1" "gc_tail (gc_pop g) = gc_tail g"
  "gc_cur_len (gc_pop g) = gc_cur_len g" "gc_cur_last_lsn (gc_pop g) = gc_cur_last_lsn g"
  by (simp_all add: gc_pop_def Let_def)

lemma halt_irrelevant [simp]:
  "gc_queue (g\<lparr>gc_halted := v\<rparr>) = gc_queue g" "gc_shape (g\<lparr>gc_halted := v\<rparr>) = gc_shape g"
  "gc_order (g\<lparr>gc_halted := v\<rparr>) = gc_order g" "gc_holds (g\<lparr>gc_halted := v\<rparr>) = gc_holds g"
proof -
  show q: "gc_queue (g\<lparr>gc_halted := v\<rparr>) = gc_queue g" by (simp add: gc_queue_def)
  show "gc_shape (g\<lparr>gc_halted := v\<rparr>) = gc_shape g" unfolding gc_shape_def q by simp
  show "gc_order (g\<lparr>gc_halted := v\<rparr>) = gc_order g" unfolding fun_eq_iff gc_order_def gc_marks_def q by simp
  have i: "group_in (g\<lparr>gc_halted := v\<rparr>) = group_in g" by (simp add: fun_eq_iff group_in_def)
  show "gc_holds (g\<lparr>gc_halted := v\<rparr>) = gc_holds g" by (intro ext) (simp add: gc_holds_def q i)
qed

lemma pop_queue:
  assumes s: "gc_shape g" and c: "0 < gc_inflight_count g"
  shows "gc_queue g = gc_inflight g ! gc_head g # gc_queue (gc_pop g)"
proof -
  let ?x = "gc_inflight g ! gc_head g"
  have head: "gc_head g < kMaxInflight" and cnt: "gc_inflight_count g \<le> kMaxInflight" using s by (simp_all add: gc_shape_def)
  have "(gc_head g + 1 + k) mod kMaxInflight \<noteq> gc_head g" if "k < gc_inflight_count g - 1" for k
    using ring_slots_differ [of 0 "1 + k" kMaxInflight "gc_head g"] that cnt head by (simp add: add.assoc)
  then have "ring_view kMaxInflight ((gc_inflight g)[gc_head g := ?x\<lparr>ig_in_use := False\<rparr>]) ((gc_head g + 1) mod kMaxInflight) (gc_inflight_count g - 1)
      = ring_view kMaxInflight (gc_inflight g) ((gc_head g + 1) mod kMaxInflight) (gc_inflight_count g - 1)"
    by (intro ring_update_outside) (simp add: mod_add_left_eq, metis)
  then show ?thesis using ring_pop_front [OF head c, of "gc_inflight g"] by (simp add: gc_queue_def gc_pop_def Let_def)
qed

lemma pop_keeps:
  assumes s: "gc_shape g" and o: "gc_order g lst" and h: "gc_holds g e gs cur" and c: "0 < gc_inflight_count g"
  shows "gc_shape (gc_pop g)" and "gc_order (gc_pop g) lst" and "gs \<noteq> []" and "gc_holds (gc_pop g) e (tl gs) cur"
    and "gc_durable_lsn (gc_pop g) = lr_lsn (last (hd gs))" and "gc_durable_lsn g < gc_durable_lsn (gc_pop g)"
proof -
  let ?g = "gc_pop g" and ?x = "gc_inflight g ! gc_head g"
  note sh = s [unfolded gc_shape_def]
  have q: "gc_queue g = ?x # gc_queue ?g" using pop_queue [OF s c] .
  obtain rs gs' where gs: "gs = rs # gs'" and x: "group_in g e ?x rs" and rest: "list_all2 (group_in g e) (gc_queue ?g) gs'"
    using h by (auto simp: gc_holds_def q list_all2_Cons1)
  show "gs \<noteq> []" by (simp add: gs)
  have b: "ig_buf_idx ?x < kMaxBuffers" "ig_buf_idx ?x \<notin> set (map ig_buf_idx (gc_queue ?g))" using sh by (auto simp: q)
  have free: "(gc_buf_free g)[ig_buf_idx ?x := True] ! i \<longleftrightarrow> i \<notin> set (map ig_buf_idx (gc_queue ?g))" if "i < kMaxBuffers" for i
    using sh that b by (auto simp: q nth_list_update)
  have dist: "distinct (map ig_buf_idx (gc_queue ?g))" and bound: "\<forall>x\<in>set (gc_queue ?g). ig_buf_idx x < kMaxBuffers"
    using sh by (simp_all add: q)
  have cur0: "gc_cur_buf_idx g \<le> kMaxBuffers" "gc_cur_buf_idx g \<notin> set (map ig_buf_idx (gc_queue ?g))"
    "gc_cur_buf_idx g = kMaxBuffers \<longrightarrow> gc_cur_len g = 0" using sh by (simp_all add: q)
  have idx: "gc_cur_buf_idx ?g = (if kMaxBuffers \<le> gc_cur_buf_idx g then ig_buf_idx ?x else gc_cur_buf_idx g)"
    and len: "gc_cur_len ?g = gc_cur_len g" by (simp_all add: gc_pop_def Let_def)
  have cur: "gc_cur_buf_idx ?g \<le> kMaxBuffers" "gc_cur_buf_idx ?g \<notin> set (map ig_buf_idx (gc_queue ?g))"
    "gc_cur_buf_idx ?g = kMaxBuffers \<longrightarrow> gc_cur_len ?g = 0" using cur0 b by (simp_all add: idx len)
  have cnt: "gc_inflight_count g - 1 \<le> kMaxInflight" using sh by auto
  have tail: "gc_tail g = ((gc_head g + 1) mod kMaxInflight + (gc_inflight_count g - 1)) mod kMaxInflight"
    using sh c by (cases "gc_inflight_count g") (simp_all add: mod_simps)
  show "gc_shape ?g"
    unfolding gc_shape_def using sh free dist bound cur tail cnt by (simp add: pop_fields)
  have d: "gc_durable_lsn ?g = ig_token ?x" by (simp add: gc_pop_def Let_def)
  then have marks: "gc_marks g = gc_durable_lsn g # gc_marks ?g" unfolding gc_marks_def q by (simp add: pop_fields)
  with o show "gc_order ?g lst" by (simp add: gc_order_def)
  have "gc_durable_lsn ?g \<in> set (gc_marks ?g)" by (simp add: gc_marks_def)
  with o marks show "gc_durable_lsn g < gc_durable_lsn ?g" by (simp add: gc_order_def)
  show "gc_durable_lsn ?g = lr_lsn (last (hd gs))" using d x by (simp add: gs group_in_def)
  have "list_all2 (group_in ?g e) (gc_queue ?g) gs'"
    using rest by (rule list.rel_mono_strong) (simp add: group_in_def gc_pop_def Let_def)
  moreover have "cur \<noteq> [] \<Longrightarrow> gc_cur_buf_idx ?g = gc_cur_buf_idx g"
    using sh h run_bytes_empty [of e cur] by (auto simp: gc_pop_def Let_def gc_holds_def)
  ultimately show "gc_holds ?g e (tl gs) cur" using h by (auto simp: gs gc_holds_def pop_fields)
qed

text \<open>
  The durable position only moves forward, over groups that the backend reported complete, from the
  oldest on.
\<close>

definition drains_to :: "GroupCommit \<Rightarrow> u32 \<Rightarrow> LogRecord list list \<Rightarrow> LogRecord list \<Rightarrow> GroupCommit \<Rightarrow> nat \<Rightarrow> bool" where
  "drains_to g e gs cur g' n \<longleftrightarrow> n \<le> length gs \<and> gc_holds g' e (drop n gs) cur
     \<and> gc_queue g' = drop n (gc_queue g) \<and> (\<forall>q\<in>set (take n (gc_queue g)). ig_completed q \<and> ig_ok q)
     \<and> gc_durable_lsn g' = (if n = 0 then gc_durable_lsn g else lr_lsn (last (gs ! (n - 1))))"

lemma drain_keeps:
  assumes "gc_shape g" and "gc_order g lst" and "gc_holds g e gs cur" and "gc_drain g = (st, g')"
  shows "gc_shape g' \<and> gc_order g' lst \<and> gc_durable_lsn g \<le> gc_durable_lsn g' \<and> gc_block_size g' = gc_block_size g
    \<and> (\<exists>n. drains_to g e gs cur g' n)"
  using assms
proof (induction g arbitrary: gs rule: gc_drain.induct)
  case (1 g)
  let ?h = "gc_inflight g ! gc_head g"
  show ?case
  proof (cases "0 < gc_inflight_count g \<and> ig_completed ?h \<and> ig_ok ?h")
    case False
    with 1(5) have g': "g' = g \<or> g' = g\<lparr>gc_halted := True\<rparr>" by (subst (asm) gc_drain.simps) (auto split: if_splits)
    then have "drains_to g e gs cur g' 0" using 1(4) by (auto simp: drains_to_def)
    then show ?thesis using g' 1(2,3) by auto
  next
    case True
    then have d: "gc_drain (gc_pop g) = (st, g')" using 1(5) by (subst (asm) gc_drain.simps) simp
    have c: "0 < gc_inflight_count g" using True by simp
    note k = pop_keeps [OF 1(2-4) c]
    have "gc_shape g' \<and> gc_order g' lst \<and> gc_durable_lsn (gc_pop g) \<le> gc_durable_lsn g' \<and> gc_block_size g' = gc_block_size (gc_pop g)
       \<and> (\<exists>n. drains_to (gc_pop g) e (tl gs) cur g' n)"
      using True d k(1,2,4) by (intro 1(1)) simp_all
    then obtain n where n: "drains_to (gc_pop g) e (tl gs) cur g' n"
      and i: "gc_shape g'" "gc_order g' lst" "gc_durable_lsn (gc_pop g) \<le> gc_durable_lsn g'" "gc_block_size g' = gc_block_size g"
      by (auto simp: pop_fields)
    obtain x gs' where gs: "gs = x # gs'" using k(3) by (cases gs) auto
    have "drains_to g e gs cur g' (Suc n)"
      using n True k(5) pop_queue [OF 1(2) c] by (cases n) (simp_all add: drains_to_def gs)
    moreover have "gc_durable_lsn g \<le> gc_durable_lsn g'" using k(6) i(3) by simp
    ultimately show ?thesis using i by blast
  qed
qed

section \<open>What the completions say\<close>

text \<open>
  \<open>P i\<close> is a fact about the \<open>i\<close>-th group handed over since the start, of which \<open>n\<close> have been
  popped.  It holds of every group marked complete and good when it holds of every group that a good
  completion names.
\<close>

definition gc_flags :: "GroupCommit \<Rightarrow> nat \<Rightarrow> (nat \<Rightarrow> bool) \<Rightarrow> bool" where
  "gc_flags g n P \<longleftrightarrow> (\<forall>i<length (gc_queue g). ig_completed (gc_queue g ! i) \<and> ig_ok (gc_queue g ! i) \<longrightarrow> P (n + i))"

definition good_for :: "GroupCommit \<Rightarrow> nat \<Rightarrow> (nat \<Rightarrow> bool) \<Rightarrow> Completion \<Rightarrow> bool" where
  "good_for g n P c \<longleftrightarrow> (cp_ok c \<longrightarrow> (\<forall>i<length (gc_queue g). ig_token (gc_queue g ! i) = cp_token c \<longrightarrow> P (n + i)))"

definition marked_by :: "Completion \<Rightarrow> InflightGroup \<Rightarrow> InflightGroup \<Rightarrow> bool" where
  "marked_by c x y \<longleftrightarrow> same_group x y \<and> (ig_completed x \<and> ig_ok x \<longrightarrow> ig_completed y \<and> ig_ok y \<or> ig_token y = cp_token c \<and> cp_ok c)"

lemma mark_by: "list_all2 (marked_by c) (mark_group c igs) igs"
  by (induction c igs rule: mark_group.induct) (auto simp: marked_by_def same_group_def intro: list_all2_refl)

lemma mark_flags:
  assumes s: "gc_shape g" and f: "gc_flags g n P" and c: "good_for g n P c"
  shows "gc_flags (gc_mark g c) n P" and "good_for (gc_mark g c) n P d = good_for g n P d"
proof -
  let ?g = "gc_mark g c"
  have len: "length (mark_group c (gc_inflight g)) = length (gc_inflight g)" using mark_by by (rule list_all2_lengthD)
  then have q: "list_all2 (marked_by c) (gc_queue ?g) (gc_queue g)"
    using ring_view_all2 [OF mark_by [of c "gc_inflight g"], of kMaxInflight "gc_head g" "gc_inflight_count g"] s
    by (simp add: gc_queue_def gc_mark_def gc_shape_def kMaxInflight_def)
  then have l: "length (gc_queue ?g) = length (gc_queue g)" and
    m: "\<And>i. i < length (gc_queue g) \<Longrightarrow> marked_by c (gc_queue ?g ! i) (gc_queue g ! i)" by (auto simp: list_all2_conv_all_nth)
  show "gc_flags ?g n P"
    unfolding gc_flags_def l
  proof (intro allI impI)
    fix i assume i: "i < length (gc_queue g)" and x: "ig_completed (gc_queue ?g ! i) \<and> ig_ok (gc_queue ?g ! i)"
    show "P (n + i)" using m [OF i] x f c i unfolding marked_by_def gc_flags_def good_for_def by blast
  qed
  show "good_for ?g n P d = good_for g n P d" using m l by (auto simp: good_for_def marked_by_def same_group_def)
qed

lemma marks_flags:
  assumes "gc_shape g" and "gc_order g lst" and "gc_holds g e gs cur" and "gc_flags g n P" and "\<forall>c\<in>set cs. good_for g n P c"
  shows "gc_flags (foldl gc_mark g cs) n P"
  using assms
proof (induction cs arbitrary: g)
  case (Cons c cs)
  note k = mark_keeps [OF Cons.prems(1-3)] and f = mark_flags [OF Cons.prems(1,4), of c]
  have "good_for g n P c" using Cons.prems(5) by simp
  with f have "gc_flags (gc_mark g c) n P" "\<forall>d\<in>set cs. good_for (gc_mark g c) n P d" using Cons.prems(5) by auto
  with k Cons.IH [of "gc_mark g c"] show ?case by simp
qed simp

lemma marks_queue:
  assumes "gc_shape g" and "gc_order g lst" and "gc_holds g e gs cur"
  shows "map ig_token (gc_queue (foldl gc_mark g cs)) = map ig_token (gc_queue g)"
  using assms
proof (induction cs arbitrary: g)
  case (Cons c cs)
  have "list_all2 same_group (gc_queue (gc_mark g c)) (gc_queue g)"
    using ring_view_all2 [OF mark_same [of c "gc_inflight g"], of kMaxInflight "gc_head g" "gc_inflight_count g"] Cons.prems(1)
      list_all2_lengthD [OF mark_same [of c "gc_inflight g"]]
    by (simp add: gc_queue_def gc_mark_def gc_shape_def kMaxInflight_def)
  from same_queue(1) [OF this] Cons.IH [OF mark_keeps(1-3) [OF Cons.prems]] show ?case by simp
qed simp

text \<open>A turn of \<^verbatim>\<open>reap\<close>, whatever the backend returns.\<close>

lemma gc_reap_keeps:
  assumes s: "gc_shape g" and o: "gc_order g lst" and h: "gc_holds g e gs cur"
    and r: "gc_reap be g b = (st, g', b')"
  shows "gc_shape g' \<and> gc_order g' lst \<and> gc_durable_lsn g \<le> gc_durable_lsn g' \<and> gc_block_size g' = gc_block_size g
    \<and> (\<exists>m cs. io_reap be b kMaxInflight = (cs, b') \<and> m \<le> length gs \<and> gc_holds g' e (drop m gs) cur
         \<and> gc_durable_lsn g' = (if m = 0 then gc_durable_lsn g else lr_lsn (last (gs ! (m - 1))))
         \<and> map ig_token (gc_queue g') = drop m (map ig_token (gc_queue g))
         \<and> (\<forall>n P. gc_flags g n P \<longrightarrow> (\<forall>c\<in>set cs. good_for g n P c) \<longrightarrow> gc_flags g' (n + m) P \<and> (\<forall>i<m. P (n + i))))"
proof -
  obtain cs where cs: "io_reap be b kMaxInflight = (cs, b')" and d: "gc_drain (foldl gc_mark g cs) = (st, g')"
    using r s by (auto simp: gc_reap_def gc_shape_def Let_def split: prod.splits)
  let ?g = "foldl gc_mark g cs"
  note k = marks_keep [OF s o h, of cs]
  from drain_keeps [OF k(1-3) d] obtain m where i: "gc_shape g'" "gc_order g' lst" "gc_durable_lsn ?g \<le> gc_durable_lsn g'" "gc_block_size g' = gc_block_size ?g"
    and m: "drains_to ?g e gs cur g' m" by blast
  have q: "gc_queue g' = drop m (gc_queue ?g)" "m \<le> length gs" "\<forall>q\<in>set (take m (gc_queue ?g)). ig_completed q \<and> ig_ok q"
    "gc_holds g' e (drop m gs) cur" "gc_durable_lsn g' = (if m = 0 then gc_durable_lsn g else lr_lsn (last (gs ! (m - 1))))"
    using m k(4) by (simp_all add: drains_to_def)
  have len: "length gs = length (gc_queue ?g)" using k(3) by (auto simp: gc_holds_def dest: list_all2_lengthD)
  have fl: "gc_flags g' (n + m) P \<and> (\<forall>i<m. P (n + i))" if "gc_flags g n P" "\<forall>c\<in>set cs. good_for g n P c" for n P
  proof -
    have f: "gc_flags ?g n P" using marks_flags [OF s o h that] .
    have "P (n + i)" if "i < m" for i
    proof -
      have "gc_queue ?g ! i \<in> set (take m (gc_queue ?g))" using that q(2) len by (auto simp: in_set_conv_nth)
      with q(3) f that q(2) len show ?thesis by (simp add: gc_flags_def)
    qed
    moreover have "gc_flags g' (n + m) P" using f q(2) len by (auto simp: gc_flags_def q(1) add.assoc)
    ultimately show ?thesis by blast
  qed
  have toks: "map ig_token (gc_queue g') = drop m (map ig_token (gc_queue g))" by (simp only: q(1) drop_map [symmetric] marks_queue [OF s o h])
  have rest: "\<forall>n P. gc_flags g n P \<longrightarrow> (\<forall>c\<in>set cs. good_for g n P c) \<longrightarrow> gc_flags g' (n + m) P \<and> (\<forall>i<m. P (n + i))"
    by (intro allI impI) (rule fl)
  show ?thesis
  proof (intro conjI exI [of _ m] exI [of _ cs])
    show "gc_durable_lsn g \<le> gc_durable_lsn g'" "gc_block_size g' = gc_block_size g" using i(3,4) k(4,5) by simp_all
  qed (rule i(1) i(2) cs q(2) q(4) q(5) toks rest)+
qed

section \<open>Start\<close>

lemma alloc_buffers_props:
  assumes "alloc_buffers memalign n = Some bs" and "\<And>i a. memalign i = Some a \<Longrightarrow> 8 dvd a"
  shows "length bs = n \<and> (\<forall>m\<in>set bs. length (bs_bytes m) = kMaxGroupBytes \<and> 8 dvd bs_addr m)"
  using assms(1)
proof (induction n arbitrary: bs)
  case (Suc n)
  then obtain cs a where "alloc_buffers memalign n = Some cs" "memalign n = Some a"
    "bs = cs @ [\<lparr>bs_addr = a, bs_bytes = replicate kMaxGroupBytes 0\<rparr>]" by (auto split: option.splits)
  with Suc.IH [of cs] assms(2) [of n a] show ?case by auto
qed simp

lemma gc_init_starts:
  assumes "gc_init be memalign b block window g0 = (kOk, b', g)" and "is_valid_block block" and "length (gc_inflight g0) = kMaxInflight"
    and "\<And>i a. memalign i = Some a \<Longrightarrow> 8 dvd a"
  shows "gc_shape g \<and> gc_order g l \<and> gc_holds g e [] [] \<and> gc_queue g = [] \<and> gc_durable_lsn g = 0 \<and> gc_block_size g = block \<and> \<not> gc_halted g"
proof -
  obtain bufs st where b: "alloc_buffers memalign kMaxBuffers = Some bufs" and r: "io_register_buffers be b bufs = (st, b')" and k: "is_ok st"
    using assms(1) by (auto simp: gc_init_def Let_def fail_def kOk_def is_ok_def split: option.splits prod.splits if_splits)
  have g: "g = (gc_shutdown g0)\<lparr>gc_block_size := block, gc_window_ns := window, gc_cur_buf_idx := 0, gc_cur_len := 0,
                gc_cur_deadline_ns := 0, gc_cur_first_lsn := 0, gc_cur_last_lsn := 0, gc_head := 0, gc_tail := 0,
                gc_inflight_count := 0, gc_durable_lsn := 0, gc_halted := False, gc_buffers := bufs, gc_buf_free := replicate kMaxBuffers True, gc_initialized := True\<rparr>"
    using assms(1) b r k by (simp add: gc_init_def Let_def)
  have q: "gc_queue g = []" by (simp add: g gc_queue_def ring_view_def)
  have "gc_shape g" unfolding gc_shape_def q using assms(2,3) alloc_buffers_props [OF b assms(4)]
    by (simp add: g gc_shutdown_def kMaxBuffers_def kMaxInflight_def)
  moreover have "gc_order g l" unfolding gc_order_def gc_marks_def q by (simp add: g)
  moreover have "gc_holds g e [] []" unfolding gc_holds_def q by (simp add: g)
  ultimately show ?thesis using q by (simp add: g)
qed

section \<open>A failed write\<close>

lemma marks_halt:
  assumes "c \<in> set cs" and "\<not> cp_ok c" and "list_ex (\<lambda>ig. ig_in_use ig \<and> ig_token ig = cp_token c) (gc_inflight g)"
  shows "gc_halted (foldl gc_mark g cs)"
  using assms
proof (induction cs arbitrary: g)
  case (Cons d cs)
  have stay: "gc_halted (foldl gc_mark g' ds)" if "gc_halted g'" for g' ds using that by (induction ds arbitrary: g') (simp_all add: gc_mark_def)
  have "list_ex (\<lambda>ig. ig_in_use ig \<and> ig_token ig = t) (mark_group d igs) = list_ex (\<lambda>ig. ig_in_use ig \<and> ig_token ig = t) igs" for t igs
    by (induction igs) auto
  then have "list_ex (\<lambda>ig. ig_in_use ig \<and> ig_token ig = cp_token c) (gc_inflight (gc_mark g d))" using Cons.prems(3) by (simp add: gc_mark_def)
  moreover have "c = d \<Longrightarrow> gc_halted (gc_mark g d)" using Cons.prems by (simp add: gc_mark_def)
  ultimately show ?case using Cons stay by auto
qed simp

lemma drain_halted: "gc_halted g \<Longrightarrow> gc_drain g = (st, g') \<Longrightarrow> st = fail IoError 0 \<and> gc_halted g'"
proof (induction g rule: gc_drain.induct)
  case (1 g)
  have "gc_halted (gc_pop g)" using 1(2) by (simp add: gc_pop_def Let_def)
  with 1 show ?case by (subst (asm) (2) gc_drain.simps) (auto split: if_splits)
qed

end
