(* ===== verification/RV_Segment_Reader.thy ===== *)
theory RV_Segment_Reader
  imports RV_Wal_Format RV_Events
begin

text \<open>
  \<^verbatim>\<open>src/wal/segment_reader.cpp\<close>: the sequential reader of one mapped segment.  The mapping is a
  span of bytes at an address; offsets into it are natural numbers, rounded by the 64-bit arithmetic of
  the format.  The loop of \<open>sr_next\<close> is a partial function: \<open>None\<close> would be a loop that never
  ends, and \<open>sr_next_returns\<close> below shows that it always returns on a segment smaller than the
  address space.  The checksum is \<open>crc32c_table\<close>, to which \<open>RV_Crc\<close> reduces both paths of
  \<^verbatim>\<open>crc32c\<close>.
\<close>

section \<open>State\<close>

datatype ReplayStopReason = RsClean | RsBadMagic | RsBadCrc | RsLsnGap | RsEpochMismatch | RsSegmentDiscontinuity | RsShortSegment

fun stop_reason_to_string :: "ReplayStopReason \<Rightarrow> string" where
  "stop_reason_to_string RsClean = ''Clean''"
| "stop_reason_to_string RsBadMagic = ''BadMagic''"
| "stop_reason_to_string RsBadCrc = ''BadCrc''"
| "stop_reason_to_string RsLsnGap = ''LsnGap''"
| "stop_reason_to_string RsEpochMismatch = ''EpochMismatch''"
| "stop_reason_to_string RsSegmentDiscontinuity = ''SegmentDiscontinuity''"
| "stop_reason_to_string RsShortSegment = ''ShortSegment''"

record SegmentReader =
  sr_mapped :: ByteSpan
  sr_offset :: nat
  sr_resume_offset :: nat
  sr_block_size :: u32
  sr_epoch :: u32
  sr_first_lsn :: Lsn
  sr_expected_lsn :: Lsn
  sr_last_valid_lsn :: Lsn
  sr_stop_reason :: ReplayStopReason

definition sr_new :: SegmentReader where
  "sr_new = \<lparr>sr_mapped = \<lparr>bs_addr = 0, bs_bytes = []\<rparr>, sr_offset = kSegmentHdrBytes, sr_resume_offset = kSegmentHdrBytes,
     sr_block_size = kFallbackBlock, sr_epoch = 0, sr_first_lsn = 0, sr_expected_lsn = 0, sr_last_valid_lsn = 0,
     sr_stop_reason = RsClean\<rparr>"

section \<open>Opening a segment\<close>

definition sr_open :: "SegmentReader \<Rightarrow> ByteSpan \<Rightarrow> Lsn \<Rightarrow> Status \<times> SegmentReader" where
  "sr_open sr mapped expected_first =
     (let sr1 = sr\<lparr>sr_mapped := mapped, sr_offset := kSegmentHdrBytes, sr_resume_offset := kSegmentHdrBytes, sr_stop_reason := RsClean\<rparr>;
          bs = bs_bytes mapped in
      if length bs < kSegmentHdrBytes then (fail BadMagic 0, sr1\<lparr>sr_stop_reason := RsShortSegment\<rparr>)
      else let sh = segment_hdr_of bs in
      if sh_magic sh \<noteq> kSegmentMagic then (fail BadMagic 0, sr1\<lparr>sr_stop_reason := RsBadMagic\<rparr>)
      else if sh_format_version sh \<noteq> kSegmentFormatVersion then (fail BadMagic 0, sr1\<lparr>sr_stop_reason := RsBadMagic\<rparr>)
      else if crc32c_table 0 (segment_hdr_bytes (sh\<lparr>sh_crc32c := 0\<rparr>)) \<noteq> sh_crc32c sh then
        (fail BadCrc 0, sr1\<lparr>sr_stop_reason := RsBadCrc\<rparr>)
      else let sr2 = sr1\<lparr>sr_epoch := sh_epoch sh, sr_first_lsn := sh_first_lsn sh,
                         sr_block_size := (if is_valid_block (sh_block_size sh) then sh_block_size sh else kFallbackBlock)\<rparr> in
      if expected_first \<noteq> 0 \<and> expected_first < sr_first_lsn sr2 then
        (fail LsnGap 0, sr2\<lparr>sr_stop_reason := RsSegmentDiscontinuity\<rparr>)
      else (kOk, sr2\<lparr>sr_expected_lsn := sr_first_lsn sr2,
                     sr_last_valid_lsn := (if 1 < sr_first_lsn sr2 then sr_first_lsn sr2 - 1 else 0)\<rparr>))"

section \<open>The next record\<close>

definition sr_stop :: "SegmentReader \<Rightarrow> ReplayStopReason \<Rightarrow> (EventView option \<times> SegmentReader) option" where
  "sr_stop sr r = Some (None, sr\<lparr>sr_stop_reason := r\<rparr>)"

text \<open>The record at the current offset, whose first word and magic have been read.\<close>

definition sr_record :: "SegmentReader \<Rightarrow> (EventView option \<times> SegmentReader) option" where
  "sr_record sr =
     (let bs = bs_bytes (sr_mapped sr); off = sr_offset sr; h = wal_hdr_of (drop off bs); len = unat (wh_len h) in
      if wh_epoch h \<noteq> sr_epoch sr then sr_stop sr RsEpochMismatch
      else if kMaxPayload < len then sr_stop sr RsBadMagic
      else let rec_bytes = unat (record_bytes (of_nat len)) in
      if length bs < off + rec_bytes then sr_stop sr RsShortSegment
      else if crc32c_table (crc32c_table 0 (wal_hdr_bytes (h\<lparr>wh_crc32c := 0\<rparr>))) (take len (drop (off + 32) bs)) \<noteq> wh_crc32c h then
        sr_stop sr RsBadCrc
      else if sr_expected_lsn sr \<noteq> 0 \<and> wh_lsn h \<noteq> sr_expected_lsn sr then sr_stop sr RsLsnGap
      else Some (Some \<lparr>ev_lsn = wh_lsn h, ev_ts_ns = wh_ts_ns h,
                       ev_payload = \<lparr>bs_addr = bs_addr (sr_mapped sr) + off + 32, bs_bytes = drop (off + 32) bs\<rparr>,
                       ev_tmpl = wh_tmpl h, ev_len = len\<rparr>,
                 sr\<lparr>sr_last_valid_lsn := wh_lsn h, sr_expected_lsn := wh_lsn h + 1, sr_offset := off + rec_bytes,
                    sr_resume_offset := unat (pad_to_block (of_nat (off + rec_bytes)) (sr_block_size sr))\<rparr>))"

definition sr_skip :: "SegmentReader \<Rightarrow> SegmentReader" where
  "sr_skip sr = sr\<lparr>sr_offset := unat (pad_to_block (of_nat (sr_offset sr)) (sr_block_size sr))\<rparr>"

partial_function (option) sr_next :: "SegmentReader \<Rightarrow> (EventView option \<times> SegmentReader) option" where
  "sr_next sr =
     (let bs = bs_bytes (sr_mapped sr); off = sr_offset sr; block = unat (sr_block_size sr) in
      if length bs \<le> off then sr_stop sr RsClean
      else if length bs - off < 32 then
        sr_stop sr (if list_all (\<lambda>b. b = 0) (drop off bs) then RsClean else RsShortSegment)
      else if load_le 8 (drop off bs) = 0 then
        if off mod block = 0 then sr_stop sr RsClean else sr_next (sr_skip sr)
      else if of_nat (load_le 4 (drop off bs)) \<noteq> kWalMagic then
        if off mod block \<noteq> 0 then sr_next (sr_skip sr) else sr_stop sr RsBadMagic
      else sr_record sr)"

section \<open>The loop returns\<close>

definition sr_ok :: "SegmentReader \<Rightarrow> bool" where
  "sr_ok sr \<longleftrightarrow> is_valid_block (sr_block_size sr) \<and> length (bs_bytes (sr_mapped sr)) + 8192 < 2 ^ 64"

lemma sr_skip_offset:
  assumes "sr_ok sr" and "sr_offset sr < length (bs_bytes (sr_mapped sr))"
  shows "sr_offset (sr_skip sr) = up_to (unat (sr_block_size sr)) (sr_offset sr)"
  using assms pad_to_block_up [of "sr_block_size sr" "sr_offset sr"] by (simp add: sr_ok_def sr_skip_def)

lemma skip_forward:
  assumes "sr_ok sr" and "sr_offset sr < length (bs_bytes (sr_mapped sr))" and "sr_offset sr mod unat (sr_block_size sr) \<noteq> 0"
  shows "sr_offset sr < sr_offset (sr_skip sr)" and "sr_offset (sr_skip sr) mod unat (sr_block_size sr) = 0"
proof -
  have b: "0 < unat (sr_block_size sr)" using assms(1) block_pos by (simp add: sr_ok_def)
  note o = sr_skip_offset [OF assms(1,2)] and u = up_to_props [OF b, of "sr_offset sr"]
  show "sr_offset (sr_skip sr) mod unat (sr_block_size sr) = 0" using o u(2) by simp
  with assms(3) o u(1) show "sr_offset sr < sr_offset (sr_skip sr)" by (metis le_neq_implies_less)
qed

lemma sr_record_returns: "\<exists>r. sr_record sr = Some r"
  by (simp add: sr_record_def sr_stop_def Let_def)

lemma sr_next_returns:
  assumes "sr_ok sr"
  shows "\<exists>r. sr_next sr = Some r"
  using assms
proof (induction "length (bs_bytes (sr_mapped sr)) - sr_offset sr" arbitrary: sr rule: less_induct)
  case less
  have again: "\<exists>r. sr_next (sr_skip sr) = Some r"
    if "sr_offset sr < length (bs_bytes (sr_mapped sr))" "sr_offset sr mod unat (sr_block_size sr) \<noteq> 0"
    using less(1) [of "sr_skip sr"] skip_forward(1) [OF less(2) that] that less(2) by (simp add: sr_skip_def sr_ok_def)
  show ?case
    using again sr_record_returns [of sr] by (subst sr_next.simps) (simp add: sr_stop_def Let_def)
qed

text \<open>A record moves the reader forward inside the same mapping.\<close>

lemma sr_record_advances:
  assumes "sr_record sr = Some (Some ev, sr1)"
  shows "sr_offset sr + 32 \<le> sr_offset sr1 \<and> sr_offset sr1 \<le> length (bs_bytes (sr_mapped sr)) \<and> sr_mapped sr1 = sr_mapped sr \<and> sr_block_size sr1 = sr_block_size sr"
    and "ev_len ev \<le> length (bs_bytes (ev_payload ev))" and "sr_expected_lsn sr = 0 \<or> ev_lsn ev = sr_expected_lsn sr" and "sr_expected_lsn sr1 = ev_lsn ev + 1"
    and "8 dvd sr_offset sr \<Longrightarrow> 8 dvd bs_addr (sr_mapped sr) \<Longrightarrow> 8 dvd bs_addr (ev_payload ev) \<and> 8 dvd sr_offset sr1"
proof -
  let ?h = "wal_hdr_of (drop (sr_offset sr) (bs_bytes (sr_mapped sr)))"
  let ?L = "unat (record_bytes (of_nat (unat (wh_len ?h))))"
  have len: "unat (wh_len ?h) \<le> kMaxPayload" using unsigned_less [of "wh_len ?h", where 'a = nat] by (simp add: kMaxPayload_def)
  have L: "?L \<ge> 32 + unat (wh_len ?h)" using record_bytes_up [OF len] up_to_props(1) [of 8 "unat (wh_len ?h)"] by simp
  from assms have sz: "sr_offset sr + ?L \<le> length (bs_bytes (sr_mapped sr))"
    and off: "sr_offset sr1 = sr_offset sr + ?L" "sr_mapped sr1 = sr_mapped sr" "sr_block_size sr1 = sr_block_size sr"
    and lsn: "sr_expected_lsn sr = 0 \<or> ev_lsn ev = sr_expected_lsn sr" "sr_expected_lsn sr1 = ev_lsn ev + 1"
    and ev: "ev_len ev = unat (wh_len ?h)" "bs_bytes (ev_payload ev) = drop (sr_offset sr + 32) (bs_bytes (sr_mapped sr))"
    unfolding sr_record_def Let_def sr_stop_def by (auto split: if_split_asm)
  show "sr_offset sr + 32 \<le> sr_offset sr1 \<and> sr_offset sr1 \<le> length (bs_bytes (sr_mapped sr)) \<and> sr_mapped sr1 = sr_mapped sr \<and> sr_block_size sr1 = sr_block_size sr"
    using L sz by (simp add: off)
  have "bs_addr (ev_payload ev) = bs_addr (sr_mapped sr) + sr_offset sr + 32" using assms unfolding sr_record_def Let_def sr_stop_def by (auto split: if_split_asm)
  moreover have "8 dvd ?L" using record_bytes_up [OF len] up_to_props(2) [of 8] by simp
  ultimately show "8 dvd sr_offset sr \<Longrightarrow> 8 dvd bs_addr (sr_mapped sr) \<Longrightarrow> 8 dvd bs_addr (ev_payload ev) \<and> 8 dvd sr_offset sr1" by (simp add: off)
  show "ev_len ev \<le> length (bs_bytes (ev_payload ev))" using L sz by (simp add: ev)
qed (use assms in \<open>auto simp: sr_record_def Let_def sr_stop_def split: if_split_asm\<close>)

text \<open>What the loop returns is the record at an offset it skipped to.\<close>

lemma sr_next_record:
  assumes "sr_ok sr" and "sr_next sr = Some (Some ev, sr1)"
  shows "\<exists>off\<ge>sr_offset sr. (8 dvd sr_offset sr \<longrightarrow> 8 dvd off) \<and> sr_record (sr\<lparr>sr_offset := off\<rparr>) = Some (Some ev, sr1)"
  using assms
proof (induction "length (bs_bytes (sr_mapped sr)) - sr_offset sr" arbitrary: sr rule: less_induct)
  case less
  have step: "sr_next sr = sr_record sr \<or> (sr_offset sr < length (bs_bytes (sr_mapped sr)) \<and> sr_offset sr mod unat (sr_block_size sr) \<noteq> 0 \<and> sr_next sr = sr_next (sr_skip sr))"
    using less(3) sr_next.simps [of sr] by (auto simp: Let_def sr_stop_def split: if_split_asm)
  show ?case
  proof (cases "sr_next sr = sr_record sr")
    case True
    with less(3) show ?thesis by (intro exI [of _ "sr_offset sr"]) simp
  next
    case False
    with step have c: "sr_offset sr < length (bs_bytes (sr_mapped sr))" "sr_offset sr mod unat (sr_block_size sr) \<noteq> 0" "sr_next sr = sr_next (sr_skip sr)" by auto
    have f: "sr_offset sr < sr_offset (sr_skip sr)" using skip_forward(1) [OF less(2) c(1,2)] .
    have k: "sr_ok (sr_skip sr)" "sr_mapped (sr_skip sr) = sr_mapped sr" "(sr_skip sr)\<lparr>sr_offset := x\<rparr> = sr\<lparr>sr_offset := x\<rparr>" for x
      using less(2) by (simp_all add: sr_skip_def sr_ok_def)
    have "8 dvd sr_offset (sr_skip sr)"
      using eight_dvd_block up_to_props(2) [OF block_pos] less(2) sr_skip_offset [OF less(2) c(1)] by (metis dvd_trans sr_ok_def)
    moreover have "\<exists>off\<ge>sr_offset (sr_skip sr). (8 dvd sr_offset (sr_skip sr) \<longrightarrow> 8 dvd off) \<and> sr_record ((sr_skip sr)\<lparr>sr_offset := off\<rparr>) = Some (Some ev, sr1)"
      using less(3) c f k(1,2) by (intro less(1)) simp_all
    ultimately show ?thesis using f k(3) by (metis le_trans less_imp_le)
  qed
qed

lemma sr_next_advances:
  assumes "sr_ok sr" and "sr_next sr = Some (Some ev, sr1)"
  shows "sr_offset sr + 32 \<le> sr_offset sr1 \<and> sr_offset sr1 \<le> length (bs_bytes (sr_mapped sr)) \<and> sr_mapped sr1 = sr_mapped sr \<and> sr_block_size sr1 = sr_block_size sr"
    and "ev_len ev \<le> length (bs_bytes (ev_payload ev))" and "sr_expected_lsn sr = 0 \<or> ev_lsn ev = sr_expected_lsn sr" and "sr_expected_lsn sr1 = ev_lsn ev + 1"
    and "8 dvd sr_offset sr \<Longrightarrow> 8 dvd bs_addr (sr_mapped sr) \<Longrightarrow> 8 dvd bs_addr (ev_payload ev) \<and> 8 dvd sr_offset sr1"
proof -
  obtain off where d: "sr_offset sr \<le> off" "8 dvd sr_offset sr \<longrightarrow> 8 dvd off" and r: "sr_record (sr\<lparr>sr_offset := off\<rparr>) = Some (Some ev, sr1)" using sr_next_record [OF assms] by blast
  then show "sr_offset sr + 32 \<le> sr_offset sr1 \<and> sr_offset sr1 \<le> length (bs_bytes (sr_mapped sr)) \<and> sr_mapped sr1 = sr_mapped sr \<and> sr_block_size sr1 = sr_block_size sr"
    using sr_record_advances(1) [OF r] by simp
  show "ev_len ev \<le> length (bs_bytes (ev_payload ev))" "sr_expected_lsn sr = 0 \<or> ev_lsn ev = sr_expected_lsn sr" "sr_expected_lsn sr1 = ev_lsn ev + 1"
    using sr_record_advances(2-4) [OF r] by simp_all
  show "8 dvd sr_offset sr \<Longrightarrow> 8 dvd bs_addr (sr_mapped sr) \<Longrightarrow> 8 dvd bs_addr (ev_payload ev) \<and> 8 dvd sr_offset sr1"
    using sr_record_advances(5) [OF r] d(2) by simp
qed

lemma open_ok_reader:
  assumes "sr_open sr0 m x = (kOk, sr)" and "length (bs_bytes m) + 8192 < 2 ^ 64"
  shows "sr_ok sr" and "sr_mapped sr = m" and "sr_offset sr = kSegmentHdrBytes" and "sr_expected_lsn sr = sr_first_lsn sr"
proof -
  have sr: "sr_mapped sr = m \<and> sr_offset sr = kSegmentHdrBytes \<and> sr_expected_lsn sr = sr_first_lsn sr \<and> is_valid_block (sr_block_size sr)"
    using assms(1) unfolding sr_open_def Let_def by (auto simp: fail_def kOk_def fallback_valid split: if_split_asm)
  then show "sr_ok sr" "sr_mapped sr = m" "sr_offset sr = kSegmentHdrBytes" "sr_expected_lsn sr = sr_first_lsn sr"
    using assms(2) by (simp_all add: sr_ok_def)
qed

end
