(* ===== verification/RV_Log_Roundtrip.thy ===== *)
theory RV_Log_Roundtrip
  imports RV_Group_Laws RV_Segment_Reader
begin

text \<open>
  The reader of \<open>RV_Segment_Reader\<close> against the bytes that \<open>RV_Group_Commit\<close> writes: a segment whose
  data area is a sequence of groups followed by zeros is read back record by record, in order, and the
  reader ends clean at the block after the last group, where the writer resumes.
\<close>

section \<open>Runs of the reader\<close>

inductive reads :: "SegmentReader \<Rightarrow> EventView list \<Rightarrow> SegmentReader \<Rightarrow> bool" where
  stop: "sr_next sr = Some (None, sr') \<Longrightarrow> reads sr [] sr'"
| more: "sr_next sr = Some (Some ev, sr1) \<Longrightarrow> reads sr1 evs sr' \<Longrightarrow> reads sr (ev # evs) sr'"

definition ev_record :: "EventView \<Rightarrow> LogRecord" where
  "ev_record ev = \<lparr>lr_lsn = ev_lsn ev, lr_ts_ns = ev_ts_ns ev, lr_tmpl = ev_tmpl ev, lr_bytes = take (ev_len ev) (bs_bytes (ev_payload ev))\<rparr>"

section \<open>One record\<close>

lemma load_le_split: "load_le (m + n) bs = load_le m bs + 256 ^ m * load_le n (drop m bs)"
  by (induction m arbitrary: bs) (simp_all add: drop_Suc algebra_simps)

lemma load_magic:
  assumes "wh_magic h = kWalMagic"
  shows "of_nat (load_le 4 (wal_hdr_bytes h @ rest)) = kWalMagic" and "load_le 8 (wal_hdr_bytes h @ rest) \<noteq> 0"
proof -
  show m: "of_nat (load_le 4 (wal_hdr_bytes h @ rest)) = kWalMagic"
    using load_fields(2) [of "wh_magic h"] assms by (simp add: wal_hdr_bytes_def del: store_le.simps load_le.simps)
  show "load_le 8 (wal_hdr_bytes h @ rest) \<noteq> 0"
  proof
    assume "load_le 8 (wal_hdr_bytes h @ rest) = 0"
    then have "load_le 4 (wal_hdr_bytes h @ rest) = 0" using load_le_split [of 4 4 "wal_hdr_bytes h @ rest"] by (simp del: load_le.simps)
    with m have "(0 :: u32) = kWalMagic" by (simp del: load_le.simps)
    then show False by (simp add: magics)
  qed
qed

definition rec_hdr :: "u32 \<Rightarrow> LogRecord \<Rightarrow> WalHdr" where
  "rec_hdr e r = wal_hdr_for (lr_tmpl r) (length (lr_bytes r)) (lr_ts_ns r) e (lr_lsn r)"

definition rec_crc :: "u32 \<Rightarrow> LogRecord \<Rightarrow> u32" where
  "rec_crc e r = crc32c_table (crc32c_table 0 (wal_hdr_bytes (rec_hdr e r))) (lr_bytes r)"

lemma rec_of_parts:
  "rec_of e r = wal_hdr_bytes ((rec_hdr e r)\<lparr>wh_crc32c := rec_crc e r\<rparr>) @ lr_bytes r
     @ replicate (unat (record_bytes (of_nat (length (lr_bytes r)))) - (32 + length (lr_bytes r))) 0"
  by (simp add: rec_of_def wal_record_def Let_def rec_hdr_def rec_crc_def)

lemma length_rec_of: "length (lr_bytes r) \<le> kMaxPayload \<Longrightarrow> length (rec_of e r) = unat (record_bytes (of_nat (length (lr_bytes r))))"
  by (simp add: rec_of_def length_wal_record)

definition past :: "SegmentReader \<Rightarrow> Lsn \<Rightarrow> nat \<Rightarrow> SegmentReader" where
  "past sr lsn off = sr\<lparr>sr_last_valid_lsn := lsn, sr_expected_lsn := lsn + 1, sr_offset := off,
     sr_resume_offset := up_to (unat (sr_block_size sr)) off\<rparr>"

lemma next_record:
  assumes ok: "sr_ok sr" and bs: "bs_bytes (sr_mapped sr) = pre @ rec_of e r @ rest" and off: "sr_offset sr = length pre"
    and ep: "sr_epoch sr = e" and len: "length (lr_bytes r) \<le> kMaxPayload" and x: "sr_expected_lsn sr = 0 \<or> sr_expected_lsn sr = lr_lsn r"
  shows "\<exists>ev. sr_next sr = Some (Some ev, past sr (lr_lsn r) (length pre + length (rec_of e r))) \<and> ev_record ev = r"
proof -
  let ?bs = "bs_bytes (sr_mapped sr)" and ?L = "length (rec_of e r)" and ?n = "length (lr_bytes r)"
  define h where "h = (rec_hdr e r)\<lparr>wh_crc32c := rec_crc e r\<rparr>"
  define pad where "pad = replicate (unat (record_bytes (of_nat ?n)) - (32 + ?n)) (0 :: u8)"
  have r: "rec_of e r = wal_hdr_bytes h @ lr_bytes r @ pad" by (simp add: rec_of_parts h_def pad_def)
  have d: "drop (length pre) ?bs = wal_hdr_bytes h @ lr_bytes r @ pad @ rest" by (simp add: bs r)
  have d32: "drop (length pre + 32) ?bs = lr_bytes r @ pad @ rest" by (simp add: bs r)
  have L: "?L = unat (record_bytes (of_nat ?n))" using length_rec_of [OF len] .
  have L32: "32 \<le> ?L" using r by simp
  have mg: "wh_magic h = kWalMagic" by (simp add: h_def rec_hdr_def wal_hdr_for_def)
  have n: "unat (of_nat ?n :: u16) = ?n" using len by (simp add: unat_of_nat take_bit_nat_eq_self kMaxPayload_def)
  have sz: "length pre + ?L \<le> length ?bs" by (simp add: bs)
  have h0: "h\<lparr>wh_crc32c := 0\<rparr> = rec_hdr e r" by (simp add: h_def rec_hdr_def wal_hdr_for_def)
  have hdr: "wal_hdr_of (drop (length pre) ?bs) = h" by (simp add: d wal_hdr_roundtrip)
  have hf: "wh_epoch h = e" "unat (wh_len h) = ?n" "wh_crc32c h = rec_crc e r" "wh_lsn h = lr_lsn r" "wh_ts_ns h = lr_ts_ns r" "wh_tmpl h = lr_tmpl r"
    by (simp_all add: h_def rec_hdr_def wal_hdr_for_def n)
  have pb: "unat (pad_to_block (of_nat (length pre + ?L)) (sr_block_size sr)) = up_to (unat (sr_block_size sr)) (length pre + ?L)"
    using ok sz by (intro pad_to_block_up) (simp_all add: sr_ok_def)
  have step: "sr_next sr = sr_record sr"
  proof -
    have "\<not> length ?bs \<le> length pre" "\<not> length ?bs - length pre < 32" using sz L32 by linarith+
    moreover note load_magic [OF mg, of "lr_bytes r @ pad @ rest"]
    ultimately show ?thesis by (subst sr_next.simps) (simp only: off d Let_def if_False not_True_eq_False simp_thms)
  qed
  define ev where "ev = \<lparr>ev_lsn = lr_lsn r, ev_ts_ns = lr_ts_ns r,
      ev_payload = \<lparr>bs_addr = bs_addr (sr_mapped sr) + length pre + 32, bs_bytes = drop (length pre + 32) ?bs\<rparr>, ev_tmpl = lr_tmpl r, ev_len = ?n\<rparr>"
  have crc: "crc32c_table (crc32c_table 0 (wal_hdr_bytes (rec_hdr e r))) (take ?n (drop (length pre + 32) ?bs)) = rec_crc e r"
    by (simp add: d32 rec_crc_def)
  have rec: "sr_record sr = Some (Some ev, past sr (lr_lsn r) (length pre + ?L))"
    unfolding sr_record_def Let_def off hdr hf h0 L [symmetric] crc
    using sz len x pb ep by (auto simp: ev_def past_def not_less)
  have "ev_record ev = r" by (simp add: ev_record_def ev_def d32)
  with step rec show ?thesis by simp
qed

section \<open>Runs of records, padding and the end\<close>

text \<open>Consecutive log positions, from \<open>l\<close> on.\<close>

fun lsn_run :: "Lsn \<Rightarrow> LogRecord list \<Rightarrow> bool" where
  "lsn_run l [] = True"
| "lsn_run l (r # rs) = (lr_lsn r = l \<and> lsn_run (l + 1) rs)"

lemma lsn_run_append: "lsn_run l (xs @ ys) \<longleftrightarrow> lsn_run l xs \<and> lsn_run (l + of_nat (length xs)) ys"
  by (induction xs arbitrary: l) (simp_all add: algebra_simps)

lemma lsn_run_last: "rs \<noteq> [] \<Longrightarrow> lsn_run l rs \<Longrightarrow> lr_lsn (last rs) + 1 = l + of_nat (length rs)"
proof (induction rs arbitrary: l)
  case (Cons r rs)
  show ?case
  proof (cases "rs = []")
    case True
    with Cons.prems show ?thesis by simp
  next
    case False
    with Cons.prems Cons.IH [of "l + 1"] show ?thesis by (simp add: add.assoc)
  qed
qed simp

definition past_run :: "SegmentReader \<Rightarrow> LogRecord list \<Rightarrow> nat \<Rightarrow> SegmentReader" where
  "past_run sr rs off = (if rs = [] then sr else past sr (lr_lsn (last rs)) off)"

lemma past_fields [simp]:
  "sr_mapped (past sr l off) = sr_mapped sr" "sr_block_size (past sr l off) = sr_block_size sr" "sr_epoch (past sr l off) = sr_epoch sr"
  "sr_first_lsn (past sr l off) = sr_first_lsn sr"
  "sr_offset (past sr l off) = off" "sr_expected_lsn (past sr l off) = l + 1" "sr_last_valid_lsn (past sr l off) = l"
  "sr_stop_reason (past sr l off) = sr_stop_reason sr" "sr_resume_offset (past sr l off) = up_to (unat (sr_block_size sr)) off"
  "past (past sr l off) l' off' = past sr l' off'" "sr_ok (past sr l off) = sr_ok sr"
  by (simp_all add: past_def sr_ok_def)

lemma run_bytes_Cons [simp]: "run_bytes e (r # rs) = rec_of e r @ run_bytes e rs"
  by (simp add: run_bytes_def)

lemma reads_run:
  assumes "sr_ok sr" and "bs_bytes (sr_mapped sr) = pre @ run_bytes e rs @ rest" and "sr_offset sr = length pre"
    and "sr_epoch sr = e" and "\<forall>r\<in>set rs. length (lr_bytes r) \<le> kMaxPayload" and "sr_expected_lsn sr = 0 \<or> sr_expected_lsn sr = l" and "lsn_run l rs"
    and "\<exists>evs. reads (past_run sr rs (length pre + length (run_bytes e rs))) evs sr' \<and> map ev_record evs = ms"
  shows "\<exists>evs. reads sr evs sr' \<and> map ev_record evs = rs @ ms"
  using assms
proof (induction rs arbitrary: sr pre l)
  case Nil
  then show ?case by (simp add: past_run_def)
next
  case (Cons r rs)
  let ?sr = "past sr (lr_lsn r) (length pre + length (rec_of e r))"
  have "\<exists>ev. sr_next sr = Some (Some ev, ?sr) \<and> ev_record ev = r"
    using Cons.prems by (intro next_record [where rest = "run_bytes e rs @ rest"]) auto
  then obtain ev where ev: "sr_next sr = Some (Some ev, ?sr)" "ev_record ev = r" by blast
  have "past_run ?sr rs (length (pre @ rec_of e r) + length (run_bytes e rs)) = past_run sr (r # rs) (length pre + length (run_bytes e (r # rs)))"
    by (simp add: past_run_def add.assoc)
  then have "\<exists>evs. reads ?sr evs sr' \<and> map ev_record evs = rs @ ms"
    using Cons.prems by (intro Cons.IH [of _ "pre @ rec_of e r" "lr_lsn r + 1"]) auto
  then obtain evs where "reads ?sr evs sr'" "map ev_record evs = rs @ ms" by blast
  with ev have "reads sr (ev # evs) sr' \<and> map ev_record (ev # evs) = (r # rs) @ ms" by (auto intro: reads.more)
  then show ?case by blast
qed

text \<open>At the end: nothing, or zeros at the start of a block.\<close>

definition clean_tail :: "u8 list \<Rightarrow> bool" where
  "clean_tail z \<longleftrightarrow> (if length z < 32 then list_all (\<lambda>b. b = 0) z else list_all (\<lambda>b. b = 0) (take 8 z))"

lemma load_zeros: "list_all (\<lambda>b. b = 0) (take n bs) \<Longrightarrow> n \<le> length bs \<Longrightarrow> load_le n bs = 0"
proof (induction n arbitrary: bs)
  case (Suc n)
  then show ?case by (cases bs) auto
qed simp

lemma stop_at_tail:
  assumes "bs_bytes (sr_mapped sr) = pre @ z" and "sr_offset sr = length pre" and "clean_tail z"
    and "unat (sr_block_size sr) dvd length pre"
  shows "sr_next sr = Some (None, sr\<lparr>sr_stop_reason := RsClean\<rparr>)"
proof (cases "length z < 32")
  case True
  with assms show ?thesis by (subst sr_next.simps) (simp add: Let_def sr_stop_def clean_tail_def)
next
  case False
  with assms(3) have "load_le 8 z = 0" by (intro load_zeros) (simp_all add: clean_tail_def)
  with False assms show ?thesis by (subst sr_next.simps) (simp add: Let_def sr_stop_def)
qed

lemma block_dvd_header: "is_valid_block b \<Longrightarrow> unat b dvd kSegmentHdrBytes"
proof -
  assume "is_valid_block b"
  then obtain k where "unat b = 2 ^ k" "k \<le> 12" using valid_block by blast
  moreover have "(2 :: nat) ^ k dvd 2 ^ 12" using \<open>k \<le> 12\<close> by (rule le_imp_power_dvd)
  ultimately show ?thesis by (simp add: kSegmentHdrBytes_def)
qed

lemma up_to_shift:
  assumes "0 < b" and "b dvd m"
  shows "up_to b (m + n) = m + up_to b n"
proof -
  obtain i where m: "m = b * i" using assms(2) by (elim dvdE)
  have "b * i + n + b - 1 = (n + b - 1) + b * i" using assms(1) by linarith
  then have "(b * i + n + b - 1) div b = i + (n + b - 1) div b" using assms(1) by (simp only: div_mult_self2 gr_implies_not0 simp_thms)
  then show ?thesis by (simp add: up_to_def m algebra_simps)
qed

text \<open>Padding after a group is skipped; when it ends the mapping, the end is clean.\<close>

lemma skip_padding:
  assumes ok: "sr_ok sr" and bs: "bs_bytes (sr_mapped sr) = pre @ replicate k 0 @ rest" and off: "sr_offset sr = length pre"
    and k: "length pre + k = up_to (unat (sr_block_size sr)) (length pre)" and d: "8 dvd length pre" and r: "list_all (\<lambda>b. b = 0) rest \<or> 32 \<le> k + length rest"
    and pos: "0 < k"
  shows "sr_next sr = (if k + length rest < 32 then Some (None, sr\<lparr>sr_stop_reason := RsClean\<rparr>) else sr_next (sr\<lparr>sr_offset := length pre + k\<rparr>))"
proof -
  let ?b = "unat (sr_block_size sr)"
  have v: "is_valid_block (sr_block_size sr)" using ok by (simp add: sr_ok_def)
  then have b: "0 < ?b" by (rule block_pos)
  have "8 dvd ?b" using eight_dvd_block [OF v] .
  then have "8 dvd length pre + k" using up_to_props(2) [OF b, of "length pre"] by (simp add: k dvd_trans)
  with d have "8 dvd k" by (simp add: dvd_add_right_iff)
  with pos have k8: "8 \<le> k" by (auto dest: dvd_imp_le)
  have nd: "length pre mod ?b \<noteq> 0" using up_to_props(4) [OF b, of "length pre"] k pos by (auto simp: mod_eq_0_iff_dvd)
  have skip: "sr_skip sr = sr\<lparr>sr_offset := length pre + k\<rparr>"
  proof -
    have "sr_offset sr < length (bs_bytes (sr_mapped sr))" using bs off pos by simp
    from sr_skip_offset [OF ok this] show ?thesis by (simp add: sr_skip_def off k)
  qed
  have z: "load_le 8 (replicate k 0 @ rest) = 0" using k8 by (intro load_zeros) (simp_all add: list_all_iff)
  show ?thesis
  proof (cases "k + length rest < 32")
    case True
    with r have "list_all (\<lambda>b. b = 0) rest" by auto
    with True bs off pos show ?thesis by (subst sr_next.simps) (simp add: Let_def sr_stop_def list_all_iff)
  next
    case False
    then have "\<not> length (bs_bytes (sr_mapped sr)) \<le> length pre" "\<not> length (bs_bytes (sr_mapped sr)) - length pre < 32"
      using bs pos by simp_all
    with False z nd bs off skip pos show ?thesis by (subst sr_next.simps) (simp add: Let_def del: load_le.simps)
  qed
qed

section \<open>The segment\<close>

lemma reads_cong: "sr_next a = sr_next b \<Longrightarrow> reads b evs sr' \<Longrightarrow> reads a evs sr'"
  by (erule reads.cases) (auto intro: reads.intros)

lemma run_dvd: "\<forall>r\<in>set rs. length (lr_bytes r) \<le> kMaxPayload \<Longrightarrow> 8 dvd length (run_bytes e rs)"
  by (induction rs) (simp_all add: length_rec_of record_bytes_dvd)

text \<open>What the reader says when it ends after the groups \<open>gss\<close>.\<close>

definition ends_clean :: "SegmentReader \<Rightarrow> LogRecord list \<Rightarrow> nat \<Rightarrow> SegmentReader \<Rightarrow> bool" where
  "ends_clean sr rs off sr' \<longleftrightarrow> sr_stop_reason sr' = RsClean \<and> sr_epoch sr' = sr_epoch sr \<and> sr_first_lsn sr' = sr_first_lsn sr
     \<and> sr_resume_offset sr' = (if rs = [] then sr_resume_offset sr else off)
     \<and> sr_last_valid_lsn sr' = (if rs = [] then sr_last_valid_lsn sr else lr_lsn (last rs))"

definition area_bytes :: "u32 \<Rightarrow> u32 \<Rightarrow> LogRecord list list \<Rightarrow> u8 list" where
  "area_bytes block e gss = concat (map (group_image block e) gss)"

lemma tail_long:
  assumes "gss \<noteq> []" and "\<forall>g\<in>set gss. g \<noteq> []"
  shows "32 \<le> length (area_bytes blk e gss @ z)"
proof -
  obtain r rs gss' where "gss = (r # rs) # gss'" using assms by (cases gss; cases "hd gss") auto
  moreover have "32 \<le> length (rec_of e r)" by (simp add: rec_of_def wal_record_def Let_def)
  ultimately show ?thesis by (simp add: area_bytes_def group_image_def)
qed

lemma tail_zeros:
  assumes "clean_tail z" and "\<forall>g\<in>set gss. g \<noteq> []"
  shows "list_all (\<lambda>b. b = 0) (area_bytes blk e gss @ z) \<or> 32 \<le> k + length (area_bytes blk e gss @ z)"
  using assms tail_long [of gss blk e z] by (cases "gss = []") (auto simp: area_bytes_def clean_tail_def split: if_splits)

text \<open>One group ahead: its records, its padding, and the readers after each.\<close>

definition group_pad :: "u32 \<Rightarrow> u32 \<Rightarrow> LogRecord list \<Rightarrow> nat" where
  "group_pad block e g = up_to (unat block) (length (run_bytes e g)) - length (run_bytes e g)"

definition after_run :: "SegmentReader \<Rightarrow> LogRecord list \<Rightarrow> SegmentReader" where
  "after_run sr g = past sr (lr_lsn (last g)) (sr_offset sr + length (run_bytes (sr_epoch sr) g))"

definition after_group :: "SegmentReader \<Rightarrow> LogRecord list \<Rightarrow> SegmentReader" where
  "after_group sr g = (after_run sr g)\<lparr>sr_offset := sr_offset (after_run sr g) + group_pad (sr_block_size sr) (sr_epoch sr) g\<rparr>"

lemma group_step:
  assumes ok: "sr_ok sr" and bs: "bs_bytes (sr_mapped sr) = pre @ area_bytes (sr_block_size sr) e (g # gss) @ z" and off: "sr_offset sr = length pre"
    and d: "unat (sr_block_size sr) dvd length pre" "8 dvd length pre" and ep: "sr_epoch sr = e"
    and g: "g \<noteq> []" and pay: "\<forall>r\<in>set g. length (lr_bytes r) \<le> kMaxPayload"
  defines "k \<equiv> group_pad (sr_block_size sr) e g" and "run \<equiv> run_bytes e g"
  shows "bs_bytes (sr_mapped sr) = pre @ run @ replicate k 0 @ area_bytes (sr_block_size sr) e gss @ z"
    and "length (pre @ run) + k = up_to (unat (sr_block_size sr)) (length (pre @ run))" and "8 dvd length (pre @ run)"
    and "sr_ok (after_run sr g)" and "bs_bytes (sr_mapped (after_run sr g)) = (pre @ run) @ replicate k 0 @ area_bytes (sr_block_size sr) e gss @ z"
    and "sr_offset (after_run sr g) = length (pre @ run)" and "sr_block_size (after_run sr g) = sr_block_size sr"
    and "sr_ok (after_group sr g)" and "bs_bytes (sr_mapped (after_group sr g)) = (pre @ run @ replicate k 0) @ area_bytes (sr_block_size (after_group sr g)) e gss @ z"
    and "sr_offset (after_group sr g) = length (pre @ run @ replicate k 0)" and "unat (sr_block_size (after_group sr g)) dvd length (pre @ run @ replicate k 0)"
    and "8 dvd length (pre @ run @ replicate k 0)" and "sr_epoch (after_group sr g) = e" and "sr_expected_lsn (after_group sr g) = lr_lsn (last g) + 1"
    and "after_group sr g = (after_run sr g)\<lparr>sr_offset := length (pre @ run) + k\<rparr>" and "past_run sr g (length pre + length run) = after_run sr g"
    and "length (area_bytes (sr_block_size sr) e (g # gss)) = length run + k + length (area_bytes (sr_block_size sr) e gss)"
proof -
  let ?b = "sr_block_size sr"
  have v: "is_valid_block ?b" using ok by (simp add: sr_ok_def)
  show bytes: "bs_bytes (sr_mapped sr) = pre @ run @ replicate k 0 @ area_bytes ?b e gss @ z"
    using bs by (simp add: area_bytes_def group_image_def k_def run_def group_pad_def)
  show up: "length (pre @ run) + k = up_to (unat ?b) (length (pre @ run))"
    using up_to_shift [OF block_pos [OF v] d(1)] up_to_props(1) [OF block_pos [OF v], of "length run"] by (simp add: k_def run_def group_pad_def)
  show d8: "8 dvd length (pre @ run)" using run_dvd [OF pay] d(2) by (simp add: run_def)
  have d2: "unat ?b dvd length (pre @ run) + k" unfolding up by (rule up_to_props(2) [OF block_pos [OF v]])
  show r: "sr_offset (after_run sr g) = length (pre @ run)" "sr_ok (after_run sr g)" "sr_block_size (after_run sr g) = ?b"
    "bs_bytes (sr_mapped (after_run sr g)) = (pre @ run) @ replicate k 0 @ area_bytes ?b e gss @ z"
    using ok by (simp_all add: after_run_def off ep run_def bytes)
  show a: "after_group sr g = (after_run sr g)\<lparr>sr_offset := length (pre @ run) + k\<rparr>" by (simp add: after_group_def r k_def ep)
  have b: "sr_block_size (after_group sr g) = ?b" by (simp add: a r)
  show "sr_ok (after_group sr g)" using r(2) by (simp add: a sr_ok_def)
  show "bs_bytes (sr_mapped (after_group sr g)) = (pre @ run @ replicate k 0) @ area_bytes (sr_block_size (after_group sr g)) e gss @ z"
    unfolding b using r(4) by (simp add: a)
  show "unat (sr_block_size (after_group sr g)) dvd length (pre @ run @ replicate k 0)" unfolding b using d2 by (simp add: add.assoc)
  show "8 dvd length (pre @ run @ replicate k 0)" using dvd_trans [OF eight_dvd_block [OF v] d2] by (simp add: add.assoc)
  show "past_run sr g (length pre + length run) = after_run sr g" using g by (simp add: past_run_def after_run_def off ep run_def)
  show "length (area_bytes ?b e (g # gss)) = length run + k + length (area_bytes ?b e gss)"
    by (simp add: area_bytes_def group_image_def k_def run_def group_pad_def)
qed (simp_all add: after_group_def after_run_def off ep k_def run_def)

lemma reads_groups:
  assumes "sr_ok sr" and "bs_bytes (sr_mapped sr) = pre @ area_bytes (sr_block_size sr) e gss @ z" and "sr_offset sr = length pre"
    and "unat (sr_block_size sr) dvd length pre" and "8 dvd length pre" and "sr_epoch sr = e"
    and "\<forall>g\<in>set gss. g \<noteq> []" and "\<forall>r\<in>set (concat gss). length (lr_bytes r) \<le> kMaxPayload"
    and "sr_expected_lsn sr = 0 \<or> sr_expected_lsn sr = l" and "lsn_run l (concat gss)" and "clean_tail z"
  shows "\<exists>sr'. ends_clean sr (concat gss) (length pre + length (area_bytes (sr_block_size sr) e gss)) sr'
    \<and> (\<exists>evs. reads sr evs sr' \<and> map ev_record evs = concat gss)"
  using assms
proof (induction gss arbitrary: sr pre l)
  case Nil
  then have "sr_next sr = Some (None, sr\<lparr>sr_stop_reason := RsClean\<rparr>)" by (intro stop_at_tail [of _ pre z]) (simp_all add: area_bytes_def)
  then have "reads sr [] (sr\<lparr>sr_stop_reason := RsClean\<rparr>)" by (rule reads.stop)
  then show ?case by (intro exI [of _ "sr\<lparr>sr_stop_reason := RsClean\<rparr>"] conjI exI [of _ "[]"]) (simp_all add: ends_clean_def)
next
  case (Cons g gss)
  let ?b = "sr_block_size sr" and ?k = "group_pad (sr_block_size sr) e g" and ?sr1 = "after_run sr g" and ?sr2 = "after_group sr g"
  let ?rest = "area_bytes ?b e gss @ z" and ?fin = "length pre + length (area_bytes ?b e (g # gss))"
  have g: "g \<noteq> []" and gs: "\<forall>g\<in>set gss. g \<noteq> []" and pay: "\<forall>r\<in>set g. length (lr_bytes r) \<le> kMaxPayload" using Cons.prems(7,8) by simp_all
  note s = group_step [OF Cons.prems(1-6) g pay]
  have l: "lsn_run l g" "lsn_run (lr_lsn (last g) + 1) (concat gss)" using Cons.prems(10) lsn_run_last [OF g] by (auto simp: lsn_run_append)
  have gss: "concat gss = [] \<longleftrightarrow> gss = []" using gs by (cases gss) auto
  have "\<exists>sr'. ends_clean ?sr2 (concat gss) ?fin sr' \<and> (\<exists>evs. reads ?sr2 evs sr' \<and> map ev_record evs = concat gss)"
    using Cons.IH [OF s(8-13) gs _ disjI2 [OF s(14)] l(2) Cons.prems(11)] Cons.prems(8) s(7,15,17) by (simp add: add.assoc)
  then obtain sr' where e: "ends_clean ?sr2 (concat gss) ?fin sr'" and r: "\<exists>evs. reads ?sr2 evs sr' \<and> map ev_record evs = concat gss" by blast
  have "\<exists>sr'. ends_clean ?sr2 (concat gss) ?fin sr' \<and> (\<exists>evs. reads ?sr1 evs sr' \<and> map ev_record evs = concat gss)"
  proof (cases "?k = 0 \<or> 32 \<le> ?k + length ?rest")
    case True
    have "sr_next ?sr1 = sr_next ?sr2"
    proof (cases "?k = 0")
      case True
      then have "?sr2 = ?sr1" by (simp add: after_group_def Cons.prems(6))
      then show ?thesis by simp
    next
      case False
      with True s(7) skip_padding [OF s(4,5,6)] s(2,3) show ?thesis by (simp add: s(15))
    qed
    with e r show ?thesis by (blast intro: reads_cong)
  next
    case False
    then have nil: "gss = []" using tail_long [of gss ?b e z] gs by auto
    have "list_all (\<lambda>b. b = 0) ?rest" using tail_zeros [OF Cons.prems(11) gs, of ?b e ?k] False by auto
    with False s(7) skip_padding [OF s(4,5,6)] s(2,3) have "sr_next ?sr1 = Some (None, ?sr1\<lparr>sr_stop_reason := RsClean\<rparr>)" by simp
    then have "reads ?sr1 [] (?sr1\<lparr>sr_stop_reason := RsClean\<rparr>)" by (rule reads.stop)
    moreover have "ends_clean ?sr2 [] ?fin (?sr1\<lparr>sr_stop_reason := RsClean\<rparr>)" by (simp add: ends_clean_def s(15))
    ultimately show ?thesis using nil by (intro exI [of _ "?sr1\<lparr>sr_stop_reason := RsClean\<rparr>"]) auto
  qed
  then obtain sr'' where e: "ends_clean ?sr2 (concat gss) ?fin sr''" and r: "\<exists>evs. reads ?sr1 evs sr'' \<and> map ev_record evs = concat gss" by blast
  have "\<exists>evs. reads sr evs sr'' \<and> map ev_record evs = g @ concat gss"
    using reads_run [OF Cons.prems(1) s(1) Cons.prems(3,6) pay Cons.prems(9) l(1)] r s(16) by simp
  moreover have "ends_clean sr (concat (g # gss)) ?fin sr''"
    using e g gss s(2,17) by (auto simp: ends_clean_def after_group_def after_run_def Cons.prems(3,6) area_bytes_def)
  ultimately show ?case by auto
qed

section \<open>Any tail\<close>

lemma reads_total: "sr_ok sr \<Longrightarrow> \<exists>evs sr'. reads sr evs sr'"
proof (induction "length (bs_bytes (sr_mapped sr)) - sr_offset sr" arbitrary: sr rule: less_induct)
  case less
  obtain oe sr1 where n: "sr_next sr = Some (oe, sr1)" using sr_next_returns [OF less(2)] by auto
  show ?case
  proof (cases oe)
    case None
    with n reads.stop show ?thesis by blast
  next
    case (Some ev)
    note a = sr_next_advances(1) [OF less(2) n [unfolded Some]]
    then have "sr_ok sr1" using less(2) by (simp add: sr_ok_def)
    moreover have "length (bs_bytes (sr_mapped sr1)) - sr_offset sr1 < length (bs_bytes (sr_mapped sr)) - sr_offset sr" using a by auto
    ultimately obtain evs sr' where "reads sr1 evs sr'" using less(1) by blast
    with n Some reads.more show ?thesis by blast
  qed
qed

text \<open>Whatever follows the groups on disk, they are read first.\<close>

lemma skip_padding_any:
  assumes ok: "sr_ok sr" and bs: "bs_bytes (sr_mapped sr) = pre @ replicate k 0 @ rest" and off: "sr_offset sr = length pre"
    and k: "length pre + k = up_to (unat (sr_block_size sr)) (length pre)" and d: "8 dvd length pre" and r: "32 \<le> length rest"
  shows "sr_next sr = sr_next (sr\<lparr>sr_offset := length pre + k\<rparr>)"
proof (cases "k = 0")
  case True
  then have "sr\<lparr>sr_offset := length pre + k\<rparr> = sr" using off by simp
  then show ?thesis by simp
next
  case False
  with skip_padding [OF ok bs off k d] r show ?thesis by simp
qed

lemma reads_groups_prefix:
  assumes "sr_ok sr" and "bs_bytes (sr_mapped sr) = pre @ area_bytes (sr_block_size sr) e gss @ z" and "sr_offset sr = length pre"
    and "unat (sr_block_size sr) dvd length pre" and "8 dvd length pre" and "sr_epoch sr = e"
    and "\<forall>g\<in>set gss. g \<noteq> []" and "\<forall>r\<in>set (concat gss). length (lr_bytes r) \<le> kMaxPayload"
    and "sr_expected_lsn sr = 0 \<or> sr_expected_lsn sr = l" and "lsn_run l (concat gss)"
  shows "\<exists>sr' ms evs. reads sr evs sr' \<and> map ev_record evs = concat gss @ ms"
  using assms
proof (induction gss arbitrary: sr pre l)
  case Nil
  then show ?case using reads_total [of sr] by auto
next
  case (Cons g gss)
  let ?b = "sr_block_size sr" and ?sr1 = "after_run sr g" and ?sr2 = "after_group sr g"
  have g: "g \<noteq> []" and gs: "\<forall>g\<in>set gss. g \<noteq> []" and pay: "\<forall>r\<in>set g. length (lr_bytes r) \<le> kMaxPayload" using Cons.prems(7,8) by simp_all
  note s = group_step [OF Cons.prems(1-6) g pay]
  have l: "lsn_run l g" "lsn_run (lr_lsn (last g) + 1) (concat gss)" using Cons.prems(10) lsn_run_last [OF g] by (auto simp: lsn_run_append)
  have "\<exists>sr' ms evs. reads ?sr1 evs sr' \<and> map ev_record evs = concat gss @ ms"
  proof (cases "gss = []")
    case True
    with reads_total [OF s(4)] show ?thesis by auto
  next
    case False
    have "32 \<le> length (area_bytes ?b e gss @ z)" using tail_long [of gss ?b e z] False gs by simp
    then have "sr_next ?sr1 = sr_next ?sr2" using skip_padding_any [OF s(4,5,6)] s(2,3,7) by (simp add: s(15))
    moreover have "\<exists>sr' ms evs. reads ?sr2 evs sr' \<and> map ev_record evs = concat gss @ ms"
      using Cons.IH [OF s(8-13) gs _ disjI2 [OF s(14)] l(2)] Cons.prems(8) by simp
    ultimately show ?thesis by (blast intro: reads_cong)
  qed
  then obtain sr' ms where "\<exists>evs. reads ?sr1 evs sr' \<and> map ev_record evs = concat gss @ ms" by blast
  then have "\<exists>evs. reads sr evs sr' \<and> map ev_record evs = g @ concat gss @ ms"
    using reads_run [OF Cons.prems(1) s(1) Cons.prems(3,6) pay Cons.prems(9) l(1)] s(16) by simp
  then show ?case by auto
qed

section \<open>Every run\<close>

lemma reads_unique: "reads sr evs sr' \<Longrightarrow> reads sr evs2 sr2 \<Longrightarrow> evs2 = evs \<and> sr2 = sr'"
proof (induction arbitrary: evs2 sr2 rule: reads.induct)
  case (stop sr sr')
  then show ?case using reads.cases [OF stop.prems] by (metis option.inject prod.inject option.distinct(1))
next
  case (more sr ev sr1 evs sr')
  from more.prems show ?case
  proof (cases rule: reads.cases)
    case stop
    with more.hyps(1) show ?thesis by simp
  next
    case (more ev2 sr12 evs22)
    then have "ev2 = ev" "sr12 = sr1" using \<open>sr_next sr = Some (Some ev, sr1)\<close> by simp_all
    with more show ?thesis using \<open>reads sr evs2 sr2\<close> \<open>\<And>evs2 sr2. reads sr1 evs2 sr2 \<Longrightarrow> evs2 = evs \<and> sr2 = sr'\<close> by blast
  qed
qed

lemma ev_record_lsn [simp]: "lr_lsn (ev_record ev) = ev_lsn ev"
  by (simp add: ev_record_def)

lemma reads_facts:
  "reads sr evs sr' \<Longrightarrow> sr_ok sr \<Longrightarrow>
     32 * length evs \<le> length (bs_bytes (sr_mapped sr)) - sr_offset sr \<and> (\<forall>ev\<in>set evs. ev_len ev \<le> length (bs_bytes (ev_payload ev)))
     \<and> (sr_expected_lsn sr \<noteq> 0 \<longrightarrow> unat (sr_expected_lsn sr) + length evs \<le> 2 ^ 64 \<longrightarrow> lsn_run (sr_expected_lsn sr) (map ev_record evs))"
proof (induction rule: reads.induct)
  case (more sr ev sr1 evs sr')
  note a = sr_next_advances [OF more.prems more.hyps(1)]
  have "sr_ok sr1" using more.prems a(1) by (simp add: sr_ok_def)
  note i = more.IH [OF this]
  have "sr_expected_lsn sr1 \<noteq> 0 \<and> unat (sr_expected_lsn sr1) = unat (sr_expected_lsn sr) + 1"
    if "sr_expected_lsn sr \<noteq> 0" "unat (sr_expected_lsn sr) + length (ev # evs) \<le> 2 ^ 64" "evs \<noteq> []"
  proof -
    have "1 \<le> length evs" using that(3) by (cases evs) simp_all
    then have lt: "unat (sr_expected_lsn sr) + 1 < 2 ^ 64" using that(2) by simp
    have "sr_expected_lsn sr1 = sr_expected_lsn sr + 1" using a(3,4) that(1) by simp
    with lt have "unat (sr_expected_lsn sr1) = unat (sr_expected_lsn sr) + 1" by (simp add: unat_word_ariths)
    then show ?thesis by auto
  qed
  then have "lsn_run (sr_expected_lsn sr) (map ev_record (ev # evs))"
    if "sr_expected_lsn sr \<noteq> 0" "unat (sr_expected_lsn sr) + length (ev # evs) \<le> 2 ^ 64"
    using that a(3,4) i by (cases "evs = []") auto
  then show ?case using i a(1,2) by auto
qed simp

text \<open>In an aligned mapping every payload is aligned.\<close>

lemma reads_aligned:
  "reads sr evs sr' \<Longrightarrow> sr_ok sr \<Longrightarrow> 8 dvd sr_offset sr \<Longrightarrow> 8 dvd bs_addr (sr_mapped sr) \<Longrightarrow> \<forall>ev\<in>set evs. 8 dvd bs_addr (ev_payload ev)"
proof (induction rule: reads.induct)
  case (more sr ev sr1 evs sr')
  note a = sr_next_advances(1) [OF more.prems(1) more.hyps(1)]
  then have "sr_ok sr1" using more.prems(1) by (simp add: sr_ok_def)
  with more sr_next_advances(5) [OF more.prems(1) more.hyps(1)] a show ?case by auto
qed simp

end
