(* ===== verification/RV_Segment.thy ===== *)
theory RV_Segment
  imports RV_Io_Backend RV_Segment_Reader
begin

text \<open>
  \<^verbatim>\<open>src/wal/segment.cpp\<close> and \<^verbatim>\<open>src/wal/epoch.cpp\<close>: the file of a segment, its name, its header, and
  the epoch that tells the records of one use of a file from those of another.  The system calls are a
  record of functions on a world of any type, the same world the backend of \<open>RV_Io_Backend\<close>
  lives in; a negative descriptor or count is a failure.
\<close>

section \<open>System calls\<close>

record 'w SysCalls =
  sc_open :: "'w \<Rightarrow> string \<Rightarrow> u32 \<Rightarrow> int \<times> 'w"
  sc_close :: "'w \<Rightarrow> int \<Rightarrow> 'w"
  sc_pwrite :: "'w pwrite_call"
  sc_pread :: "'w \<Rightarrow> int \<Rightarrow> nat \<Rightarrow> int \<Rightarrow> int \<times> u8 list \<times> 'w"

definition O_RDWR :: u32 where "O_RDWR = 2"
definition O_CREAT :: u32 where "O_CREAT = 0x40"
definition O_TRUNC :: u32 where "O_TRUNC = 0x200"
definition O_DSYNC :: u32 where "O_DSYNC = 0x1000"
definition O_DIRECT :: u32 where "O_DIRECT = 0x4000"
definition O_CLOEXEC :: u32 where "O_CLOEXEC = 0x80000"

section \<open>Epochs\<close>

definition kDefaultEpoch :: u32 where "kDefaultEpoch = 0xC0FFEE01"

text \<open>
  \<open>urandom\<close> is what reading four bytes of \<^verbatim>\<open>/dev/urandom\<close> gave; the seed of the fallback is a
  variable of the thread.
\<close>

definition fallback_epoch :: "u64 \<Rightarrow> u32 \<times> u64" where
  "fallback_epoch seed =
     (let s1 = seed XOR drop_bit 12 seed; s2 = s1 XOR push_bit 25 s1; s3 = s2 XOR drop_bit 27 s2; v = ucast (s3 * 0x2545F4914F6CDD1D) in
      (if v \<noteq> 0 then v else kDefaultEpoch, s3))"

definition random_epoch :: "u32 option \<Rightarrow> u64 \<Rightarrow> u32 \<times> u64" where
  "random_epoch urandom seed =
     (case urandom of None \<Rightarrow> fallback_epoch seed | Some v \<Rightarrow> if v \<noteq> 0 then (v, seed) else fallback_epoch seed)"

text \<open>\<^verbatim>\<open>EpochSource::next\<close>; the injected function, when there is one, is its answer.\<close>

definition epoch_next :: "u32 option \<Rightarrow> u32 option \<Rightarrow> u64 \<Rightarrow> u32 \<times> u64" where
  "epoch_next fn urandom seed =
     (let (v, seed') = (case fn of Some v \<Rightarrow> (v, seed) | None \<Rightarrow> random_epoch urandom seed) in (if v \<noteq> 0 then v else 1, seed'))"

section \<open>Names\<close>

definition kMaxPathBytes :: nat where "kMaxPathBytes = 256"

definition digit_char :: "nat \<Rightarrow> char" where
  "digit_char d = (if d < 10 then char_of (48 + d) else char_of (87 + d))"

text \<open>\<^verbatim>\<open>%u\<close> and \<^verbatim>\<open>%016llx\<close>.\<close>

fun dec_string :: "nat \<Rightarrow> string" where
  "dec_string n = (if n < 10 then [digit_char n] else dec_string (n div 10) @ [digit_char (n mod 10)])"

declare dec_string.simps [simp del]

primrec hex_digits :: "nat \<Rightarrow> nat \<Rightarrow> string" where
  "hex_digits 0 n = []"
| "hex_digits (Suc k) n = hex_digits k (n div 16) @ [digit_char (n mod 16)]"

definition dir_name :: "string option \<Rightarrow> string" where
  "dir_name dir = (case dir of None \<Rightarrow> ''.'' | Some d \<Rightarrow> d)"

definition segment_path :: "string option \<Rightarrow> u16 \<Rightarrow> u64 \<Rightarrow> string" where
  "segment_path dir part first_lsn =
     dir_name dir @ ''/p'' @ dec_string (unat part) @ ''_'' @ hex_digits 16 (unat first_lsn) @ ''.wal''"

text \<open>The length of the name, or 0 when it does not fit, and what \<^verbatim>\<open>snprintf\<close> left in the buffer of \<open>cap\<close> bytes.\<close>

definition format_segment_path :: "nat \<Rightarrow> string option \<Rightarrow> u16 \<Rightarrow> u64 \<Rightarrow> nat \<times> string" where
  "format_segment_path cap dir part first_lsn =
     (let full = segment_path dir part first_lsn in
      if cap = 0 then (0, []) else (if length full < cap then length full else 0, take (cap - 1) full))"

section \<open>The segment\<close>

record Segment =
  sg_fd :: int
  sg_first_lsn :: Lsn
  sg_epoch :: u32
  sg_capacity :: u64
  sg_block_size :: u32
  sg_path :: string

definition sg_new :: Segment where
  "sg_new = \<lparr>sg_fd = -1, sg_first_lsn = 0, sg_epoch = 0, sg_capacity = 0, sg_block_size = kFallbackBlock, sg_path = ''''\<rparr>"

definition sg_close :: "'w SysCalls \<Rightarrow> Segment \<Rightarrow> 'w \<Rightarrow> Segment \<times> 'w" where
  "sg_close sys sg w = (if 0 \<le> sg_fd sg then (sg\<lparr>sg_fd := -1\<rparr>, sc_close sys w (sg_fd sg)) else (sg, w))"

definition sg_valid :: "Segment \<Rightarrow> bool" where
  "sg_valid sg \<longleftrightarrow> 0 \<le> sg_fd sg"

text \<open>\<^verbatim>\<open>move_from\<close>: the pair of the receiver and the emptied source.\<close>

definition move_from :: "Segment \<Rightarrow> Segment \<times> Segment" where
  "move_from src = (src, sg_new)"

definition open_retry :: "'w SysCalls \<Rightarrow> string \<Rightarrow> u32 \<Rightarrow> u32 \<Rightarrow> bool \<Rightarrow> 'w \<Rightarrow> int \<times> 'w" where
  "open_retry sys path flags again direct w =
     (let (fd, w1) = sc_open sys w path flags in if fd < 0 \<and> direct then sc_open sys w1 path again else (fd, w1))"

text \<open>The header block that \<^verbatim>\<open>open_create\<close> writes.\<close>

definition segment_header :: "u16 \<Rightarrow> Lsn \<Rightarrow> u32 \<Rightarrow> u64 \<Rightarrow> u32 \<Rightarrow> BlockSource \<Rightarrow> SegmentHdr" where
  "segment_header part first_lsn epoch capacity block_size source =
     (let h = \<lparr>sh_magic = kSegmentMagic, sh_crc32c = 0, sh_format_version = kSegmentFormatVersion, sh_partition = part, sh_epoch = epoch,
               sh_first_lsn = first_lsn, sh_segment_bytes = capacity, sh_block_size = block_size,
               sh_block_source = of_nat (block_source_code source), sh_pad0 = [0, 0, 0], sh_created_ts_ns = 0, sh_reserved0 = 0, sh_reserved1 = 0\<rparr> in
      h\<lparr>sh_crc32c := crc32c_table 0 (segment_hdr_bytes h)\<rparr>)"

definition header_block :: "SegmentHdr \<Rightarrow> u8 list" where
  "header_block h = segment_hdr_bytes h @ replicate (kSegmentHdrBytes - 64) 0"

definition open_create ::
    "'w SysCalls \<Rightarrow> string option \<Rightarrow> u16 \<Rightarrow> Lsn \<Rightarrow> u32 \<Rightarrow> u64 \<Rightarrow> u32 \<Rightarrow> BlockSource \<Rightarrow> bool \<Rightarrow> Segment \<Rightarrow> 'w \<Rightarrow> Status \<times> Segment \<times> 'w" where
  "open_create sys dir part first_lsn epoch capacity block_size source direct sg0 w0 =
     (let (sg1, w1) = sg_close sys sg0 w0; (n, path) = format_segment_path kMaxPathBytes dir part first_lsn; sg2 = sg1\<lparr>sg_path := path\<rparr> in
      if n = 0 then (fail InvalidArgument 0, sg2, w1)
      else let base = O_RDWR OR O_CREAT OR O_TRUNC OR O_CLOEXEC;
               (fd, w2) = open_retry sys path (if direct then base OR O_DIRECT OR O_DSYNC else base) (base OR O_DSYNC) direct w1;
               sg3 = sg2\<lparr>sg_fd := fd\<rparr> in
      if fd < 0 then (fail IoError 0, sg3, w2)
      else let (r, w3) = sc_pwrite sys w2 fd (header_block (segment_header part first_lsn epoch capacity block_size source)) 0 in
      if r \<noteq> int kSegmentHdrBytes then (let (sg4, w4) = sg_close sys sg3 w3 in (fail IoError 0, sg4, w4))
      else (kOk, sg3\<lparr>sg_first_lsn := first_lsn, sg_epoch := epoch, sg_capacity := capacity, sg_block_size := block_size\<rparr>, w3))"

text \<open>What \<^verbatim>\<open>open_existing\<close> reads out of the header block.\<close>

definition check_header :: "u8 list \<Rightarrow> SegmentHdr Result" where
  "check_header bs =
     (let sh = segment_hdr_of bs in
      if sh_magic sh \<noteq> kSegmentMagic then Inl (fail BadMagic 0)
      else if sh_format_version sh \<noteq> kSegmentFormatVersion then Inl (fail BadMagic 0)
      else if crc32c_table 0 (segment_hdr_bytes (sh\<lparr>sh_crc32c := 0\<rparr>)) \<noteq> sh_crc32c sh then Inl (fail BadCrc 0)
      else Inr sh)"

definition open_existing :: "'w SysCalls \<Rightarrow> string \<Rightarrow> bool \<Rightarrow> Segment \<Rightarrow> 'w \<Rightarrow> Status \<times> Segment \<times> 'w" where
  "open_existing sys path direct sg0 w0 =
     (let (sg1, w1) = sg_close sys sg0 w0 in
      if path = [] then (fail InvalidArgument 0, sg1, w1)
      else let stored = take (kMaxPathBytes - 1) path; base = O_RDWR OR O_CLOEXEC;
               (fd, w2) = open_retry sys stored (if direct then base OR O_DIRECT OR O_DSYNC else base) base direct w1;
               sg2 = sg1\<lparr>sg_path := stored, sg_fd := fd\<rparr> in
      if fd < 0 then (fail IoError 0, sg2, w2)
      else let (r, bs, w3) = sc_pread sys w2 fd kSegmentHdrBytes 0 in
      if r \<noteq> int kSegmentHdrBytes then (let (sg3, w4) = sg_close sys sg2 w3 in (fail IoError 0, sg3, w4))
      else case check_header bs of
        Inl st \<Rightarrow> (let (sg3, w4) = sg_close sys sg2 w3 in (st, sg3, w4))
      | Inr sh \<Rightarrow> (kOk, sg2\<lparr>sg_first_lsn := sh_first_lsn sh, sg_epoch := sh_epoch sh, sg_capacity := sh_segment_bytes sh,
                            sg_block_size := sh_block_size sh\<rparr>, w3))"

section \<open>Laws\<close>

lemma segment_header_fields [simp]:
  "sh_magic (segment_header p l e c b s) = kSegmentMagic" "sh_format_version (segment_header p l e c b s) = kSegmentFormatVersion"
  "sh_epoch (segment_header p l e c b s) = e" "sh_first_lsn (segment_header p l e c b s) = l"
  "sh_segment_bytes (segment_header p l e c b s) = c" "sh_block_size (segment_header p l e c b s) = b"
  "length (sh_pad0 (segment_header p l e c b s)) = 3"
  by (simp_all add: segment_header_def Let_def)

lemma header_crc: "crc32c_table 0 (segment_hdr_bytes ((segment_header p l e c b s)\<lparr>sh_crc32c := 0\<rparr>)) = sh_crc32c (segment_header p l e c b s)"
  by (simp add: segment_header_def Let_def)

lemma length_header_block [simp]: "length (sh_pad0 h) = 3 \<Longrightarrow> length (header_block h) = kSegmentHdrBytes"
  by (simp add: header_block_def length_segment_hdr kSegmentHdrBytes_def)

lemma header_of_block: "length (sh_pad0 h) = 3 \<Longrightarrow> segment_hdr_of (header_block h @ rest) = h"
  by (simp add: header_block_def segment_hdr_roundtrip)

lemma check_own_header: "check_header (header_block (segment_header p l e c b s) @ rest) = Inr (segment_header p l e c b s)"
  by (simp add: check_header_def Let_def header_of_block header_crc)

lemma open_own_segment:
  assumes "is_valid_block b" and "x = 0 \<or> l \<le> x"
  shows "\<exists>sr'. sr_open sr \<lparr>bs_addr = a, bs_bytes = header_block (segment_header p l e c b s) @ rest\<rparr> x = (kOk, sr')
    \<and> bs_bytes (sr_mapped sr') = header_block (segment_header p l e c b s) @ rest \<and> sr_offset sr' = kSegmentHdrBytes
    \<and> sr_resume_offset sr' = kSegmentHdrBytes \<and> sr_block_size sr' = b \<and> sr_epoch sr' = e \<and> sr_first_lsn sr' = l \<and> sr_expected_lsn sr' = l
    \<and> sr_last_valid_lsn sr' = (if 1 < l then l - 1 else 0)"
  using assms by (auto simp: sr_open_def Let_def header_of_block header_crc)

lemma open_own_header:
  assumes "sr_open sr0 \<lparr>bs_addr = a, bs_bytes = f\<rparr> x = (kOk, sr)" and "take kSegmentHdrBytes f = header_block (segment_header p l e c b s)"
  shows "sr_first_lsn sr = l"
proof -
  have "f = header_block (segment_header p l e c b s) @ drop kSegmentHdrBytes f" using assms(2) by (metis append_take_drop_id)
  then have "segment_hdr_of f = segment_header p l e c b s" by (metis header_of_block segment_header_fields(7))
  then show ?thesis using assms(1) by (auto simp: sr_open_def Let_def fail_def kOk_def split: if_splits)
qed

lemma epoch_not_zero: "fst (epoch_next fn urandom seed) \<noteq> 0"
  by (simp add: epoch_next_def Let_def split: prod.splits)

end
