(* ===== verification/RV_Wal.thy ===== *)
theory RV_Wal
  imports RV_Log_Roundtrip RV_Segment
begin

text \<open>
  \<^verbatim>\<open>src/wal/wal.hpp\<close>: the log of a partition, which puts a segment, a group commit and a backend
  together and is the \<^verbatim>\<open>Journal\<close> that the partition loop uses.  The backend and the system calls act
  on one world, passed along explicitly.
\<close>

section \<open>State\<close>

definition kSegmentBytes :: u64 where "kSegmentBytes = 1073741824"

record WalOptions =
  wo_partition :: u16
  wo_dir :: "string option"
  wo_window_ns :: u64
  wo_max_group :: nat
  wo_max_inflight :: nat
  wo_segment_bytes :: u64
  wo_block_size :: u32
  wo_direct :: bool

definition default_options :: WalOptions where
  "default_options = \<lparr>wo_partition = 0, wo_dir = Some ''.'', wo_window_ns = 100000, wo_max_group = kMaxGroupBytes, wo_max_inflight = 8,
     wo_segment_bytes = kSegmentBytes, wo_block_size = kFallbackBlock, wo_direct = False\<rparr>"

record WalTail =
  wt_segment_first_lsn :: u64
  wt_resume_offset :: u64
  wt_epoch :: u32
  wt_next_lsn :: Lsn

definition tail_new :: WalTail where
  "tail_new = \<lparr>wt_segment_first_lsn = 0, wt_resume_offset = of_nat kSegmentHdrBytes, wt_epoch = 0, wt_next_lsn = 0\<rparr>"

record Wal =
  wl_opts :: WalOptions
  wl_segment :: Segment
  wl_group :: GroupCommit
  wl_seg_offset :: u64
  wl_last_lsn :: Lsn
  wl_halted :: bool

definition wl_new :: Wal where
  "wl_new = \<lparr>wl_opts = default_options, wl_segment = sg_new, wl_group = gc_new, wl_seg_offset = of_nat kSegmentHdrBytes, wl_last_lsn = 0, wl_halted = False\<rparr>"

section \<open>Opening and closing\<close>

definition wl_close :: "'w SysCalls \<Rightarrow> Wal \<Rightarrow> 'w \<Rightarrow> Wal \<times> 'w" where
  "wl_close sys wl w =
     (let (sg, w') = sg_close sys (wl_segment wl) w in (wl\<lparr>wl_group := gc_shutdown (wl_group wl), wl_segment := sg, wl_halted := False\<rparr>, w'))"

text \<open>\<open>open\<close> continues the segment of a tail, or creates one from LSN 1.\<close>

definition wl_resume :: "'w SysCalls \<Rightarrow> WalOptions \<Rightarrow> WalTail \<Rightarrow> Wal \<Rightarrow> 'w \<Rightarrow> Status \<times> Wal \<times> 'w" where
  "wl_resume sys opts t wl w =
     (let (n, path) = format_segment_path kMaxPathBytes (wo_dir opts) (wo_partition opts) (wt_segment_first_lsn t) in
      if n = 0 then (fail InvalidArgument 0, wl, w)
      else let (st, sg, w') = open_existing sys path (wo_direct opts) (wl_segment wl) w in
      if \<not> is_ok st then (st, wl\<lparr>wl_segment := sg\<rparr>, w')
      else (kOk, wl\<lparr>wl_segment := sg, wl_seg_offset := wt_resume_offset t,
                    wl_last_lsn := (if 0 < wt_next_lsn t then wt_next_lsn t - 1 else 0)\<rparr>, w'))"

definition wl_create :: "'w SysCalls \<Rightarrow> u32 \<Rightarrow> u32 \<Rightarrow> WalOptions \<Rightarrow> Wal \<Rightarrow> 'w \<Rightarrow> Status \<times> Wal \<times> 'w" where
  "wl_create sys block epoch opts wl w =
     (let (st, sg, w') = open_create sys (wo_dir opts) (wo_partition opts) 1 epoch (wo_segment_bytes opts) block BsFallback (wo_direct opts) (wl_segment wl) w in
      if \<not> is_ok st then (st, wl\<lparr>wl_segment := sg\<rparr>, w')
      else (kOk, wl\<lparr>wl_segment := sg, wl_seg_offset := of_nat kSegmentHdrBytes, wl_last_lsn := 0\<rparr>, w'))"

text \<open>The answers of the epoch source and of the allocator are arguments.\<close>

definition wl_open ::
    "'w IoBackend \<Rightarrow> 'w SysCalls \<Rightarrow> u32 \<Rightarrow> (nat \<Rightarrow> nat option) \<Rightarrow> WalOptions \<Rightarrow> WalTail option \<Rightarrow> Wal \<Rightarrow> 'w \<Rightarrow> Status \<times> Wal \<times> 'w" where
  "wl_open be sys epoch memalign opts resume wl0 w0 =
     (let (wl1, w1) = wl_close sys wl0 w0; wl2 = wl1\<lparr>wl_opts := opts\<rparr>;
          block = (if is_valid_block (wo_block_size opts) then wo_block_size opts else kFallbackBlock);
          (st, wl3, w3) = (case resume of
             Some t \<Rightarrow> if wt_epoch t \<noteq> 0 then wl_resume sys opts t wl2 w1 else wl_create sys block epoch opts wl2 w1
           | None \<Rightarrow> wl_create sys block epoch opts wl2 w1) in
      if \<not> is_ok st then (st, wl3, w3)
      else let (st_f, w4) = io_register_files be w3 [sg_fd (wl_segment wl3)] in
      if \<not> is_ok st_f then (let (sg, w5) = sg_close sys (wl_segment wl3) w4 in (st_f, wl3\<lparr>wl_segment := sg\<rparr>, w5))
      else let (st_g, w5, g) = gc_init be memalign w4 block (wo_window_ns opts) (wl_group wl3); wl4 = wl3\<lparr>wl_group := g\<rparr> in
      if \<not> is_ok st_g then (let (sg, w6) = sg_close sys (wl_segment wl4) w5 in (st_g, wl4\<lparr>wl_segment := sg\<rparr>, w6))
      else (kOk, wl4\<lparr>wl_halted := False\<rparr>, w5))"

section \<open>The journal\<close>

definition wl_stuck :: "Wal \<Rightarrow> bool" where
  "wl_stuck wl \<longleftrightarrow> wl_halted wl \<or> \<not> sg_valid (wl_segment wl)"

definition wl_append :: "'w IoBackend \<Rightarrow> Wal \<Rightarrow> 'w \<Rightarrow> u16 \<Rightarrow> ByteSpan \<Rightarrow> u64 \<Rightarrow> Appended Result \<times> Wal \<times> 'w" where
  "wl_append be wl w tmpl payload ts_ns =
     (if wl_stuck wl then (Inl (fail IoError 0), wl, w)
      else let nxt = lsn_next (wl_last_lsn wl); e = sg_epoch (wl_segment wl) in
      case gc_append (wl_group wl) tmpl payload ts_ns e nxt of
        (Inr a, g) \<Rightarrow> (Inr a, wl\<lparr>wl_group := g, wl_last_lsn := nxt\<rparr>, w)
      | (Inl st, g) \<Rightarrow>
          if code st \<noteq> WalFull then (Inl st, wl\<lparr>wl_group := g\<rparr>, w)
          else case gc_maybe_submit be g w ts_ns (wl_seg_offset wl) 0 True of
            (Inl st', g', w') \<Rightarrow> (Inl (fail WalFull 0), wl\<lparr>wl_group := g'\<rparr>, w')
          | (Inr n, g', w') \<Rightarrow>
              if n = 0 then (Inl (fail WalFull 0), wl\<lparr>wl_group := g'\<rparr>, w')
              else let wl' = wl\<lparr>wl_seg_offset := wl_seg_offset wl + of_nat n\<rparr> in
              case gc_append g' tmpl payload ts_ns e nxt of
                (Inr a, g'') \<Rightarrow> (Inr a, wl'\<lparr>wl_group := g'', wl_last_lsn := nxt\<rparr>, w')
              | (Inl st'', g'') \<Rightarrow> (Inl (fail WalFull 0), wl'\<lparr>wl_group := g''\<rparr>, w'))"

text \<open>The submission that \<^verbatim>\<open>maybe_submit\<close> and \<^verbatim>\<open>force_commit\<close> share.\<close>

definition wl_push :: "'w IoBackend \<Rightarrow> Wal \<Rightarrow> 'w \<Rightarrow> u64 \<Rightarrow> bool \<Rightarrow> Status \<times> Wal \<times> 'w" where
  "wl_push be wl w now_ns force =
     (case gc_maybe_submit be (wl_group wl) w now_ns (wl_seg_offset wl) 0 force of
        (Inl st, g, w') \<Rightarrow> (st, wl\<lparr>wl_group := g, wl_halted := True\<rparr>, w')
      | (Inr n, g, w') \<Rightarrow> (kOk, wl\<lparr>wl_group := g, wl_seg_offset := (if 0 < n then wl_seg_offset wl + of_nat n else wl_seg_offset wl)\<rparr>, w'))"

definition wl_maybe_submit :: "'w IoBackend \<Rightarrow> Wal \<Rightarrow> 'w \<Rightarrow> u64 \<Rightarrow> Status \<times> Wal \<times> 'w" where
  "wl_maybe_submit be wl w now_ns = (if wl_stuck wl then (fail IoError 0, wl, w) else wl_push be wl w now_ns False)"

definition wl_reap :: "'w IoBackend \<Rightarrow> Wal \<Rightarrow> 'w \<Rightarrow> Status \<times> Wal \<times> 'w" where
  "wl_reap be wl w =
     (if wl_stuck wl then (fail IoError 0, wl, w)
      else let (st, g, w') = gc_reap be (wl_group wl) w; wl' = wl\<lparr>wl_group := g\<rparr> in
      if \<not> is_ok st then (st, wl'\<lparr>wl_halted := True\<rparr>, w') else (kOk, wl', w'))"

definition wl_durable_lsn :: "Wal \<Rightarrow> Lsn" where
  "wl_durable_lsn wl = gc_durable_lsn (wl_group wl)"

definition wl_is_halted :: "Wal \<Rightarrow> bool" where
  "wl_is_halted wl \<longleftrightarrow> wl_halted wl \<or> gc_halted (wl_group wl)"

definition wl_force_commit :: "'w IoBackend \<Rightarrow> Wal \<Rightarrow> 'w \<Rightarrow> u64 \<Rightarrow> Status \<times> Wal \<times> 'w" where
  "wl_force_commit be wl w now_ns =
     (if wl_stuck wl then (fail IoError 0, wl, w)
      else case wl_push be wl w now_ns True of
        (st, wl', w') \<Rightarrow> if \<not> is_ok st then (st, wl', w') else wl_reap be wl' w')"

text \<open>\<^verbatim>\<open>await_durable\<close>: with no deadline the loop may wait for ever, with one it reaps once.\<close>

definition wl_give_up :: "Lsn \<Rightarrow> Wal \<Rightarrow> 'w \<Rightarrow> Status \<times> Wal \<times> 'w" where
  "wl_give_up target wl w =
     (if wl_durable_lsn wl < target then (fail IoError 0, wl\<lparr>wl_halted := True\<rparr>, w) else (kOk, wl, w))"

partial_function (option) wl_await :: "'w IoBackend \<Rightarrow> Lsn \<Rightarrow> u64 \<Rightarrow> Wal \<Rightarrow> 'w \<Rightarrow> (Status \<times> Wal \<times> 'w) option" where
  "wl_await be target deadline_ns wl w =
     (if \<not> wl_durable_lsn wl < target then Some (kOk, wl, w)
      else case wl_reap be wl w of
        (st, wl', w') \<Rightarrow>
          if \<not> is_ok st then Some (st, wl', w')
          else if target \<le> wl_durable_lsn wl' \<or> deadline_ns \<noteq> 0 then Some (wl_give_up target wl' w')
          else wl_await be target deadline_ns wl' w')"

definition wl_await_durable :: "'w IoBackend \<Rightarrow> Wal \<Rightarrow> 'w \<Rightarrow> Lsn \<Rightarrow> u64 \<Rightarrow> (Status \<times> Wal \<times> 'w) option" where
  "wl_await_durable be wl w target deadline_ns =
     (if wl_halted wl then Some (fail IoError 0, wl, w) else wl_await be target deadline_ns wl w)"

text \<open>
  \<^verbatim>\<open>snapshot\<close>: the image of the state goes to a file of its own.  \<open>save\<close> stands for
  \<^verbatim>\<open>save_state_image\<close> and answers its status and the bytes it wrote.  The log itself is not touched, and
  \<^verbatim>\<open>halted_\<close> is not looked at.
\<close>

definition snapshot_path :: "string option \<Rightarrow> u16 \<Rightarrow> Lsn \<Rightarrow> string" where
  "snapshot_path dir part at = dir_name dir @ ''/state_p'' @ dec_string (unat part) @ ''_'' @ hex_digits 16 (unat at) @ ''.img''"

definition wl_snapshot :: "'w SysCalls \<Rightarrow> ('s \<Rightarrow> Status \<times> u8 list) \<Rightarrow> 's \<Rightarrow> Lsn \<Rightarrow> Wal \<Rightarrow> 'w \<Rightarrow> Status \<times> 'w" where
  "wl_snapshot sys save st at wl w =
     (let path = snapshot_path (wo_dir (wl_opts wl)) (wo_partition (wl_opts wl)) at in
      if kMaxPathBytes \<le> length path then (fail InvalidArgument 0, w)
      else let (st_save, img) = save st in
      if \<not> is_ok st_save then (st_save, w)
      else let (fd, w1) = sc_open sys w path (O_RDWR OR O_CREAT OR O_TRUNC OR O_CLOEXEC) in
      if fd < 0 then (fail IoError 0, w1)
      else let (n, w2) = sc_pwrite sys w1 fd img 0; w3 = sc_close sys w2 fd in
      (if n \<noteq> int (length img) then fail IoError 0 else kOk, w3))"

end
