(* ===== verification/RV_Recovery.thy ===== *)
theory RV_Recovery
  imports RV_Wal RV_Partition
begin

text \<open>
  \<^verbatim>\<open>src/wal/recovery.cpp\<close>: the segments of a partition are listed, put in order and replayed after
  the image, until the log ends, is damaged, or an event is fatal.  What \<^verbatim>\<open>opendir\<close> and the mapping of
  a file answer are arguments.  The loading of the image itself is not modelled: the state and the
  position it left are arguments too.  The loop over the records of a segment is a partial function; it
  also has no result when an event aborts the process.
\<close>

section \<open>Files\<close>

record FileItem =
  fi_lsn :: u64
  fi_path :: string

text \<open>\<^verbatim>\<open>strtoull\<close> in base sixteen: the value, cut off at the largest one, and the rest of the text.\<close>

definition is_space :: "char \<Rightarrow> bool" where
  "is_space c \<longleftrightarrow> of_char c = (32 :: nat) \<or> 9 \<le> (of_char c :: nat) \<and> of_char c \<le> (13 :: nat)"

definition hex_value :: "char \<Rightarrow> nat option" where
  "hex_value c =
     (let n = of_char c in
      if 48 \<le> n \<and> n \<le> 57 then Some (n - 48) else if 97 \<le> n \<and> n \<le> 102 then Some (n - 87)
      else if 65 \<le> n \<and> n \<le> 70 then Some (n - 55) else None)"

fun hex_run :: "nat \<Rightarrow> string \<Rightarrow> nat \<times> string" where
  "hex_run acc [] = (acc, [])"
| "hex_run acc (c # cs) = (case hex_value c of None \<Rightarrow> (acc, c # cs) | Some d \<Rightarrow> hex_run (16 * acc + d) cs)"

definition strip_0x :: "string \<Rightarrow> string" where
  "strip_0x cs =
     (case cs of z # x # d # ds \<Rightarrow> if z = CHR ''0'' \<and> (x = CHR ''x'' \<or> x = CHR ''X'') \<and> hex_value d \<noteq> None then d # ds else cs | _ \<Rightarrow> cs)"

definition strtoull16 :: "string \<Rightarrow> u64 \<times> string" where
  "strtoull16 cs =
     (let s = dropWhile is_space cs;
          (neg, t) = (case s of c # cs' \<Rightarrow> if c = CHR ''-'' then (True, cs') else if c = CHR ''+'' then (False, cs') else (False, s) | [] \<Rightarrow> (False, s));
          u = strip_0x t; (v, rest) = hex_run 0 u in
      if rest = u then (0, cs)
      else if 2 ^ 64 \<le> v then (- 1, rest)
      else (if neg then - of_nat v else of_nat v, rest))"

definition listed :: "string option \<Rightarrow> string \<Rightarrow> string \<Rightarrow> string \<Rightarrow> FileItem option" where
  "listed dir prefixo sufixo name =
     (if length name \<le> length prefixo + length sufixo then None
      else if take (length prefixo) name \<noteq> prefixo then None
      else if drop (length name - length sufixo) name \<noteq> sufixo then None
      else let (val, rest) = strtoull16 (drop (length prefixo) name) in
      if rest \<noteq> [] \<and> hd rest = CHR ''.'' then Some \<lparr>fi_lsn = val, fi_path = dir_name dir @ ''/'' @ name\<rparr> else None)"

text \<open>\<open>entries\<close> are the names that \<^verbatim>\<open>readdir\<close> gave, \<open>None\<close> when the directory does not open.\<close>

definition lista_arquivos :: "string list option \<Rightarrow> string option \<Rightarrow> string \<Rightarrow> string \<Rightarrow> FileItem list" where
  "lista_arquivos entries dir prefixo sufixo =
     (case entries of None \<Rightarrow> [] | Some names \<Rightarrow> List.map_filter (listed dir prefixo sufixo) names)"

text \<open>What opening, measuring and mapping a file gave.\<close>

datatype FileAnswer = OpenFailed | StatFailed | MapFailed nat | Mapped ByteSpan

definition usable :: "nat \<Rightarrow> FileAnswer \<Rightarrow> ByteSpan option" where
  "usable min_size a = (case a of Mapped m \<Rightarrow> if length (bs_bytes m) < min_size then None else Some m | _ \<Rightarrow> None)"

section \<open>Replay\<close>

record RecoveryReport =
  rp_image_lsn :: Lsn
  rp_used_fallback_image :: bool
  rp_last_valid_lsn :: Lsn
  rp_records_applied :: u64
  rp_records_rejected :: u64
  rp_stop_reason :: ReplayStopReason
  rp_fatal_lsn :: Lsn
  rp_fatal_err :: Err
  rp_elapsed_ns :: u64

definition report_new :: RecoveryReport where
  "report_new = \<lparr>rp_image_lsn = 0, rp_used_fallback_image = False, rp_last_valid_lsn = 0, rp_records_applied = 0, rp_records_rejected = 0,
     rp_stop_reason = RsClean, rp_fatal_lsn = 0, rp_fatal_err = Ok, rp_elapsed_ns = 0\<rparr>"

text \<open>The variables of \<^verbatim>\<open>recover\<close> that live across segments.\<close>

record Recovery =
  rc_state :: PartitionState
  rc_ctx :: ApplyContext
  rc_report :: RecoveryReport
  rc_expected :: Lsn
  rc_max_valid :: Lsn
  rc_tail :: WalTail

definition count_record :: "Status \<Rightarrow> RecoveryReport \<Rightarrow> RecoveryReport" where
  "count_record st r =
     (if is_ok st then r\<lparr>rp_records_applied := rp_records_applied r + 1\<rparr> else r\<lparr>rp_records_rejected := rp_records_rejected r + 1\<rparr>)"

text \<open>The inner loop; the flag of the result says that a fatal event stopped it.\<close>

partial_function (option) replay_loop :: "bool \<Rightarrow> bool \<Rightarrow> Codec \<Rightarrow> SegmentReader \<Rightarrow> Recovery \<Rightarrow> (bool \<times> SegmentReader \<times> Recovery) option" where
  "replay_loop dbg rtl cd sr rc =
     (case sr_next sr of
        None \<Rightarrow> None
      | Some (None, sr') \<Rightarrow> Some (False, sr', rc)
      | Some (Some ev, sr') \<Rightarrow>
          if ev_lsn ev \<le> rp_image_lsn (rc_report rc) then replay_loop dbg rtl cd sr' rc
          else (case apply_event dbg rtl cd (rc_state rc) ev (rc_ctx rc) of
            None \<Rightarrow> None
          | Some (st, s, c) \<Rightarrow>
              if classify st = Fatal then
                Some (True, sr', rc\<lparr>rc_state := s, rc_ctx := c, rc_report := (rc_report rc)\<lparr>rp_fatal_lsn := ev_lsn ev, rp_fatal_err := code st,
                                                                                      rp_stop_reason := sr_stop_reason sr'\<rparr>\<rparr>)
              else replay_loop dbg rtl cd sr' (rc\<lparr>rc_state := s, rc_ctx := c, rc_report := count_record st (rc_report rc), rc_expected := lsn_next (ev_lsn ev)\<rparr>)))"

definition recover_tail :: "SegmentReader \<Rightarrow> Lsn \<Rightarrow> WalTail" where
  "recover_tail sr max_valid =
     \<lparr>wt_segment_first_lsn = sr_first_lsn sr, wt_resume_offset = of_nat (sr_resume_offset sr), wt_epoch = sr_epoch sr, wt_next_lsn = lsn_next max_valid\<rparr>"

text \<open>One segment; the flag of the result says that the loop over the segments ends.\<close>

definition recover_segment :: "bool \<Rightarrow> bool \<Rightarrow> Codec \<Rightarrow> ByteSpan \<Rightarrow> Recovery \<Rightarrow> (bool \<times> Recovery) option" where
  "recover_segment dbg rtl cd mapped rc =
     (case sr_open sr_new mapped (rc_expected rc) of
        (st, sr) \<Rightarrow>
          if \<not> is_ok st then Some (True, rc\<lparr>rc_report := (rc_report rc)\<lparr>rp_stop_reason := sr_stop_reason sr\<rparr>\<rparr>)
          else (case replay_loop dbg rtl cd sr rc of
            None \<Rightarrow> None
          | Some (parou, sr', rc1) \<Rightarrow>
              let mv = (if rc_max_valid rc1 < sr_last_valid_lsn sr' then sr_last_valid_lsn sr' else rc_max_valid rc1);
                  rc2 = rc1\<lparr>rc_max_valid := mv, rc_tail := recover_tail sr' mv\<rparr> in
              if parou then Some (True, rc2)
              else if sr_stop_reason sr' \<noteq> RsClean then Some (True, rc2\<lparr>rc_report := (rc_report rc2)\<lparr>rp_stop_reason := sr_stop_reason sr'\<rparr>\<rparr>)
              else Some (False, rc2)))"

primrec recover_segments :: "bool \<Rightarrow> bool \<Rightarrow> Codec \<Rightarrow> (string \<Rightarrow> FileAnswer) \<Rightarrow> FileItem list \<Rightarrow> Recovery \<Rightarrow> Recovery option" where
  "recover_segments dbg rtl cd files [] rc = Some rc"
| "recover_segments dbg rtl cd files (seg # segs) rc =
     (case usable kSegmentHdrBytes (files (fi_path seg)) of
        None \<Rightarrow> recover_segments dbg rtl cd files segs rc
      | Some m \<Rightarrow> (case recover_segment dbg rtl cd m rc of
            None \<Rightarrow> None
          | Some (stop, rc') \<Rightarrow> if stop then Some rc' else recover_segments dbg rtl cd files segs rc'))"

text \<open>
  \<^verbatim>\<open>recover\<close> from the listing of the segments on.  \<^verbatim>\<open>std::sort\<close> leaves the order of equal keys open;
  here they stay as listed.
\<close>

definition recover_log ::
    "bool \<Rightarrow> bool \<Rightarrow> Codec \<Rightarrow> string list option \<Rightarrow> (string \<Rightarrow> FileAnswer) \<Rightarrow> string option \<Rightarrow> u16 \<Rightarrow> RecoveryReport \<Rightarrow> Metrics \<Rightarrow> PartitionState
     \<Rightarrow> Recovery option" where
  "recover_log dbg rtl cd entries files dir part report metrics s =
     (let segs = sort_key fi_lsn (lista_arquivos entries dir (''p'' @ dec_string (unat part) @ ''_'') ''.wal'');
          rc = \<lparr>rc_state = s, rc_ctx = \<lparr>cx_outbox = None, cx_metrics = Some metrics\<rparr>, rc_report = report,
                rc_expected = lsn_next (rp_image_lsn report), rc_max_valid = rp_image_lsn report, rc_tail = tail_new\<rparr> in
      map_option (\<lambda>rc'. rc'\<lparr>rc_report := (rc_report rc')\<lparr>rp_last_valid_lsn := rc_max_valid rc'\<rparr>\<rparr>) (recover_segments dbg rtl cd files segs rc))"

section \<open>Recovery is a replay\<close>

text \<open>Without an outbox the metrics make no difference to what an event does.\<close>

lemma apply_event_metrics_blind:
  assumes "cx_outbox c = None"
  shows "case apply_event dbg rtl cd s ev no_outputs of
      None \<Rightarrow> apply_event dbg rtl cd s ev c = None
    | Some (st, s', _) \<Rightarrow> \<exists>c'. apply_event dbg rtl cd s ev c = Some (st, s', c') \<and> cx_outbox c' = None"
proof -
  have no: "cx_outbox no_outputs = None" by (simp add: no_outputs_def)
  show ?thesis
  proof (cases "apply_event dbg rtl cd s ev no_outputs")
    case None
    then show ?thesis using apply_event_blind [OF _ no, of dbg rtl cd s ev c] by (cases "apply_event dbg rtl cd s ev c") auto
  next
    case (Some r)
    obtain st s' c0 where r: "apply_event dbg rtl cd s ev no_outputs = Some (st, s', c0)" using Some by (cases r) simp
    obtain st1 c1 where a: "apply_event dbg rtl cd s ev c = Some (st1, s', c1)" "cx_outbox c1 = None" "st1 = st \<or> st1 = kOk \<and> code st = ArenaExhausted"
      using apply_event_blind [OF r assms] by blast
    have "st = st1 \<or> st = kOk \<and> code st1 = ArenaExhausted" using apply_event_blind [OF a(1) no] r by auto
    with a(3) have "st1 = st" by (auto simp: kOk_def)
    with a r show ?thesis by simp
  qed
qed

lemma record_same_event:
  assumes "ev_len ev \<le> length (bs_bytes (ev_payload ev))" and "8 dvd bs_addr (ev_payload ev)"
  shows "same_event (event_of_record (ev_record ev)) ev"
  using assms by (simp add: same_event_def event_of_record_def ev_record_def min_absorb2)

definition after_image :: "Lsn \<Rightarrow> LogRecord list \<Rightarrow> LogRecord list" where
  "after_image im rs = filter (\<lambda>r. im < lr_lsn r) rs"

lemma after_image_simps [simp]:
  "after_image im [] = []" "after_image im (r # rs) = (if im < lr_lsn r then r # after_image im rs else after_image im rs)"
  "after_image im (xs @ ys) = after_image im xs @ after_image im ys"
  by (simp_all add: after_image_def)

lemma replay_loop_reads:
  assumes "reads sr evs sr'" and "\<forall>ev\<in>set evs. ev_len ev \<le> length (bs_bytes (ev_payload ev)) \<and> 8 dvd bs_addr (ev_payload ev)"
    and "cx_outbox (rc_ctx rc) = None"
  shows "case replay dbg rtl cd (rc_state rc) (after_image (rp_image_lsn (rc_report rc)) (map ev_record evs)) of
      None \<Rightarrow> replay_loop dbg rtl cd sr rc = None
    | Some (b, s) \<Rightarrow> \<exists>sr1 rc'. replay_loop dbg rtl cd sr rc = Some (b, sr1, rc') \<and> rc_state rc' = s \<and> (\<not> b \<longrightarrow> sr1 = sr')"
  using assms
proof (induction arbitrary: rc rule: reads.induct)
  case (stop sr sr')
  then show ?case by (subst replay_loop.simps) simp
next
  case (more sr ev sr1 evs sr')
  let ?im = "rp_image_lsn (rc_report rc)"
  have evs: "\<forall>ev\<in>set evs. ev_len ev \<le> length (bs_bytes (ev_payload ev)) \<and> 8 dvd bs_addr (ev_payload ev)" using more.prems(1) by simp
  show ?case
  proof (cases "ev_lsn ev \<le> ?im")
    case True
    then have l: "replay_loop dbg rtl cd sr rc = replay_loop dbg rtl cd sr1 rc" using more.hyps(1) by (subst replay_loop.simps) simp
    have "\<not> ?im < ev_lsn ev" using True by simp
    then show ?thesis using more.IH [OF evs more.prems(2)] unfolding l by (simp del: not_less)
  next
    case False
    have same: "apply_event dbg rtl cd s (event_of_record (ev_record ev)) c = apply_event dbg rtl cd s ev c" for s c
      using apply_event_same [OF record_same_event, of ev] more.prems(1) by simp
    note b = apply_event_metrics_blind [OF more.prems(2), of dbg rtl cd "rc_state rc" ev]
    show ?thesis
    proof (cases "apply_event dbg rtl cd (rc_state rc) ev no_outputs")
      case None
      with b more.hyps(1) False have "replay_loop dbg rtl cd sr rc = None" by (subst replay_loop.simps) simp
      with None False same show ?thesis by (simp add: not_less [symmetric])
    next
      case (Some r)
      obtain st s c0 where r: "apply_event dbg rtl cd (rc_state rc) ev no_outputs = Some (st, s, c0)" using Some by (cases r) simp
      obtain c where a: "apply_event dbg rtl cd (rc_state rc) ev (rc_ctx rc) = Some (st, s, c)" "cx_outbox c = None" using b r by auto
      let ?rc = "rc\<lparr>rc_state := s, rc_ctx := c, rc_report := count_record st (rc_report rc), rc_expected := lsn_next (ev_lsn ev)\<rparr>"
      have im: "rp_image_lsn (rc_report ?rc) = ?im" by (simp add: count_record_def)
      show ?thesis
      proof (cases "classify st = Fatal")
        case True
        then show ?thesis using r a more.hyps(1) False same by (subst replay_loop.simps) (simp add: not_less [symmetric])
      next
        case F: False
        have l: "replay_loop dbg rtl cd sr rc = replay_loop dbg rtl cd sr1 ?rc" using F a more.hyps(1) False by (subst replay_loop.simps) simp
        have "replay dbg rtl cd (rc_state rc) (after_image ?im (map ev_record (ev # evs))) = replay dbg rtl cd s (after_image ?im (map ev_record evs))"
          using False F r same by (simp add: not_less [symmetric])
        then show ?thesis using more.IH [of ?rc, OF evs] a(2) unfolding l im by simp
      qed
    qed
  qed
qed

text \<open>The whole of one segment.\<close>

lemma recover_segment_replays:
  assumes "sr_open sr_new m (rc_expected rc) = (kOk, sr)" and "length (bs_bytes m) + 8192 < 2 ^ 64" and "8 dvd bs_addr m" and "reads sr evs sr'"
    and "cx_outbox (rc_ctx rc) = None"
  shows "map_option (\<lambda>(stop, rc'). rc_state rc') (recover_segment dbg rtl cd m rc)
    = map_option snd (replay dbg rtl cd (rc_state rc) (after_image (rp_image_lsn (rc_report rc)) (map ev_record evs)))"
proof -
  note o = open_ok_reader [OF assms(1,2)]
  have "8 dvd sr_offset sr" using o(3) by (simp add: kSegmentHdrBytes_def)
  then have "\<forall>ev\<in>set evs. ev_len ev \<le> length (bs_bytes (ev_payload ev)) \<and> 8 dvd bs_addr (ev_payload ev)"
    using reads_facts [OF assms(4) o(1)] reads_aligned [OF assms(4) o(1)] assms(3) o(2) by simp
  note r = replay_loop_reads [OF assms(4) this assms(5), of dbg rtl cd]
  have ok: "is_ok kOk" by (simp add: is_ok_def kOk_def)
  show ?thesis using r assms(1) ok by (auto simp: recover_segment_def Let_def split: option.splits prod.splits)
qed

section \<open>Names of segments\<close>

text \<open>The name a log gives its segment is listed by recovery, with the position it starts at.\<close>

lemma hex_digit: "d < 16 \<Longrightarrow> hex_value (digit_char d) = Some d"
  by (auto simp: hex_value_def digit_char_def Let_def)

lemma hex_run_digits: "hex_run acc (hex_digits k n @ cs) = hex_run (16 ^ k * acc + n mod 16 ^ k) cs"
proof (induction k arbitrary: acc n cs)
  case (Suc k)
  have "16 * (16 ^ k * acc + n div 16 mod 16 ^ k) + n mod 16 = 16 ^ Suc k * acc + n mod 16 ^ Suc k"
    by (simp add: mod_mult2_eq [of n 16 "16 ^ k"] algebra_simps)
  from arg_cong [OF this, of "\<lambda>x. hex_run x cs"] show ?case by (simp add: Suc hex_digit)
qed simp

lemma length_hex_digits [simp]: "length (hex_digits k n) = k"
  by (induction k arbitrary: n) simp_all

lemma hex_digits_chars: "c \<in> set (hex_digits k n) \<Longrightarrow> \<not> is_space c \<and> c \<noteq> CHR ''-'' \<and> c \<noteq> CHR ''+'' \<and> c \<noteq> CHR ''x'' \<and> c \<noteq> CHR ''X''"
proof -
  have d: "\<not> is_space (digit_char d) \<and> digit_char d \<notin> {CHR ''-'', CHR ''+'', CHR ''x'', CHR ''X''}" if "d < 16" for d
  proof -
    have "list_all (\<lambda>d. \<not> is_space (digit_char d) \<and> digit_char d \<notin> {CHR ''-'', CHR ''+'', CHR ''x'', CHR ''X''}) [0..<16]" by code_simp
    with that show ?thesis by (auto simp: list_all_iff)
  qed
  show "c \<in> set (hex_digits k n) \<Longrightarrow> ?thesis" by (induction k arbitrary: n) (use d in auto)
qed

lemma strtoull16_digits: "strtoull16 (hex_digits 16 (unat l) @ ''.wal'') = (l, ''.wal'')"
proof -
  let ?ds = "hex_digits 16 (unat l)"
  obtain a b ds where ds: "?ds = a # b # ds" using length_hex_digits [of 16 "unat l"] by (metis Suc_length_conv eval_nat_numeral(2,3) numeral_eq_Suc)
  note ch = hex_digits_chars [of a 16 "unat l"] hex_digits_chars [of b 16 "unat l"]
  have "hex_run 0 (?ds @ ''.wal'') = (unat l, ''.wal'')"
    using hex_run_digits [of 0 16 "unat l" "''.wal''"] unsigned_less [of l, where 'a = nat] by (simp add: hex_value_def)
  moreover have "strip_0x (?ds @ ''.wal'') = ?ds @ ''.wal''" using ch by (auto simp: strip_0x_def ds split: list.splits)
  moreover have "unat l < 2 ^ 64" using unsigned_less [of l, where 'a = nat] by simp
  ultimately show ?thesis using ch by (simp add: strtoull16_def ds)
qed

lemma segment_listed:
  "listed dir (''p'' @ dec_string (unat part) @ ''_'') ''.wal'' (''p'' @ dec_string (unat part) @ ''_'' @ hex_digits 16 (unat l) @ ''.wal'')
     = Some \<lparr>fi_lsn = l, fi_path = segment_path dir part l\<rparr>"
proof -
  have "drop (length xs) (xs @ ys) = ys" for xs ys :: string by simp
  from this [of "''p'' @ dec_string (unat part) @ ''_'' @ hex_digits 16 (unat l)" "''.wal''"] strtoull16_digits [of l]
  show ?thesis by (simp add: listed_def segment_path_def)
qed

end
