(* ===== verification/RV_Wal_Laws.thy ===== *)
theory RV_Wal_Laws
  imports RV_Wal
begin

text \<open>
  What the log promises together with its backend.  \<open>grp_safe\<close> is the invariant: the records
  appended so far are the records of the groups handed over, \<open>gss\<close>, followed by those of the current
  group; the first \<open>n\<close> groups are durable and their bytes are in the file at their place; a group is
  popped only after a completion that said all its bytes were written.  The backend is any that keeps
  the promise of the locale \<open>stable_backend\<close>, which allows a write to fail or to be short; the
  synchronous backend keeps it over any \<^verbatim>\<open>pwrite\<close> that writes a prefix of what it is given.
\<close>

section \<open>The file\<close>

definition file_write :: "u8 list \<Rightarrow> nat \<Rightarrow> u8 list \<Rightarrow> u8 list" where
  "file_write f off bs = (if bs = [] then f else take off (f @ replicate (off - length f) 0) @ bs @ drop (off + length bs) f)"

lemma file_write_before:
  assumes "n \<le> off" and "n \<le> length f"
  shows "take n (file_write f off bs) = take n f"
  using assms by (simp add: file_write_def min_def)

lemma file_write_at: "take (length bs) (drop off (file_write f off bs)) = bs"
proof (cases "bs = []")
  case False
  have "length (take off (f @ replicate (off - length f) 0)) = off" by simp
  then show ?thesis using False by (simp add: file_write_def)
qed simp

lemma file_write_length: "length (file_write f off bs) \<le> max (length f) (off + length bs)"
  by (auto simp: file_write_def)

locale stable_backend =
  fixes be :: "'w IoBackend" and live :: "'w \<Rightarrow> bool" and disk :: "'w \<Rightarrow> u8 list" and waiting :: "'w \<Rightarrow> Completion set"
  assumes submit_ok: "live w \<Longrightarrow> io_submit be w req = (st, w') \<Longrightarrow> is_ok st \<Longrightarrow> wr_file_idx req = 0 \<Longrightarrow>
      unat (wr_offset req) < 2 ^ 63 \<Longrightarrow> wr_len req \<le> kMaxGroupBytes \<Longrightarrow>
      live w' \<and> (\<exists>k\<le>wr_len req. \<exists>c. disk w' = file_write (disk w) (unat (wr_offset req)) (take k (take (wr_len req) (bs_bytes (wr_buf req))))
        \<and> waiting w' \<subseteq> insert c (waiting w) \<and> cp_token c = wr_token req \<and> (cp_ok c \<longrightarrow> k = wr_len req))"
    and submit_fail: "live w \<Longrightarrow> io_submit be w req = (st, w') \<Longrightarrow> \<not> is_ok st \<Longrightarrow> live w' \<and> disk w' = disk w \<and> waiting w' \<subseteq> waiting w"
    and reap_file: "live w \<Longrightarrow> io_reap be w n = (cs, w') \<Longrightarrow> live w' \<and> disk w' = disk w \<and> set cs \<union> waiting w' \<subseteq> waiting w"

section \<open>The invariant\<close>

definition group_at :: "u32 \<Rightarrow> u32 \<Rightarrow> LogRecord list list \<Rightarrow> nat \<Rightarrow> nat" where
  "group_at blk e gss i = kSegmentHdrBytes + length (area_bytes blk e (take i gss))"

definition stored :: "u8 list \<Rightarrow> u32 \<Rightarrow> u32 \<Rightarrow> LogRecord list list \<Rightarrow> nat \<Rightarrow> bool" where
  "stored f blk e gss i \<longleftrightarrow> take (length (group_image blk e (gss ! i))) (drop (group_at blk e gss i) f) = group_image blk e (gss ! i)"

definition grp_history :: "GroupCommit \<Rightarrow> u32 \<Rightarrow> Lsn \<Rightarrow> LogRecord list list \<Rightarrow> LogRecord list \<Rightarrow> nat \<Rightarrow> bool" where
  "grp_history g e lst gss cur n \<longleftrightarrow> gc_shape g \<and> gc_order g lst \<and> n \<le> length gss \<and> gc_holds g e (drop n gss) cur
     \<and> gc_durable_lsn g = (if n = 0 then 0 else lr_lsn (last (gss ! (n - 1))))
     \<and> (\<forall>rs\<in>set gss. rs \<noteq> []) \<and> (\<forall>r\<in>set (concat gss @ cur). length (lr_bytes r) \<le> kMaxPayload)
     \<and> lsn_run 1 (concat gss @ cur) \<and> unat lst = length (concat gss @ cur)"

definition grp_disk :: "u8 list \<Rightarrow> u8 list \<Rightarrow> Completion set \<Rightarrow> GroupCommit \<Rightarrow> u32 \<Rightarrow> LogRecord list list \<Rightarrow> nat \<Rightarrow> bool" where
  "grp_disk hdr f W g e gss n \<longleftrightarrow> take kSegmentHdrBytes f = hdr \<and> length hdr = kSegmentHdrBytes \<and> length f < 2 ^ 63
     \<and> (\<forall>i<n. stored f (gc_block_size g) e gss i) \<and> gc_flags g n (stored f (gc_block_size g) e gss)
     \<and> (\<forall>c\<in>W. good_for g n (stored f (gc_block_size g) e gss) c \<and> unat (cp_token c) \<le> length (concat gss))"

definition grp_safe ::
    "u8 list \<Rightarrow> u8 list \<Rightarrow> Completion set \<Rightarrow> GroupCommit \<Rightarrow> u32 \<Rightarrow> Lsn \<Rightarrow> u64 \<Rightarrow> LogRecord list list \<Rightarrow> LogRecord list \<Rightarrow> nat \<Rightarrow> bool" where
  "grp_safe hdr f W g e lst off gss cur n \<longleftrightarrow> grp_history g e lst gss cur n \<and> grp_disk hdr f W g e gss n
     \<and> unat off = group_at (gc_block_size g) e gss (length gss)"

definition wal_safe :: "u8 list \<Rightarrow> u8 list \<Rightarrow> Completion set \<Rightarrow> Wal \<Rightarrow> LogRecord list \<Rightarrow> bool" where
  "wal_safe hdr f W wl hist \<longleftrightarrow> (\<exists>gss cur n. hist = concat gss @ cur
     \<and> grp_safe hdr f W (wl_group wl) (sg_epoch (wl_segment wl)) (wl_last_lsn wl) (wl_seg_offset wl) gss cur n)"

lemma wal_safeI:
  "\<exists>n. grp_safe hdr f W (wl_group wl) (sg_epoch (wl_segment wl)) (wl_last_lsn wl) (wl_seg_offset wl) gss cur n \<Longrightarrow> wal_safe hdr f W wl (concat gss @ cur)"
  by (auto simp: wal_safe_def)

text \<open>What one operation changes: the durable position only grows, and the file by at most one group.\<close>

definition wl_grows :: "Wal \<Rightarrow> Wal \<Rightarrow> bool" where
  "wl_grows wl wl' \<longleftrightarrow> wl_segment wl' = wl_segment wl \<and> gc_block_size (wl_group wl') = gc_block_size (wl_group wl) \<and> wl_durable_lsn wl \<le> wl_durable_lsn wl'
     \<and> unat (wl_seg_offset wl') \<le> unat (wl_seg_offset wl) + kMaxGroupBytes \<and> unat (wl_last_lsn wl') \<le> unat (wl_last_lsn wl) + 1"

text \<open>Sequences of operations, with the records whose append succeeded.\<close>

datatype WalOp = OpAppend u16 ByteSpan u64 | OpSubmit u64 | OpReap | OpForce u64

fun wal_step :: "'w IoBackend \<Rightarrow> WalOp \<Rightarrow> Wal \<times> 'w \<times> LogRecord list \<Rightarrow> Wal \<times> 'w \<times> LogRecord list" where
  "wal_step be (OpAppend tmpl p ts) (wl, w, hist) =
     (case wl_append be wl w tmpl p ts of
        (Inr a, wl', w') \<Rightarrow> (wl', w', hist @ [\<lparr>lr_lsn = ap_lsn a, lr_ts_ns = ts, lr_tmpl = tmpl, lr_bytes = bs_bytes p\<rparr>])
      | (Inl st, wl', w') \<Rightarrow> (wl', w', hist))"
| "wal_step be (OpSubmit now) (wl, w, hist) = (case wl_maybe_submit be wl w now of (st, wl', w') \<Rightarrow> (wl', w', hist))"
| "wal_step be OpReap (wl, w, hist) = (case wl_reap be wl w of (st, wl', w') \<Rightarrow> (wl', w', hist))"
| "wal_step be (OpForce now) (wl, w, hist) = (case wl_force_commit be wl w now of (st, wl', w') \<Rightarrow> (wl', w', hist))"

definition wal_run :: "'w IoBackend \<Rightarrow> WalOp list \<Rightarrow> Wal \<times> 'w \<times> LogRecord list \<Rightarrow> Wal \<times> 'w \<times> LogRecord list" where
  "wal_run be ops st = fold (wal_step be) ops st"

section \<open>Bytes that stay\<close>

lemma stored_length: "stored f blk e gss i \<Longrightarrow> gss ! i \<noteq> [] \<Longrightarrow> group_at blk e gss i + length (group_image blk e (gss ! i)) \<le> length f"
proof -
  assume s: "stored f blk e gss i" and ne: "gss ! i \<noteq> []"
  have "run_bytes e (gss ! i) \<noteq> []" using ne by (simp add: run_bytes_empty)
  then have pos: "0 < length (group_image blk e (gss ! i))" by (simp add: group_image_def)
  have "length (take (length (group_image blk e (gss ! i))) (drop (group_at blk e gss i) f)) = length (group_image blk e (gss ! i))"
    using s by (simp only: stored_def)
  with pos show ?thesis by (auto simp: min_def simp del: length_greater_0_conv split: if_splits)
qed

lemma area_Suc: "i < length gss \<Longrightarrow> area_bytes blk e (take (Suc i) gss) = area_bytes blk e (take i gss) @ group_image blk e (gss ! i)"
  by (simp add: area_bytes_def take_Suc_conv_app_nth)

lemma group_at_Suc: "i < length gss \<Longrightarrow> group_at blk e gss (Suc i) = group_at blk e gss i + length (group_image blk e (gss ! i))"
  by (simp add: group_at_def area_Suc)

lemma group_at_mono: "i \<le> j \<Longrightarrow> j \<le> length gss \<Longrightarrow> group_at blk e gss i \<le> group_at blk e gss j"
proof (induction j)
  case (Suc j)
  then show ?case by (cases "i = Suc j") (simp_all add: group_at_Suc)
qed simp

lemma stored_file_write:
  assumes "stored f blk e gss i" and "i < length gss" and "gss ! i \<noteq> []" and "group_at blk e gss (length gss) \<le> off"
  shows "stored (file_write f off bs) blk e gss i"
proof -
  let ?a = "group_at blk e gss i" and ?l = "length (group_image blk e (gss ! i))"
  have "?a + ?l \<le> off" using group_at_mono [of "Suc i" "length gss" gss blk e] group_at_Suc [OF assms(2)] assms(2,4) by simp
  then have "take (?a + ?l) (file_write f off bs) = take (?a + ?l) f" using stored_length [OF assms(1,3)] by (intro file_write_before)
  then have "take ?l (drop ?a (file_write f off bs)) = take ?l (drop ?a f)" by (metis add.commute drop_take take_drop)
  with assms(1) show ?thesis by (simp add: stored_def)
qed

lemma stored_snoc: "i < length gss \<Longrightarrow> stored f blk e (gss @ [x]) i = stored f blk e gss i"
  by (simp add: stored_def group_at_def nth_append)

lemma stored_area:
  assumes "take kSegmentHdrBytes f = hdr" and "length hdr = kSegmentHdrBytes" and "n \<le> length gss" and "\<forall>i<n. stored f blk e gss i"
    and "\<forall>rs\<in>set gss. rs \<noteq> []"
  shows "take (group_at blk e gss n) f = hdr @ area_bytes blk e (take n gss)"
  using assms(3,4)
proof (induction n)
  case 0
  then show ?case using assms(1) by (simp add: group_at_def area_bytes_def)
next
  case (Suc n)
  then have n: "n < length gss" "stored f blk e gss n" by simp_all
  have "take (group_at blk e gss (Suc n)) f = take (group_at blk e gss n) f @ take (length (group_image blk e (gss ! n))) (drop (group_at blk e gss n) f)"
    by (simp add: group_at_Suc [OF n(1)] take_add)
  also have "\<dots> = hdr @ area_bytes blk e (take n gss) @ group_image blk e (gss ! n)"
    using Suc n(2) by (simp add: stored_def)
  finally show ?case by (simp add: area_Suc [OF n(1)])
qed

section \<open>Appending and reaping keep it\<close>

lemma append_queue: "gc_append g tmpl p ts e lsn = (Inr a, g') \<Longrightarrow> gc_queue g' = gc_queue g"
proof -
  assume "gc_append g tmpl p ts e lsn = (Inr a, g')"
  then have "gc_write g tmpl (bs_bytes p) ts e lsn (unat (record_bytes (of_nat (length (bs_bytes p))))) = (a, g')" by (rule gc_append_ok(5)) simp
  then show ?thesis by (auto simp: gc_write_def Let_def gc_queue_def)
qed

lemma append_safe:
  assumes s: "grp_safe hdr f W g e lst off gss cur n" and a: "gc_append g tmpl p ts e (lsn_next lst) = (Inr a, g')" and b: "unat lst + 1 < 2 ^ 64"
  shows "grp_safe hdr f W g' e (lsn_next lst) off gss (cur @ [\<lparr>lr_lsn = lsn_next lst, lr_ts_ns = ts, lr_tmpl = tmpl, lr_bytes = bs_bytes p\<rparr>]) n
    \<and> ap_lsn a = lsn_next lst \<and> bs_bytes (ap_payload a) = bs_bytes p \<and> 8 dvd bs_addr (ap_payload a) \<and> gc_durable_lsn g' = gc_durable_lsn g
    \<and> gc_block_size g' = gc_block_size g"
proof -
  have h: "grp_history g e lst gss cur n" and d: "grp_disk hdr f W g e gss n" and o: "unat off = group_at (gc_block_size g) e gss (length gss)"
    using s by (simp_all add: grp_safe_def)
  have nx: "unat (lsn_next lst) = unat lst + 1" using lsn_next_mono [OF b] by simp
  then have lt: "lst < lsn_next lst" by (simp add: word_less_nat_alt)
  note k = gc_append_keeps [OF _ _ lt _ a, of "drop n gss" cur]
  have k: "gc_shape g' \<and> gc_order g' (lsn_next lst)
    \<and> gc_holds g' e (drop n gss) (cur @ [\<lparr>lr_lsn = lsn_next lst, lr_ts_ns = ts, lr_tmpl = tmpl, lr_bytes = bs_bytes p\<rparr>])
    \<and> gc_durable_lsn g' = gc_durable_lsn g \<and> gc_block_size g' = gc_block_size g
    \<and> ap_lsn a = lsn_next lst \<and> bs_bytes (ap_payload a) = bs_bytes p \<and> ap_len a = length (bs_bytes p) \<and> 8 dvd bs_addr (ap_payload a)
    \<and> ap_len a \<le> kMaxPayload"
    using h by (intro k) (simp_all add: grp_history_def)
  have "lsn_next lst = 1 + of_nat (length (concat gss @ cur))"
  proof -
    have "unat lst = length (concat gss @ cur)" using h by (simp add: grp_history_def)
    moreover have "of_nat (unat lst) = lst" by simp
    ultimately have "lst = of_nat (length (concat gss @ cur))" by (simp only:)
    then show ?thesis by (simp add: lsn_next_def)
  qed
  then have run: "lsn_run 1 ((concat gss @ cur) @ [\<lparr>lr_lsn = lsn_next lst, lr_ts_ns = ts, lr_tmpl = tmpl, lr_bytes = bs_bytes p\<rparr>])"
    using h lsn_run_append [of 1 "concat gss @ cur"] by (simp only: grp_history_def lsn_run.simps LogRecord.simps simp_thms)
  have "grp_history g' e (lsn_next lst) gss (cur @ [\<lparr>lr_lsn = lsn_next lst, lr_ts_ns = ts, lr_tmpl = tmpl, lr_bytes = bs_bytes p\<rparr>]) n"
    using h k run nx by (auto simp: grp_history_def)
  moreover have "grp_disk hdr f W g' e gss n" using d k append_queue [OF a] by (simp add: grp_disk_def gc_flags_def good_for_def)
  ultimately show ?thesis using o k by (simp add: grp_safe_def)
qed

lemma good_for_drop:
  assumes "map ig_token (gc_queue g') = drop m (map ig_token (gc_queue g))" and "m \<le> length (gc_queue g)" and "good_for g n P c"
  shows "good_for g' (n + m) P c"
  unfolding good_for_def
proof (intro impI allI)
  fix i assume c: "cp_ok c" and i: "i < length (gc_queue g')" and t: "ig_token (gc_queue g' ! i) = cp_token c"
  have l: "length (gc_queue g') = length (gc_queue g) - m" using arg_cong [OF assms(1), of length] by simp
  have "ig_token (gc_queue g' ! i) = map ig_token (gc_queue g') ! i" using i by simp
  also have "\<dots> = ig_token (gc_queue g ! (m + i))" using i l unfolding assms(1) by simp
  finally show "P (n + m + i)" using assms(3) c t i l unfolding good_for_def by (simp add: add.assoc)
qed

lemma lsn_run_unat: "rs \<noteq> [] \<Longrightarrow> lsn_run 1 rs \<Longrightarrow> unat (l :: Lsn) = length rs \<Longrightarrow> unat (lr_lsn (last rs)) = length rs"
proof -
  assume a: "rs \<noteq> []" "lsn_run 1 rs" "unat l = length rs"
  have "lr_lsn (last rs) + 1 = of_nat (length rs) + 1" using lsn_run_last [OF a(1,2)] by (simp add: add.commute)
  then have "lr_lsn (last rs) = of_nat (unat l)" using a(3) by (simp only: add_right_cancel)
  then have "lr_lsn (last rs) = l" by simp
  then show ?thesis using a(3) by simp
qed

lemma order_tokens: "gc_order g lst \<Longrightarrow> x \<in> set (gc_queue g) \<Longrightarrow> gc_cur_len g \<noteq> 0 \<Longrightarrow> ig_token x < gc_cur_last_lsn g"
  by (auto simp: gc_order_def gc_marks_def sorted_wrt_append)

context stable_backend
begin

lemma reap_safe:
  assumes w: "live w" and s: "grp_safe hdr (disk w) (waiting w) g e lst off gss cur n" and r: "gc_reap be g w = (st, g', w')"
  shows "live w' \<and> (\<exists>m. grp_safe hdr (disk w') (waiting w') g' e lst off gss cur m) \<and> gc_durable_lsn g \<le> gc_durable_lsn g'
    \<and> gc_block_size g' = gc_block_size g"
proof -
  let ?P = "stored (disk w) (gc_block_size g) e gss"
  have h: "grp_history g e lst gss cur n" and d: "grp_disk hdr (disk w) (waiting w) g e gss n" and o: "unat off = group_at (gc_block_size g) e gss (length gss)"
    using s by (simp_all add: grp_safe_def)
  note hd = h [unfolded grp_history_def]
  have "gc_shape g" "gc_order g lst" "gc_holds g e (drop n gss) cur" using hd by simp_all
  from gc_reap_keeps [OF this r] obtain m cs where i: "gc_shape g'" "gc_order g' lst" "gc_durable_lsn g \<le> gc_durable_lsn g'" "gc_block_size g' = gc_block_size g"
    and cs: "io_reap be w kMaxInflight = (cs, w')" and m: "m \<le> length (drop n gss)" "gc_holds g' e (drop m (drop n gss)) cur"
    and dl: "gc_durable_lsn g' = (if m = 0 then gc_durable_lsn g else lr_lsn (last (drop n gss ! (m - 1))))"
    and tk: "map ig_token (gc_queue g') = drop m (map ig_token (gc_queue g))"
    and fl: "\<forall>n P. gc_flags g n P \<longrightarrow> (\<forall>c\<in>set cs. good_for g n P c) \<longrightarrow> gc_flags g' (n + m) P \<and> (\<forall>i<m. P (n + i))" by blast
  note f = reap_file [OF w cs]
  have good: "\<forall>c\<in>waiting w. good_for g n ?P c" and fg: "gc_flags g n ?P" using d by (simp_all add: grp_disk_def)
  have "gc_flags g' (n + m) ?P \<and> (\<forall>i<m. ?P (n + i))" using fl fg good f by blast
  then have fl': "gc_flags g' (n + m) ?P" and st: "\<forall>i<m. ?P (n + i)" by blast+
  have all: "\<forall>i<n + m. ?P i"
  proof (intro allI impI)
    fix i assume "i < n + m"
    then show "?P i" using d st [rule_format, of "i - n"] by (cases "i < n") (simp_all add: grp_disk_def)
  qed
  have lq: "length (gc_queue g) = length (drop n gss)" using hd by (auto simp: gc_holds_def dest: list_all2_lengthD)
  have good': "\<forall>c\<in>waiting w'. good_for g' (n + m) ?P c \<and> unat (cp_token c) \<le> length (concat gss)"
    using good_for_drop [OF tk, of n ?P] m(1) lq f d by (auto simp: grp_disk_def)
  have "grp_disk hdr (disk w') (waiting w') g' e gss (n + m)" using d f fl' all good' i(4) by (simp add: grp_disk_def)
  moreover have "grp_history g' e lst gss cur (n + m)"
    using hd i m dl by (auto simp: grp_history_def add.commute nth_append)
  ultimately show ?thesis using f i o by (auto simp: grp_safe_def)
qed

lemma submit_safe:
  assumes w: "live w" and s: "grp_safe hdr (disk w) (waiting w) g e lst off gss cur n" and room: "unat off + kMaxGroupBytes < 2 ^ 63"
    and r: "gc_maybe_submit be g w now off 0 force = (res, g', w')"
  shows "live w' \<and> gc_durable_lsn g' = gc_durable_lsn g \<and> gc_block_size g' = gc_block_size g
    \<and> (case res of
         Inl st \<Rightarrow> grp_safe hdr (disk w') (waiting w') g' e lst off gss cur n
       | Inr m \<Rightarrow> if m = 0 then g' = g \<and> w' = w
           else m \<le> kMaxGroupBytes \<and> grp_safe hdr (disk w') (waiting w') g' e lst (off + of_nat m) (gss @ [cur]) [] n)"
proof -
  let ?b = "gc_block_size g" and ?P = "stored (disk w) (gc_block_size g) e gss"
  have h: "grp_history g e lst gss cur n" and d: "grp_disk hdr (disk w) (waiting w) g e gss n" and o: "unat off = group_at ?b e gss (length gss)"
    using s by (simp_all add: grp_safe_def)
  note hd = h [unfolded grp_history_def] and dd = d [unfolded grp_disk_def]
  have "gc_shape g" "gc_order g lst" "gc_holds g e (drop n gss) cur" using hd by simp_all
  note k = gc_maybe_submit_keeps [OF this r]
  show ?thesis
  proof (cases res)
    case (Inl st)
    with k have i: "gc_shape g'" "gc_order g' lst" "gc_durable_lsn g' = gc_durable_lsn g" "gc_block_size g' = ?b" "gc_holds g' e (drop n gss) cur"
      "gc_queue g' = gc_queue g" and w': "w' = w \<or> (\<exists>req st. io_submit be w req = (st, w') \<and> \<not> is_ok st)" by simp_all
    have f: "live w' \<and> disk w' = disk w \<and> waiting w' \<subseteq> waiting w" using w' w submit_fail by blast
    have "grp_disk hdr (disk w') (waiting w') g' e gss n" using dd f i(4,6) unfolding grp_disk_def gc_flags_def good_for_def by auto
    moreover have "grp_history g' e lst gss cur n" using hd i by (simp add: grp_history_def)
    ultimately show ?thesis using f i o Inl by (simp add: grp_safe_def)
  next
    case (Inr m)
    show ?thesis
    proof (cases "m = 0")
      case True
      with k Inr w show ?thesis by simp
    next
      case False
      let ?gb = "group_image ?b e cur"
      from k Inr False have i: "gc_shape g'" "gc_order g' lst" "gc_durable_lsn g' = gc_durable_lsn g" "gc_block_size g' = ?b" "cur \<noteq> []"
        "gc_holds g' e (drop n gss @ [cur]) []" "m = length ?gb" and q: "\<exists>q. gc_queue g' = gc_queue g @ [q] \<and> \<not> ig_completed q \<and> ig_token q = lr_lsn (last cur)"
        and sub: "submitted be w off 0 (lr_lsn (last cur)) ?gb w'" by simp_all
      have v: "is_valid_block ?b" and cl: "gc_cur_len g \<le> kMaxGroupBytes" "gc_cur_len g = length (run_bytes e cur)"
        using hd by (simp_all add: gc_shape_def gc_holds_def)
      have mle: "m \<le> kMaxGroupBytes" using padded_len(2) [OF v cl(1)] length_group [OF v, of e cur] cl(2) i(7) by simp
      obtain kk c where f: "live w'" "kk \<le> length ?gb" "disk w' = file_write (disk w) (unat off) (take kk ?gb)" "waiting w' \<subseteq> insert c (waiting w)"
        "cp_token c = lr_lsn (last cur)" "cp_ok c \<longrightarrow> kk = length ?gb"
      proof -
        obtain req st where rq: "io_submit be w req = (st, w')" "is_ok st" "wr_offset req = off" "wr_file_idx req = 0" "wr_len req = length ?gb"
          "wr_token req = lr_lsn (last cur)" "take (length ?gb) (bs_bytes (wr_buf req)) = ?gb" using sub by (auto simp: submitted_def)
        have "unat (wr_offset req) < 2 ^ 63" "wr_len req \<le> kMaxGroupBytes" using room rq mle i(7) by simp_all
        from submit_ok [OF w rq(1,2,4) this] rq show thesis using that by auto
      qed
      let ?Q = "stored (disk w') ?b e (gss @ [cur])"
      have keep: "?Q j" if "j < length gss" "?P j" for j
        using stored_file_write [OF that(2,1)] hd that(1) o f(3) by (simp add: stored_snoc [OF that(1)])
      have new: "?Q (length gss)" if "cp_ok c"
        using file_write_at [of ?gb "unat off" "disk w"] f(3,6) that o by (simp add: stored_def group_at_def)
      have hdr: "take kSegmentHdrBytes (disk w') = hdr"
      proof -
        have "kSegmentHdrBytes \<le> unat off" using o by (simp add: group_at_def)
        moreover have "kSegmentHdrBytes \<le> length (disk w)" using dd by (metis length_take min.absorb_iff2 min.commute)
        ultimately show ?thesis using dd by (simp add: f(3) file_write_before)
      qed
      obtain q where q: "gc_queue g' = gc_queue g @ [q]" "\<not> ig_completed q" "ig_token q = lr_lsn (last cur)" using q by blast
      have lq: "length (gc_queue g) = length gss - n" "n \<le> length gss" using hd by (auto simp: gc_holds_def dest: list_all2_lengthD)
      have fl: "gc_flags g' n ?Q" using dd lq keep q(2) by (auto simp: gc_flags_def q(1) nth_append less_Suc_eq)
      have tok: "unat (lr_lsn (last cur)) = length (concat gss @ cur)"
        using lsn_run_unat [of "concat gss @ cur" lst] hd i(5) by simp
      have older: "ig_token (gc_queue g ! j) \<noteq> lr_lsn (last cur)" if "j < length (gc_queue g)" for j
        using order_tokens [of g lst "gc_queue g ! j"] hd i(5) that by (auto simp: gc_holds_def run_bytes_empty)
      have good: "good_for g' n ?Q x \<and> unat (cp_token x) \<le> length (concat (gss @ [cur]))" if x: "x \<in> waiting w'" for x
      proof (cases "x \<in> waiting w")
        case True
        then have g0: "good_for g n ?P x" and le: "unat (cp_token x) \<le> length (concat gss)" using dd by simp_all
        have "length (concat gss) < unat (lr_lsn (last cur))" using tok i(5) by simp
        with le have "cp_token x \<noteq> lr_lsn (last cur)" by auto
        then have "good_for g' n ?Q x" using g0 keep lq q(3) by (auto simp: good_for_def q(1) nth_append less_Suc_eq)
        with le show ?thesis by simp
      next
        case False
        with x f(4) have "x = c" by auto
        then have "good_for g' n ?Q x" using new older lq f(5) by (auto simp: good_for_def q(1) nth_append less_Suc_eq)
        with tok f(5) \<open>x = c\<close> show ?thesis by simp
      qed
      have "length (disk w') < 2 ^ 63"
      proof -
        have "unat off + length (take kk ?gb) < 2 ^ 63" using room mle i(7) by simp
        then show ?thesis using file_write_length [of "disk w" "unat off" "take kk ?gb"] dd by (auto simp: f(3))
      qed
      then have "grp_disk hdr (disk w') (waiting w') g' e (gss @ [cur]) n"
        using dd hdr fl good keep lq i(4) by (auto simp: grp_disk_def)
      moreover have "grp_history g' e lst (gss @ [cur]) [] n"
        using hd i lq(2) by (auto simp: grp_history_def nth_append)
      moreover have "unat (off + of_nat m) = group_at (gc_block_size g') e (gss @ [cur]) (length (gss @ [cur]))"
        using room mle o i(4,7) by (simp add: unat_word_ariths unat_of_nat take_bit_nat_eq_self group_at_def area_bytes_def kMaxGroupBytes_def)
      ultimately show ?thesis using f(1) i(3,4) Inr False mle by (simp add: grp_safe_def)
    qed
  qed
qed

text \<open>The same over the whole log: a history of appended records.\<close>

lemma push_safe:
  assumes w: "live w" and s: "wal_safe hdr (disk w) (waiting w) wl hist" and room: "unat (wl_seg_offset wl) + kMaxGroupBytes < 2 ^ 63"
    and r: "wl_push be wl w now force = (st, wl', w')"
  shows "live w' \<and> wal_safe hdr (disk w') (waiting w') wl' hist \<and> wl_grows wl wl'"
proof -
  obtain gss cur n where h: "hist = concat gss @ cur"
    and g: "grp_safe hdr (disk w) (waiting w) (wl_group wl) (sg_epoch (wl_segment wl)) (wl_last_lsn wl) (wl_seg_offset wl) gss cur n"
    using s by (auto simp: wal_safe_def)
  obtain res g' where m: "gc_maybe_submit be (wl_group wl) w now (wl_seg_offset wl) 0 force = (res, g', w')"
    using r by (auto simp: wl_push_def split: sum.splits prod.splits)
  note k = submit_safe [OF w g room m]
  show ?thesis
  proof (cases res)
    case (Inl st')
    with r m have "wl' = wl\<lparr>wl_group := g', wl_halted := True\<rparr>" by (simp add: wl_push_def)
    with k Inl h show ?thesis by (auto simp: wal_safe_def wl_grows_def wl_durable_lsn_def)
  next
    case (Inr x)
    with r m have wl': "wl' = wl\<lparr>wl_group := g', wl_seg_offset := (if 0 < x then wl_seg_offset wl + of_nat x else wl_seg_offset wl)\<rparr>"
      by (simp add: wl_push_def)
    show ?thesis
    proof (cases "x = 0")
      case True
      with k Inr s w wl' show ?thesis by (auto simp: wal_safe_def wl_grows_def wl_durable_lsn_def)
    next
      case False
      with k Inr have x: "x \<le> kMaxGroupBytes" "live w'" "gc_durable_lsn g' = gc_durable_lsn (wl_group wl)"
        "gc_block_size g' = gc_block_size (wl_group wl)"
        and g': "grp_safe hdr (disk w') (waiting w') g' (sg_epoch (wl_segment wl)) (wl_last_lsn wl) (wl_seg_offset wl + of_nat x) (gss @ [cur]) [] n" by simp_all
      have "wal_safe hdr (disk w') (waiting w') wl' hist" unfolding wal_safe_def using g' False
        by (intro exI [of _ "gss @ [cur]"] exI [of _ "[]"] exI [of _ n]) (simp add: h wl')
      moreover have "unat (wl_seg_offset wl + of_nat x) \<le> unat (wl_seg_offset wl) + kMaxGroupBytes"
        using room x(1) by (simp add: unat_word_ariths unat_of_nat take_bit_nat_eq_self kMaxGroupBytes_def)
      ultimately show ?thesis using x by (simp add: wl_grows_def wl_durable_lsn_def wl')
    qed
  qed
qed

lemma wl_reap_safe:
  assumes w: "live w" and s: "wal_safe hdr (disk w) (waiting w) wl hist" and r: "wl_reap be wl w = (st, wl', w')"
  shows "live w' \<and> wal_safe hdr (disk w') (waiting w') wl' hist \<and> wl_grows wl wl'"
proof (cases "wl_stuck wl")
  case True
  with r w s show ?thesis by (simp add: wl_reap_def wl_grows_def wl_durable_lsn_def)
next
  case False
  obtain gss cur n where h: "hist = concat gss @ cur"
    and g: "grp_safe hdr (disk w) (waiting w) (wl_group wl) (sg_epoch (wl_segment wl)) (wl_last_lsn wl) (wl_seg_offset wl) gss cur n"
    using s by (auto simp: wal_safe_def)
  obtain st' g' where m: "gc_reap be (wl_group wl) w = (st', g', w')" using r False by (auto simp: wl_reap_def Let_def split: prod.splits if_splits)
  with r False have wl': "wl' = wl\<lparr>wl_group := g'\<rparr> \<or> wl' = wl\<lparr>wl_group := g', wl_halted := True\<rparr>" by (auto simp: wl_reap_def Let_def split: if_splits)
  from reap_safe [OF w g m] obtain m where "live w'" "gc_durable_lsn (wl_group wl) \<le> gc_durable_lsn g'" "gc_block_size g' = gc_block_size (wl_group wl)"
    "grp_safe hdr (disk w') (waiting w') g' (sg_epoch (wl_segment wl)) (wl_last_lsn wl) (wl_seg_offset wl) gss cur m" by blast
  with wl' h show ?thesis by (auto simp: wl_grows_def wl_durable_lsn_def intro!: wal_safeI)
qed

lemma wl_append_safe:
  assumes w: "live w" and s: "wal_safe hdr (disk w) (waiting w) wl hist" and room: "unat (wl_seg_offset wl) + kMaxGroupBytes < 2 ^ 63"
    and l: "unat (wl_last_lsn wl) + 1 < 2 ^ 64" and r: "wl_append be wl w tmpl p ts = (res, wl', w')"
  shows "live w' \<and> wl_grows wl wl' \<and> (case res of
      Inl st \<Rightarrow> wal_safe hdr (disk w') (waiting w') wl' hist
    | Inr a \<Rightarrow> wal_safe hdr (disk w') (waiting w') wl' (hist @ [\<lparr>lr_lsn = ap_lsn a, lr_ts_ns = ts, lr_tmpl = tmpl, lr_bytes = bs_bytes p\<rparr>]))"
proof (cases "wl_stuck wl")
  case True
  with r w s show ?thesis by (auto simp: wl_append_def wl_grows_def wl_durable_lsn_def)
next
  case False
  let ?e = "sg_epoch (wl_segment wl)" and ?n = "lsn_next (wl_last_lsn wl)"
  let ?r = "\<lparr>lr_lsn = ?n, lr_ts_ns = ts, lr_tmpl = tmpl, lr_bytes = bs_bytes p\<rparr>"
  obtain gss cur n where h: "hist = concat gss @ cur"
    and g: "grp_safe hdr (disk w) (waiting w) (wl_group wl) ?e (wl_last_lsn wl) (wl_seg_offset wl) gss cur n" using s by (auto simp: wal_safe_def)
  have nx: "unat ?n = unat (wl_last_lsn wl) + 1" using lsn_next_mono [OF l] by simp
  obtain r1 g1 where a1: "gc_append (wl_group wl) tmpl p ts ?e ?n = (r1, g1)" by fastforce
  show ?thesis
  proof (cases r1)
    case (Inr a)
    note k = append_safe [OF g a1 [unfolded Inr] l]
    have "res = Inr a" "w' = w" "wl' = wl\<lparr>wl_group := g1, wl_last_lsn := ?n\<rparr>" using r False a1 Inr by (simp_all add: wl_append_def Let_def)
    moreover have "wal_safe hdr (disk w) (waiting w) (wl\<lparr>wl_group := g1, wl_last_lsn := ?n\<rparr>) (hist @ [?r])"
      unfolding wal_safe_def using k by (intro exI [of _ gss] exI [of _ "cur @ [?r]"] exI [of _ n]) (simp add: h)
    ultimately show ?thesis using k w nx by (simp add: wl_grows_def wl_durable_lsn_def)
  next
    case (Inl st1)
    have g1: "g1 = wl_group wl" using gc_append_fail a1 Inl by blast
    obtain r2 g2 w2 where m: "gc_maybe_submit be (wl_group wl) w ts (wl_seg_offset wl) 0 True = (r2, g2, w2)" by (metis prod_cases3)
    note k = submit_safe [OF w g room m]
    show ?thesis
    proof (cases "code st1 = WalFull \<and> (\<exists>x. r2 = Inr x \<and> x \<noteq> 0)")
      case False2: False
      have "(res, wl', w') = (Inl st1, wl, w) \<or> code st1 = WalFull \<and> (\<exists>st. (res, wl', w') = (Inl st, wl\<lparr>wl_group := g2\<rparr>, w2))"
        using r False a1 Inl g1 m False2 by (auto simp: wl_append_def Let_def split: if_splits sum.splits)
      then show ?thesis
      proof
        assume "(res, wl', w') = (Inl st1, wl, w)"
        with w s show ?thesis by (simp add: wl_grows_def wl_durable_lsn_def)
      next
        assume "code st1 = WalFull \<and> (\<exists>st. (res, wl', w') = (Inl st, wl\<lparr>wl_group := g2\<rparr>, w2))"
        moreover have "live w2 \<and> gc_durable_lsn g2 = gc_durable_lsn (wl_group wl) \<and> gc_block_size g2 = gc_block_size (wl_group wl) \<and> grp_safe hdr (disk w2) (waiting w2) g2 ?e (wl_last_lsn wl) (wl_seg_offset wl) gss cur n"
          if "code st1 = WalFull" using k g w False2 that by (cases r2) auto
        ultimately show ?thesis using h by (auto simp: wl_grows_def wl_durable_lsn_def intro!: wal_safeI) blast
      qed
    next
      case True
      then obtain x where x: "r2 = Inr x" "x \<noteq> 0" and full: "code st1 = WalFull" by blast
      let ?off = "wl_seg_offset wl + of_nat x"
      from k x have k2: "live w2" "gc_durable_lsn g2 = gc_durable_lsn (wl_group wl)" "x \<le> kMaxGroupBytes"
        "grp_safe hdr (disk w2) (waiting w2) g2 ?e (wl_last_lsn wl) ?off (gss @ [cur]) [] n" "gc_block_size g2 = gc_block_size (wl_group wl)" by simp_all
      have off: "unat ?off \<le> unat (wl_seg_offset wl) + kMaxGroupBytes"
        using room k2(3) by (simp add: unat_word_ariths unat_of_nat take_bit_nat_eq_self kMaxGroupBytes_def)
      obtain r3 g3 where a3: "gc_append g2 tmpl p ts ?e ?n = (r3, g3)" by fastforce
      show ?thesis
      proof (cases r3)
        case (Inr a)
        note k3 = append_safe [OF k2(4) a3 [unfolded Inr] l]
        have res: "res = Inr a" "w' = w2" "wl' = wl\<lparr>wl_seg_offset := ?off, wl_group := g3, wl_last_lsn := ?n\<rparr>"
          using r False a1 Inl g1 m x full a3 Inr by (simp_all add: wl_append_def Let_def)
        moreover have "wal_safe hdr (disk w2) (waiting w2) (wl\<lparr>wl_seg_offset := ?off, wl_group := g3, wl_last_lsn := ?n\<rparr>) (hist @ [?r])"
          unfolding wal_safe_def using k3 by (intro exI [of _ "gss @ [cur]"] exI [of _ "[?r]"] exI [of _ n]) (simp add: h)
        ultimately show ?thesis using k3 k2 nx off by (simp add: wl_grows_def wl_durable_lsn_def)
      next
        case (Inl st3)
        then have "g3 = g2" using gc_append_fail a3 by blast
        then have res: "res = Inl (fail WalFull 0)" "w' = w2" "wl' = wl\<lparr>wl_seg_offset := ?off, wl_group := g2\<rparr>"
          using r False a1 \<open>r1 = Inl st1\<close> g1 m x full a3 Inl by (simp_all add: wl_append_def Let_def)
        moreover have "wal_safe hdr (disk w2) (waiting w2) (wl\<lparr>wl_seg_offset := ?off, wl_group := g2\<rparr>) hist"
          unfolding wal_safe_def using k2 by (intro exI [of _ "gss @ [cur]"] exI [of _ "[]"] exI [of _ n]) (simp add: h)
        ultimately show ?thesis using k2 off by (simp add: wl_grows_def wl_durable_lsn_def)
      qed
    qed
  qed
qed

lemma step_safe:
  assumes w: "live w" and s: "wal_safe hdr (disk w) (waiting w) wl hist" and room: "unat (wl_seg_offset wl) + kMaxGroupBytes < 2 ^ 63"
    and l: "unat (wl_last_lsn wl) + 1 < 2 ^ 64" and r: "wal_step be x (wl, w, hist) = (wl', w', hist')"
  shows "live w' \<and> wal_safe hdr (disk w') (waiting w') wl' hist' \<and> wl_grows wl wl'"
proof (cases x)
  case (OpAppend tmpl p ts)
  obtain res where a: "wl_append be wl w tmpl p ts = (res, wl', w')" using r OpAppend by (auto split: sum.splits prod.splits)
  show ?thesis using wl_append_safe [OF w s room l a] r a OpAppend by (cases res) auto
next
  case (OpSubmit now)
  then obtain st where "wl_maybe_submit be wl w now = (st, wl', w')" and "hist' = hist" using r by (auto split: prod.splits)
  then show ?thesis using push_safe [OF w s room, of now False] w s by (auto simp: wl_maybe_submit_def wl_grows_def wl_durable_lsn_def split: if_splits)
next
  case OpReap
  then obtain st where "wl_reap be wl w = (st, wl', w')" and "hist' = hist" using r by (auto split: prod.splits)
  then show ?thesis using wl_reap_safe [OF w s] by blast
next
  case (OpForce now)
  then obtain st where f: "wl_force_commit be wl w now = (st, wl', w')" and h: "hist' = hist" using r by (auto split: prod.splits)
  show ?thesis
  proof (cases "wl_stuck wl")
    case True
    with f h w s show ?thesis by (simp add: wl_force_commit_def wl_grows_def wl_durable_lsn_def)
  next
    case False
    obtain st1 wl1 w1 where p: "wl_push be wl w now True = (st1, wl1, w1)" by (metis prod_cases3)
    note k = push_safe [OF w s room p]
    show ?thesis
    proof (cases "is_ok st1")
      case False2: False
      then have "wl' = wl1" "w' = w1" using f False p by (simp_all add: wl_force_commit_def)
      with k h show ?thesis by simp
    next
      case True
      then have rp: "wl_reap be wl1 w1 = (st, wl', w')" using f False p by (simp add: wl_force_commit_def)
      have k2: "live w' \<and> wal_safe hdr (disk w') (waiting w') wl' hist" "wl_grows wl1 wl'" using wl_reap_safe [OF _ _ rp] k by blast+
      have "wl_seg_offset wl' = wl_seg_offset wl1 \<and> wl_last_lsn wl' = wl_last_lsn wl1"
        using rp by (auto simp: wl_reap_def Let_def split: if_splits prod.splits)
      then show ?thesis using k k2 h by (auto simp: wl_grows_def)
    qed
  qed
qed

lemma run_safe:
  assumes "live w" and "wal_safe hdr (disk w) (waiting w) wl hist"
    and "unat (wl_seg_offset wl) + kMaxGroupBytes * (length ops + 1) < 2 ^ 63" and "unat (wl_last_lsn wl) + length ops + 1 < 2 ^ 64"
    and "wal_run be ops (wl, w, hist) = (wl', w', hist')"
  shows "live w' \<and> wal_safe hdr (disk w') (waiting w') wl' hist' \<and> wl_segment wl' = wl_segment wl
    \<and> gc_block_size (wl_group wl') = gc_block_size (wl_group wl) \<and> wl_durable_lsn wl \<le> wl_durable_lsn wl'"
  using assms
proof (induction ops arbitrary: wl w hist)
  case (Cons x ops)
  obtain wl1 w1 h1 where x: "wal_step be x (wl, w, hist) = (wl1, w1, h1)" by (metis prod_cases3)
  have "live w1 \<and> wal_safe hdr (disk w1) (waiting w1) wl1 h1 \<and> wl_grows wl wl1"
    using Cons.prems by (intro step_safe [OF _ _ _ _ x]) auto
  then have k: "live w1" "wal_safe hdr (disk w1) (waiting w1) wl1 h1" and gr: "wl_segment wl1 = wl_segment wl \<and> gc_block_size (wl_group wl1) = gc_block_size (wl_group wl)" "wl_durable_lsn wl \<le> wl_durable_lsn wl1"
    "unat (wl_seg_offset wl1) \<le> unat (wl_seg_offset wl) + kMaxGroupBytes" "unat (wl_last_lsn wl1) \<le> unat (wl_last_lsn wl) + 1"
    by (simp_all add: wl_grows_def)
  have "live w' \<and> wal_safe hdr (disk w') (waiting w') wl' hist' \<and> wl_segment wl' = wl_segment wl1
      \<and> gc_block_size (wl_group wl') = gc_block_size (wl_group wl1) \<and> wl_durable_lsn wl1 \<le> wl_durable_lsn wl'"
    using Cons.prems gr(3,4) x by (intro Cons.IH [OF k]) (auto simp: wal_run_def algebra_simps)
  then show ?case using gr(1,2) by auto
qed (simp add: wal_run_def)

end

section \<open>Reading back\<close>

lemma durable_part:
  assumes "grp_history g e lst gss cur n"
  shows "unat (gc_durable_lsn g) = length (concat (take n gss))"
proof (cases "n = 0")
  case True
  with assms show ?thesis by (simp add: grp_history_def)
next
  case False
  note hd = assms [unfolded grp_history_def]
  have split: "concat gss @ cur = concat (take n gss) @ concat (drop n gss) @ cur" by (metis append_assoc append_take_drop_id concat_append)
  have ne: "concat (take n gss) \<noteq> []" and lst: "last (concat (take n gss)) = last (gss ! (n - 1))"
  proof -
    have t: "take n gss = take (n - 1) gss @ [gss ! (n - 1)]" using False hd take_Suc_conv_app_nth [of "n - 1" gss] by auto
    have "gss ! (n - 1) \<in> set gss" using False hd by auto
    then have "gss ! (n - 1) \<noteq> []" using hd by auto
    then show "concat (take n gss) \<noteq> []" "last (concat (take n gss)) = last (gss ! (n - 1))" by (simp_all add: t)
  qed
  have run: "lsn_run 1 (concat (take n gss))" using hd by (simp add: split lsn_run_append)
  have le: "length (concat (take n gss)) < 2 ^ 64"
    using hd unsigned_less [of lst, where 'a = nat] arg_cong [OF split, of length] by simp
  have "lr_lsn (last (concat (take n gss))) + 1 = 1 + of_nat (length (concat (take n gss)))" using lsn_run_last [OF ne run] .
  then have "lr_lsn (last (gss ! (n - 1))) = of_nat (length (concat (take n gss)))" by (simp add: lst add.commute)
  with hd False le show ?thesis by (simp add: unat_of_nat take_bit_nat_eq_self)
qed

lemma safe_bound: "wal_safe hdr f W wl hist \<Longrightarrow> unat (wl_durable_lsn wl) \<le> length hist"
proof -
  assume "wal_safe hdr f W wl hist"
  then obtain gss cur n where h: "hist = concat gss @ cur" and g: "grp_history (wl_group wl) (sg_epoch (wl_segment wl)) (wl_last_lsn wl) gss cur n"
    by (auto simp: wal_safe_def grp_safe_def)
  have "concat gss = concat (take n gss) @ concat (drop n gss)" by (metis append_take_drop_id concat_append)
  then show ?thesis using durable_part [OF g] by (simp add: wl_durable_lsn_def h)
qed

text \<open>
  A reader of the file gets every durable record, unchanged and in order, before anything else; there
  are as many as the durable position says.
\<close>

lemma safe_reads:
  assumes s: "wal_safe (header_block (segment_header part 1 e cap blk src)) f W wl hist" and e: "sg_epoch (wl_segment wl) = e"
    and b: "gc_block_size (wl_group wl) = blk"
  shows "\<exists>sr evs sr' more. sr_open sr_new \<lparr>bs_addr = a, bs_bytes = f\<rparr> 1 = (kOk, sr) \<and> reads sr evs sr'
    \<and> map ev_record evs = take (unat (wl_durable_lsn wl)) hist @ more"
proof -
  let ?h = "header_block (segment_header part 1 e cap blk src)"
  obtain gss cur n where h: "hist = concat gss @ cur" and g: "grp_history (wl_group wl) e (wl_last_lsn wl) gss cur n"
    and d: "grp_disk ?h f W (wl_group wl) e gss n" using s e by (auto simp: wal_safe_def grp_safe_def)
  note hd = g [unfolded grp_history_def] and dd = d [unfolded grp_disk_def]
  have v: "is_valid_block blk" using hd b by (simp add: gc_shape_def)
  define z where "z = drop (group_at blk e gss n) f"
  have "take (group_at blk e gss n) f = ?h @ area_bytes blk e (take n gss)"
    using dd hd b by (intro stored_area) simp_all
  then have f: "f = ?h @ area_bytes blk e (take n gss) @ z" unfolding z_def by (metis append_assoc append_take_drop_id)
  obtain sr where sr: "sr_open sr_new \<lparr>bs_addr = a, bs_bytes = f\<rparr> 1 = (kOk, sr)" and o: "bs_bytes (sr_mapped sr) = f" "sr_offset sr = kSegmentHdrBytes"
    "sr_block_size sr = blk" "sr_epoch sr = e" "sr_expected_lsn sr = 1"
    using open_own_segment [OF v, of 1 1 sr_new a part e cap src "area_bytes blk e (take n gss) @ z"] f by auto
  have dv: "unat blk dvd kSegmentHdrBytes" using block_dvd_header [OF v] .
  have split: "concat gss @ cur = concat (take n gss) @ concat (drop n gss) @ cur" by (metis append_assoc append_take_drop_id concat_append)
  have run: "lsn_run 1 (concat (take n gss))" using hd by (simp add: split lsn_run_append)
  have "\<exists>sr' ms evs. reads sr evs sr' \<and> map ev_record evs = concat (take n gss) @ ms"
  proof (rule reads_groups_prefix [where pre = ?h and e = e and z = z and l = 1])
    show "sr_ok sr" using v dd o by (simp add: sr_ok_def)
    show "bs_bytes (sr_mapped sr) = ?h @ area_bytes (sr_block_size sr) e (take n gss) @ z" using f o by simp
    show "\<forall>g\<in>set (take n gss). g \<noteq> []" using hd by (auto dest: in_set_takeD)
    show "\<forall>r\<in>set (concat (take n gss)). length (lr_bytes r) \<le> kMaxPayload" using hd by (auto dest: in_set_takeD)
  qed (use o dv run in \<open>simp_all add: kSegmentHdrBytes_def\<close>)
  moreover have "take (unat (wl_durable_lsn wl)) hist = concat (take n gss)"
    using durable_part [OF g] by (simp only: wl_durable_lsn_def h split) simp
  ultimately show ?thesis using sr by auto
qed

end
