(* ===== verification/RV_Wal_Disk.thy ===== *)
theory RV_Wal_Disk
  imports RV_Wal_Laws
begin

text \<open>
  The synchronous backend over a file.  The locale \<open>pwrite_file\<close> states what the manual page of
  \<^verbatim>\<open>pwrite\<close> promises of one descriptor: it fails and writes nothing, or it writes a prefix of the
  bytes at the offset and returns its length.  From that the backend is stable.  \<open>mem_pwrite\<close> is a file
  in memory with a plan of faults, an instance.
\<close>

section \<open>One descriptor\<close>

definition pwrite_law :: "'f pwrite_call \<Rightarrow> int \<Rightarrow> ('f \<Rightarrow> u8 list) \<Rightarrow> bool" where
  "pwrite_law pwrite fd disk \<longleftrightarrow> (\<forall>fs bs off r fs'. 0 \<le> off \<longrightarrow> pwrite fs fd bs off = (r, fs') \<longrightarrow>
     (if r < 0 then disk fs' = disk fs else r \<le> int (length bs) \<and> disk fs' = file_write (disk fs) (nat off) (take (nat r) bs)))"

locale pwrite_file =
  fixes pwrite :: "'f pwrite_call" and fd :: int and disk :: "'f \<Rightarrow> u8 list"
  assumes law: "pwrite_law pwrite fd disk"
begin

lemma submit_effect:
  assumes l: "pb_live b" "pb_fds b = [fd]" and s: "pb_submit pwrite b req = (st, b')" and o: "is_ok st"
    and r: "wr_file_idx req = 0" "unat (wr_offset req) < 2 ^ 63" "wr_len req \<le> kMaxGroupBytes"
  shows "pb_live b' \<and> pb_fds b' = [fd] \<and> (\<exists>k\<le>wr_len req. \<exists>c.
      disk (pb_fs b') = file_write (disk (pb_fs b)) (unat (wr_offset req)) (take k (take (wr_len req) (bs_bytes (wr_buf req))))
      \<and> set (pb_waiting b') \<subseteq> insert c (set (pb_waiting b)) \<and> cp_token c = wr_token req \<and> (cp_ok c \<longrightarrow> k = wr_len req))"
proof -
  let ?bs = "take (wr_len req) (bs_bytes (wr_buf req))" and ?off = "cast_i64 (uint (wr_offset req))"
  have off: "?off = int (unat (wr_offset req))"
  proof -
    have "0 \<le> uint (wr_offset req)" "uint (wr_offset req) < 9223372036854775808" 
    proof -
      have "int (unat (wr_offset req)) = uint (wr_offset req)" by simp
      moreover have "unat (wr_offset req) < 9223372036854775808" using r(2) by simp
      ultimately show "0 \<le> uint (wr_offset req)" "uint (wr_offset req) < 9223372036854775808" by linarith+
    qed
    then have "in_i64 (uint (wr_offset req))" unfolding i64_bounds by linarith
    then show ?thesis by (simp add: cast_i64_id)
  qed
  obtain n fs where p: "pwrite (pb_fs b) fd ?bs ?off = (n, fs)" by fastforce
  define c where "c = \<lparr>cp_token = wr_token req, cp_res = (if n < 0 then n else cast_i32 n), cp_expected = wr_len req\<rparr>"
  have lt: "pb_count b < kMaxInflight" and b': "pb_fs b' = fs" "pb_fds b' = [fd]" "pb_head b' = pb_head b" "pb_count b' = pb_count b + 1"
      "pb_ring b' = (pb_ring b)[(pb_head b + pb_count b) mod kMaxInflight := c]"
    using s o l(2) r(1) p by (auto simp: pb_submit_def Let_def is_ok_def fail_def not_le c_def split: if_splits prod.splits)
  have w: "pb_waiting b' = pb_waiting b @ [c]" using ring_push [OF _ lt, of "pb_ring b"] l(1) by (simp add: b' pb_waiting_def pb_live_def)
  have lv: "pb_live b'" using l(1) lt by (simp add: b' pb_live_def)
  have eff: "if n < 0 then disk fs = disk (pb_fs b) else n \<le> int (length ?bs) \<and> disk fs = file_write (disk (pb_fs b)) (unat (wr_offset req)) (take (nat n) ?bs)"
    using law p off unfolding pwrite_law_def by (metis nat_int of_nat_0_le_iff)
  define k where "k = (if n < 0 then 0 else nat n)"
  have len: "length ?bs \<le> wr_len req" by simp
  have "k \<le> wr_len req" using eff len by (auto simp: k_def split: if_splits)
  moreover have "disk (pb_fs b') = file_write (disk (pb_fs b)) (unat (wr_offset req)) (take k ?bs)"
    using eff by (auto simp: k_def b' file_write_def split: if_splits)
  moreover have "cp_ok c \<longrightarrow> k = wr_len req"
  proof -
    have "0 \<le> n \<Longrightarrow> cast_i32 n = n" using eff len r(3) by (intro cast_i32_id) (auto simp: kMaxGroupBytes_def split: if_splits)
    then show ?thesis by (auto simp: cp_ok_def c_def k_def)
  qed
  ultimately show ?thesis using lv b'(2) w by (intro conjI exI [of _ k] exI [of _ c]) (auto simp: c_def)
qed

end

sublocale pwrite_file \<subseteq> sb: stable_backend "pwrite_ops pwrite" "\<lambda>b. pb_live b \<and> pb_fds b = [fd]" "\<lambda>b. disk (pb_fs b)" "\<lambda>b. set (pb_waiting b)"
proof (unfold_locales, goal_cases)
  case (1 w req st w')
  then show ?case using submit_effect [of w req st w'] by (simp add: pwrite_ops_def)
next
  case (2 w req st w')
  then show ?case using submit_waiting [of w pwrite req st w'] by (auto simp: pwrite_ops_def split: if_splits)
next
  case (3 w n cs w')
  then have r: "pb_live w'" "mset (pb_waiting w) = mset cs + mset (pb_waiting w')" "pb_fs w' = pb_fs w"
    using reap_loop_waiting [of w n cs w'] by (simp_all add: pwrite_ops_def pb_reap_def)
  have "pb_fds w' = pb_fds w" using 3 reap_loop_fds [of n w cs w'] by (simp add: pwrite_ops_def pb_reap_def)
  moreover have "set (pb_waiting w) = set cs \<union> set (pb_waiting w')" using arg_cong [OF r(2), of set_mset] by simp
  ultimately show ?case using r 3 by simp
qed

context pwrite_file
begin

lemmas run_keeps = sb.run_safe

end

section \<open>A file in memory\<close>

text \<open>Each entry of the plan is the fate of one call: an error, or the most bytes it writes.\<close>

type_synonym MemFile = "nat option list \<times> u8 list"

definition mem_pwrite :: "MemFile pwrite_call" where
  "mem_pwrite fs fd bs off =
     (case fs of
        ([], f) \<Rightarrow> (int (length bs), [], file_write f (nat off) bs)
      | (None # plan, f) \<Rightarrow> (-5, plan, f)
      | (Some k # plan, f) \<Rightarrow> (int (min k (length bs)), plan, file_write f (nat off) (take k bs)))"

lemma mem_pwrite_law: "pwrite_law mem_pwrite fd snd"
  by (auto simp: pwrite_law_def mem_pwrite_def min_def split: prod.splits list.splits option.splits)

interpretation mem_file: pwrite_file mem_pwrite fd snd for fd
  by unfold_locales (rule mem_pwrite_law)

section \<open>Opening a new log\<close>

lemma wl_open_new:
  assumes o: "wl_open be sys epoch memalign opts None wl_new w0 = (kOk, wl, w)" and m: "\<forall>i a. memalign i = Some a \<longrightarrow> 8 dvd a"
  shows "wl_last_lsn wl = 0 \<and> unat (wl_seg_offset wl) = kSegmentHdrBytes \<and> sg_epoch (wl_segment wl) = epoch
    \<and> gc_block_size (wl_group wl) = (if is_valid_block (wo_block_size opts) then wo_block_size opts else kFallbackBlock)
    \<and> (\<forall>e l. gc_shape (wl_group wl) \<and> gc_order (wl_group wl) l \<and> gc_holds (wl_group wl) e [] [] \<and> gc_queue (wl_group wl) = [] \<and> gc_durable_lsn (wl_group wl) = 0)"
proof -
  define block where "block = (if is_valid_block (wo_block_size opts) then wo_block_size opts else kFallbackBlock)"
  have v: "is_valid_block block" by (simp add: block_def is_valid_block_def kFallbackBlock_def kMinBlock_def kMaxBlock_def)
  obtain sg1 w1 where c: "sg_close sys sg_new w0 = (sg1, w1)" by fastforce
  obtain st sg w2 where oc: "open_create sys (wo_dir opts) (wo_partition opts) 1 epoch (wo_segment_bytes opts) block BsFallback (wo_direct opts) sg1 w1 = (st, sg, w2)"
    by (metis prod_cases3)
  obtain st_f w3 where rf: "io_register_files be w2 [sg_fd sg] = (st_f, w3)" by fastforce
  obtain st_g w4 g where gi: "gc_init be memalign w3 block (wo_window_ns opts) (gc_shutdown gc_new) = (st_g, w4, g)" by (metis prod_cases3)
  have ok: "is_ok st" "is_ok st_f" "is_ok st_g" and wl: "wl_group wl = g" "wl_segment wl = sg" "wl_last_lsn wl = 0" "wl_seg_offset wl = of_nat kSegmentHdrBytes"
    using o c oc rf gi
    by (auto simp: wl_open_def wl_close_def wl_new_def wl_create_def Let_def block_def [symmetric] is_ok_def kOk_def split: prod.splits if_splits)
  have "sg_epoch sg = epoch"
    using oc ok(1) by (auto simp: open_create_def Let_def is_ok_def fail_def split: prod.splits if_splits)
  moreover have "st_g = kOk" using gi ok(3) by (auto simp: gc_init_def Let_def is_ok_def fail_def split: option.splits prod.splits if_splits)
  moreover have "length (gc_inflight (gc_shutdown gc_new)) = kMaxInflight" by (simp add: gc_shutdown_def gc_new_def)
  ultimately have gi': "gc_init be memalign w3 block (wo_window_ns opts) (gc_shutdown gc_new) = (kOk, w4, g)"
    and len: "length (gc_inflight (gc_shutdown gc_new)) = kMaxInflight" and ep: "sg_epoch sg = epoch" using gi by simp_all
  have "gc_shape g \<and> gc_order g l \<and> gc_holds g e [] [] \<and> gc_queue g = [] \<and> gc_durable_lsn g = 0 \<and> gc_block_size g = block \<and> \<not> gc_halted g" for e l
    by (rule gc_init_starts [OF gi' v len]) (simp add: m)
  with ep wl show ?thesis by (simp add: block_def kSegmentHdrBytes_def)
qed

lemma new_log_safe:
  assumes o: "wl_open be sys epoch memalign opts None wl_new w0 = (kOk, wl, w)" and m: "\<forall>i a. memalign i = Some a \<longrightarrow> 8 dvd a"
    and f: "take kSegmentHdrBytes f = hdr" "length hdr = kSegmentHdrBytes" "length f < 2 ^ 63"
  shows "wal_safe hdr f {} wl []"
proof -
  note k = wl_open_new [OF o m]
  have "grp_history (wl_group wl) e 0 [] [] 0" for e using k by (simp add: grp_history_def)
  moreover have "grp_disk hdr f {} (wl_group wl) e [] 0" for e using k f by (simp add: grp_disk_def gc_flags_def)
  ultimately show ?thesis using k unfolding wal_safe_def
    by (intro exI [of _ "[]"] exI [of _ 0]) (simp add: grp_safe_def group_at_def area_bytes_def)
qed

lemma new_log_run:
  assumes "pwrite_law pwrite (sg_fd (wl_segment wl)) disk"
    and "wl_open (pwrite_ops pwrite) sys epoch memalign opts None wl_new w0 = (kOk, wl, w)" and "\<forall>i a. memalign i = Some a \<longrightarrow> 8 dvd a"
    and "pb_live w" and "pb_fds w = [sg_fd (wl_segment wl)]" and "pb_waiting w = []"
    and "take kSegmentHdrBytes (disk (pb_fs w)) = header_block (segment_header part 1 epoch cap (gc_block_size (wl_group wl)) src)"
    and "length (disk (pb_fs w)) < 2 ^ 63" and "length ops < 2 ^ 46"
    and "wal_run (pwrite_ops pwrite) ops (wl, w, []) = (wl', w', hist)"
  shows "wal_safe (header_block (segment_header part 1 epoch cap (gc_block_size (wl_group wl)) src)) (disk (pb_fs w')) (set (pb_waiting w')) wl' hist"
    and "sg_epoch (wl_segment wl') = epoch" and "gc_block_size (wl_group wl') = gc_block_size (wl_group wl)"
proof -
  let ?hdr = "header_block (segment_header part 1 epoch cap (gc_block_size (wl_group wl)) src)"
  have f: "pwrite_file pwrite (sg_fd (wl_segment wl)) disk" using assms(1) by (rule pwrite_file.intro)
  have k: "wl_last_lsn wl = 0" "unat (wl_seg_offset wl) = kSegmentHdrBytes" "sg_epoch (wl_segment wl) = epoch"
    using wl_open_new [OF assms(2,3)] by blast+
  have s: "wal_safe ?hdr (disk (pb_fs w)) {} wl []" using assms(7,8) by (intro new_log_safe [OF assms(2,3)]) simp_all
  have room: "unat (wl_seg_offset wl) + kMaxGroupBytes * (length ops + 1) < 2 ^ 63" "unat (wl_last_lsn wl) + length ops + 1 < 2 ^ 64"
    using assms(9) k by (simp_all add: kMaxGroupBytes_def kSegmentHdrBytes_def)
  have r: "wal_safe ?hdr (disk (pb_fs w')) (set (pb_waiting w')) wl' hist \<and> wl_segment wl' = wl_segment wl \<and> gc_block_size (wl_group wl') = gc_block_size (wl_group wl)"
    using pwrite_file.run_keeps [OF f _ _ room assms(10), of ?hdr] s assms(4-6) by simp
  then show "wal_safe ?hdr (disk (pb_fs w')) (set (pb_waiting w')) wl' hist" "sg_epoch (wl_segment wl') = epoch"
    "gc_block_size (wl_group wl') = gc_block_size (wl_group wl)" using k(3) by simp_all
qed

text \<open>An accepted snapshot left the whole image in the file it opened, before closing it.\<close>

lemma snapshot_written:
  assumes "wl_snapshot sys save st at wl w = (r, w')" and "is_ok r"
    and "\<And>path flags fd w1. sc_open sys w path flags = (fd, w1) \<Longrightarrow> 0 \<le> fd \<Longrightarrow> pwrite_law (sc_pwrite sys) fd (disk fd) \<and> disk fd w1 = []"
  shows "\<exists>fd r' img w2. save st = (r', img) \<and> is_ok r' \<and> 0 \<le> fd \<and> disk fd w2 = img \<and> w' = sc_close sys w2 fd"
proof -
  let ?path = "snapshot_path (wo_dir (wl_opts wl)) (wo_partition (wl_opts wl)) at"
  obtain st_save img where sv: "save st = (st_save, img)" by fastforce
  obtain fd w1 where op: "sc_open sys w ?path (O_RDWR OR O_CREAT OR O_TRUNC OR O_CLOEXEC) = (fd, w1)" by fastforce
  obtain n w2 where pw: "sc_pwrite sys w1 fd img 0 = (n, w2)" by fastforce
  have c: "is_ok st_save" "0 \<le> fd" "n = int (length img)" "w' = sc_close sys w2 fd"
    using assms(1,2) sv op pw by (auto simp: wl_snapshot_def Let_def is_ok_def split: if_splits)
  have "disk fd w2 = file_write (disk fd w1) 0 img"
    using assms(3) [OF op c(2)] pw c(3) unfolding pwrite_law_def by fastforce
  then have "disk fd w2 = img" using assms(3) [OF op c(2)] by (simp add: file_write_def split: if_splits)
  with sv c(1,2,4) show ?thesis by blast
qed

end
