(* ===== verification/RV_Wal_Journal.thy ===== *)
theory RV_Wal_Journal
  imports RV_Wal_Laws RV_Partition
begin

text \<open>
  The write-ahead log as the \<^verbatim>\<open>Journal\<close> of the partition loop, over any backend: an append
  adds one record under the next position, the durable position never decreases and never passes the last.
\<close>

section \<open>A journal\<close>

text \<open>The log with its world and the records appended to it.\<close>

type_synonym 'w WalWorld = "Wal \<times> 'w \<times> LogRecord list"

definition wal_append_op :: "'w IoBackend \<Rightarrow> 'w WalWorld \<Rightarrow> u16 \<Rightarrow> ByteSpan \<Rightarrow> u64 \<Rightarrow> Appended Result \<times> 'w WalWorld" where
  "wal_append_op be j tmpl p ts =
     (case j of (wl, w, hist) \<Rightarrow>
      case wl_append be wl w tmpl p ts of
        (Inr a, wl', w') \<Rightarrow> (Inr a, wl', w', hist @ [\<lparr>lr_lsn = ap_lsn a, lr_ts_ns = ts, lr_tmpl = tmpl, lr_bytes = bs_bytes p\<rparr>])
      | (Inl st, wl', w') \<Rightarrow> (Inl st, wl', w', hist))"

definition wal_ops :: "'w IoBackend \<Rightarrow> 'w WalWorld JournalOps" where
  "wal_ops be =
     \<lparr>jo_append = wal_append_op be,
      jo_maybe_submit = (\<lambda>(wl, w, hist) now. case wl_maybe_submit be wl w now of (st, wl', w') \<Rightarrow> (st, wl', w', hist)),
      jo_reap = (\<lambda>(wl, w, hist). case wl_reap be wl w of (st, wl', w') \<Rightarrow> (st, wl', w', hist)),
      jo_durable_lsn = (\<lambda>(wl, w, hist). wl_durable_lsn wl), jo_last_lsn = (\<lambda>(wl, w, hist). wl_last_lsn wl),
      jo_halted = (\<lambda>(wl, w, hist). wl_is_halted wl)\<rparr>"

definition wal_log :: "'w WalWorld \<Rightarrow> LogRecord list" where
  "wal_log j = snd (snd j)"

text \<open>The groups in flight and the current one hold the last records of the log.\<close>

definition grp_tail :: "GroupCommit \<Rightarrow> u32 \<Rightarrow> LogRecord list \<Rightarrow> bool" where
  "grp_tail g e hist \<longleftrightarrow> (\<exists>old gs cur. hist = old @ concat gs @ cur \<and> gc_holds g e gs cur)"

definition wal_holds :: "Wal \<Rightarrow> LogRecord list \<Rightarrow> bool" where
  "wal_holds wl hist \<longleftrightarrow> gc_shape (wl_group wl) \<and> gc_order (wl_group wl) (wl_last_lsn wl)
     \<and> grp_tail (wl_group wl) (sg_epoch (wl_segment wl)) hist"

definition wal_inv :: "'w WalWorld \<Rightarrow> bool" where
  "wal_inv j = (case j of (wl, w, hist) \<Rightarrow> wal_holds wl hist)"

lemma safe_inv: "wal_safe hdr f W wl hist \<Longrightarrow> wal_inv (wl, w, hist)"
proof -
  assume "wal_safe hdr f W wl hist"
  then obtain gss cur n where h: "hist = concat gss @ cur" and g: "grp_history (wl_group wl) (sg_epoch (wl_segment wl)) (wl_last_lsn wl) gss cur n"
    by (auto simp: wal_safe_def grp_safe_def)
  have "hist = concat (take n gss) @ concat (drop n gss) @ cur" using h by (metis append_assoc append_take_drop_id concat_append)
  with g show ?thesis unfolding wal_inv_def wal_holds_def grp_tail_def grp_history_def by auto
qed

lemma submit_holds:
  assumes h: "wal_holds wl hist" and r: "gc_maybe_submit be (wl_group wl) w now off idx force = (res, g', w')"
  shows "wal_holds (wl\<lparr>wl_group := g', wl_seg_offset := x, wl_halted := y\<rparr>) hist \<and> gc_durable_lsn g' = gc_durable_lsn (wl_group wl)"
proof -
  obtain old gs cur where d: "gc_shape (wl_group wl)" "gc_order (wl_group wl) (wl_last_lsn wl)" "hist = old @ concat gs @ cur"
    "gc_holds (wl_group wl) (sg_epoch (wl_segment wl)) gs cur" using h by (auto simp: wal_holds_def grp_tail_def)
  note k = gc_maybe_submit_keeps [OF d(1,2,4) r]
  have "grp_tail g' (sg_epoch (wl_segment wl)) hist"
  proof (cases "\<exists>m. res = Inr m \<and> m \<noteq> 0")
    case True
    with k have "gc_holds g' (sg_epoch (wl_segment wl)) (gs @ [cur]) []" by auto
    then show ?thesis unfolding grp_tail_def using d(3) by (intro exI [of _ old] exI [of _ "gs @ [cur]"] exI [of _ "[]"]) simp
  next
    case False
    with k d(4) have "gc_holds g' (sg_epoch (wl_segment wl)) gs cur" by (cases res) auto
    then show ?thesis unfolding grp_tail_def using d(3) by blast
  qed
  then show ?thesis using k by (auto simp: wal_holds_def)
qed

lemma reap_holds:
  assumes h: "wal_holds wl hist" and r: "wl_reap be wl w = (st, wl', w')"
  shows "wal_holds wl' hist \<and> wl_last_lsn wl' = wl_last_lsn wl \<and> wl_durable_lsn wl \<le> wl_durable_lsn wl'"
proof (cases "wl_stuck wl")
  case True
  with r h show ?thesis by (simp add: wl_reap_def)
next
  case False
  obtain st' g' where m: "gc_reap be (wl_group wl) w = (st', g', w')" using r False by (auto simp: wl_reap_def Let_def split: prod.splits if_splits)
  with r False have wl': "wl' = wl\<lparr>wl_group := g'\<rparr> \<or> wl' = wl\<lparr>wl_group := g', wl_halted := True\<rparr>" by (auto simp: wl_reap_def Let_def split: if_splits)
  obtain old gs cur where d: "gc_shape (wl_group wl)" "gc_order (wl_group wl) (wl_last_lsn wl)" "hist = old @ concat gs @ cur"
    "gc_holds (wl_group wl) (sg_epoch (wl_segment wl)) gs cur" using h by (auto simp: wal_holds_def grp_tail_def)
  from gc_reap_keeps [OF d(1,2,4) m] obtain n where k: "gc_shape g'" "gc_order g' (wl_last_lsn wl)" "gc_durable_lsn (wl_group wl) \<le> gc_durable_lsn g'"
    "gc_holds g' (sg_epoch (wl_segment wl)) (drop n gs) cur" by blast
  have "hist = (old @ concat (take n gs)) @ concat (drop n gs) @ cur" using d(3) by (metis append_assoc append_take_drop_id concat_append)
  with k(4) have "grp_tail g' (sg_epoch (wl_segment wl)) hist" unfolding grp_tail_def by blast
  with k(1-3) wl' show ?thesis unfolding wal_holds_def wl_durable_lsn_def by auto
qed

lemma append_holds:
  assumes d: "gc_shape g" "gc_order g lst" "grp_tail g e hist" and l: "unat lst + 1 < 2 ^ 64"
    and a: "gc_append g tmpl p ts e (lsn_next lst) = (Inr a, g')"
  shows "gc_shape g'" and "gc_order g' (lsn_next lst)" and "gc_durable_lsn g' = gc_durable_lsn g" and "ap_lsn a = lsn_next lst"
    and "bs_bytes (ap_payload a) = bs_bytes p" and "8 dvd bs_addr (ap_payload a)"
    and "grp_tail g' e (hist @ [\<lparr>lr_lsn = ap_lsn a, lr_ts_ns = ts, lr_tmpl = tmpl, lr_bytes = bs_bytes p\<rparr>])"
proof -
  obtain old gs cur where h: "hist = old @ concat gs @ cur" "gc_holds g e gs cur" using d(3) by (auto simp: grp_tail_def)
  have "lst < lsn_next lst" using lsn_next_mono [OF l] by (simp add: word_less_nat_alt)
  note k = gc_append_keeps [OF d(1,2) this h(2) a]
  then show "gc_shape g'" "gc_order g' (lsn_next lst)" "gc_durable_lsn g' = gc_durable_lsn g" "ap_lsn a = lsn_next lst"
    "bs_bytes (ap_payload a) = bs_bytes p" "8 dvd bs_addr (ap_payload a)" by simp_all
  show "grp_tail g' e (hist @ [\<lparr>lr_lsn = ap_lsn a, lr_ts_ns = ts, lr_tmpl = tmpl, lr_bytes = bs_bytes p\<rparr>])"
    unfolding grp_tail_def using k
    by (intro exI [of _ old] exI [of _ gs] exI [of _ "cur @ [\<lparr>lr_lsn = lsn_next lst, lr_ts_ns = ts, lr_tmpl = tmpl, lr_bytes = bs_bytes p\<rparr>]"]) (simp add: h(1))
qed

lemma wl_append_holds:
  assumes h: "wal_holds wl hist" and r: "wl_append be wl w tmpl p ts = (res, wl', w')"
  shows "case res of
      Inl st \<Rightarrow> wal_holds wl' hist \<and> wl_last_lsn wl' = wl_last_lsn wl \<and> wl_durable_lsn wl' = wl_durable_lsn wl
    | Inr a \<Rightarrow> unat (wl_last_lsn wl) + 1 < 2 ^ 64 \<longrightarrow>
        wal_holds wl' (hist @ [\<lparr>lr_lsn = ap_lsn a, lr_ts_ns = ts, lr_tmpl = tmpl, lr_bytes = bs_bytes p\<rparr>])
        \<and> ap_lsn a = lsn_next (wl_last_lsn wl) \<and> wl_last_lsn wl' = ap_lsn a \<and> wl_durable_lsn wl' = wl_durable_lsn wl
        \<and> bs_bytes (ap_payload a) = bs_bytes p \<and> 8 dvd bs_addr (ap_payload a)"
proof (cases "wl_stuck wl")
  case True
  with r h show ?thesis by (auto simp: wl_append_def)
next
  case False
  let ?e = "sg_epoch (wl_segment wl)" and ?n = "lsn_next (wl_last_lsn wl)"
  obtain r1 g1 where a1: "gc_append (wl_group wl) tmpl p ts ?e ?n = (r1, g1)" by fastforce
  obtain r2 g2 w2 where m: "gc_maybe_submit be (wl_group wl) w ts (wl_seg_offset wl) 0 True = (r2, g2, w2)" by (metis prod_cases3)
  obtain r3 g3 where a3: "gc_append g2 tmpl p ts ?e ?n = (r3, g3)" by fastforce
  have g1: "r1 = Inl st \<Longrightarrow> g1 = wl_group wl" and g3: "r3 = Inl st \<Longrightarrow> g3 = g2" for st using gc_append_fail a1 a3 by blast+
  have sub: "wal_holds (wl\<lparr>wl_group := g2, wl_seg_offset := x, wl_halted := y\<rparr>) hist" "gc_durable_lsn g2 = gc_durable_lsn (wl_group wl)" for x y
    using submit_holds [OF h m] by blast+
  have ok: "wal_holds (v\<lparr>wl_group := g', wl_last_lsn := ?n\<rparr>) (hist @ [\<lparr>lr_lsn = ap_lsn a, lr_ts_ns = ts, lr_tmpl = tmpl, lr_bytes = bs_bytes p\<rparr>])
      \<and> ap_lsn a = ?n \<and> gc_durable_lsn g' = gc_durable_lsn (wl_group v) \<and> bs_bytes (ap_payload a) = bs_bytes p \<and> 8 dvd bs_addr (ap_payload a)"
    if "wal_holds v hist" "wl_segment v = wl_segment wl" "wl_last_lsn v = wl_last_lsn wl" "gc_append (wl_group v) tmpl p ts ?e ?n = (Inr a, g')"
      "unat (wl_last_lsn wl) + 1 < 2 ^ 64" for v a g'
    using that append_holds [of "wl_group v" "wl_last_lsn v" ?e hist tmpl p ts a g'] by (simp add: wal_holds_def)
  show ?thesis
  proof (cases r1)
    case (Inr a)
    then have "res = Inr a" "wl' = wl\<lparr>wl_group := g1, wl_last_lsn := ?n\<rparr>" using r False a1 by (simp_all add: wl_append_def Let_def)
    then show ?thesis using ok [OF h _ _ a1 [unfolded Inr]] by (auto simp: wl_durable_lsn_def)
  next
    case (Inl st1)
    show ?thesis
    proof (cases "\<exists>a. res = Inr a")
      case True
      then obtain a x where c: "r2 = Inr x" "r3 = Inr a" "res = Inr a" and wl': "wl' = wl\<lparr>wl_seg_offset := wl_seg_offset wl + of_nat x, wl_group := g3, wl_last_lsn := ?n\<rparr>"
        using r False a1 Inl g1 m a3 by (auto simp: wl_append_def Let_def split: if_splits sum.splits)
      let ?v = "wl\<lparr>wl_group := g2, wl_seg_offset := wl_seg_offset wl + of_nat x, wl_halted := wl_halted wl\<rparr>"
      have "gc_append (wl_group ?v) tmpl p ts ?e ?n = (Inr a, g3)" using a3 c by simp
      from ok [OF sub(1) _ _ this] show ?thesis using sub(2) by (auto simp: wl_durable_lsn_def c wl')
    next
      case False2: False
      have "wl' = wl \<or> wl' = wl\<lparr>wl_group := g2\<rparr> \<or> (\<exists>x. wl' = wl\<lparr>wl_seg_offset := x, wl_group := g2\<rparr>)"
        using r False a1 Inl g1 m a3 g3 False2 by (auto simp: wl_append_def Let_def split: if_splits sum.splits)
      moreover obtain st where "res = Inl st" using False2 by (cases res) auto
      ultimately show ?thesis
        using h sub(1) [where x = "wl_seg_offset wl" and y = "wl_halted wl"] sub(1) [where y = "wl_halted wl"] sub(2) by (auto simp: wl_durable_lsn_def wal_holds_def)
    qed
  qed
qed

lemma push_holds:
  assumes h: "wal_holds wl hist" and r: "wl_push be wl w now force = (st, wl', w')"
  shows "wal_holds wl' hist \<and> wl_last_lsn wl' = wl_last_lsn wl \<and> wl_durable_lsn wl' = wl_durable_lsn wl"
proof -
  obtain res g' where m: "gc_maybe_submit be (wl_group wl) w now (wl_seg_offset wl) 0 force = (res, g', w')"
    using r by (auto simp: wl_push_def split: sum.splits prod.splits)
  have "\<exists>x y. wl' = wl\<lparr>wl_group := g', wl_seg_offset := x, wl_halted := y\<rparr>"
  proof (cases res)
    case (Inl s)
    then show ?thesis using r m by (intro exI [of _ "wl_seg_offset wl"] exI [of _ True]) (simp add: wl_push_def)
  next
    case (Inr n)
    then show ?thesis using r m
      by (intro exI [of _ "if 0 < n then wl_seg_offset wl + of_nat n else wl_seg_offset wl"] exI [of _ "wl_halted wl"]) (auto simp: wl_push_def)
  qed
  then show ?thesis using submit_holds [OF h m] by (auto simp: wl_durable_lsn_def)
qed

interpretation wal: journal "wal_ops be" wal_inv wal_log for be :: "'w IoBackend"
proof (unfold_locales, goal_cases)
  case (1 j b tmpl ts a j')
  obtain wl w hist where j: "j = (wl, w, hist)" by (cases j)
  obtain wl' w' where a: "wl_append be wl w tmpl b ts = (Inr a, wl', w')"
    and j': "j' = (wl', w', hist @ [\<lparr>lr_lsn = ap_lsn a, lr_ts_ns = ts, lr_tmpl = tmpl, lr_bytes = bs_bytes b\<rparr>])"
    using 1(4) by (auto simp: wal_ops_def wal_append_op_def j split: prod.splits sum.splits)
  show ?case using wl_append_holds [of wl hist, OF _ a] 1(1,3) by (auto simp: wal_ops_def wal_inv_def wal_log_def j j')
next
  case (2 j tmpl b ts st j')
  obtain wl w hist where j: "j = (wl, w, hist)" by (cases j)
  obtain wl' w' where a: "wl_append be wl w tmpl b ts = (Inl st, wl', w')" and j': "j' = (wl', w', hist)"
    using 2(2) by (auto simp: wal_ops_def wal_append_op_def j split: prod.splits sum.splits)
  show ?case using wl_append_holds [of wl hist, OF _ a] 2(1) by (simp add: wal_ops_def wal_inv_def wal_log_def j j')
next
  case (3 j now st j')
  obtain wl w hist where j: "j = (wl, w, hist)" by (cases j)
  obtain wl' w' where a: "wl_maybe_submit be wl w now = (st, wl', w')" and j': "j' = (wl', w', hist)"
    using 3(2) by (auto simp: wal_ops_def j split: prod.splits)
  show ?case using push_holds [of wl hist be w now False st wl' w'] a 3(1)
    by (auto simp: wal_ops_def wal_inv_def wal_log_def j j' wl_maybe_submit_def split: if_splits)
next
  case (4 j st j')
  obtain wl w hist where j: "j = (wl, w, hist)" by (cases j)
  obtain wl' w' where a: "wl_reap be wl w = (st, wl', w')" and j': "j' = (wl', w', hist)"
    using 4(2) by (auto simp: wal_ops_def j split: prod.splits)
  show ?case using reap_holds [of wl hist, OF _ a] 4(1) by (simp add: wal_ops_def wal_inv_def wal_log_def j j')
next
  case (5 j)
  then show ?case by (cases j) (auto simp: wal_ops_def wal_inv_def wal_holds_def wl_durable_lsn_def gc_order_def gc_marks_def)
qed

end
