(* ===== verification/RV_Engine.thy ===== *)
theory RV_Engine
  imports RV_Recovery RV_Wal_Disk RV_Wal_Journal
begin

text \<open>
  A partition over the write-ahead log, turn after turn, with frames arriving in between.  The journal
  only moves by the operations of the log, so what \<open>RV_Wal_Laws\<close> says of sequences of operations
  holds of whole runs; and the state is the replay of the log, whatever happens.
\<close>

section \<open>Runs\<close>

text \<open>\<open>k\<close> turns or forced commits; what arrives in the ring is arbitrary.\<close>

inductive engine_run :: "bool \<Rightarrow> bool \<Rightarrow> Codec \<Rightarrow> 'j JournalOps \<Rightarrow> nat \<Rightarrow> 'j Partition \<Rightarrow> 'j Partition \<Rightarrow> bool" for dbg rtl cd ops where
  start: "engine_run dbg rtl cd ops 0 p p"
| turn: "engine_run dbg rtl cd ops k p p1 \<Longrightarrow> poll dbg rtl cd ops now p1 = Some (n, p2) \<Longrightarrow> engine_run dbg rtl cd ops (Suc k) p p2"
| force: "engine_run dbg rtl cd ops k p p1 \<Longrightarrow> force_commit ops now p1 = (st, p2) \<Longrightarrow> engine_run dbg rtl cd ops (Suc k) p p2"
| arrive: "engine_run dbg rtl cd ops k p p1 \<Longrightarrow> rg_inv r \<Longrightarrow> list_all frame_ok (rg_items r) \<Longrightarrow> engine_run dbg rtl cd ops k p (p1\<lparr>pt_entrada := r\<rparr>)"

context journal
begin

lemma force_keeps:
  assumes "force_commit ops now p = (st, p')" and "pt_ok inv p"
  shows "pt_ok inv p' \<and> pt_estado p' = pt_estado p \<and> log (pt_diario p') = log (pt_diario p) \<and> pt_parado p' = pt_parado p
    \<and> ob_frozen (pt_saida p') = ob_frozen (pt_saida p)"
proof -
  obtain j1 where s: "jo_maybe_submit ops (pt_diario p) now = (st, j1)" and p': "p' = publicar ops (p\<lparr>pt_diario := snd (jo_reap ops j1)\<rparr>)"
    using assms(1) by (auto simp: force_commit_def split: prod.splits)
  obtain st2 j2 where r: "jo_reap ops j1 = (st2, j2)" by (cases "jo_reap ops j1")
  have "inv (pt_diario p)" using assms(2) by (simp add: pt_ok_def)
  note k1 = submit_keeps [OF this s]
  note k2 = reap_keeps [OF k1 [THEN conjunct1] r]
  define p2 where "p2 = p\<lparr>pt_diario := j2\<rparr>"
  have f2: "pt_saida p2 = pt_saida p" "pt_estado p2 = pt_estado p" "pt_entrada p2 = pt_entrada p" "pt_parado p2 = pt_parado p" "pt_diario p2 = j2"
    by (simp_all add: p2_def)
  have ob: "ob_inv (pt_saida p2)" and p'2: "p' = publicar ops p2" using assms(2) p' r f2(1) by (simp_all add: pt_ok_def p2_def)
  note pub = publicar_spec(1-6) [OF ob p'2]
  show ?thesis using pub k1 k2 assms(2) f2 by (simp add: pt_ok_def)
qed

text \<open>The state is the replay of what was logged, and a partition that stopped has its outbox frozen.\<close>

lemma run_replays:
  assumes "engine_run dbg rtl cd ops k p p'" and "pt_ok inv p" and "\<not> pt_parado p"
    and "\<forall>i p1. i < k \<longrightarrow> engine_run dbg rtl cd ops i p p1 \<longrightarrow> unat (jo_last_lsn ops (pt_diario p1)) + kBatch < 2 ^ 64"
  shows "pt_ok inv p' \<and> (pt_parado p' \<longrightarrow> ob_frozen (pt_saida p'))
    \<and> (\<exists>rs. log (pt_diario p') = log (pt_diario p) @ rs \<and> replay dbg rtl cd (pt_estado p) rs = Some (pt_parado p', pt_estado p'))"
  using assms
proof (induction rule: engine_run.induct)
  case (turn k p p1 now n p2)
  have "\<forall>i q. i < k \<longrightarrow> engine_run dbg rtl cd ops i p q \<longrightarrow> unat (jo_last_lsn ops (pt_diario q)) + kBatch < 2 ^ 64"
    using turn.prems(3) less_SucI by blast
  from turn.IH [OF turn.prems(1,2) this] obtain rs where i: "pt_ok inv p1" "pt_parado p1 \<longrightarrow> ob_frozen (pt_saida p1)" "log (pt_diario p1) = log (pt_diario p) @ rs"
    "replay dbg rtl cd (pt_estado p) rs = Some (pt_parado p1, pt_estado p1)" by blast
  show ?case
  proof (cases "pt_parado p1")
    case True
    with poll_stopped [OF i(1) True, of dbg rtl cd now] i turn.hyps(2) show ?thesis by auto
  next
    case False
    have "unat (jo_last_lsn ops (pt_diario p1)) + kBatch < 2 ^ 64" using turn.prems(3) turn.hyps(1) by blast
    note l = poll_live [OF turn.hyps(2) i(1) False this]
    obtain rs2 where r2: "log (pt_diario p2) = log (pt_diario p1) @ rs2" "replay dbg rtl cd (pt_estado p1) rs2 = Some (pt_parado p2, pt_estado p2)"
      using l(2) by blast
    have "replay dbg rtl cd (pt_estado p) (rs @ rs2) = Some (pt_parado p2, pt_estado p2)" using replay_append [of dbg rtl cd _ rs] i(4) False r2(2) by simp
    then show ?thesis using l(1,4) r2(1) i(3) by auto
  qed
next
  case (force k p p1 now st p2)
  have "\<forall>i q. i < k \<longrightarrow> engine_run dbg rtl cd ops i p q \<longrightarrow> unat (jo_last_lsn ops (pt_diario q)) + kBatch < 2 ^ 64"
    using force.prems(3) less_SucI by blast
  from force.IH [OF force.prems(1,2) this] show ?case using force_keeps [OF force.hyps(2)] by auto
next
  case (arrive k p p1 r)
  then show ?case by (auto simp: pt_ok_def)
qed (auto simp: pt_ok_def)

end

section \<open>Runs over the log\<close>

lemma wal_run_append: "wal_run be (xs @ ys) st = wal_run be ys (wal_run be xs st)"
  by (simp add: wal_run_def)

lemma wal_ops_steps:
  "snd (jo_append (wal_ops be) j tmpl b ts) = wal_run be [OpAppend tmpl b ts] j"
  "snd (jo_maybe_submit (wal_ops be) j now) = wal_run be [OpSubmit now] j" "snd (jo_reap (wal_ops be) j) = wal_run be [OpReap] j"
  by (cases j; simp add: wal_run_def wal_ops_def wal_append_op_def split: prod.splits sum.splits)+

lemma poll_loop_ops:
  "poll_loop dbg rtl cd (wal_ops be) n k p = Some (k', p') \<Longrightarrow> \<exists>xs. length xs \<le> n \<and> pt_diario p' = wal_run be xs (pt_diario p)"
proof (induction n arbitrary: k p)
  case 0
  then show ?case by (intro exI [of _ "[]"]) (simp add: wal_run_def)
next
  case (Suc n)
  have none: "pt_diario p' = pt_diario p \<Longrightarrow> ?case" by (intro exI [of _ "[]"]) (simp add: wal_run_def)
  obtain r e where pk: "rg_peek (pt_entrada p) = (r, e)" by (cases "rg_peek (pt_entrada p)")
  show ?case
  proof (cases "r = None \<or> \<not> has_room (pt_saida p) kMaxOutputsPerEvent kMaxOutputBytesPerEvent")
    case True
    then show ?thesis using Suc.prems pk none by (cases r) (auto simp: Let_def split: if_splits)
  next
    case False
    then obtain f where r: "r = Some f" and room: "has_room (pt_saida p) kMaxOutputsPerEvent kMaxOutputBytesPerEvent" by auto
    obtain ra j where ap: "jo_append (wal_ops be) (pt_diario p) (if_tmpl f) (if_bytes f) (if_arrival_ts_ns f) = (ra, j)"
      by (cases "jo_append (wal_ops be) (pt_diario p) (if_tmpl f) (if_bytes f) (if_arrival_ts_ns f)")
    let ?x = "OpAppend (if_tmpl f) (if_bytes f) (if_arrival_ts_ns f)"
    have j: "j = wal_run be [?x] (pt_diario p)" using wal_ops_steps(1) [of be "pt_diario p" "if_tmpl f" "if_bytes f" "if_arrival_ts_ns f"] ap by simp
    have one: "pt_diario p' = j \<Longrightarrow> ?thesis" using j by (intro exI [of _ "[?x]"]) simp
    show ?thesis
    proof (cases ra)
      case (Inl st)
      then have "pt_diario p' = j" using Suc.prems pk r room ap by (auto simp: Let_def)
      then show ?thesis by (rule one)
    next
      case (Inr a)
      from Suc.prems pk r room ap Inr obtain st s c where
        rest: "(if classify st = Fatal then Some (k, parar st (ap_lsn a) (with_context (p\<lparr>pt_entrada := e, pt_diario := j, pt_estado := s\<rparr>) c))
            else poll_loop dbg rtl cd (wal_ops be) n (k + 1) (with_context (p\<lparr>pt_entrada := e, pt_diario := j, pt_estado := s\<rparr>) c
                   \<lparr>pt_entrada := rg_pop (pt_entrada (with_context (p\<lparr>pt_entrada := e, pt_diario := j, pt_estado := s\<rparr>) c))\<rparr>)) = Some (k', p')"
        by (auto simp: Let_def bind_eq_Some_conv)
      show ?thesis
      proof (cases "classify st = Fatal")
        case True
        with rest one show ?thesis by (auto simp: parar_def with_context_def)
      next
        case False
        with rest Suc.IH obtain xs where "length xs \<le> n" "pt_diario p' = wal_run be xs j" by (fastforce simp: with_context_def)
        then show ?thesis using j by (intro exI [of _ "?x # xs"]) (simp add: wal_run_def)
      qed
    qed
  qed
qed

lemma publicar_diario: "pt_diario (publicar ops p) = pt_diario p"
  by (simp add: publicar_def Let_def)

lemma poll_ops:
  assumes "poll dbg rtl cd (wal_ops be) now p = Some (n, p')"
  shows "\<exists>xs. length xs \<le> kBatch + 2 \<and> pt_diario p' = wal_run be xs (pt_diario p)"
proof -
  obtain p1 where l: "(if pt_parado p then Some (0, p) else poll_loop dbg rtl cd (wal_ops be) kBatch 0 p) = Some (n, p1)"
    and p': "pt_diario p' = snd (jo_reap (wal_ops be) (snd (jo_maybe_submit (wal_ops be) (pt_diario p1) now)))"
    using assms by (auto simp: poll_def bind_eq_Some_conv Let_def publicar_diario)
  have "\<exists>xs. length xs \<le> kBatch \<and> pt_diario p1 = wal_run be xs (pt_diario p)"
  proof (cases "pt_parado p")
    case True
    with l show ?thesis by (intro exI [of _ "[]"]) (simp add: wal_run_def)
  next
    case False
    with l poll_loop_ops show ?thesis by simp blast
  qed
  then obtain xs where "length xs \<le> kBatch" "pt_diario p1 = wal_run be xs (pt_diario p)" by blast
  then show ?thesis using p' by (intro exI [of _ "xs @ [OpSubmit now] @ [OpReap]"]) (simp add: wal_ops_steps wal_run_append del: append.simps)
qed

lemma engine_ops:
  "engine_run dbg rtl cd (wal_ops be) k p p' \<Longrightarrow> \<exists>xs. length xs \<le> (kBatch + 2) * k \<and> pt_diario p' = wal_run be xs (pt_diario p)"
proof (induction rule: engine_run.induct)
  case (start p)
  show ?case by (intro exI [of _ "[]"]) (simp add: wal_run_def)
next
  case (turn k p p1 now n p2)
  from turn.IH obtain xs where "length xs \<le> (kBatch + 2) * k" "pt_diario p1 = wal_run be xs (pt_diario p)" by blast
  moreover obtain ys where "length ys \<le> kBatch + 2" "pt_diario p2 = wal_run be ys (pt_diario p1)" using poll_ops [OF turn.hyps(2)] by blast
  ultimately show ?case by (intro exI [of _ "xs @ ys"]) (simp add: wal_run_append)
next
  case (force k p p1 now st p2)
  from force.IH obtain xs where "length xs \<le> (kBatch + 2) * k" "pt_diario p1 = wal_run be xs (pt_diario p)" by blast
  moreover obtain ys where "length ys \<le> kBatch + 2" "pt_diario p2 = wal_run be ys (pt_diario p1)"
  proof -
    obtain j where j: "jo_maybe_submit (wal_ops be) (pt_diario p1) now = (st, j)" and "pt_diario p2 = snd (jo_reap (wal_ops be) j)"
      using force.hyps(2) by (cases "jo_maybe_submit (wal_ops be) (pt_diario p1) now") (auto simp: force_commit_def publicar_diario)
    moreover have "j = wal_run be [OpSubmit now] (pt_diario p1)" using wal_ops_steps(2) [of be "pt_diario p1" now] j by simp
    ultimately have "pt_diario p2 = wal_run be ([OpSubmit now] @ [OpReap]) (pt_diario p1)" unfolding wal_run_append wal_ops_steps(3) by simp
    then show thesis using that [of "[OpSubmit now] @ [OpReap]"] by simp
  qed
  ultimately show ?case by (intro exI [of _ "xs @ ys"]) (simp add: wal_run_append)
qed simp

text \<open>Every append that succeeds takes the next position.\<close>

lemma wal_step_last:
  "wal_step be x (wl, w, hist) = (wl', w', hist') \<Longrightarrow> \<exists>ys. hist' = hist @ ys \<and> length ys \<le> 1 \<and> wl_last_lsn wl' = wl_last_lsn wl + of_nat (length ys)"
  by (cases x) (auto simp: wl_append_def wl_maybe_submit_def wl_push_def wl_reap_def wl_force_commit_def Let_def lsn_next_def
      split: if_splits sum.splits prod.splits)

lemma wal_run_last:
  "wal_run be xs (wl, w, hist) = (wl', w', hist') \<Longrightarrow>
     \<exists>ys. hist' = hist @ ys \<and> length ys \<le> length xs \<and> wl_last_lsn wl' = wl_last_lsn wl + of_nat (length ys)"
proof (induction xs arbitrary: wl w hist)
  case (Cons x xs)
  obtain wl1 w1 hist1 where s: "wal_step be x (wl, w, hist) = (wl1, w1, hist1)" by (metis prod_cases3)
  with Cons.prems have r: "wal_run be xs (wl1, w1, hist1) = (wl', w', hist')" by (simp add: wal_run_def)
  obtain a b where "hist1 = hist @ a" "length a \<le> 1" "wl_last_lsn wl1 = wl_last_lsn wl + of_nat (length a)"
    "hist' = hist1 @ b" "length b \<le> length xs" "wl_last_lsn wl' = wl_last_lsn wl1 + of_nat (length b)"
    using wal_step_last [OF s] Cons.IH [OF r] by blast
  then show ?case by (intro exI [of _ "a @ b"]) simp
qed (simp add: wal_run_def)

section \<open>A crash\<close>

lemma replay_prefix:
  "replay dbg rtl cd s (xs @ ys) = Some (b, s') \<Longrightarrow>
     \<exists>c s1. replay dbg rtl cd s xs = Some (c, s1) \<and> (if c then b \<and> s' = s1 else replay dbg rtl cd s1 ys = Some (b, s'))"
proof (induction xs arbitrary: s)
  case (Cons x xs)
  then obtain st s1 c where a: "apply_event dbg rtl cd s (event_of_record x) no_outputs = Some (st, s1, c)" by (auto simp: bind_eq_Some_conv)
  show ?case
  proof (cases "classify st = Fatal")
    case True
    with a Cons.prems show ?thesis by auto
  next
    case False
    with a Cons.prems Cons.IH [of s1] show ?thesis by simp
  qed
qed auto

lemma replay_fatal: "replay dbg rtl cd s xs = Some (True, s1) \<Longrightarrow> replay dbg rtl cd s (xs @ ys) = Some (True, s1)"
proof (induction xs arbitrary: s)
  case (Cons x xs)
  then show ?case by (auto simp: bind_eq_Some_conv split: if_splits)
qed simp

lemma lsn_run_after:
  "lsn_run l rs \<Longrightarrow> im < l \<Longrightarrow> unat l + length rs \<le> 2 ^ 64 \<Longrightarrow> after_image im rs = rs"
proof (induction rs arbitrary: l)
  case (Cons r rs)
  have "after_image im rs = rs"
  proof (cases rs)
    case (Cons r2 rs2)
    then have n: "unat (l + 1) = unat l + 1" using Cons.prems(3) by (simp add: unat_word_ariths)
    then show ?thesis using Cons.prems Cons.IH [of "l + 1"] by (simp add: word_less_nat_alt)
  qed simp
  with Cons.prems show ?case by simp
qed simp

text \<open>The name of the segment of a new log.\<close>

definition segment_name :: "u16 \<Rightarrow> Lsn \<Rightarrow> string" where
  "segment_name part l = ''p'' @ dec_string (unat part) @ ''_'' @ hex_digits 16 (unat l) @ ''.wal''"

lemma recover_one_segment:
  assumes "files (segment_path dir part l) = Mapped m" and "sr_open sr_new m (lsn_next (rp_image_lsn report)) = (kOk, sr)"
    and "length (bs_bytes m) + 8192 < 2 ^ 64" and "8 dvd bs_addr m" and "reads sr evs sr'"
  shows "map_option rc_state (recover_log dbg rtl cd (Some [segment_name part l]) files dir part report metrics s)
    = map_option snd (replay dbg rtl cd s (after_image (rp_image_lsn report) (map ev_record evs)))"
proof -
  define rc where "rc = \<lparr>rc_state = s, rc_ctx = \<lparr>cx_outbox = None, cx_metrics = Some metrics\<rparr>, rc_report = report,
                rc_expected = lsn_next (rp_image_lsn report), rc_max_valid = rp_image_lsn report, rc_tail = tail_new\<rparr>"
  have sz: "\<not> length (bs_bytes m) < kSegmentHdrBytes" using assms(2) by (auto simp: sr_open_def Let_def fail_def kOk_def)
  have "lista_arquivos (Some [segment_name part l]) dir (''p'' @ dec_string (unat part) @ ''_'') ''.wal'' = [\<lparr>fi_lsn = l, fi_path = segment_path dir part l\<rparr>]"
    using segment_listed [of dir part l] by (simp add: lista_arquivos_def segment_name_def map_filter_simps)
  then have "recover_log dbg rtl cd (Some [segment_name part l]) files dir part report metrics s
      = map_option (\<lambda>rc'. rc'\<lparr>rc_report := (rc_report rc')\<lparr>rp_last_valid_lsn := rc_max_valid rc'\<rparr>\<rparr>) (map_option snd (recover_segment dbg rtl cd m rc))"
    using sz assms(1) unfolding recover_log_def Let_def rc_def [symmetric]
    by (simp add: usable_def split: option.splits prod.splits)
  then have "map_option rc_state (recover_log dbg rtl cd (Some [segment_name part l]) files dir part report metrics s)
      = map_option (\<lambda>(stop, rc'). rc_state rc') (recover_segment dbg rtl cd m rc)"
    by (simp add: option.map_comp comp_def split_def)
  also have "\<dots> = map_option snd (replay dbg rtl cd (rc_state rc) (after_image (rp_image_lsn (rc_report rc)) (map ev_record evs)))"
    using assms by (intro recover_segment_replays [of m rc sr evs sr']) (simp_all add: rc_def)
  finally show ?thesis by (simp add: rc_def)
qed

end
