(* ===== verification/RV_Log_Contracts.thy ===== *)
theory RV_Log_Contracts
  imports RV_Engine
begin

text \<open>
  The promises of the log to the rest of the engine, and the witnesses that their hypotheses can hold.
\<close>

section \<open>The log\<close>

text \<open>
  C5: what the log calls durable survives. From a new log, after any sequence of appends, submissions,
  reaps and forced commits, over a \<^verbatim>\<open>pwrite\<close> that may fail or write less than asked, a reader of the
  file opens it and reads first, unchanged and in order, exactly as many of the appended records as
  the durable position says.
\<close>

theorem durable_survives:
  assumes "pwrite_law pwrite (sg_fd (wl_segment wl)) disk"
    and "wl_open (pwrite_ops pwrite) sys epoch memalign opts None wl_new w0 = (kOk, wl, w)" and "\<forall>i a. memalign i = Some a \<longrightarrow> 8 dvd a"
    and "pb_live w" and "pb_fds w = [sg_fd (wl_segment wl)]" and "pb_waiting w = []"
    and "take kSegmentHdrBytes (disk (pb_fs w)) = header_block (segment_header part 1 epoch cap (gc_block_size (wl_group wl)) src)"
    and "length (disk (pb_fs w)) < 2 ^ 63" and "length ops < 2 ^ 46"
    and "wal_run (pwrite_ops pwrite) ops (wl, w, []) = (wl', w', hist)"
  shows "unat (wl_durable_lsn wl') \<le> length hist
    \<and> (\<exists>sr evs sr' more. sr_open sr_new \<lparr>bs_addr = a, bs_bytes = disk (pb_fs w')\<rparr> 1 = (kOk, sr) \<and> reads sr evs sr'
         \<and> map ev_record evs = take (unat (wl_durable_lsn wl')) hist @ more)"
proof -
  note r = new_log_run [OF assms]
  show ?thesis using safe_reads [of part epoch cap "gc_block_size (wl_group wl)" src _ _ wl' hist a] safe_bound r by auto
qed

text \<open>
  C6: what the writer writes, the reader reads. A segment whose data area is any sequence of groups and
  then nothing, or zeros, opens and reads back record by record, unchanged and in order; the reader ends
  clean and gives as the place to resume the byte after the last group.
\<close>

theorem log_reads_back:
  assumes "is_valid_block blk" and "m = \<lparr>bs_addr = a, bs_bytes = header_block (segment_header part l e cap blk src) @ area_bytes blk e gss @ z\<rparr>"
    and "length (bs_bytes m) + 8192 < 2 ^ 64" and "\<forall>g\<in>set gss. g \<noteq> []" and "\<forall>r\<in>set (concat gss). length (lr_bytes r) \<le> kMaxPayload"
    and "lsn_run l (concat gss)" and "clean_tail z" and "x = 0 \<or> l \<le> x"
  shows "\<exists>sr evs sr'. sr_open sr_new m x = (kOk, sr) \<and> reads sr evs sr' \<and> map ev_record evs = concat gss
    \<and> sr_stop_reason sr' = RsClean \<and> sr_resume_offset sr' = kSegmentHdrBytes + length (area_bytes blk e gss)"
proof -
  let ?h = "header_block (segment_header part l e cap blk src)"
  obtain sr where sr: "sr_open sr_new m x = (kOk, sr)" and o: "bs_bytes (sr_mapped sr) = ?h @ area_bytes blk e gss @ z" "sr_offset sr = kSegmentHdrBytes"
    "sr_resume_offset sr = kSegmentHdrBytes" "sr_block_size sr = blk" "sr_epoch sr = e" "sr_expected_lsn sr = l"
    using open_own_segment [OF assms(1,8), of sr_new a part e cap src "area_bytes blk e gss @ z"] assms(2) by auto
  have dv: "unat blk dvd kSegmentHdrBytes" using block_dvd_header [OF assms(1)] .
  have "\<exists>sr'. ends_clean sr (concat gss) (length ?h + length (area_bytes (sr_block_size sr) e gss)) sr'
      \<and> (\<exists>evs. reads sr evs sr' \<and> map ev_record evs = concat gss)"
  proof (rule reads_groups [where pre = ?h and z = z and l = l])
    show "sr_ok sr" using open_ok_reader(1) [OF sr assms(3)] .
    show "8 dvd length ?h" by (simp add: kSegmentHdrBytes_def)
  qed (use o assms dv in simp_all)
  moreover have "concat gss = [] \<Longrightarrow> gss = []" using assms(4) by (cases gss) auto
  ultimately show ?thesis using sr o by (auto simp: ends_clean_def area_bytes_def split: if_splits)
qed

text \<open>
  C36: on any bytes that open as a segment, whatever follows the header, the reader ends after a bounded
  number of records, its answers are determined by the bytes, no payload it hands out reaches past the
  mapping, and log positions follow each other without a gap.
\<close>

theorem reader_terminates:
  assumes "sr_open sr0 m x = (kOk, sr)" and "length (bs_bytes m) + 8192 < 2 ^ 64"
  shows "\<exists>evs sr'. reads sr evs sr' \<and> (\<forall>evs2 sr2. reads sr evs2 sr2 \<longleftrightarrow> evs2 = evs \<and> sr2 = sr')
     \<and> kSegmentHdrBytes + 32 * length evs \<le> max kSegmentHdrBytes (length (bs_bytes m))
     \<and> (\<forall>ev\<in>set evs. ev_len ev \<le> length (bs_bytes (ev_payload ev)))
     \<and> (sr_first_lsn sr \<noteq> 0 \<and> unat (sr_first_lsn sr) + length evs \<le> 2 ^ 64 \<longrightarrow> lsn_run (sr_first_lsn sr) (map ev_record evs))"
proof -
  note o = open_ok_reader [OF assms]
  obtain evs sr' where r: "reads sr evs sr'" using reads_total [OF o(1)] by blast
  have u: "\<forall>evs2 sr2. reads sr evs2 sr2 \<longleftrightarrow> evs2 = evs \<and> sr2 = sr'" using r reads_unique [OF r] by blast
  note f = reads_facts [OF r o(1), unfolded o]
  then have "kSegmentHdrBytes + 32 * length evs \<le> max kSegmentHdrBytes (length (bs_bytes m))" by linarith
  with r u f show ?thesis by (intro exI [of _ evs] exI [of _ sr'] conjI) blast+
qed

text \<open>
  C37: a record one byte of whose payload has changed is not delivered: the reader stops there and says
  that the checksum is wrong.
\<close>

theorem corrupted_record_refused:
  assumes "sr_ok sr" and "bs_bytes (sr_mapped sr) = pre @ (rec_of e r)[32 + i := b] @ rest" and "sr_offset sr = length pre" and "sr_epoch sr = e"
    and "length (lr_bytes r) \<le> kMaxPayload" and "i < length (lr_bytes r)" and "b \<noteq> lr_bytes r ! i"
  shows "sr_next sr = Some (None, sr\<lparr>sr_stop_reason := RsBadCrc\<rparr>)"
proof -
  let ?bs = "bs_bytes (sr_mapped sr)" and ?n = "length (lr_bytes r)" and ?p = "(lr_bytes r)[i := b]"
  define h where "h = (rec_hdr e r)\<lparr>wh_crc32c := rec_crc e r\<rparr>"
  define pad where "pad = replicate (unat (record_bytes (of_nat ?n)) - (32 + ?n)) (0 :: u8)"
  have r: "(rec_of e r)[32 + i := b] = wal_hdr_bytes h @ ?p @ pad"
    using assms(6) by (simp add: rec_of_parts h_def pad_def list_update_append)
  have d: "drop (length pre) ?bs = wal_hdr_bytes h @ ?p @ pad @ rest" "drop (length pre + 32) ?bs = ?p @ pad @ rest" by (simp_all add: assms(2) r)
  have L: "unat (record_bytes (of_nat ?n)) = length ((rec_of e r)[32 + i := b])" using length_rec_of [OF assms(5)] by simp
  have sz: "length pre + length ((rec_of e r)[32 + i := b]) \<le> length ?bs" "32 \<le> length ((rec_of e r)[32 + i := b])" by (simp add: assms(2)) (simp add: r)
  have mg: "wh_magic h = kWalMagic" by (simp add: h_def rec_hdr_def wal_hdr_for_def)
  have n: "unat (of_nat ?n :: u16) = ?n" using assms(5) by (simp add: unat_of_nat take_bit_nat_eq_self kMaxPayload_def)
  have hdr: "wal_hdr_of (drop (length pre) ?bs) = h" by (simp add: d wal_hdr_roundtrip)
  have hf: "wh_epoch h = e" "unat (wh_len h) = ?n" "wh_crc32c h = rec_crc e r" "h\<lparr>wh_crc32c := 0\<rparr> = rec_hdr e r"
    by (simp_all add: h_def rec_hdr_def wal_hdr_for_def n)
  have crc: "crc32c_table (crc32c_table 0 (wal_hdr_bytes (rec_hdr e r))) (take ?n (drop (length pre + 32) ?bs)) \<noteq> rec_crc e r"
    using crc_table_update [OF assms(6,7)] by (simp add: d rec_crc_def)
  have "sr_next sr = sr_record sr"
  proof -
    have "\<not> length ?bs \<le> length pre" "\<not> length ?bs - length pre < 32" using sz by linarith+
    moreover note load_magic [OF mg, of "?p @ pad @ rest"]
    ultimately show ?thesis by (subst sr_next.simps) (simp only: assms(3) d Let_def if_False not_True_eq_False simp_thms)
  qed
  also have "sr_record sr = Some (None, sr\<lparr>sr_stop_reason := RsBadCrc\<rparr>)"
    unfolding sr_record_def Let_def assms(3) hdr hf L using sz assms(4,5) crc by (simp add: sr_stop_def)
  finally show ?thesis .
qed

text \<open>
  C38: a write that fails stops the log for good. The reap that finds the completion of a group in flight
  failed, or short, reports an I/O error; from then on every operation reports it and changes neither the
  log nor the disk.
\<close>

theorem failed_write_stops_log:
  assumes "\<not> wl_stuck wl" and "gc_initialized (wl_group wl)" and "io_reap be w kMaxInflight = (cs, w')" and "c \<in> set cs" and "\<not> cp_ok c"
    and "ig \<in> set (gc_inflight (wl_group wl))" and "ig_in_use ig" and "ig_token ig = cp_token c"
  shows "\<exists>wl'. wl_reap be wl w = (fail IoError 0, wl', w') \<and> wl_is_halted wl'
    \<and> (\<forall>v. (\<forall>tmpl p ts. wl_append be wl' v tmpl p ts = (Inl (fail IoError 0), wl', v)) \<and> (\<forall>now. wl_maybe_submit be wl' v now = (fail IoError 0, wl', v))
         \<and> (\<forall>now. wl_force_commit be wl' v now = (fail IoError 0, wl', v)) \<and> wl_reap be wl' v = (fail IoError 0, wl', v)
         \<and> (\<forall>lsn t. wl_await_durable be wl' v lsn t = Some (fail IoError 0, wl', v)))"
proof -
  obtain st g' where d: "gc_drain (foldl gc_mark (wl_group wl) cs) = (st, g')" by fastforce
  have "gc_halted (foldl gc_mark (wl_group wl) cs)" using assms(4-8) by (intro marks_halt [of c]) (auto simp: list_ex_iff)
  from drain_halted [OF this d] have st: "st = fail IoError 0" "\<not> is_ok st" by (simp_all add: is_ok_def fail_def)
  let ?wl = "wl\<lparr>wl_group := g', wl_halted := True\<rparr>"
  have "wl_reap be wl w = (fail IoError 0, ?wl, w')" using assms(1-3) d st by (simp add: wl_reap_def gc_reap_def Let_def)
  then show ?thesis
    by (intro exI [of _ ?wl]) (simp add: wl_is_halted_def wl_append_def wl_maybe_submit_def wl_force_commit_def wl_reap_def wl_await_durable_def wl_stuck_def)
qed

text \<open>
  C39: an alignment the probe accepts is one the format can use: a power of two between 512 and 4096 that
  divides the header of a segment, with buffers aligned to a power of two up to 4096; and padding to it
  gives the next multiple.
\<close>

theorem alignment_valid:
  assumes "probe_block_align fd answer = Inr ba"
  shows "is_valid_block (ba_block ba) \<and> (\<exists>k. unat (ba_block ba) = 2 ^ k \<and> 9 \<le> k \<and> k \<le> 12) \<and> (\<exists>k\<le>12. unat (ba_mem_align ba) = 2 ^ k)
    \<and> unat (ba_block ba) dvd kSegmentHdrBytes
    \<and> (\<forall>n. n + 4096 < 2 ^ 64 \<longrightarrow> n \<le> unat (pad_to_block (of_nat n) (ba_block ba)) \<and> unat (pad_to_block (of_nat n) (ba_block ba)) < n + unat (ba_block ba)
         \<and> unat (ba_block ba) dvd unat (pad_to_block (of_nat n) (ba_block ba)))"
proof -
  from assms obtain b m s where "aceitar b m s = Inr ba" by (auto simp: probe_block_align_def split: if_splits StatxAnswer.splits)
  then have v: "is_valid_block (ba_block ba)" and m: "ba_mem_align ba \<noteq> 0" "ba_mem_align ba AND (ba_mem_align ba - 1) = 0" "ba_mem_align ba \<le> kMaxBlock"
    by (auto simp: aceitar_def not_less split: if_splits)
  have pos: "0 < unat (ba_mem_align ba)" using m(1) by (simp add: unat_gt_0)
  then have "1 \<le> ba_mem_align ba" by (simp add: word_le_nat_alt)
  then have "unat (ba_mem_align ba) AND (unat (ba_mem_align ba) - 1) = unat (ba_mem_align ba AND (ba_mem_align ba - 1))"
    by (simp add: unsigned_and_eq unat_sub)
  then obtain k where k: "unat (ba_mem_align ba) = 2 ^ k" using and_pred_zero [OF _ pos] m(2) by auto
  have "unat (ba_mem_align ba) \<le> 4096" using m(3) by (simp add: kMaxBlock_def word_le_nat_alt)
  then have "k \<le> 12" using k power_strict_increasing [of 12 k "2 :: nat"] by (cases "12 < k") auto
  with k have mem: "\<exists>k\<le>12. unat (ba_mem_align ba) = 2 ^ k" by blast
  obtain j where "unat (ba_block ba) = 2 ^ j" "9 \<le> j" "j \<le> 12" using valid_block [OF v] .
  then show ?thesis using v mem block_dvd_header [OF v] up_to_props(1-3) [OF block_pos [OF v]] by (auto simp: pad_to_block_up [OF v])
qed

text \<open>
  C40: with the instructions of the processor as its manual describes them, the two paths of the checksum
  give the same value for every buffer, wherever it lies.
\<close>

theorem crc_paths_agree:
  assumes "\<forall>c b. crc_u8 c b = crc_bits 8 (c XOR ucast b)"
    and "\<forall>d bs. length bs = 8 \<longrightarrow> crc_u64 d (word_of bs) = ucast (foldl crc_u8 (ucast d) bs)"
  shows "crc32c g_hw crc_u8 crc_u64 addr crc bs = crc32c False crc_u8 crc_u64 addr crc bs"
  using crc_unit.hw_table [of crc_u8 crc_u64 addr crc bs] assms by (simp add: crc32c_def crc_unit_def)

section \<open>A log to try them on\<close>

text \<open>A file in memory, one descriptor, an allocator of aligned buffers.\<close>

definition mem_sys :: "MemFile PwriteBackend SysCalls" where
  "mem_sys = \<lparr>sc_open = (\<lambda>w path flags. (3, w)), sc_close = (\<lambda>w fd. w),
     sc_pwrite = (\<lambda>w fd bs off. let (r, fs) = mem_pwrite (pb_fs w) fd bs off in (r, w\<lparr>pb_fs := fs\<rparr>)),
     sc_pread = (\<lambda>w fd n off. (int (length (take n (drop (nat off) (snd (pb_fs w))))), take n (drop (nat off) (snd (pb_fs w))), w))\<rparr>"

definition demo_align :: "nat \<Rightarrow> nat option" where "demo_align i = Some (4096 * (i + 1))"

definition demo_header :: "u8 list" where
  "demo_header = header_block (segment_header 0 1 7 kSegmentBytes kFallbackBlock BsFallback)"

definition demo_world :: "MemFile PwriteBackend" where
  "demo_world = (pb_new ([], demo_header))\<lparr>pb_fds := [3], pb_bufs := map (\<lambda>i. (4096 * (i + 1), kMaxGroupBytes)) [0..<8]\<rparr>"

definition demo_group :: GroupCommit where
  "demo_group = gc_new\<lparr>gc_buffers := map (\<lambda>i. \<lparr>bs_addr = 4096 * (i + 1), bs_bytes = replicate kMaxGroupBytes 0\<rparr>) [0..<8],
     gc_buf_free := replicate kMaxBuffers True, gc_initialized := True\<rparr>"

definition demo_wal :: Wal where
  "demo_wal = wl_new\<lparr>wl_group := demo_group,
     wl_segment := \<lparr>sg_fd = 3, sg_first_lsn = 1, sg_epoch = 7, sg_capacity = kSegmentBytes, sg_block_size = kFallbackBlock,
                    sg_path = ''./p0_0000000000000001.wal''\<rparr>\<rparr>"

lemma demo_path: "format_segment_path kMaxPathBytes (Some ''.'') 0 1 = (25, ''./p0_0000000000000001.wal'')"
  by code_simp

lemma demo_alloc: "alloc_buffers demo_align kMaxBuffers = Some (map (\<lambda>i. \<lparr>bs_addr = 4096 * (i + 1), bs_bytes = replicate kMaxGroupBytes 0\<rparr>) [0..<8])"
proof -
  have "alloc_buffers demo_align n = Some (map (\<lambda>i. \<lparr>bs_addr = 4096 * (i + 1), bs_bytes = replicate kMaxGroupBytes 0\<rparr>) [0..<n])" for n
    by (induction n) (simp_all add: demo_align_def)
  then show ?thesis by (simp add: kMaxBuffers_def)
qed

lemma register_bufs_all:
  "list_all (\<lambda>m. bs_addr m \<noteq> 0 \<and> bs_bytes m \<noteq> []) ms \<Longrightarrow>
     register_bufs ms b = (kOk, b\<lparr>pb_bufs := pb_bufs b @ map (\<lambda>m. (bs_addr m, length (bs_bytes m))) ms\<rparr>)"
  by (induction ms arbitrary: b) auto

lemma demo_open:
  "wl_open (pwrite_ops mem_pwrite) mem_sys 7 demo_align default_options None wl_new (pb_new ([], [])) = (kOk, demo_wal, demo_world)"
proof -
  have ok: "is_ok kOk" by (simp add: is_ok_def kOk_def)
  have seg: "wl_create mem_sys kFallbackBlock 7 default_options (wl_new\<lparr>wl_group := gc_shutdown gc_new\<rparr>) (pb_new ([], []))
      = (kOk, demo_wal\<lparr>wl_group := gc_shutdown gc_new\<rparr>, pb_new ([], demo_header))"
    using demo_path
    by (simp add: wl_create_def open_create_def default_options_def Let_def sg_close_def wl_new_def sg_new_def open_retry_def mem_sys_def mem_pwrite_def
        file_write_def ok demo_wal_def demo_header_def pb_new_def)
  have mx: "kMaxGroupBytes \<noteq> 0" by (simp add: kMaxGroupBytes_def)
  have reg: "pb_register_buffers b (map (\<lambda>i. \<lparr>bs_addr = 4096 * (i + 1), bs_bytes = replicate kMaxGroupBytes 0\<rparr>) [0..<8])
      = (kOk, b\<lparr>pb_bufs := map (\<lambda>i. (4096 * (i + 1), kMaxGroupBytes)) [0..<8]\<rparr>)" for b :: "MemFile PwriteBackend"
    using mx unfolding pb_register_buffers_def by (subst register_bufs_all) (simp_all add: kMaxRegBuffers_def list_all_iff comp_def)
  have files: "pb_register_files b [3] = (kOk, b\<lparr>pb_fds := [3]\<rparr>)" for b :: "MemFile PwriteBackend"
    by (simp add: pb_register_files_def kMaxFiles_def)
  have grp: "gc_init (pwrite_ops mem_pwrite) demo_align w kFallbackBlock 100000 (gc_shutdown gc_new)
      = (kOk, w\<lparr>pb_bufs := map (\<lambda>i. (4096 * (i + 1), kMaxGroupBytes)) [0..<8]\<rparr>, demo_group)" for w
    using ok reg [of w] by (simp only: gc_init_def Let_def demo_alloc option.case) (simp add: pwrite_ops_def demo_group_def gc_shutdown_def gc_new_def kMaxBuffers_def)
  have close: "wl_close mem_sys wl_new w = (wl_new\<lparr>wl_group := gc_shutdown gc_new\<rparr>, w)" for w
    by (simp add: wl_close_def sg_close_def wl_new_def sg_new_def)
  have opts: "(wl_new\<lparr>wl_group := gc_shutdown gc_new\<rparr>)\<lparr>wl_opts := default_options\<rparr> = wl_new\<lparr>wl_group := gc_shutdown gc_new\<rparr>"
    "wo_block_size default_options = kFallbackBlock" "wo_window_ns default_options = 100000" by (simp_all add: wl_new_def default_options_def)
  show ?thesis
    unfolding wl_open_def close Let_def prod.case opts option.case using fallback_valid seg ok grp files
    by (simp add: demo_wal_def demo_world_def wl_new_def pwrite_ops_def)
qed

definition demo_steps :: "WalOp list" where
  "demo_steps = [OpAppend 1 \<lparr>bs_addr = 0, bs_bytes = [1, 2, 3]\<rparr> 5, OpForce 10, OpReap]"

lemma demo_start:
  "\<forall>i a. demo_align i = Some a \<longrightarrow> 8 dvd a" "pb_live demo_world" "pb_fds demo_world = [sg_fd (wl_segment demo_wal)]" "pb_waiting demo_world = []"
  "take kSegmentHdrBytes (snd (pb_fs demo_world)) = header_block (segment_header 0 1 7 kSegmentBytes (gc_block_size (wl_group demo_wal)) BsFallback)"
  "length (snd (pb_fs demo_world)) < 2 ^ 63"
proof -
  have len: "length demo_header = kSegmentHdrBytes" by (simp add: demo_header_def)
  have w: "pb_fs demo_world = ([], demo_header)" "gc_block_size (wl_group demo_wal) = kFallbackBlock"
    by (simp_all add: demo_world_def pb_new_def demo_wal_def demo_group_def gc_new_def)
  show "\<forall>i a. demo_align i = Some a \<longrightarrow> 8 dvd a" by (auto simp: demo_align_def)
  show "pb_live demo_world" "pb_fds demo_world = [sg_fd (wl_segment demo_wal)]" "pb_waiting demo_world = []"
    by (simp_all add: demo_world_def pb_live_def pb_new_def pb_waiting_def ring_view_def kMaxInflight_def demo_wal_def)
  show "length (snd (pb_fs demo_world)) < 2 ^ 63" using len by (simp add: w kSegmentHdrBytes_def)
  show "take kSegmentHdrBytes (snd (pb_fs demo_world)) = header_block (segment_header 0 1 7 kSegmentBytes (gc_block_size (wl_group demo_wal)) BsFallback)"
    using len by (simp add: w) (simp add: demo_header_def)
qed

theorem durable_survives_witness:
  "case wal_run (pwrite_ops mem_pwrite) demo_steps (demo_wal, demo_world, []) of (wl', w', hist) \<Rightarrow>
     unat (wl_durable_lsn wl') \<le> length hist
     \<and> (\<exists>sr evs sr' more. sr_open sr_new \<lparr>bs_addr = 0, bs_bytes = snd (pb_fs w')\<rparr> 1 = (kOk, sr) \<and> reads sr evs sr'
          \<and> map ev_record evs = take (unat (wl_durable_lsn wl')) hist @ more)"
proof -
  obtain wl' w' hist where run: "wal_run (pwrite_ops mem_pwrite) demo_steps (demo_wal, demo_world, []) = (wl', w', hist)" by (metis prod_cases3)
  have "length demo_steps < 2 ^ 46" by (simp add: demo_steps_def)
  then show ?thesis unfolding run prod.case by (rule durable_survives [OF mem_pwrite_law demo_open demo_start _ run])
qed

definition demo_records :: "LogRecord list list" where
  "demo_records = [[\<lparr>lr_lsn = 1, lr_ts_ns = 5, lr_tmpl = 1, lr_bytes = [1, 2, 3]\<rparr>, \<lparr>lr_lsn = 2, lr_ts_ns = 6, lr_tmpl = 1, lr_bytes = []\<rparr>],
     [\<lparr>lr_lsn = 3, lr_ts_ns = 9, lr_tmpl = 8, lr_bytes = [0]\<rparr>]]"

definition demo_log :: ByteSpan where
  "demo_log = \<lparr>bs_addr = 0, bs_bytes = demo_header @ area_bytes kFallbackBlock 7 demo_records @ []\<rparr>"

lemma demo_log_length: "length (area_bytes kFallbackBlock 7 demo_records) = 8192" "length (bs_bytes demo_log) + 8192 < 2 ^ 64"
proof -
  have "length (rec_of 7 r) = 32 + up_to 8 (length (lr_bytes r))" if "length (lr_bytes r) \<le> 3" for r
    using that record_bytes_up [of "length (lr_bytes r)"] by (simp add: length_rec_of kMaxPayload_def)
  then show a: "length (area_bytes kFallbackBlock 7 demo_records) = 8192"
    by (simp add: area_bytes_def demo_records_def group_image_def up_to_def kFallbackBlock_def)
  show "length (bs_bytes demo_log) + 8192 < 2 ^ 64" by (simp add: demo_log_def a demo_header_def kSegmentHdrBytes_def)
qed

theorem log_reads_back_witness:
  "\<exists>sr evs sr'. sr_open sr_new demo_log 1 = (kOk, sr) \<and> reads sr evs sr' \<and> map ev_record evs = concat demo_records
     \<and> sr_stop_reason sr' = RsClean \<and> sr_resume_offset sr' = 12288"
proof -
  have r: "\<forall>g\<in>set demo_records. g \<noteq> []" "\<forall>r\<in>set (concat demo_records). length (lr_bytes r) \<le> kMaxPayload" "lsn_run 1 (concat demo_records)" "clean_tail []"
    by (simp_all add: demo_records_def kMaxPayload_def clean_tail_def)
  show ?thesis
    using log_reads_back [OF fallback_valid demo_log_def [unfolded demo_header_def] demo_log_length(2) r, of 1] demo_log_length(1)
    by (simp add: kSegmentHdrBytes_def)
qed

theorem reader_terminates_witness:
  "\<exists>sr evs sr'. sr_open sr_new demo_log 1 = (kOk, sr) \<and> reads sr evs sr' \<and> kSegmentHdrBytes + 32 * length evs \<le> 12288"
proof -
  obtain sr where sr: "sr_open sr_new demo_log 1 = (kOk, sr)"
    using open_own_segment [OF fallback_valid, of 1 1 sr_new 0 0 7 kSegmentBytes BsFallback "area_bytes kFallbackBlock 7 demo_records"]
    by (auto simp: demo_log_def demo_header_def)
  have "max kSegmentHdrBytes (length (bs_bytes demo_log)) = 12288" using demo_log_length(1) by (simp add: demo_log_def demo_header_def kSegmentHdrBytes_def)
  with reader_terminates [OF sr demo_log_length(2)] sr show ?thesis by auto
qed

definition demo_reader :: SegmentReader where
  "demo_reader = sr_new\<lparr>sr_mapped := \<lparr>bs_addr = 0, bs_bytes = (rec_of 7 (hd (hd demo_records)))[33 := 9]\<rparr>, sr_offset := 0, sr_epoch := 7\<rparr>"

theorem corrupted_record_refused_witness: "sr_next demo_reader = Some (None, demo_reader\<lparr>sr_stop_reason := RsBadCrc\<rparr>)"
proof -
  let ?r = "hd (hd demo_records)"
  have n: "length (lr_bytes ?r) = 3" "lr_bytes ?r ! 1 = 2" by (simp_all add: demo_records_def)
  have l: "length (rec_of 7 ?r) = 40" using length_rec_of [of ?r 7] record_bytes_up [of 3] n by (simp add: kMaxPayload_def up_to_def)
  show ?thesis
    by (rule corrupted_record_refused [where pre = "[]" and e = 7 and r = ?r and i = 1 and b = 9 and rest = "[]"])
      (use n l fallback_valid in \<open>simp_all add: demo_reader_def sr_ok_def sr_new_def kMaxPayload_def\<close>)
qed

definition demo_failed :: Completion where "demo_failed = \<lparr>cp_token = 1, cp_res = -5, cp_expected = 4096\<rparr>"

definition demo_waiting :: Wal where
  "demo_waiting = demo_wal\<lparr>wl_group := demo_group\<lparr>gc_inflight := (gc_inflight demo_group)[0 := empty_group\<lparr>ig_token := 1, ig_len := 4096, ig_in_use := True\<rparr>],
     gc_tail := 1, gc_inflight_count := 1\<rparr>\<rparr>"

definition demo_answered :: "MemFile PwriteBackend" where
  "demo_answered = demo_world\<lparr>pb_ring := (pb_ring demo_world)[0 := demo_failed], pb_count := 1\<rparr>"

theorem failed_write_stops_log_witness:
  "\<exists>wl' w'. wl_reap (pwrite_ops mem_pwrite) demo_waiting demo_answered = (fail IoError 0, wl', w') \<and> wl_is_halted wl'
     \<and> wl_append (pwrite_ops mem_pwrite) wl' w' 1 \<lparr>bs_addr = 0, bs_bytes = [7]\<rparr> 11 = (Inl (fail IoError 0), wl', w')"
proof -
  have "\<exists>w'. pb_reap_loop (Suc (Suc n)) demo_answered = ([demo_failed], w')" for n by (simp add: demo_answered_def demo_world_def pb_new_def kMaxInflight_def)
  from this [of 30] obtain w' where r: "io_reap (pwrite_ops mem_pwrite) demo_answered kMaxInflight = ([demo_failed], w')"
    by (auto simp: pwrite_ops_def pb_reap_def kMaxInflight_def simp del: pb_reap_loop.simps)
  have g: "\<not> wl_stuck demo_waiting" "gc_initialized (wl_group demo_waiting)" "\<not> cp_ok demo_failed"
    by (simp_all add: demo_waiting_def demo_wal_def demo_group_def wl_stuck_def wl_new_def sg_valid_def demo_failed_def cp_ok_def)
  have i: "empty_group\<lparr>ig_token := 1, ig_len := 4096, ig_in_use := True\<rparr> \<in> set (gc_inflight (wl_group demo_waiting))"
    by (simp add: demo_waiting_def demo_group_def gc_new_def kMaxInflight_def set_update_memI)
  show ?thesis using failed_write_stops_log [OF g(1,2) r _ g(3) i] by (auto simp: demo_failed_def)
qed

theorem alignment_valid_witness:
  "probe_block_align 3 (StatxOk STATX_DIOALIGN 512 4) = Inr \<lparr>ba_block = 512, ba_mem_align = 4, ba_source = BsStatxDioAlign\<rparr> \<and> unat (pad_to_block 700 512) < 700 + 512"
proof -
  have p: "probe_block_align 3 (StatxOk STATX_DIOALIGN 512 4) = Inr \<lparr>ba_block = 512, ba_mem_align = 4, ba_source = BsStatxDioAlign\<rparr>"
    by (simp add: probe_block_align_def aceitar_def STATX_DIOALIGN_def is_valid_block_def kMinBlock_def kMaxBlock_def)
  from alignment_valid [OF p, unfolded BlockAlign.simps]
  have "(700 :: nat) + 4096 < 2 ^ 64 \<longrightarrow> unat (pad_to_block (of_nat 700) 512) < 700 + unat (512 :: u32)" by blast
  with p show ?thesis by simp
qed

theorem crc_paths_agree_witness: "crc32c True sw_u8 sw_u64 3 0 [49, 50, 51, 52, 53, 54, 55, 56, 57] = 0xE3069283"
proof -
  have "crc32c True sw_u8 sw_u64 3 0 bs = crc32c False sw_u8 sw_u64 3 0 bs" for bs
    by (rule crc_paths_agree) (use sse.u64 in \<open>auto simp: sw_u8_def\<close>)
  with crc_check_value show ?thesis by (simp add: crc32c_def)
qed

end
