(* ===== verification/RV_Ingress.thy ===== *)
theory RV_Ingress
  imports RV_Partition RV_Ids
begin

text \<open>
  \<^verbatim>\<open>src/ingress/ingress_pipeline.cpp\<close>: the stream of bytes from the network is cut into messages, and
  every message goes to the ring of the partition of its account, or to all of them.  The buffer is the
  array of the code, with the bytes of earlier messages past the buffered ones.  Reading past the array
  of rings has no result.
\<close>

section \<open>State\<close>

definition kBufferSize :: nat where "kBufferSize = 65536"
definition kMaxPartitions :: nat where "kMaxPartitions = 64"

record SbeMessageHeader =
  mh_block_length :: u16
  mh_template_id :: u16
  mh_schema_id :: u16
  mh_version :: u16

definition message_header_of :: "u8 list \<Rightarrow> SbeMessageHeader" where
  "message_header_of bs =
     \<lparr>mh_block_length = of_nat (load_le 2 bs), mh_template_id = of_nat (load_le 2 (drop 2 bs)),
      mh_schema_id = of_nat (load_le 2 (drop 4 bs)), mh_version = of_nat (load_le 2 (drop 6 bs))\<rparr>"

record IngressStats =
  is_bytes_received :: u64
  is_events_received :: u64
  is_events_routed :: u64
  is_events_broadcast :: u64
  is_backpressure_stalls :: u64
  is_parse_errors :: u64

definition stats_new :: IngressStats where
  "stats_new = \<lparr>is_bytes_received = 0, is_events_received = 0, is_events_routed = 0, is_events_broadcast = 0,
     is_backpressure_stalls = 0, is_parse_errors = 0\<rparr>"

text \<open>An entry of the array of rings that is \<open>None\<close> is the null pointer.\<close>

record IngressPipeline =
  ip_partitioner :: Partitioner
  ip_inboxes :: "IngressFrame SpscRing option list"
  ip_num_inboxes :: nat
  ip_buffer :: "u8 list"
  ip_buffered :: nat
  ip_stats :: IngressStats

definition ip_new :: "IngressFrame SpscRing option list \<Rightarrow> IngressPipeline" where
  "ip_new inboxes =
     \<lparr>ip_partitioner = partitioner (of_nat (length inboxes)),
      ip_inboxes = take kMaxPartitions inboxes @ replicate (kMaxPartitions - length inboxes) None,
      ip_num_inboxes = length inboxes, ip_buffer = replicate kBufferSize 0, ip_buffered = 0, ip_stats = stats_new\<rparr>"

definition ip_reset :: "IngressPipeline \<Rightarrow> IngressPipeline" where
  "ip_reset p = p\<lparr>ip_buffered := 0, ip_stats := stats_new\<rparr>"

definition count_parse_error :: "IngressPipeline \<Rightarrow> IngressPipeline" where
  "count_parse_error p = p\<lparr>ip_stats := (ip_stats p)\<lparr>is_parse_errors := is_parse_errors (ip_stats p) + 1\<rparr>\<rparr>"

definition count_stall :: "IngressPipeline \<Rightarrow> IngressPipeline" where
  "count_stall p = p\<lparr>ip_stats := (ip_stats p)\<lparr>is_backpressure_stalls := is_backpressure_stalls (ip_stats p) + 1\<rparr>\<rparr>"

section \<open>Routing\<close>

text \<open>The identity and version of the schema, and its templates, are those of \<^verbatim>\<open>schema/events.xml\<close>.\<close>

definition kSchemaId :: u16 where "kSchemaId = 1"
definition kSchemaVersion :: u16 where "kSchemaVersion = 1"

definition is_known_template :: "u16 \<Rightarrow> bool" where
  "is_known_template t \<longleftrightarrow> 1 \<le> t \<and> t \<le> 10"

definition is_broadcast :: "u16 \<Rightarrow> bool" where
  "is_broadcast t \<longleftrightarrow> t = 1 \<or> t = 8 \<or> t = 9 \<or> t = 10"

definition set_inbox :: "IngressPipeline \<Rightarrow> nat \<Rightarrow> IngressFrame SpscRing \<Rightarrow> IngressPipeline" where
  "set_inbox p i r = p\<lparr>ip_inboxes := (ip_inboxes p)[i := Some r]\<rparr>"

text \<open>The claimed slot is filled in place and published; the payload of an earlier frame shows past the end of a shorter one.\<close>

definition fill_slot :: "u16 \<Rightarrow> u8 list \<Rightarrow> u64 \<Rightarrow> IngressFrame \<Rightarrow> IngressFrame" where
  "fill_slot tmpl payload now f =
     f\<lparr>if_arrival_ts_ns := now, if_tmpl := tmpl, if_len := length payload, if_payload := payload @ drop (length payload) (if_payload f)\<rparr>"

definition push_frame :: "u16 \<Rightarrow> u8 list \<Rightarrow> u64 \<Rightarrow> nat \<Rightarrow> IngressFrame SpscRing \<Rightarrow> IngressFrame SpscRing" where
  "push_frame tmpl payload now slot r = rg_publish (rg_write r slot (fill_slot tmpl payload now (rg_slots r ! slot)))"

text \<open>The first loop of a broadcast: a slot in every ring, or the first ring that is full.\<close>

primrec claim_all :: "nat list \<Rightarrow> IngressPipeline \<Rightarrow> ((nat + (nat \<times> nat) list) \<times> IngressPipeline) option" where
  "claim_all [] p = Some (Inr [], p)"
| "claim_all (i # js) p =
     (if length (ip_inboxes p) \<le> i then None
      else case ip_inboxes p ! i of
        None \<Rightarrow> claim_all js p
      | Some r \<Rightarrow> (case rg_claim r of
          (None, r') \<Rightarrow> Some (Inl i, set_inbox p i r')
        | (Some s, r') \<Rightarrow> (case claim_all js (set_inbox p i r') of
            None \<Rightarrow> None
          | Some (Inl k, p') \<Rightarrow> Some (Inl k, p')
          | Some (Inr ss, p') \<Rightarrow> Some (Inr ((i, s) # ss), p'))))"

text \<open>The second loop, over the slots.\<close>

primrec push_all :: "u16 \<Rightarrow> u8 list \<Rightarrow> u64 \<Rightarrow> (nat \<times> nat) list \<Rightarrow> IngressPipeline \<Rightarrow> IngressPipeline" where
  "push_all tmpl payload now [] p = p"
| "push_all tmpl payload now (is # ss) p =
     (case ip_inboxes p ! fst is of
        None \<Rightarrow> push_all tmpl payload now ss p
      | Some r \<Rightarrow> push_all tmpl payload now ss (set_inbox p (fst is) (push_frame tmpl payload now (snd is) r)))"

text \<open>Where each message carries its account; \<open>rest\<close> is the buffer after the header.\<close>

definition doc_offset :: "u16 \<Rightarrow> nat" where
  "doc_offset tmpl = (if tmpl = 2 then 16 else if tmpl = 3 then 24 else 8)"

definition doc_raw :: "u16 \<Rightarrow> u8 list \<Rightarrow> u64" where
  "doc_raw tmpl rest = (if 2 \<le> tmpl \<and> tmpl \<le> 7 then of_nat (load_le 8 (drop (doc_offset tmpl) rest)) else 0)"

definition broadcast :: "u16 \<Rightarrow> u8 list \<Rightarrow> u64 \<Rightarrow> IngressPipeline \<Rightarrow> (Status \<times> IngressPipeline) option" where
  "broadcast tmpl payload now p =
     (case claim_all [0..<ip_num_inboxes p] p of
        None \<Rightarrow> None
      | Some (Inl i, p1) \<Rightarrow> Some (fail WouldBlock (of_nat i), count_stall p1)
      | Some (Inr ss, p1) \<Rightarrow>
          let p2 = push_all tmpl payload now ss p1 in
          Some (kOk, p2\<lparr>ip_stats := (ip_stats p2)\<lparr>is_events_broadcast := is_events_broadcast (ip_stats p2) + 1\<rparr>\<rparr>))"

definition route_one :: "u16 \<Rightarrow> u8 list \<Rightarrow> u64 \<Rightarrow> nat \<Rightarrow> IngressPipeline \<Rightarrow> (Status \<times> IngressPipeline) option" where
  "route_one tmpl payload now i p =
     (if ip_num_inboxes p \<le> i then Some (fail OutOfRange (of_nat i), count_parse_error p)
      else if length (ip_inboxes p) \<le> i then None
      else case ip_inboxes p ! i of
        None \<Rightarrow> Some (fail OutOfRange (of_nat i), count_parse_error p)
      | Some r \<Rightarrow> (case rg_claim r of
          (None, r') \<Rightarrow> Some (fail WouldBlock (of_nat i), count_stall (set_inbox p i r'))
        | (Some s, r') \<Rightarrow>
            let p1 = set_inbox p i (push_frame tmpl payload now s r') in
            Some (kOk, p1\<lparr>ip_stats := (ip_stats p1)\<lparr>is_events_routed := is_events_routed (ip_stats p1) + 1\<rparr>\<rparr>)))"

definition route_and_dispatch :: "SbeMessageHeader \<Rightarrow> u8 list \<Rightarrow> u64 \<Rightarrow> IngressPipeline \<Rightarrow> (Status \<times> IngressPipeline) option" where
  "route_and_dispatch hdr rest now p =
     (let tmpl = mh_template_id hdr; payload = take (unat (mh_block_length hdr)) rest in
      if \<not> is_known_template tmpl then Some (fail UnknownTemplate (ucast tmpl), count_parse_error p)
      else if is_broadcast tmpl then broadcast tmpl payload now p
      else route_one tmpl payload now (unat (partition_of (ip_partitioner p) (doc_raw tmpl rest))) p)"

section \<open>Framing\<close>

definition count_event :: "IngressPipeline \<Rightarrow> IngressPipeline" where
  "count_event p = p\<lparr>ip_stats := (ip_stats p)\<lparr>is_events_received := is_events_received (ip_stats p) + 1\<rparr>\<rparr>"

definition slide :: "nat \<Rightarrow> nat \<Rightarrow> IngressPipeline \<Rightarrow> IngressPipeline" where
  "slide nbytes rem p = p\<lparr>ip_buffer := take rem (drop nbytes (ip_buffer p)) @ drop rem (ip_buffer p), ip_buffered := rem\<rparr>"

text \<open>The loop of \<^verbatim>\<open>feed\<close>; routing leaves the count of buffered bytes alone.\<close>

function feed_loop :: "u64 \<Rightarrow> Status \<Rightarrow> IngressPipeline \<Rightarrow> (Status \<times> IngressPipeline) option" where
  "feed_loop now lst p =
     (if ip_buffered p < 8 then Some (lst, p)
      else let hdr = message_header_of (ip_buffer p); nbytes = 8 + unat (mh_block_length hdr) in
      if mh_schema_id hdr \<noteq> kSchemaId \<or> mh_version hdr \<noteq> kSchemaVersion then
        Some (fail UnknownTemplate (ucast (mh_template_id hdr)), (count_parse_error p)\<lparr>ip_buffered := 0\<rparr>)
      else if kMaxIngressPayload < unat (mh_block_length hdr) then
        Some (fail ShortPayload (ucast (mh_block_length hdr)), (count_parse_error p)\<lparr>ip_buffered := 0\<rparr>)
      else if ip_buffered p < nbytes then Some (lst, p)
      else case route_and_dispatch hdr (drop 8 (ip_buffer p)) now p of
        None \<Rightarrow> None
      | Some (st, p1) \<Rightarrow>
          if code st = WouldBlock then Some (st, p1)
          else feed_loop now (if is_error st then st else lst) (slide nbytes (ip_buffered p - nbytes) (count_event p1)))"
  by pat_completeness auto
termination
  by (relation "measure (\<lambda>(now, lst, p). ip_buffered p)") (auto simp: slide_def)

declare feed_loop.simps [simp del]

definition feed :: "IngressPipeline \<Rightarrow> u8 list \<Rightarrow> u64 \<Rightarrow> (Status \<times> IngressPipeline) option" where
  "feed p chunk now =
     (let p1 = p\<lparr>ip_stats := (ip_stats p)\<lparr>is_bytes_received := is_bytes_received (ip_stats p) + of_nat (length chunk)\<rparr>\<rparr> in
      if kBufferSize < ip_buffered p1 + length chunk then Some (fail OutOfRange 0, count_parse_error p1)
      else feed_loop now kOk
        (p1\<lparr>ip_buffer := take (ip_buffered p1) (ip_buffer p1) @ chunk @ drop (ip_buffered p1 + length chunk) (ip_buffer p1),
            ip_buffered := ip_buffered p1 + length chunk\<rparr>))"

definition finish :: "IngressPipeline \<Rightarrow> Status \<times> IngressPipeline" where
  "finish p =
     (if ip_buffered p = 0 then (kOk, p)
      else (fail ShortPayload (of_nat (ip_buffered p)), (count_parse_error p)\<lparr>ip_buffered := 0\<rparr>))"

end
