(* ===== verification/RV_Ingress_Laws.thy ===== *)
theory RV_Ingress_Laws
  imports RV_Ingress
begin

text \<open>
  What the pipeline does with a stream of well-formed messages, however the network cuts it: every
  complete message reaches the rings it is for, in order, and the bytes of an incomplete one wait.
\<close>

section \<open>Messages\<close>

record Message =
  ms_tmpl :: u16
  ms_payload :: "u8 list"

definition message_bytes :: "Message \<Rightarrow> u8 list" where
  "message_bytes m = store_le 2 (length (ms_payload m)) @ store_le 2 (unat (ms_tmpl m)) @ store_le 2 1 @ store_le 2 1 @ ms_payload m"

text \<open>Long enough to hold the account when it is routed by it.\<close>

definition message_ok :: "Message \<Rightarrow> bool" where
  "message_ok m \<longleftrightarrow> is_known_template (ms_tmpl m) \<and> length (ms_payload m) \<le> kMaxIngressPayload
     \<and> (\<not> is_broadcast (ms_tmpl m) \<longrightarrow> doc_offset (ms_tmpl m) + 8 \<le> length (ms_payload m))"

definition goes_to :: "nat \<Rightarrow> Message \<Rightarrow> nat \<Rightarrow> bool" where
  "goes_to n m i \<longleftrightarrow> is_broadcast (ms_tmpl m) \<or> unat (partition_of (partitioner (of_nat n)) (doc_raw (ms_tmpl m) (ms_payload m))) = i"

definition incomplete :: "u8 list \<Rightarrow> bool" where
  "incomplete xs \<longleftrightarrow> length xs < 8 \<or> (\<exists>m ys. message_ok m \<and> ys \<noteq> [] \<and> xs @ ys = message_bytes m)"

lemma length_message: "length (message_bytes m) = 8 + length (ms_payload m)"
  by (simp add: message_bytes_def del: store_le.simps)

lemma load_le_append: "n \<le> length xs \<Longrightarrow> load_le n (xs @ ys) = load_le n xs"
proof (induction n arbitrary: xs)
  case (Suc n)
  then show ?case by (cases xs) auto
qed simp

lemma header_append: "8 \<le> length xs \<Longrightarrow> message_header_of (xs @ ys) = message_header_of xs"
  by (simp add: message_header_of_def load_le_append del: load_le.simps)

lemma load_u16: "unat (w :: u16) < 256 ^ 2" "n < 65536 \<Longrightarrow> load_le 2 (store_le 2 n @ ys) = n"
  using unsigned_less [of w, where 'a = nat] load_store_le [of n 2 ys] by simp_all

lemma header_of_message:
  assumes "length (ms_payload m) \<le> kMaxIngressPayload"
  shows "message_header_of (message_bytes m @ ys)
    = \<lparr>mh_block_length = of_nat (length (ms_payload m)), mh_template_id = ms_tmpl m, mh_schema_id = 1, mh_version = 1\<rparr>"
proof -
  have "length (ms_payload m) < 65536" "unat (ms_tmpl m) < 65536" using assms load_u16(1) [of "ms_tmpl m"] by (simp_all add: kMaxIngressPayload_def)
  then show ?thesis by (simp add: message_header_of_def message_bytes_def load_u16(2) del: store_le.simps load_le.simps)
qed

lemma doc_raw_append: "message_ok m \<Longrightarrow> \<not> is_broadcast (ms_tmpl m) \<Longrightarrow> doc_raw (ms_tmpl m) (ms_payload m @ ys) = doc_raw (ms_tmpl m) (ms_payload m)"
proof -
  assume m: "message_ok m" "\<not> is_broadcast (ms_tmpl m)"
  then have "8 \<le> length (drop (doc_offset (ms_tmpl m)) (ms_payload m))" by (auto simp: message_ok_def)
  from load_le_append [OF this, of ys] m show ?thesis by (simp add: doc_raw_def message_ok_def del: load_le.simps)
qed

section \<open>One ring\<close>

definition frame_view :: "IngressFrame \<Rightarrow> u64 \<times> u16 \<times> u8 list" where
  "frame_view f = (if_arrival_ts_ns f, if_tmpl f, take (if_len f) (if_payload f))"

text \<open>The counter of the ring has room for \<open>k\<close> more frames before it wraps.\<close>

definition inbox_ok :: "nat \<Rightarrow> IngressFrame SpscRing \<Rightarrow> bool" where
  "inbox_ok k r \<longleftrightarrow> rg_inv r \<and> list_all frame_ok (rg_items r) \<and> unat (rg_head r) + k < 2 ^ 64"

definition inbox_full :: "IngressFrame SpscRing \<Rightarrow> bool" where
  "inbox_full r \<longleftrightarrow> length (rg_items r) = length (rg_slots r)"

text \<open>A ring after a claim, after one that got slot \<open>s\<close>, and after frames were pushed.\<close>

definition kept :: "IngressFrame SpscRing \<Rightarrow> IngressFrame SpscRing \<Rightarrow> bool" where
  "kept r r' \<longleftrightarrow> rg_inv r' \<and> rg_items r' = rg_items r \<and> rg_slots r' = rg_slots r \<and> rg_head r' = rg_head r"

definition claimed :: "nat \<Rightarrow> IngressFrame SpscRing \<Rightarrow> IngressFrame SpscRing \<Rightarrow> bool" where
  "claimed s r r' \<longleftrightarrow> kept r r' \<and> s = unat (rg_head r) mod length (rg_slots r) \<and> unat (rg_head r') < unat (rg_tail_cache r') + length (rg_slots r')"

definition delivered :: "(u64 \<times> u16 \<times> u8 list) list \<Rightarrow> nat \<Rightarrow> IngressFrame SpscRing \<Rightarrow> IngressFrame SpscRing \<Rightarrow> bool" where
  "delivered vs k r r' \<longleftrightarrow> inbox_ok k r' \<and> length (rg_slots r') = length (rg_slots r) \<and> map frame_view (rg_items r') = map frame_view (rg_items r) @ vs"

lemma claim_any:
  assumes "inbox_ok k r" and "rg_claim r = (c, r')"
  shows "kept r r'" and "c = Some s \<Longrightarrow> claimed s r r'" and "c = None \<Longrightarrow> inbox_full r"
proof -
  have inv: "rg_inv r" using assms(1) by (simp add: inbox_ok_def)
  note c = rg_claim_spec [OF inv assms(2)]
  show "kept r r'" using c(1-4) by (simp add: kept_def)
  with c show "c = Some s \<Longrightarrow> claimed s r r'" "c = None \<Longrightarrow> inbox_full r" by (simp_all add: claimed_def inbox_full_def split: if_splits)
qed

lemma kept_delivers: "inbox_ok (Suc k) r \<Longrightarrow> kept r r' \<Longrightarrow> delivered [] (Suc k) r r'"
  by (simp add: delivered_def inbox_ok_def kept_def)

lemma push_delivers:
  assumes "inbox_ok (Suc k) r" and "claimed s r r'" and "length pl \<le> kMaxIngressPayload"
  shows "delivered [(now, t, pl)] k r (push_frame t pl now s r')"
proof -
  let ?x = "fill_slot t pl now (rg_slots r' ! s)" and ?r = "push_frame t pl now s r'"
  have c: "rg_inv r'" "rg_items r' = rg_items r" "rg_slots r' = rg_slots r" "rg_head r' = rg_head r"
    "unat (rg_head r') < unat (rg_tail_cache r') + length (rg_slots r')" "s = unat (rg_head r') mod length (rg_slots r')"
    using assms(2) unfolding claimed_def kept_def by metis+
  have h: "unat (rg_head r') + 1 < 2 ^ 64" using assms(1) c(4) by (simp add: inbox_ok_def)
  have p: "rg_inv ?r" "rg_items ?r = rg_items r' @ [?x]"
    using rg_produce(2,3) [OF c(1) c(5) h c(6), of ?x] by (simp_all add: push_frame_def)
  have x: "frame_ok ?x" "frame_view ?x = (now, t, pl)" using assms(3) by (simp_all add: fill_slot_def frame_ok_def frame_view_def)
  have "unat (rg_head ?r) = unat (rg_head r) + 1" "length (rg_slots ?r) = length (rg_slots r)"
    using c(3,4) h by (simp_all add: push_frame_def rg_publish_def rg_write_def unat_word_ariths)
  with p x assms(1) c(2) show ?thesis by (simp add: delivered_def inbox_ok_def)
qed

lemma delivered_trans: "delivered vs j r r1 \<Longrightarrow> delivered ws k r1 r2 \<Longrightarrow> delivered (vs @ ws) k r r2"
  by (simp add: delivered_def)

lemma delivered_length: "delivered vs k r r' \<Longrightarrow> length (rg_items r') = length (rg_items r) + length vs"
  by (metis delivered_def length_append length_map)

section \<open>All rings\<close>

definition ip_ok :: "IngressPipeline \<Rightarrow> bool" where
  "ip_ok p \<longleftrightarrow> length (ip_inboxes p) = kMaxPartitions \<and> ip_num_inboxes p \<le> kMaxPartitions \<and> is_valid_count (of_nat (ip_num_inboxes p))
     \<and> ip_partitioner p = partitioner (of_nat (ip_num_inboxes p)) \<and> length (ip_buffer p) = kBufferSize \<and> ip_buffered p \<le> kBufferSize"

definition inboxes_ok :: "nat \<Rightarrow> IngressPipeline \<Rightarrow> bool" where
  "inboxes_ok k p \<longleftrightarrow> (\<forall>i<ip_num_inboxes p. \<exists>r. ip_inboxes p ! i = Some r \<and> inbox_ok k r)"

text \<open>Only rings and counters differ.\<close>

definition same_framing :: "IngressPipeline \<Rightarrow> IngressPipeline \<Rightarrow> bool" where
  "same_framing p p' \<longleftrightarrow> length (ip_inboxes p') = length (ip_inboxes p) \<and> ip_num_inboxes p' = ip_num_inboxes p
     \<and> ip_partitioner p' = ip_partitioner p \<and> ip_buffer p' = ip_buffer p \<and> ip_buffered p' = ip_buffered p"

lemma set_inbox_fields [simp]:
  "ip_inboxes (set_inbox p i r) = (ip_inboxes p)[i := Some r]" "same_framing p (set_inbox p' i r) = same_framing p p'"
  "same_framing (set_inbox p i r) p' = same_framing p p'"
  by (simp_all add: set_inbox_def same_framing_def)

lemma same_framing_refl [simp]: "same_framing p p"
  by (simp add: same_framing_def)

lemma count_stall_fields [simp]: "ip_inboxes (count_stall p) = ip_inboxes p" "same_framing p (count_stall p') = same_framing p p'"
  by (simp_all add: count_stall_def same_framing_def)

text \<open>How the rings of \<open>js\<close> stand after the claims.\<close>

definition claims :: "nat list \<Rightarrow> IngressPipeline \<Rightarrow> nat + (nat \<times> nat) list \<Rightarrow> IngressPipeline \<Rightarrow> bool" where
  "claims js p x p' \<longleftrightarrow> same_framing p p' \<and> (\<forall>i\<in>set js. \<exists>r r'. ip_inboxes p ! i = Some r \<and> ip_inboxes p' ! i = Some r' \<and> kept r r')
    \<and> (\<forall>i. i \<notin> set js \<longrightarrow> ip_inboxes p' ! i = ip_inboxes p ! i)
    \<and> (case x of Inl i \<Rightarrow> i \<in> set js \<and> (\<exists>r. ip_inboxes p ! i = Some r \<and> inbox_full r)
       | Inr ss \<Rightarrow> map fst ss = js \<and> (\<forall>(i, s)\<in>set ss. \<exists>r r'. ip_inboxes p ! i = Some r \<and> ip_inboxes p' ! i = Some r' \<and> claimed s r r'))"

lemma kept_refl: "inbox_ok k r \<Longrightarrow> kept r r"
  by (simp add: kept_def inbox_ok_def)

lemma claims_full:
  assumes "i < length (ip_inboxes p)" and "ip_inboxes p ! i = Some r" and "kept r r'" and "inbox_full r" and "i \<notin> set js"
    and "\<forall>j\<in>set js. \<exists>r. ip_inboxes p ! j = Some r \<and> inbox_ok k r"
  shows "claims (i # js) p (Inl i) (set_inbox p i r')"
  using assms kept_refl by (fastforce simp: claims_def nth_list_update)

lemma claims_Cons:
  assumes "claims js (set_inbox p i r') x p'" and "i < length (ip_inboxes p)" and "ip_inboxes p ! i = Some r" and "claimed s r r'" and "i \<notin> set js"
  shows "claims (i # js) p (case x of Inl k \<Rightarrow> Inl k | Inr ss \<Rightarrow> Inr ((i, s) # ss)) p'"
proof -
  have other: "ip_inboxes (set_inbox p i r') ! j = ip_inboxes p ! j" if "j \<in> set js" for j using that assms(5) by (cases "j = i") auto
  have i: "ip_inboxes p' ! i = Some r'" using assms(1,2,5) by (simp add: claims_def)
  have "kept r r'" using assms(4) by (simp add: claimed_def)
  moreover have "j \<noteq> i" if "x = Inr ss" "(j, t) \<in> set ss" for ss j t using that assms(1,5) by (force simp: claims_def)
  moreover have "j \<in> set js" if "x = Inr ss" "(j, t) \<in> set ss" for ss j t using that assms(1) by (force simp: claims_def)
  ultimately show ?thesis using assms(1,3,4) i other by (cases x) (fastforce simp: claims_def)+
qed

lemma claim_all_any:
  assumes "distinct js" and "\<forall>i\<in>set js. i < length (ip_inboxes p) \<and> (\<exists>r. ip_inboxes p ! i = Some r \<and> inbox_ok k r)"
  shows "\<exists>x p'. claim_all js p = Some (x, p') \<and> claims js p x p'"
  using assms
proof (induction js arbitrary: p)
  case Nil
  then show ?case by (simp add: claims_def)
next
  case (Cons i js)
  obtain r where r: "ip_inboxes p ! i = Some r" "inbox_ok k r" and i: "i < length (ip_inboxes p)" using Cons.prems(2) by auto
  have ni: "i \<notin> set js" "distinct js" using Cons.prems(1) by auto
  obtain c r' where c: "rg_claim r = (c, r')" by fastforce
  note cl = claim_any [OF r(2) c]
  show ?case
  proof (cases c)
    case None
    then have "claim_all (i # js) p = Some (Inl i, set_inbox p i r')" using i r(1) c by simp
    moreover have "claims (i # js) p (Inl i) (set_inbox p i r')" using claims_full [OF i r(1) cl(1) cl(3) [OF None] ni(1)] Cons.prems(2) by auto
    ultimately show ?thesis by blast
  next
    case (Some s)
    let ?p = "set_inbox p i r'"
    have "\<forall>j\<in>set js. j < length (ip_inboxes ?p) \<and> (\<exists>r. ip_inboxes ?p ! j = Some r \<and> inbox_ok k r)"
      using Cons.prems(2) ni(1) by (auto simp: nth_list_update)
    from Cons.IH [OF ni(2) this] obtain x p' where h: "claim_all js ?p = Some (x, p')" "claims js ?p x p'" by blast
    have "claim_all (i # js) p = Some (case x of Inl k \<Rightarrow> Inl k | Inr ss \<Rightarrow> Inr ((i, s) # ss), p')" using i r(1) c Some h(1) by (simp split: sum.splits)
    then show ?thesis using claims_Cons [OF h(2) i r(1) cl(2) [OF Some] ni(1)] by blast
  qed
qed

lemma push_all_puts:
  assumes "distinct (map fst ss)" and "\<forall>(i, s)\<in>set ss. i < length (ip_inboxes p) \<and> ip_inboxes p ! i \<noteq> None"
  shows "same_framing p (push_all t pl now ss p)
    \<and> (\<forall>(i, s)\<in>set ss. ip_inboxes (push_all t pl now ss p) ! i = Some (push_frame t pl now s (the (ip_inboxes p ! i))))
    \<and> (\<forall>i. i \<notin> fst ` set ss \<longrightarrow> ip_inboxes (push_all t pl now ss p) ! i = ip_inboxes p ! i)"
  using assms
proof (induction ss arbitrary: p)
  case (Cons x ss)
  obtain i s where x: "x = (i, s)" by (cases x)
  obtain r where r: "ip_inboxes p ! i = Some r" and i: "i < length (ip_inboxes p)" using Cons.prems(2) x by auto
  let ?p = "set_inbox p i (push_frame t pl now s r)"
  have "\<forall>(j, s)\<in>set ss. j < length (ip_inboxes ?p) \<and> ip_inboxes ?p ! j \<noteq> None"
    using Cons.prems(2) i by (fastforce simp: nth_list_update)
  note h = Cons.IH [OF _ this]
  have ni: "i \<notin> fst ` set ss" and d: "distinct (map fst ss)" using Cons.prems(1) x by auto
  have e: "push_all t pl now (x # ss) p = push_all t pl now ss ?p" using r x by simp
  have "same_framing p (push_all t pl now ss ?p)" using h [OF d] by (simp add: same_framing_def set_inbox_def)
  moreover have "ip_inboxes (push_all t pl now ss ?p) ! j = Some (push_frame t pl now u (the (ip_inboxes p ! j)))" if "(j, u) \<in> set (x # ss)" for j u
  proof (cases "(j, u) \<in> set ss")
    case True
    then have "j \<noteq> i" using ni by force
    moreover have "ip_inboxes (push_all t pl now ss ?p) ! j = Some (push_frame t pl now u (the (ip_inboxes ?p ! j)))" using h [OF d] True by blast
    ultimately show ?thesis by simp
  next
    case False
    then have "j = i" "u = s" using that x by auto
    moreover have "ip_inboxes (push_all t pl now ss ?p) ! i = ip_inboxes ?p ! i" using h [OF d] ni by blast
    ultimately show ?thesis using r i by simp
  qed
  moreover have "\<forall>j. j \<notin> fst ` set (x # ss) \<longrightarrow> ip_inboxes (push_all t pl now ss ?p) ! j = ip_inboxes p ! j"
    using h [OF d] x by (simp add: nth_list_update)
  ultimately show ?case unfolding e by blast
qed simp

section \<open>One message\<close>

definition frames_for :: "nat \<Rightarrow> u64 \<Rightarrow> nat \<Rightarrow> Message list \<Rightarrow> (u64 \<times> u16 \<times> u8 list) list" where
  "frames_for n now i ms = map (\<lambda>m. (now, ms_tmpl m, ms_payload m)) (filter (\<lambda>m. goes_to n m i) ms)"

definition rings_get :: "u64 \<Rightarrow> Message list \<Rightarrow> nat \<Rightarrow> IngressPipeline \<Rightarrow> IngressPipeline \<Rightarrow> bool" where
  "rings_get now ms k p p' \<longleftrightarrow> (\<forall>i<ip_num_inboxes p. \<exists>r r'. ip_inboxes p ! i = Some r \<and> ip_inboxes p' ! i = Some r'
     \<and> delivered (frames_for (ip_num_inboxes p) now i ms) k r r')"

text \<open>A ring the message is for is full.\<close>

definition blocked :: "Message \<Rightarrow> IngressPipeline \<Rightarrow> bool" where
  "blocked m p \<longleftrightarrow> (\<exists>i<ip_num_inboxes p. goes_to (ip_num_inboxes p) m i \<and> (\<exists>r. ip_inboxes p ! i = Some r \<and> inbox_full r))"

text \<open>The message is in its rings, or it is refused and nothing else changed.\<close>

definition handed_over :: "u64 \<Rightarrow> Message \<Rightarrow> nat \<Rightarrow> IngressPipeline \<Rightarrow> Status \<times> IngressPipeline \<Rightarrow> bool" where
  "handed_over now m k p res \<longleftrightarrow> same_framing p (snd res)
     \<and> (fst res = kOk \<and> rings_get now [m] k p (snd res) \<or> code (fst res) = WouldBlock \<and> rings_get now [] (Suc k) p (snd res) \<and> blocked m (snd res))"

lemma rings_kept:
  assumes "inboxes_ok (Suc k) p" and "\<forall>i<ip_num_inboxes p. \<exists>r r'. ip_inboxes p ! i = Some r \<and> ip_inboxes p' ! i = Some r' \<and> kept r r'"
  shows "rings_get now [] (Suc k) p p'"
  using assms kept_delivers unfolding rings_get_def inboxes_ok_def by (fastforce simp: frames_for_def)

lemma pushes_deliver:
  assumes "ip_ok p" and "inboxes_ok (Suc k) p" and "is_broadcast (ms_tmpl m)" and "length (ms_payload m) \<le> kMaxIngressPayload"
    and "claims [0..<ip_num_inboxes p] p (Inr ss) p1" and "p2 = push_all (ms_tmpl m) (ms_payload m) now ss p1"
  shows "same_framing p p2" and "rings_get now [m] k p p2"
proof -
  let ?n = "ip_num_inboxes p" and ?push = "push_frame (ms_tmpl m) (ms_payload m) now"
  have fr: "same_framing p p1" and fst: "map fst ss = [0..<?n]"
    and cl: "\<forall>(i, s)\<in>set ss. \<exists>r r'. ip_inboxes p ! i = Some r \<and> ip_inboxes p1 ! i = Some r' \<and> claimed s r r'"
    using assms(5) by (simp_all add: claims_def)
  have img: "fst ` set ss = {0..<?n}" using arg_cong [OF fst, of set] by simp
  have dist: "distinct (map fst ss)" using fst by simp
  have "\<forall>(i, s)\<in>set ss. i < length (ip_inboxes p1) \<and> ip_inboxes p1 ! i \<noteq> None"
  proof clarify
    fix i s
    assume s: "(i, s) \<in> set ss"
    then have "i \<in> {0..<?n}" unfolding img [symmetric] by force
    moreover obtain r' where "ip_inboxes p1 ! i = Some r'" using cl s by blast
    ultimately show "i < length (ip_inboxes p1) \<and> ip_inboxes p1 ! i \<noteq> None" using fr assms(1) by (simp add: same_framing_def ip_ok_def)
  qed
  note puts = push_all_puts [OF dist this, of "ms_tmpl m" "ms_payload m" now, folded assms(6)]
  show "same_framing p p2" using fr puts by (simp add: same_framing_def)
  have "\<exists>r r'. ip_inboxes p ! i = Some r \<and> ip_inboxes p2 ! i = Some r' \<and> delivered (frames_for ?n now i [m]) k r r'" if i: "i < ?n" for i
  proof -
    have "i \<in> fst ` set ss" using img i by simp
    then obtain s where s: "(i, s) \<in> set ss" by auto
    then obtain r r1 where r: "ip_inboxes p ! i = Some r" "ip_inboxes p1 ! i = Some r1" "claimed s r r1" using cl by blast
    have "inbox_ok (Suc k) r" using assms(2) i r(1) by (auto simp: inboxes_ok_def)
    from push_delivers [OF this r(3) assms(4)] have "delivered (frames_for ?n now i [m]) k r (?push s r1)" using assms(3) by (simp add: frames_for_def goes_to_def)
    moreover have "ip_inboxes p2 ! i = Some (?push s (the (ip_inboxes p1 ! i)))" using puts s by blast
    ultimately show ?thesis using r(1,2) by auto
  qed
  then show "rings_get now [m] k p p2" by (simp add: rings_get_def)
qed

lemma broadcast_hands_over:
  assumes "ip_ok p" and "inboxes_ok (Suc k) p" and "is_broadcast (ms_tmpl m)" and "length (ms_payload m) \<le> kMaxIngressPayload"
  shows "\<exists>res. broadcast (ms_tmpl m) (ms_payload m) now p = Some res \<and> handed_over now m k p res"
proof -
  let ?n = "ip_num_inboxes p"
  have "\<forall>i\<in>set [0..<?n]. i < length (ip_inboxes p) \<and> (\<exists>r. ip_inboxes p ! i = Some r \<and> inbox_ok (Suc k) r)"
    using assms(1,2) by (auto simp: inboxes_ok_def ip_ok_def)
  from claim_all_any [OF distinct_upt this] obtain x p1 where c: "claim_all [0..<?n] p = Some (x, p1)" "claims [0..<?n] p x p1" by blast
  have fr: "same_framing p p1" and kept: "\<forall>i<?n. \<exists>r r'. ip_inboxes p ! i = Some r \<and> ip_inboxes p1 ! i = Some r' \<and> kept r r'"
    using c(2) by (simp_all add: claims_def)
  show ?thesis
  proof (cases x)
    case (Inl i)
    then obtain r where i: "i < ?n" "ip_inboxes p ! i = Some r" "inbox_full r" using c(2) by (auto simp: claims_def)
    then obtain r' where "ip_inboxes p1 ! i = Some r'" "kept r r'" using kept by fastforce
    then have "blocked m (count_stall p1)" using i fr assms(3) by (auto simp: blocked_def same_framing_def inbox_full_def kept_def count_stall_def goes_to_def)
    moreover have "broadcast (ms_tmpl m) (ms_payload m) now p = Some (fail WouldBlock (of_nat i), count_stall p1)" using c(1) Inl by (simp add: broadcast_def)
    moreover have "rings_get now [] (Suc k) p (count_stall p1)" using rings_kept [OF assms(2)] kept by simp
    ultimately show ?thesis using fr by (simp add: handed_over_def fail_def)
  next
    case (Inr ss)
    define p2 where "p2 = push_all (ms_tmpl m) (ms_payload m) now ss p1"
    define p' where "p' = p2\<lparr>ip_stats := (ip_stats p2)\<lparr>is_events_broadcast := is_events_broadcast (ip_stats p2) + 1\<rparr>\<rparr>"
    note d = pushes_deliver [OF assms c(2) [unfolded Inr] p2_def]
    have "broadcast (ms_tmpl m) (ms_payload m) now p = Some (kOk, p')" using c(1) Inr by (simp add: broadcast_def p'_def p2_def Let_def)
    moreover have "same_framing p p'" "rings_get now [m] k p p'" using d by (simp_all add: same_framing_def rings_get_def p'_def)
    ultimately show ?thesis by (simp add: handed_over_def)
  qed
qed

lemma inbox_ok_Suc: "inbox_ok (Suc k) r \<Longrightarrow> inbox_ok k r"
  by (simp add: inbox_ok_def)

lemma route_one_hands_over:
  assumes "ip_ok p" and "inboxes_ok (Suc k) p" and "\<not> is_broadcast (ms_tmpl m)" and "length (ms_payload m) \<le> kMaxIngressPayload"
    and "j = unat (partition_of (ip_partitioner p) (doc_raw (ms_tmpl m) (ms_payload m)))"
  shows "\<exists>res. route_one (ms_tmpl m) (ms_payload m) now j p = Some res \<and> handed_over now m k p res"
proof -
  let ?n = "ip_num_inboxes p" and ?push = "push_frame (ms_tmpl m) (ms_payload m) now"
  have pt: "ip_partitioner p = partitioner (of_nat ?n)" and n: "?n \<le> 64" and len: "length (ip_inboxes p) = 64"
    using assms(1) by (simp_all add: ip_ok_def kMaxPartitions_def)
  have g: "goes_to ?n m i = (i = j)" for i using assms(3,5) pt by (auto simp: goes_to_def)
  have j: "j < ?n"
  proof -
    have "unat (of_nat ?n :: u32) = ?n" using n by (simp add: unat_of_nat take_bit_nat_eq_self)
    then show ?thesis using partition_of_in_range [of "of_nat ?n"] assms(1,5) pt by (simp add: ip_ok_def)
  qed
  obtain r where r: "ip_inboxes p ! j = Some r" "inbox_ok (Suc k) r" using assms(2) j by (auto simp: inboxes_ok_def)
  obtain c r1 where c: "rg_claim r = (c, r1)" by fastforce
  note cl = claim_any [OF r(2) c]
  have other: "\<exists>q. ip_inboxes p ! i = Some q \<and> inbox_ok (Suc k) q" if "i < ?n" for i using assms(2) that by (simp add: inboxes_ok_def)
  show ?thesis
  proof (cases c)
    case None
    let ?p = "set_inbox p j r1"
    have "route_one (ms_tmpl m) (ms_payload m) now j p = Some (fail WouldBlock (of_nat j), count_stall ?p)"
      using j n len r(1) c None by (simp add: route_one_def)
    moreover have "\<exists>q q'. ip_inboxes p ! i = Some q \<and> ip_inboxes ?p ! i = Some q' \<and> kept q q'" if "i < ?n" for i
      using other [OF that] kept_refl r(1) cl(1) j n len by (cases "i = j") auto
    then have "rings_get now [] (Suc k) p (count_stall ?p)" using rings_kept [OF assms(2)] by simp
    moreover have "blocked m (count_stall ?p)"
      using j n len g cl(1) cl(3) [OF None] by (auto simp: blocked_def count_stall_def set_inbox_def inbox_full_def kept_def)
    ultimately show ?thesis by (simp add: handed_over_def fail_def)
  next
    case (Some s)
    define p1 where "p1 = set_inbox p j (?push s r1)"
    define p' where "p' = p1\<lparr>ip_stats := (ip_stats p1)\<lparr>is_events_routed := is_events_routed (ip_stats p1) + 1\<rparr>\<rparr>"
    have "route_one (ms_tmpl m) (ms_payload m) now j p = Some (kOk, p')"
      using j n len r(1) c Some by (simp add: route_one_def p'_def p1_def Let_def)
    moreover have "same_framing p p'" by (simp add: same_framing_def p'_def p1_def set_inbox_def)
    moreover have "\<exists>q q'. ip_inboxes p ! i = Some q \<and> ip_inboxes p' ! i = Some q' \<and> delivered (frames_for ?n now i [m]) k q q'" if i: "i < ?n" for i
    proof (cases "i = j")
      case True
      have "delivered (frames_for ?n now j [m]) k r (?push s r1)" using push_delivers [OF r(2) cl(2) [OF Some] assms(4)] g by (simp add: frames_for_def)
      then show ?thesis using r(1) True j n len by (simp add: p'_def p1_def)
    next
      case False
      then show ?thesis using other [OF i] inbox_ok_Suc g by (auto simp: p'_def p1_def delivered_def frames_for_def)
    qed
    ultimately show ?thesis unfolding handed_over_def rings_get_def by (intro exI [of _ "(kOk, p')"]) simp
  qed
qed

lemma route_hands_over:
  assumes "ip_ok p" and "inboxes_ok (Suc k) p" and "message_ok m"
    and "hdr = \<lparr>mh_block_length = of_nat (length (ms_payload m)), mh_template_id = ms_tmpl m, mh_schema_id = 1, mh_version = 1\<rparr>"
  shows "\<exists>res. route_and_dispatch hdr (ms_payload m @ ys) now p = Some res \<and> handed_over now m k p res"
proof -
  have m: "is_known_template (ms_tmpl m)" "length (ms_payload m) \<le> kMaxIngressPayload" using assms(3) by (simp_all add: message_ok_def)
  then have len: "unat (of_nat (length (ms_payload m)) :: u16) = length (ms_payload m)"
    by (simp add: unat_of_nat take_bit_nat_eq_self kMaxIngressPayload_def)
  show ?thesis
  proof (cases "is_broadcast (ms_tmpl m)")
    case True
    then show ?thesis using broadcast_hands_over [OF assms(1,2) True m(2)] m(1) len by (simp add: route_and_dispatch_def assms(4))
  next
    case False
    then show ?thesis using route_one_hands_over [OF assms(1,2) False m(2) refl] m(1) len doc_raw_append [OF assms(3) False]
      by (simp add: route_and_dispatch_def assms(4) Let_def)
  qed
qed

section \<open>The stream\<close>

definition buffered_bytes :: "IngressPipeline \<Rightarrow> u8 list" where
  "buffered_bytes p = take (ip_buffered p) (ip_buffer p)"

lemma feed_loop_waits:
  assumes "ip_ok p" and "incomplete (buffered_bytes p)"
  shows "feed_loop now lst p = Some (lst, p)"
proof (cases "ip_buffered p < 8")
  case True
  then show ?thesis by (subst feed_loop.simps) simp
next
  case False
  have len: "length (buffered_bytes p) = ip_buffered p" using assms(1) by (simp add: buffered_bytes_def ip_ok_def)
  obtain m ys where m: "message_ok m" "ys \<noteq> []" "buffered_bytes p @ ys = message_bytes m" using assms(2) False len by (auto simp: incomplete_def)
  have k: "length (ms_payload m) \<le> kMaxIngressPayload" using m(1) by (simp add: message_ok_def)
  have "ip_buffer p = buffered_bytes p @ drop (ip_buffered p) (ip_buffer p)" by (simp add: buffered_bytes_def)
  moreover have "8 \<le> length (buffered_bytes p)" using False len by simp
  ultimately have "message_header_of (ip_buffer p) = message_header_of (buffered_bytes p)" using header_append [of "buffered_bytes p"] by metis
  also have "\<dots> = message_header_of (message_bytes m @ [])" using header_append [of "buffered_bytes p" ys] False len m(3) by simp
  finally have h: "message_header_of (ip_buffer p) = \<lparr>mh_block_length = of_nat (length (ms_payload m)), mh_template_id = ms_tmpl m, mh_schema_id = 1, mh_version = 1\<rparr>"
    using header_of_message [OF k, of "[]"] by simp
  have "ip_buffered p < 8 + length (ms_payload m)" using arg_cong [OF m(3), of length] m(2) len length_message [of m] by (cases ys) auto
  moreover have "unat (of_nat (length (ms_payload m)) :: u16) = length (ms_payload m)" using k by (simp add: unat_of_nat take_bit_nat_eq_self kMaxIngressPayload_def)
  ultimately show ?thesis using False h k by (subst feed_loop.simps) (simp add: Let_def kSchemaId_def kSchemaVersion_def)
qed

lemma rings_get_Cons:
  assumes "rings_get now [m] k1 p p1" and "rings_get now ms k p1 p2" and "ip_num_inboxes p1 = ip_num_inboxes p"
  shows "rings_get now (m # ms) k p p2"
  unfolding rings_get_def
proof (intro allI impI)
  fix i
  assume i: "i < ip_num_inboxes p"
  let ?n = "ip_num_inboxes p"
  obtain r r1 where a: "ip_inboxes p ! i = Some r" "ip_inboxes p1 ! i = Some r1" "delivered (frames_for ?n now i [m]) k1 r r1"
    using assms(1) i by (auto simp: rings_get_def)
  obtain r2 where b: "ip_inboxes p2 ! i = Some r2" "delivered (frames_for ?n now i ms) k r1 r2"
    using assms(2,3) i a(2) by (auto simp: rings_get_def)
  have "frames_for ?n now i (m # ms) = frames_for ?n now i [m] @ frames_for ?n now i ms" by (simp add: frames_for_def)
  with delivered_trans [OF a(3) b(2)] a(1) b(1) show "\<exists>r r'. ip_inboxes p ! i = Some r \<and> ip_inboxes p2 ! i = Some r' \<and> delivered (frames_for ?n now i (m # ms)) k r r'" by auto
qed

text \<open>
  How a call ends: everything was handed over, or the first message left is for a ring that is full.
\<close>

definition stopped_at :: "Status \<Rightarrow> Message list \<Rightarrow> Status \<Rightarrow> IngressPipeline \<Rightarrow> bool" where
  "stopped_at lst ms st p \<longleftrightarrow> (case ms of [] \<Rightarrow> st = lst | m # _ \<Rightarrow> code st = WouldBlock \<and> blocked m p)"

definition handed_out :: "u64 \<Rightarrow> Status \<Rightarrow> Message list \<Rightarrow> u8 list \<Rightarrow> nat \<Rightarrow> IngressPipeline \<Rightarrow> Status \<times> IngressPipeline \<Rightarrow> bool" where
  "handed_out now lst ms tail k p res \<longleftrightarrow> ip_ok (snd res) \<and> ip_num_inboxes (snd res) = ip_num_inboxes p
     \<and> (\<exists>ms1 ms2. ms = ms1 @ ms2 \<and> buffered_bytes (snd res) = concat (map message_bytes ms2) @ tail
          \<and> rings_get now ms1 (length ms2 + k) p (snd res) \<and> stopped_at lst ms2 (fst res) (snd res))"

lemma rings_get_nothing: "inboxes_ok k p \<Longrightarrow> rings_get now [] k p p"
  by (auto simp: rings_get_def inboxes_ok_def frames_for_def delivered_def)

lemma rings_get_ok: "rings_get now ms k p p' \<Longrightarrow> ip_num_inboxes p' = ip_num_inboxes p \<Longrightarrow> inboxes_ok k p'"
  by (fastforce simp: rings_get_def inboxes_ok_def delivered_def)

lemma handed_out_Cons:
  assumes "handed_out now lst ms tail k p2 res" and "rings_get now [m] k1 p p2" and "ip_num_inboxes p2 = ip_num_inboxes p"
  shows "handed_out now lst (m # ms) tail k p res"
proof -
  obtain ms1 ms2 where h: "ms = ms1 @ ms2" "buffered_bytes (snd res) = concat (map message_bytes ms2) @ tail"
    "rings_get now ms1 (length ms2 + k) p2 (snd res)" "stopped_at lst ms2 (fst res) (snd res)" using assms(1) unfolding handed_out_def by blast
  have "rings_get now (m # ms1) (length ms2 + k) p (snd res)" by (rule rings_get_Cons [OF assms(2) h(3) assms(3)])
  moreover have "m # ms = (m # ms1) @ ms2" using h(1) by simp
  ultimately show ?thesis using assms(1,3) h(2,4) unfolding handed_out_def by metis
qed

text \<open>One round of the loop, on a complete message.\<close>

lemma feed_loop_message:
  assumes "ip_ok p" and "buffered_bytes p = message_bytes m @ rest" and "message_ok m" and "inboxes_ok (Suc k) p"
  shows "\<exists>st p1. handed_over now m k p (st, p1)
    \<and> feed_loop now lst p = (if code st = WouldBlock then Some (st, p1) else feed_loop now lst (slide (8 + length (ms_payload m)) (length rest) (count_event p1)))"
proof -
  have m: "length (ms_payload m) \<le> kMaxIngressPayload" using assms(3) by (simp add: message_ok_def)
  define hdr where "hdr = \<lparr>mh_block_length = of_nat (length (ms_payload m)), mh_template_id = ms_tmpl m, mh_schema_id = 1, mh_version = (1 :: u16)\<rparr>"
  have len: "length (buffered_bytes p) = ip_buffered p" using assms(1) by (simp add: buffered_bytes_def ip_ok_def)
  have buf: "ip_buffer p = message_bytes m @ rest @ drop (ip_buffered p) (ip_buffer p)"
    using assms(2) by (metis append_assoc append_take_drop_id buffered_bytes_def)
  have n: "ip_buffered p = 8 + length (ms_payload m) + length rest" using len assms(2) length_message [of m] by simp
  have h: "message_header_of (ip_buffer p) = hdr" using header_of_message [OF m] buf unfolding hdr_def by metis
  have d8: "drop 8 (ip_buffer p) = ms_payload m @ rest @ drop (ip_buffered p) (ip_buffer p)"
    by (subst buf) (simp add: message_bytes_def del: store_le.simps)
  obtain st p1 where r: "route_and_dispatch hdr (drop 8 (ip_buffer p)) now p = Some (st, p1)" "handed_over now m k p (st, p1)"
    using route_hands_over [OF assms(1,4,3) hdr_def, of "rest @ drop (ip_buffered p) (ip_buffer p)" now] unfolding d8 by auto
  have u: "unat (of_nat (length (ms_payload m)) :: u16) = length (ms_payload m)" using m by (simp add: unat_of_nat take_bit_nat_eq_self kMaxIngressPayload_def)
  have "code st \<noteq> WouldBlock \<Longrightarrow> st = kOk" using r(2) by (auto simp: handed_over_def)
  then have "feed_loop now lst p = (if code st = WouldBlock then Some (st, p1) else feed_loop now lst (slide (8 + length (ms_payload m)) (length rest) (count_event p1)))"
    using n h m r(1) u by (subst feed_loop.simps) (auto simp: Let_def hdr_def kSchemaId_def kSchemaVersion_def)
  with r(2) show ?thesis by blast
qed

lemma slide_rest:
  assumes "ip_ok p" and "buffered_bytes p = message_bytes m @ rest" and "same_framing p p1"
    and "p2 = slide (8 + length (ms_payload m)) (length rest) (count_event p1)"
  shows "ip_ok p2" and "buffered_bytes p2 = rest" and "ip_num_inboxes p2 = ip_num_inboxes p" and "ip_inboxes p2 = ip_inboxes p1"
proof -
  let ?n = "8 + length (ms_payload m)"
  have len: "length (buffered_bytes p) = ip_buffered p" using assms(1) by (simp add: buffered_bytes_def ip_ok_def)
  have buf: "ip_buffer p = message_bytes m @ rest @ drop (ip_buffered p) (ip_buffer p)"
    using assms(2) by (metis append_assoc append_take_drop_id buffered_bytes_def)
  have n: "ip_buffered p = ?n + length rest" using len assms(2) length_message [of m] by simp
  show f: "ip_inboxes p2 = ip_inboxes p1" "ip_num_inboxes p2 = ip_num_inboxes p"
    using assms(3,4) by (simp_all add: slide_def count_event_def same_framing_def)
  have b: "ip_buffered p2 = length rest" "ip_buffer p2 = take (length rest) (drop ?n (ip_buffer p)) @ drop (length rest) (ip_buffer p)"
    using assms(3,4) by (simp_all add: slide_def count_event_def same_framing_def)
  have mv: "take (length rest) (drop ?n (ip_buffer p)) = rest" by (subst buf) (simp add: length_message)
  show "buffered_bytes p2 = rest" unfolding buffered_bytes_def b mv by simp
  have "length (ip_buffer p2) = length (ip_buffer p)" unfolding b mv using assms(1) n by (simp add: ip_ok_def)
  then show "ip_ok p2" using assms(1,3,4) f b(1) n by (simp add: ip_ok_def same_framing_def slide_def count_event_def)
qed

lemma feed_loop_hands_out:
  assumes "ip_ok p" and "buffered_bytes p = concat (map message_bytes ms) @ tail" and "\<forall>m\<in>set ms. message_ok m" and "incomplete tail" and "inboxes_ok (length ms + k) p"
  shows "\<exists>res. feed_loop now lst p = Some res \<and> handed_out now lst ms tail k p res"
  using assms
proof (induction ms arbitrary: p)
  case Nil
  then have "handed_out now lst [] tail k p (lst, p)" using rings_get_nothing [of k p now] by (simp add: handed_out_def stopped_at_def)
  with Nil feed_loop_waits [of p now lst] show ?case by simp
next
  case (Cons m ms)
  let ?rest = "concat (map message_bytes ms) @ tail"
  have m: "message_ok m" and oks: "\<forall>m\<in>set ms. message_ok m" and pend: "buffered_bytes p = message_bytes m @ ?rest" and room: "inboxes_ok (Suc (length ms + k)) p"
    using Cons.prems by simp_all
  obtain st p1 where r: "handed_over now m (length ms + k) p (st, p1)"
    "feed_loop now lst p = (if code st = WouldBlock then Some (st, p1) else feed_loop now lst (slide (8 + length (ms_payload m)) (length ?rest) (count_event p1)))"
    using feed_loop_message [OF Cons.prems(1) pend m room] by blast
  have fr: "same_framing p p1" using r(1) by (simp add: handed_over_def)
  show ?case
  proof (cases "code st = WouldBlock")
    case True
    then have b: "rings_get now [] (Suc (length ms + k)) p p1" "blocked m p1" using r(1) by (auto simp: handed_over_def kOk_def)
    have "ip_ok p1" "buffered_bytes p1 = message_bytes m @ ?rest" "ip_num_inboxes p1 = ip_num_inboxes p"
      using fr Cons.prems(1) pend by (simp_all add: ip_ok_def same_framing_def buffered_bytes_def)
    then have "handed_out now lst (m # ms) tail k p (st, p1)" using b True unfolding handed_out_def
      by (intro conjI exI [of _ "[]"] exI [of _ "m # ms"]) (simp_all add: stopped_at_def)
    with r(2) True show ?thesis by auto
  next
    case False
    define p2 where "p2 = slide (8 + length (ms_payload m)) (length ?rest) (count_event p1)"
    note sl = slide_rest [OF Cons.prems(1) pend fr p2_def]
    have get: "rings_get now [m] (length ms + k) p p2" using r(1) False sl(4) by (auto simp: handed_over_def rings_get_def)
    obtain res where res: "feed_loop now lst p2 = Some res" "handed_out now lst ms tail k p2 res"
      using Cons.IH [OF sl(1,2) oks Cons.prems(4) rings_get_ok [OF get sl(3)]] by blast
    have "feed_loop now lst p = Some res" using r(2) False res(1) by (simp add: p2_def)
    then show ?thesis using handed_out_Cons [OF res(2) get sl(3)] by blast
  qed
qed

lemma feed_hands_out:
  assumes "ip_ok p" and "buffered_bytes p @ chunk = concat (map message_bytes ms) @ tail" and "ip_buffered p + length chunk \<le> kBufferSize"
    and "\<forall>m\<in>set ms. message_ok m" and "incomplete tail" and "inboxes_ok (length ms + k) p"
  shows "\<exists>res. feed p chunk now = Some res \<and> handed_out now kOk ms tail k p res"
proof -
  define p1 where "p1 = p\<lparr>ip_stats := (ip_stats p)\<lparr>is_bytes_received := is_bytes_received (ip_stats p) + of_nat (length chunk)\<rparr>,
     ip_buffer := take (ip_buffered p) (ip_buffer p) @ chunk @ drop (ip_buffered p + length chunk) (ip_buffer p), ip_buffered := ip_buffered p + length chunk\<rparr>"
  have f: "feed p chunk now = feed_loop now kOk p1" using assms(3) by (simp add: feed_def Let_def p1_def)
  have ok: "ip_ok p1" using assms(1,3) by (simp add: ip_ok_def p1_def)
  have pend: "buffered_bytes p1 = concat (map message_bytes ms) @ tail" using assms(1,2) by (simp add: buffered_bytes_def p1_def ip_ok_def)
  have room: "inboxes_ok (length ms + k) p1" using assms(6) by (simp add: inboxes_ok_def p1_def)
  have "handed_out now kOk ms tail k p1 res = handed_out now kOk ms tail k p res" for res by (simp add: handed_out_def rings_get_def p1_def)
  with feed_loop_hands_out [OF ok pend assms(4,5) room, of now kOk] f show ?thesis by auto
qed

section \<open>Any chunks\<close>

lemma incompleteI: "message_ok m \<Longrightarrow> ys \<noteq> [] \<Longrightarrow> xs @ ys = message_bytes m \<Longrightarrow> incomplete xs"
  unfolding incomplete_def by blast

text \<open>A stream cut anywhere is some complete messages and an incomplete one.\<close>

lemma cut_stream:
  assumes "xs @ ys = concat (map message_bytes ms) @ tail" and "\<forall>m\<in>set ms. message_ok m" and "incomplete tail"
  shows "\<exists>ms1 ms2 t1. ms = ms1 @ ms2 \<and> xs = concat (map message_bytes ms1) @ t1 \<and> incomplete t1 \<and> t1 @ ys = concat (map message_bytes ms2) @ tail"
  using assms
proof (induction ms arbitrary: xs)
  case Nil
  have "incomplete xs"
  proof (cases "length tail < 8")
    case True
    then show ?thesis using arg_cong [OF Nil.prems(1), of length] by (simp add: incomplete_def)
  next
    case False
    then obtain m zs where m: "message_ok m" "zs \<noteq> []" "tail @ zs = message_bytes m" using Nil.prems(3) by (auto simp: incomplete_def)
    then have "xs @ ys @ zs = message_bytes m" using Nil.prems(1) by (simp flip: append_assoc)
    then show ?thesis using incompleteI [OF m(1)] m(2) by blast
  qed
  with Nil have "xs = concat (map message_bytes []) @ xs \<and> incomplete xs \<and> xs @ ys = concat (map message_bytes []) @ tail" by simp
  then show ?case by (intro exI [of _ "[] :: Message list"] exI [of _ xs]) simp
next
  case (Cons m ms)
  show ?case
  proof (cases "length xs < length (message_bytes m)")
    case True
    then have "take (length (message_bytes m)) (xs @ ys) = message_bytes m" using Cons.prems(1) by simp
    then have "xs @ take (length (message_bytes m) - length xs) ys = message_bytes m" "take (length (message_bytes m) - length xs) ys \<noteq> []"
      using True by auto
    then have "incomplete xs" using incompleteI [of m] Cons.prems(2) by (metis list.set_intros(1))
    with Cons.prems show ?thesis by (intro exI [of _ "[]"] exI [of _ "m # ms"] exI [of _ xs]) simp
  next
    case False
    then have "take (length (message_bytes m)) xs = message_bytes m"
      using arg_cong [OF Cons.prems(1), of "take (length (message_bytes m))"] by simp
    then have xs: "xs = message_bytes m @ drop (length (message_bytes m)) xs" by (metis append_take_drop_id)
    then have "drop (length (message_bytes m)) xs @ ys = concat (map message_bytes ms) @ tail" using Cons.prems(1)
      by (metis append_assoc concat.simps(2) list.simps(9) same_append_eq)
    from Cons.IH [OF this _ Cons.prems(3)] Cons.prems(2) obtain ms1 ms2 t1 where "ms = ms1 @ ms2"
      "drop (length (message_bytes m)) xs = concat (map message_bytes ms1) @ t1" "incomplete t1" "t1 @ ys = concat (map message_bytes ms2) @ tail" by auto
    then show ?thesis using xs by (intro exI [of _ "m # ms1"] exI [of _ ms2] exI [of _ t1]) simp
  qed
qed

lemma incomplete_no_message:
  assumes "message_ok m"
  shows "\<not> incomplete (message_bytes m @ ys)"
proof
  assume "incomplete (message_bytes m @ ys)"
  then obtain m2 zs where m2: "message_ok m2" "zs \<noteq> []" "message_bytes m @ ys @ zs = message_bytes m2" by (auto simp: incomplete_def length_message)
  have "length (ms_payload m) \<le> kMaxIngressPayload" "length (ms_payload m2) \<le> kMaxIngressPayload" using assms m2(1) by (simp_all add: message_ok_def)
  note h = header_of_message [OF this(1), of "ys @ zs"] header_of_message [OF this(2), of "[]"]
  have "(of_nat (length (ms_payload m)) :: u16) = of_nat (length (ms_payload m2))" using h m2(3) by simp
  then have "unat (of_nat (length (ms_payload m)) :: u16) = unat (of_nat (length (ms_payload m2)) :: u16)" by simp
  then have "length (ms_payload m) = length (ms_payload m2)"
    using assms m2(1) by (simp add: message_ok_def kMaxIngressPayload_def unat_of_nat take_bit_nat_eq_self)
  then show False using arg_cong [OF m2(3), of length] m2(2) by (simp add: length_message)
qed

lemma incomplete_short: "incomplete xs \<Longrightarrow> length xs < 504"
proof -
  assume "incomplete xs"
  moreover have "length xs < 504" if "message_ok m" "ys \<noteq> []" "xs @ ys = message_bytes m" for m ys
  proof -
    have "length xs + length ys = 8 + length (ms_payload m)" using arg_cong [OF that(3), of length] by (simp only: length_append length_message)
    moreover have "0 < length ys" "length (ms_payload m) \<le> 496" using that(1,2) by (simp_all add: message_ok_def kMaxIngressPayload_def)
    ultimately show ?thesis by linarith
  qed
  ultimately show ?thesis by (auto simp: incomplete_def)
qed

definition message_view :: "IngressFrame \<Rightarrow> Message" where
  "message_view f = \<lparr>ms_tmpl = if_tmpl f, ms_payload = take (if_len f) (if_payload f)\<rparr>"

lemma message_views: "map frame_view fs = map frame_view gs @ frames_for n now i ms \<Longrightarrow> map message_view fs = map message_view gs @ filter (\<lambda>m. goes_to n m i) ms"
proof -
  assume e: "map frame_view fs = map frame_view gs @ frames_for n now i ms"
  let ?f = "\<lambda>v. \<lparr>ms_tmpl = fst (snd v), ms_payload = snd (snd v)\<rparr>"
  have v: "map message_view xs = map ?f (map frame_view xs)" for xs by (simp add: message_view_def frame_view_def)
  have "map ?f (frames_for n now i ms) = filter (\<lambda>m. goes_to n m i) ms" by (simp add: frames_for_def comp_def map_idI)
  then show ?thesis unfolding v e map_append by simp
qed

definition rings_hold :: "Message list \<Rightarrow> IngressPipeline \<Rightarrow> IngressPipeline \<Rightarrow> bool" where
  "rings_hold ms p p' \<longleftrightarrow> (\<forall>i<ip_num_inboxes p. \<exists>r r'. ip_inboxes p ! i = Some r \<and> ip_inboxes p' ! i = Some r' \<and> rg_inv r' \<and> list_all frame_ok (rg_items r')
     \<and> map message_view (rg_items r') = map message_view (rg_items r) @ filter (\<lambda>m. goes_to (ip_num_inboxes p) m i) ms)"

lemma rings_hold_append:
  assumes "rings_get now ms k p p1" and "rings_hold es p1 p2" and "ip_num_inboxes p1 = ip_num_inboxes p"
  shows "rings_hold (ms @ es) p p2"
  unfolding rings_hold_def
proof (intro allI impI)
  fix i
  assume i: "i < ip_num_inboxes p"
  obtain r r1 where a: "ip_inboxes p ! i = Some r" "ip_inboxes p1 ! i = Some r1" "delivered (frames_for (ip_num_inboxes p) now i ms) k r r1"
    using assms(1) i by (auto simp: rings_get_def)
  have v: "map message_view (rg_items r1) = map message_view (rg_items r) @ filter (\<lambda>m. goes_to (ip_num_inboxes p) m i) ms"
    using a(3) message_views by (simp add: delivered_def)
  from assms(2,3) i a(1,2) v show "\<exists>r r'. ip_inboxes p ! i = Some r \<and> ip_inboxes p2 ! i = Some r' \<and> rg_inv r' \<and> list_all frame_ok (rg_items r')
     \<and> map message_view (rg_items r') = map message_view (rg_items r) @ filter (\<lambda>m. goes_to (ip_num_inboxes p) m i) (ms @ es)"
    by (auto simp: rings_hold_def)
qed

lemma rings_hold_nothing: "inboxes_ok k p \<Longrightarrow> rings_hold [] p p"
  by (fastforce simp: rings_hold_def inboxes_ok_def inbox_ok_def)

lemma rings_get_hold: "rings_get now ms k p p' \<Longrightarrow> ip_num_inboxes p' = ip_num_inboxes p \<Longrightarrow> rings_hold ms p p'"
  using rings_hold_append [OF _ rings_hold_nothing] rings_get_ok by (metis append_Nil2)

text \<open>Room in every ring for what the messages bring it.\<close>

definition room_for :: "Message list \<Rightarrow> IngressPipeline \<Rightarrow> bool" where
  "room_for ms p \<longleftrightarrow> (\<forall>i<ip_num_inboxes p. \<exists>r. ip_inboxes p ! i = Some r
     \<and> length (rg_items r) + length (filter (\<lambda>m. goes_to (ip_num_inboxes p) m i) ms) \<le> length (rg_slots r))"

lemma room_left:
  assumes "room_for (ms1 @ ms2) p" and "rings_get now ms1 k p p'" and "ip_num_inboxes p' = ip_num_inboxes p"
  shows "room_for ms2 p'"
  unfolding room_for_def
proof (intro allI impI)
  fix i
  assume "i < ip_num_inboxes p'"
  then have i: "i < ip_num_inboxes p" using assms(3) by simp
  obtain r r' where r: "ip_inboxes p ! i = Some r" "ip_inboxes p' ! i = Some r'" "delivered (frames_for (ip_num_inboxes p) now i ms1) k r r'"
    using assms(2) i by (auto simp: rings_get_def)
  then have "length (rg_items r') = length (rg_items r) + length (filter (\<lambda>m. goes_to (ip_num_inboxes p) m i) ms1)" "length (rg_slots r') = length (rg_slots r)"
    using delivered_length [OF r(3)] by (simp_all add: delivered_def frames_for_def)
  then show "\<exists>r. ip_inboxes p' ! i = Some r \<and> length (rg_items r) + length (filter (\<lambda>m. goes_to (ip_num_inboxes p') m i) ms2) \<le> length (rg_slots r)"
    using assms(1,3) i r(1,2) by (auto simp: room_for_def)
qed

lemma room_not_blocked: "room_for (m # ms) p \<Longrightarrow> \<not> blocked m p"
  by (fastforce simp: room_for_def blocked_def inbox_full_def)

lemma feed_with_room:
  assumes "handed_out now kOk ms tail k p res" and "room_for (ms @ es) p"
  shows "fst res = kOk" and "buffered_bytes (snd res) = tail" and "rings_get now ms k p (snd res)" and "room_for es (snd res)"
proof -
  obtain ms1 ms2 where h: "ms = ms1 @ ms2" "buffered_bytes (snd res) = concat (map message_bytes ms2) @ tail" "ip_num_inboxes (snd res) = ip_num_inboxes p"
    "rings_get now ms1 (length ms2 + k) p (snd res)" "stopped_at kOk ms2 (fst res) (snd res)" using assms(1) unfolding handed_out_def by blast
  have left: "room_for (ms2 @ es) (snd res)" using room_left [OF _ h(4,3)] assms(2) h(1) by simp
  have "ms2 = []"
  proof (cases ms2)
    case (Cons m ms')
    then show ?thesis using h(5) left room_not_blocked [of m "ms' @ es"] by (simp add: stopped_at_def)
  qed
  with h left show "fst res = kOk" "buffered_bytes (snd res) = tail" "rings_get now ms k p (snd res)" "room_for es (snd res)" by (simp_all add: stopped_at_def)
qed

primrec feed_all :: "(u8 list \<times> u64) list \<Rightarrow> IngressPipeline \<Rightarrow> IngressPipeline option" where
  "feed_all [] p = Some p"
| "feed_all (c # cs) p = (case feed p (fst c) (snd c) of Some (st, p1) \<Rightarrow> if is_ok st then feed_all cs p1 else None | None \<Rightarrow> None)"

lemma feed_all_delivers:
  assumes "ip_ok p" and "buffered_bytes p @ concat (map fst cs) = concat (map message_bytes ms) @ tail" and "incomplete (buffered_bytes p)"
    and "\<forall>c\<in>set cs. length (fst c) + 504 \<le> kBufferSize" and "\<forall>m\<in>set ms. message_ok m" and "incomplete tail" and "room_for ms p" and "inboxes_ok (length ms) p"
  shows "\<exists>p'. feed_all cs p = Some p' \<and> ip_ok p' \<and> buffered_bytes p' = tail \<and> rings_hold ms p p'"
  using assms
proof (induction cs arbitrary: p ms)
  case Nil
  have "ms = []"
  proof (cases ms)
    case (Cons m ms')
    then have "buffered_bytes p = message_bytes m @ concat (map message_bytes ms') @ tail" using Nil.prems(2) by simp
    then show ?thesis using incomplete_no_message [of m] Nil.prems(3,5) Cons by simp
  qed simp
  with Nil rings_hold_nothing show ?case by auto
next
  case (Cons c cs)
  have "(buffered_bytes p @ fst c) @ concat (map fst cs) = concat (map message_bytes ms) @ tail" using Cons.prems(2) by simp
  from cut_stream [OF this Cons.prems(5,6)] obtain ms1 ms2 t1 where d: "ms = ms1 @ ms2" "buffered_bytes p @ fst c = concat (map message_bytes ms1) @ t1"
    "incomplete t1" "t1 @ concat (map fst cs) = concat (map message_bytes ms2) @ tail" by blast
  have "ip_buffered p = length (buffered_bytes p)" using Cons.prems(1) by (simp add: buffered_bytes_def ip_ok_def)
  then have fit: "ip_buffered p + length (fst c) \<le> kBufferSize" using incomplete_short [OF Cons.prems(3)] Cons.prems(4) by auto
  have pre: "\<forall>m\<in>set ms1. message_ok m" "inboxes_ok (length ms1 + length ms2) p" "room_for (ms1 @ ms2) p" using Cons.prems(5,7,8) d(1) by simp_all
  obtain res where res: "feed p (fst c) (snd c) = Some res" "handed_out (snd c) kOk ms1 t1 (length ms2) p res"
    using feed_hands_out [OF Cons.prems(1) d(2) fit pre(1) d(3) pre(2)] by blast
  note out = feed_with_room [OF res(2) pre(3)]
  have ok: "ip_ok (snd res)" "ip_num_inboxes (snd res) = ip_num_inboxes p" using res(2) by (simp_all add: handed_out_def)
  obtain p' where p': "feed_all cs (snd res) = Some p'" "ip_ok p'" "buffered_bytes p' = tail" "rings_hold ms2 (snd res) p'"
    using Cons.IH [of "snd res" ms2] ok out d Cons.prems(4-6) rings_get_ok [OF out(3) ok(2)] by auto
  have "feed_all (c # cs) p = Some p'" using res(1) out(1) p'(1) by (cases res) (simp add: is_ok_def kOk_def)
  with p' rings_hold_append [OF out(3) p'(4) ok(2)] d(1) show ?case by blast
qed

end
