(* ===== verification/RV_Ingress_Contracts.thy ===== *)
theory RV_Ingress_Contracts
  imports RV_Ingress_Laws
begin

text \<open>
  The contracts of the pipeline: what a call does with the messages in the stream, full rings included,
  and that the way the network cuts the stream does not matter.
\<close>

section \<open>A pipeline of one ring\<close>

definition demo_message :: Message where
  "demo_message = \<lparr>ms_tmpl = 1, ms_payload = replicate 16 0\<rparr>"

definition demo_pipeline :: "nat \<Rightarrow> IngressPipeline" where
  "demo_pipeline k = ip_new [Some (rg_new (replicate (2 ^ k) \<lparr>if_arrival_ts_ns = 0, if_tmpl = 0, if_len = 0, if_payload = []\<rparr>))]"

lemma demo_pipeline_ok:
  "ip_ok (demo_pipeline k)" "ip_buffered (demo_pipeline k) = 0" "buffered_bytes (demo_pipeline k) = []" "ip_num_inboxes (demo_pipeline k) = 1"
  by (simp_all add: demo_pipeline_def ip_new_def ip_ok_def is_valid_count_def kMaxPartitions_def buffered_bytes_def)

lemma demo_inbox: "ip_inboxes (demo_pipeline k) ! 0 = Some (rg_new (replicate (2 ^ k) \<lparr>if_arrival_ts_ns = 0, if_tmpl = 0, if_len = 0, if_payload = []\<rparr>))"
  by (simp add: demo_pipeline_def ip_new_def kMaxPartitions_def)

lemma demo_inboxes_ok: "k < 64 \<Longrightarrow> n < 2 ^ 64 \<Longrightarrow> inboxes_ok n (demo_pipeline k)"
  using rg_new_inv [of k "replicate (2 ^ k) \<lparr>if_arrival_ts_ns = 0, if_tmpl = 0, if_len = 0, if_payload = []\<rparr>"]
  by (simp add: inboxes_ok_def demo_pipeline_ok demo_inbox inbox_ok_def) (simp add: rg_new_def)

lemma demo_room: "k < 64 \<Longrightarrow> length ms \<le> 2 ^ k \<Longrightarrow> room_for ms (demo_pipeline k)"
  using rg_new_inv [of k "replicate (2 ^ k) \<lparr>if_arrival_ts_ns = 0, if_tmpl = 0, if_len = 0, if_payload = []\<rparr>"]
    le_trans [OF length_filter_le [of "\<lambda>m. goes_to (Suc 0) m 0" ms]]
  by (simp add: room_for_def demo_pipeline_ok demo_inbox) (simp add: rg_new_def)

lemma demo_message_ok: "message_ok demo_message" "length (message_bytes demo_message) = 24"
  by (simp_all add: message_ok_def demo_message_def is_known_template_def is_broadcast_def kMaxIngressPayload_def length_message)

lemma incomplete_Nil: "incomplete []"
  by (simp add: incomplete_def)

section \<open>Contracts\<close>

text \<open>
  C7.  Under any load, a call of \<^verbatim>\<open>feed\<close> on a stream of well-formed messages takes some of them, in
  order, and leaves the others in the buffer: each ring grows by exactly the messages that were taken and
  are for it, the buffer holds exactly the bytes of the others, and when one is left the call answers
  \<open>WouldBlock\<close> and a ring that message is for is full.
\<close>

theorem ingress_loses_nothing:
  assumes "ip_ok p" and "buffered_bytes p @ chunk = concat (map message_bytes ms) @ tail" and "ip_buffered p + length chunk \<le> kBufferSize"
    and "\<forall>m\<in>set ms. message_ok m" and "incomplete tail" and "inboxes_ok (length ms) p"
  shows "\<exists>st p' taken left. feed p chunk now = Some (st, p') \<and> ip_ok p' \<and> ms = taken @ left \<and> rings_hold taken p p'
    \<and> buffered_bytes p' = concat (map message_bytes left) @ tail
    \<and> (if left = [] then st = kOk else code st = WouldBlock \<and> blocked (hd left) p')"
proof -
  obtain st p' where f: "feed p chunk now = Some (st, p')" "handed_out now kOk ms tail 0 p (st, p')"
    using feed_hands_out [OF assms(1-5), of 0 now] assms(6) by auto
  then obtain taken left where h: "ms = taken @ left" "buffered_bytes p' = concat (map message_bytes left) @ tail"
    "rings_get now taken (length left + 0) p p'" "stopped_at kOk left st p'" "ip_ok p'" "ip_num_inboxes p' = ip_num_inboxes p"
    unfolding handed_out_def by auto
  have "if left = [] then st = kOk else code st = WouldBlock \<and> blocked (hd left) p'" using h(4) by (cases left) (simp_all add: stopped_at_def)
  with f(1) h(1,2,5) rings_get_hold [OF h(3,6)] show ?thesis by blast
qed

theorem ingress_loses_nothing_witness:
  "\<exists>st p' taken left. feed (demo_pipeline 0) (message_bytes demo_message @ message_bytes demo_message) 5 = Some (st, p') \<and> ip_ok p'
    \<and> [demo_message, demo_message] = taken @ left \<and> rings_hold taken (demo_pipeline 0) p'
    \<and> buffered_bytes p' = concat (map message_bytes left) @ []
    \<and> (if left = [] then st = kOk else code st = WouldBlock \<and> blocked (hd left) p')"
  by (rule ingress_loses_nothing) (simp_all add: demo_pipeline_ok demo_message_ok incomplete_Nil demo_inboxes_ok kBufferSize_def)

text \<open>
  C8.  However the network cuts a stream of well-formed messages, when the rings have room every chunk
  is accepted, each ring grows by exactly the messages for it in the order of the stream, the bytes of an
  incomplete last message wait in the buffer, and \<^verbatim>\<open>finish\<close> accepts the end of the stream exactly
  when there are none.
\<close>

theorem ingress_delivers:
  assumes "ip_ok p" and "buffered_bytes p @ concat (map fst cs) = concat (map message_bytes ms) @ tail" and "incomplete (buffered_bytes p)"
    and "\<forall>c\<in>set cs. length (fst c) + 504 \<le> kBufferSize" and "\<forall>m\<in>set ms. message_ok m" and "incomplete tail"
    and "room_for ms p" and "inboxes_ok (length ms) p"
  shows "\<exists>p'. feed_all cs p = Some p' \<and> buffered_bytes p' = tail \<and> rings_hold ms p p' \<and> (is_ok (fst (finish p')) \<longleftrightarrow> tail = [])"
proof -
  obtain p' where p': "feed_all cs p = Some p'" "ip_ok p'" "buffered_bytes p' = tail" "rings_hold ms p p'" using feed_all_delivers [OF assms] by blast
  have "ip_buffered p' = length tail" using p'(2,3) by (auto simp: buffered_bytes_def ip_ok_def)
  then have "is_ok (fst (finish p')) \<longleftrightarrow> tail = []" by (simp add: finish_def is_ok_def fail_def kOk_def)
  with p' show ?thesis by blast
qed

theorem ingress_delivers_witness:
  "\<exists>p'. feed_all [(take 5 (message_bytes demo_message), 1), (drop 5 (message_bytes demo_message) @ [7], 2)] (demo_pipeline 1) = Some p'
    \<and> buffered_bytes p' = [7] \<and> rings_hold [demo_message] (demo_pipeline 1) p' \<and> (is_ok (fst (finish p')) \<longleftrightarrow> [7 :: u8] = [])"
proof (rule ingress_delivers)
  show "buffered_bytes (demo_pipeline 1) @ concat (map fst [(take 5 (message_bytes demo_message), 1), (drop 5 (message_bytes demo_message) @ [7], 2 :: u64)])
    = concat (map message_bytes [demo_message]) @ [7]" by (simp add: demo_pipeline_ok)
qed (simp_all add: demo_pipeline_ok demo_message_ok incomplete_def demo_inboxes_ok demo_room kBufferSize_def)

end
