(* ===== verification/Spec2Isabelle.thy ===== *)
theory Spec2Isabelle
  imports RV_Base_Contracts RV_Event_Contracts RV_Log_Contracts RV_Ingress_Contracts
begin

text \<open>
  The engine of \<^verbatim>\<open>motor-rv-didatico\<close>: it keeps, per partition of the accounts, the custody and the cash
  of equity positions.  The ingress cuts a stream of bytes into messages and puts each one in the ring of
  its partition; the partition appends each one to a write-ahead log,
  applies it to its tables, and stages what the outside may see in an outbox, which is released only up
  to the position the log has made durable.  After a crash the state is rebuilt by applying the log again.
  All paths below are under \<^verbatim>\<open>src/src\<close>.

  \<^bold>\<open>How the code is modelled.\<close>  A struct is a \<^theory_text>\<open>record\<close>, an enum a \<^theory_text>\<open>datatype\<close>, a 32- or 64-bit unsigned value that
  is masked, mixed or wraps a word; fixed-point amounts are integers with the 64-bit range check of
  \<^verbatim>\<open>fixed.hpp\<close> written out; counts and offsets that the code keeps far from their limits are natural
  numbers.  Functions thread their state explicitly.  \<open>Status\<close> and \<open>Result\<close> are values; a function that may
  abort the process (a failed check, an overflow of \<^verbatim>\<open>Fixed\<close>) or loop has an \<open>option\<close> result, and \<open>None\<close> is
  the abort.  System calls, the allocator, the clock, the processor's checksum instruction and the structs
  that \<^verbatim>\<open>scripts/sbe_gen.py\<close> generates are parameters.

  \<^bold>\<open>Building blocks\<close> (\<^verbatim>\<open>base/\<close>, \<^verbatim>\<open>codec/\<close>).  \<open>RV_Prelude\<close>: machine types, casts and shared lemmas.
  \<open>RV_Status\<close>: error codes.  \<open>RV_Fixed\<close>, \<open>RV_Rounding\<close>: checked arithmetic and the roundings of
  \<^verbatim>\<open>mul_div\<close>.  \<open>RV_Ids\<close>: documents, dates, \<^verbatim>\<open>mix64\<close> and the partitioner.  \<open>RV_Arena\<close>: the bump arena.
  \<open>RV_Probe\<close>, \<open>RV_Dense_Index\<close>, \<open>RV_Pair_Index\<close>: linear probing once, as a locale, and the two tables that
  use it.  \<open>RV_Bytes\<close>: byte views and repeating groups.  \<open>RV_Metrics\<close>: counters and histogram.
  \<open>RV_Spsc_Ring\<close>: the ring, with its queue contract as a locale.  \<open>RV_Crc\<close>: the checksum.
  \<open>RV_Base_Contracts\<close> states what they promise: nearest rounding with ties to even, a table that refines a
  finite map, a set that takes a key once and forgets it after two rotations, blocks that do not overlap, round trips of dates and bytes.

  \<^bold>\<open>The core\<close> (\<^verbatim>\<open>core/\<close>).  \<open>RV_Ledger\<close>, \<open>RV_Trade_State\<close>, \<open>RV_Outbox\<close>, \<open>RV_Partition_State\<close>: the tables,
  the life cycle, the single exit; \<open>RV_State_Ops\<close>: what initialising, compacting and rebuilding achieve.
  \<open>RV_Events\<close>: the ten messages of \<^verbatim>\<open>schema/events.xml\<close>; reading one from bytes is the parameter \<open>Codec\<close>,
  instantiated by the layout of the schema.  \<open>RV_Apply_Base\<close>, \<open>RV_Apply_Day\<close>, \<open>RV_Apply_Trade\<close>,
  \<open>RV_Apply_Settle\<close>, \<open>RV_Apply_Corporate\<close>, \<open>RV_Apply_Income\<close>, \<open>RV_Apply\<close>: every handler of \<^verbatim>\<open>apply.cpp\<close>,
  branch by branch, and the dispatch.  \<open>RV_Books\<close> and \<open>RV_Ledger_Step\<close> abstract from row numbers: a book maps
  a document and an instrument to buckets, and a posting changes one row of each ledger.
  \<open>RV_Journal\<close>: the log interface of \<^verbatim>\<open>journal.hpp\<close> as a locale and the journal in memory; \<open>RV_Partition\<close>:
  \<^verbatim>\<open>poll\<close>, proved once for every journal.  \<open>RV_Event_Runs\<close>: runs of events, along which a used key is kept
  until the second rotation and chains of trades stay well-formed when owners allocate.  \<open>RV_Demo\<close> is a small partition on which witnesses evaluate, and
  \<open>RV_Event_Contracts\<close> says what each handler does to the books.

  \<^bold>\<open>The log\<close> (\<^verbatim>\<open>wal/\<close>).  \<open>RV_Wal_Format\<close>: headers, rounding, alignment.  \<open>RV_Segment_Reader\<close>: the reader;
  its loop is a partial function, total on any mapping that fits in the address space.  \<open>RV_Io_Backend\<close>: the
  backend interface as a locale and the synchronous backend.  \<open>RV_Group_Commit\<close>, \<open>RV_Group_Laws\<close>: the groups
  and their invariants.  \<open>RV_Segment\<close>: files, names, epochs.  \<open>RV_Wal\<close>: the log.  \<open>RV_Log_Roundtrip\<close>: the reader
  against the bytes the writer leaves.  \<open>RV_Wal_Laws\<close>: over a stable backend, what is durable is on the disk
  and stays there; \<open>RV_Wal_Disk\<close>: the synchronous backend is stable over any \<^verbatim>\<open>pwrite\<close> that writes a prefix
  of its argument.  \<open>RV_Wal_Journal\<close>: the log is a journal, so the partition loop runs over it.
  \<open>RV_Recovery\<close>: listing, ordering and replaying segments.  \<open>RV_Engine\<close>: whole runs of a partition over the
  log, and what recovery then finds.  \<open>RV_Log_Contracts\<close> states the promises of the log.

  \<^bold>\<open>The ingress\<close> (\<^verbatim>\<open>ingress/\<close>).  \<open>RV_Ingress\<close>: \<^verbatim>\<open>ingress_pipeline.cpp\<close>; an index past the array of rings is
  \<open>None\<close>.  \<open>RV_Ingress_Laws\<close>: messages and streams, one ring, all rings, one message, one call.
  \<open>RV_Ingress_Contracts\<close>: nothing is lost or reordered when rings are full, and the cutting does not matter.

  This theory holds the properties that span components: an event keeps the invariant and, when refused,
  changes no book; a turn logs what it applies and publishes only what is durable; a crash loses nothing
  durable.

  \<^bold>\<open>Bounds and fuel.\<close>  The batch loop of \<^verbatim>\<open>poll\<close> recurses on the 256 rounds of \<^verbatim>\<open>kBatch\<close>, probing on the
  capacity of a table, which is enough because a table always keeps a hole, and the walk over an account's
  chain on the number of trades, which is enough because a chain visits each of its trades once.  The
  loops with no such bound are partial functions (\<open>sr_next\<close>, \<open>wl_await\<close>, \<open>replay_loop\<close>) or have a
  termination proof (\<open>gc_drain\<close>, \<open>feed_loop\<close>).  Log positions are assumed not to reach the end of their 64 bits: a turn
  needs room for a batch, and a run of the log fewer than two to the forty-six operations, so that offsets
  in the file stay below two to the sixty-three.

  \<^bold>\<open>Not modelled.\<close>  The memory orderings of the ring's atomics: its two sides are sequential steps.
  \<^verbatim>\<open>wal/io_uring_backend.cpp\<close>: memory shared with the kernel; it is another instance of the backend
  interface.  \<^verbatim>\<open>core/state_image.cpp\<close>: a dump of the columns; recovery takes the state it left as an
  argument.  \<^verbatim>\<open>edge/\<close> and \<^verbatim>\<open>format/\<close> (text and sockets, a file layout), \<^verbatim>\<open>ingress/simulator.cpp\<close> and
  \<^verbatim>\<open>ingress/tcp_server.cpp\<close> (test traffic, sockets), \<^verbatim>\<open>app/\<close> (argument parsing) and the benchmarks.
\<close>

section \<open>Events\<close>

text \<open>
  C1: whatever event is applied, accepted or not, the partition keeps its tables and indexes consistent;
  non-negativity of every bucket is kept unless the event is reported as corruption; every trade row
  afterwards is an old row moved along the life cycle or a new executed one; and the log position of the
  event is recorded.
\<close>

theorem apply_keeps_invariants:
  assumes "ps_inv s" and "i3_ok s" and "apply_event dbg rtl cd s ev ctx = Some (st, s', ctx')"
  shows "ps_inv s' \<and> (code st \<noteq> StateCorrupt \<longrightarrow> i3_ok s') \<and> trades_evolve s s' \<and> applied_lsn s' = ev_lsn ev"
  using apply_event_keeps [OF assms(1,3)] assms(2) by (simp add: keeps_def)

text \<open>
  C18: a rejected event changes no book: every position, every account balance and every trade is what it
  was before.
\<close>

theorem rejected_changes_no_book:
  assumes "ps_inv s" and "apply_event dbg rtl cd s ev ctx = Some (st, s', ctx')" and "classify st = Rejected"
  shows "position_book s' = position_book s \<and> cash_book s' = cash_book s \<and> trades s' = trades s"
  using apply_event_keeps(1) [OF assms(1,2)] assms(3) by (simp add: keeps_def)

text \<open>
  C9: the state an event produces does not depend on the outbox, the metrics or the address of the
  payload: applying the same bytes with no outputs attached returns, and reaches the same state. The
  status is the same too, except that a full outbox, which only a live run has, is fatal there.
\<close>

theorem replay_reaches_same_state:
  assumes "apply_event dbg rtl cd s ev ctx = Some (st, s', ctx')" and "same_event ev0 ev" and "cx_outbox c0 = None"
  shows "\<exists>st0 c0'. apply_event dbg rtl cd s ev0 c0 = Some (st0, s', c0') \<and> (st0 = st \<or> st0 = kOk \<and> code st = ArenaExhausted)"
  using apply_event_blind [OF assms(1,3)] apply_event_same [OF assms(2)] by simp metis

text \<open>
  C20: \<^verbatim>\<open>apply\<close> counts every event it applies once, as accepted, rejected or fatal, and the rejections by code
  add up to the rejections, modulo two to the thirty-two, the width of the counters by code. (The partition
  loop counts a fatal event a second time when it stops.)
\<close>

theorem outcomes_are_counted:
  assumes "apply_event dbg rtl cd s ev ctx = Some (st, s', ctx')" and "cx_metrics ctx = Some m" and "rejects_ok m"
  shows "\<exists>m'. cx_metrics ctx' = Some m' \<and> rejects_ok m'
       \<and> apply_accepted m' = apply_accepted m + (if classify st = Accepted then 1 else 0)
       \<and> apply_rejected m' = apply_rejected m + (if classify st = Rejected then 1 else 0)
       \<and> apply_fatal m' = apply_fatal m + (if classify st = Fatal then 1 else 0)"
proof -
  obtain k where k: "cx_metrics ctx' = Some (count_outcome st (m\<lparr>trades_closed := trades_closed m + k\<rparr>))"
    using apply_event_metrics [OF assms(1,2)] by blast
  have "rejects_ok (m\<lparr>trades_closed := trades_closed m + k\<rparr>)" using assms(3) by (simp add: rejects_ok_def)
  from count_reject_ok [OF this, of "code st"] k assms(3) show ?thesis
    by (auto simp: count_outcome_def classify_def rejects_ok_def count_reject_def Let_def)
qed

section \<open>The partition\<close>

text \<open>
  C2: one turn of the partition consumes a prefix of its inbox, in order; what it appended to the log is
  exactly those frames, one more when it stopped on a fatal one; and replaying those records from the
  state before the turn gives the state after it.
\<close>

theorem poll_logs_what_it_applies:
  assumes "poll dbg rtl cd memory_ops now p = Some (n, p')" and "pt_ok mj_inv p" and "\<not> pt_parado p"
    and "unat (mj_last (pt_diario p)) + kBatch < 2 ^ 64"
  shows "pt_ok mj_inv p'
    \<and> (\<exists>fs gs. rg_items (pt_entrada p) = fs @ rg_items (pt_entrada p') \<and> n = length fs
         \<and> gs = (if pt_parado p' then fs @ [hd (rg_items (pt_entrada p'))] else fs)
         \<and> mj_log (pt_diario p') = mj_log (pt_diario p) @ records_of (mj_last (pt_diario p)) gs
         \<and> replay dbg rtl cd (pt_estado p) (records_of (mj_last (pt_diario p)) gs) = Some (pt_parado p', pt_estado p'))"
  using mem.poll_live(1,2) [OF assms(1-3)] assms(4) by (simp add: memory_ops_def)

text \<open>
  C3: nothing leaves a partition before it is durable. What a turn publishes is a prefix of what was
  pending and what the turn produced, every published entry is at or below the durable position, and a
  turn that stops publishes nothing and freezes the outbox.
\<close>

theorem poll_publishes_durable_only:
  assumes "poll dbg rtl cd memory_ops now p = Some (n, p')" and "pt_ok mj_inv p" and "\<not> pt_parado p"
    and "unat (mj_last (pt_diario p)) + kBatch < 2 ^ 64"
  shows "(\<exists>out rel. ob_queue (pt_saida p) @ out = rel @ ob_queue (pt_saida p') \<and> pt_publicados p' = pt_publicados p + length rel
         \<and> list_all (\<lambda>x. fst x \<le> mj_durable (pt_diario p')) rel \<and> (pt_parado p' \<longrightarrow> rel = [])
         \<and> list_all (\<lambda>x. mj_last (pt_diario p) < fst x \<and> fst x \<le> mj_last (pt_diario p')) out)
    \<and> ob_frozen (pt_saida p') = (pt_parado p' \<or> ob_frozen (pt_saida p))"
  using mem.poll_live(3,4) [OF assms(1-3)] assms(4) by (simp add: memory_ops_def list_all_iff)

text \<open>
  C4: a crash loses nothing that was durable. Start a partition on a new log, let any frames arrive and run
  any number of turns and forced commits, over a \<^verbatim>\<open>pwrite\<close> that may fail or write less than asked; then
  stop at any point. The live state is the replay of the log; recovery from the directory, with the file as
  it is then, gives the state after the durable records of the log, all of them, and then after whatever
  else of the file the reader accepts.
\<close>

theorem crash_recovery:
  assumes "pwrite_law pwrite (sg_fd (wl_segment wl)) disk"
    and "wl_open (pwrite_ops pwrite) sys epoch memalign opts None wl_new w0 = (kOk, wl, w)" and "\<forall>i a. memalign i = Some a \<longrightarrow> 8 dvd a"
    and "pb_live w" and "pb_fds w = [sg_fd (wl_segment wl)]" and "pb_waiting w = []"
    and "take kSegmentHdrBytes (disk (pb_fs w)) = header_block (segment_header part 1 epoch cap (gc_block_size (wl_group wl)) src)"
    and "length (disk (pb_fs w)) < 2 ^ 63"
    and "pt_ok wal_inv p0" and "\<not> pt_parado p0" and "pt_diario p0 = (wl, w, [])"
    and "engine_run dbg rtl cd (wal_ops (pwrite_ops pwrite)) k p0 p" and "k < 2 ^ 36" and "pt_diario p = (wl', w', hist)"
    and "files (segment_path dir part 1) = Mapped \<lparr>bs_addr = a, bs_bytes = disk (pb_fs w')\<rparr>" and "8 dvd a"
  shows "\<exists>c s1 more. replay dbg rtl cd (pt_estado p0) (take (unat (wl_durable_lsn wl')) hist) = Some (c, s1)
    \<and> (if c then pt_parado p \<and> pt_estado p = s1
        else replay dbg rtl cd s1 (drop (unat (wl_durable_lsn wl')) hist) = Some (pt_parado p, pt_estado p))
    \<and> map_option rc_state (recover_log dbg rtl cd (Some [segment_name part 1]) files dir part report_new metrics (pt_estado p0))
        = (if c then Some s1 else map_option snd (replay dbg rtl cd s1 more))"
proof -
  let ?be = "pwrite_ops pwrite" and ?d = "unat (wl_durable_lsn wl')" and ?m = "\<lparr>bs_addr = a, bs_bytes = disk (pb_fs w')\<rparr>"
  obtain xs where xs: "length xs \<le> (kBatch + 2) * k" and run: "wal_run ?be xs (wl, w, []) = (wl', w', hist)"
    using engine_ops [OF assms(12)] assms(11,14) by auto
  have few: "(kBatch + 2) * i < 2 ^ 45" if "i \<le> k" for i using that assms(13) by (simp add: kBatch_def)
  have small: "length xs < 2 ^ 46" using xs few [of k] by simp
  note safe = new_log_run [OF assms(1-8) small run]
  have l0: "wl_last_lsn wl = 0" using wl_open_new [OF assms(2,3)] by blast
  have room: "unat (jo_last_lsn (wal_ops ?be) (pt_diario p1)) + kBatch < 2 ^ 64" if i: "i < k" and e: "engine_run dbg rtl cd (wal_ops ?be) i p0 p1" for i p1
  proof -
    obtain v w1 h1 where j: "pt_diario p1 = (v, w1, h1)" by (metis prod_cases3)
    obtain ys where ys: "length ys \<le> (kBatch + 2) * i" "wal_run ?be ys (wl, w, []) = (v, w1, h1)" using engine_ops [OF e] assms(11) j by auto
    obtain zs :: "LogRecord list" where "length zs \<le> length ys" "wl_last_lsn v = of_nat (length zs)" using wal_run_last [OF ys(2)] l0 by auto
    then have "unat (wl_last_lsn v) < 2 ^ 45" using ys(1) few [of i] i by (simp add: unat_of_nat take_bit_nat_eq_self)
    then show ?thesis by (simp add: wal_ops_def j kBatch_def)
  qed
  have live: "replay dbg rtl cd (pt_estado p0) hist = Some (pt_parado p, pt_estado p)"
    using wal.run_replays [OF assms(12,9,10)] room assms(11,14) by (auto simp: wal_log_def)
  obtain sr evs sr' more where o: "sr_open sr_new ?m 1 = (kOk, sr)" and r: "reads sr evs sr'" and recs: "map ev_record evs = take ?d hist @ more"
    using safe_reads [OF safe] by blast
  have len: "length (bs_bytes ?m) + 8192 < 2 ^ 64" using safe(1) by (auto simp: wal_safe_def grp_safe_def grp_disk_def)
  have first: "sr_first_lsn sr = 1"
    using open_own_header [OF o] safe(1) by (auto simp: wal_safe_def grp_safe_def grp_disk_def)
  have after: "after_image 0 (map ev_record evs) = map ev_record evs"
    using reads_facts [OF r open_ok_reader(1) [OF o len]] open_ok_reader(2-4) [OF o len] first len by (intro lsn_run_after [of 1]) auto
  have rec: "map_option rc_state (recover_log dbg rtl cd (Some [segment_name part 1]) files dir part report_new metrics (pt_estado p0))
      = map_option snd (replay dbg rtl cd (pt_estado p0) (take ?d hist @ more))"
    using recover_one_segment [of files dir part 1 ?m report_new sr evs sr' dbg rtl cd metrics "pt_estado p0", OF assms(15) _ len _ r] o assms(16) after
    by (simp add: report_new_def lsn_next_def recs)
  obtain c s1 where p: "replay dbg rtl cd (pt_estado p0) (take ?d hist) = Some (c, s1)"
    and q: "if c then pt_parado p \<and> pt_estado p = s1 else replay dbg rtl cd s1 (drop ?d hist) = Some (pt_parado p, pt_estado p)"
    using replay_prefix [of dbg rtl cd "pt_estado p0" "take ?d hist" "drop ?d hist"] live by auto
  have "replay dbg rtl cd (pt_estado p0) (take ?d hist @ more) = (if c then Some (True, s1) else replay dbg rtl cd s1 more)"
    using p replay_append [of dbg rtl cd "pt_estado p0" "take ?d hist"] replay_fatal [of dbg rtl cd "pt_estado p0" "take ?d hist"] by (cases c) auto
  with p q rec show ?thesis by (intro exI [of _ c] exI [of _ s1] exI [of _ more]) auto
qed

text \<open>
  C19: a stopped partition stays stopped: a turn returns, consumes nothing, applies nothing, appends
  nothing and publishes nothing.
\<close>

theorem stopped_partition_is_inert:
  assumes "pt_ok mj_inv p" and "pt_parado p" and "ob_frozen (pt_saida p)"
  shows "\<exists>p'. poll dbg rtl cd memory_ops now p = Some (0, p') \<and> pt_ok mj_inv p' \<and> pt_parado p' \<and> ob_frozen (pt_saida p')
       \<and> pt_estado p' = pt_estado p \<and> pt_entrada p' = pt_entrada p \<and> mj_log (pt_diario p') = mj_log (pt_diario p)
       \<and> ob_queue (pt_saida p') = ob_queue (pt_saida p) \<and> pt_publicados p' = pt_publicados p"
  using assms by (rule mem.poll_stopped)

text \<open>
  C21: initialising a partition inside the capacity limits gives a consistent, empty state, or no state
  when the arena is too small.
\<close>

theorem init_establishes_invariant:
  assumes "capacity_ok c" and "ps_init a part c = Some (Some s, a')"
  shows "ps_inv s \<and> lists_ok s \<and> account_rows s = [] \<and> instrument_rows s = [] \<and> position_rows s = [] \<and> trade_list (trades s) = []"
  using ps_init_ok [OF assms(2,1)] by blast

text \<open>
  C22: rebuilding the four indexes of a consistent state from its columns succeeds and gives back the same
  maps.
\<close>

theorem rebuild_restores_indexes:
  assumes "ps_inv s"
  shows "\<exists>s'. rebuild_indexes (s\<lparr>account_index := di_clear (account_index s), position_index := di_clear (position_index s),
             instrument_index := di_clear (instrument_index s), trade_index := di_clear (trade_index s)\<rparr>) = Some s'
           \<and> ps_inv s' \<and> di_map (account_index s') = di_map (account_index s)
           \<and> di_map (position_index s') = di_map (position_index s)
           \<and> di_map (instrument_index s') = di_map (instrument_index s)
           \<and> di_map (trade_index s') = di_map (trade_index s)"
  using assms by (rule rebuild_indexes_ok)

theorem rebuild_restores_indexes_witness:
  "\<exists>s'. rebuild_indexes (demo_settled\<lparr>account_index := di_clear (account_index demo_settled), position_index := di_clear (position_index demo_settled),
             instrument_index := di_clear (instrument_index demo_settled), trade_index := di_clear (trade_index demo_settled)\<rparr>) = Some s'
           \<and> ps_inv s'"
  using rebuild_restores_indexes [OF demo_settled_inv(1)] by blast

section \<open>A turn of the demonstration partition\<close>

definition demo_price_bytes :: "u8 list" where
  "demo_price_bytes = store_i64 2000000000 @ store_i64 2000000000 @ store_le 4 7 @ store_le 4 20260915 @ store_le 4 1 @ store_le 4 100
     @ replicate 24 0 @ [1, 1] @ replicate 6 0"

definition demo_price_event :: EventView where
  "demo_price_event = \<lparr>ev_lsn = 1, ev_ts_ns = 0, ev_payload = \<lparr>bs_addr = 64, bs_bytes = demo_price_bytes\<rparr>, ev_tmpl = 8, ev_len = 64\<rparr>"

definition demo_short_event :: EventView where
  "demo_short_event = demo_price_event\<lparr>ev_len := 8\<rparr>"

definition live_ctx :: ApplyContext where
  "live_ctx = \<lparr>cx_outbox = None, cx_metrics = Some metrics_new\<rparr>"

lemma demo_price_decoded: "rd_cps sbe_codec demo_price_bytes = demo_price"
  by code_simp

lemma demo_price_length: "length demo_price_bytes = 64"
  by (simp add: demo_price_bytes_def store_i64_def del: store_le.simps)

lemma closing_price_ctx:
  "closing_price_set e s c = Some (st, s', c) \<Longrightarrow> closing_price_set e s c' = Some (st, s', c')"
  by (auto simp: closing_price_set_def ret_def split: if_splits prod.splits)

lemma demo_price_event_applied:
  assumes "ev_tmpl ev = 8" and "decode 64 ev = Inr demo_price_bytes"
  shows "apply_event True False sbe_codec demo_empty ev c
         = Some (kOk, demo_priced\<lparr>applied_lsn := ev_lsn ev\<rparr>, c\<lparr>cx_metrics := map_option (count_outcome kOk) (cx_metrics c)\<rparr>)"
  using closing_price_ctx [OF demo_priced_run, of c] assms
  by (simp add: apply_event_def dispatch_def apply_closing_price_def demo_price_decoded)

lemma demo_price_applied:
  "apply_event True False sbe_codec demo_empty demo_price_event live_ctx
   = Some (kOk, demo_priced\<lparr>applied_lsn := 1\<rparr>, live_ctx\<lparr>cx_metrics := Some (count_outcome kOk metrics_new)\<rparr>)"
proof -
  have "decode 64 demo_price_event = Inr demo_price_bytes"
    using demo_price_length by (simp add: decode_def view_bytes_def ev_span_def demo_price_event_def aligned_iff)
  from demo_price_event_applied [OF _ this, of live_ctx] show ?thesis by (simp add: live_ctx_def demo_price_event_def)
qed

lemma demo_short_applied:
  "apply_event True False sbe_codec demo_empty demo_short_event live_ctx
   = Some (fail ShortPayload 8, demo_empty\<lparr>applied_lsn := 1\<rparr>, live_ctx\<lparr>cx_metrics := Some (count_outcome (fail ShortPayload 8) metrics_new)\<rparr>)"
  by (simp add: apply_event_def dispatch_def apply_closing_price_def decode_def ret_def demo_short_event_def demo_price_event_def)
    (simp add: live_ctx_def)

theorem apply_keeps_invariants_witness: "ps_inv (demo_priced\<lparr>applied_lsn := 1\<rparr>) \<and> applied_lsn (demo_priced\<lparr>applied_lsn := 1\<rparr>) = 1"
  using apply_keeps_invariants [OF demo_empty_inv(1,3) demo_price_applied] by (simp add: demo_price_event_def)

theorem rejected_changes_no_book_witness: "position_book (demo_empty\<lparr>applied_lsn := 1\<rparr>) = position_book demo_empty"
  using rejected_changes_no_book [OF demo_empty_inv(1) demo_short_applied]
  by (simp add: classify_def is_ok_def status_is_fatal_def is_fatal_def)

theorem replay_reaches_same_state_witness:
  "\<exists>st c. apply_event True False sbe_codec demo_empty (demo_price_event\<lparr>ev_payload := \<lparr>bs_addr = 0, bs_bytes = demo_price_bytes\<rparr>\<rparr>) no_outputs
     = Some (st, demo_priced\<lparr>applied_lsn := 1\<rparr>, c)"
proof -
  let ?ev = "demo_price_event\<lparr>ev_payload := \<lparr>bs_addr = 0, bs_bytes = demo_price_bytes\<rparr>\<rparr>"
  have "same_event ?ev demo_price_event" by (simp add: same_event_def demo_price_event_def)
  from replay_reaches_same_state [OF demo_price_applied this, of no_outputs] show ?thesis by (auto simp: no_outputs_def)
qed

theorem outcomes_are_counted_witness:
  "\<exists>m. count_outcome kOk metrics_new = m \<and> apply_accepted m = 1 \<and> rejects_ok m"
proof -
  have "rejects_ok metrics_new" by (simp add: rejects_ok_def metrics_new_def sum_list_replicate)
  from outcomes_are_counted [OF demo_price_applied _ this] show ?thesis by (auto simp: live_ctx_def metrics_new_def)
qed

definition demo_frame :: IngressFrame where
  "demo_frame = \<lparr>if_arrival_ts_ns = 0, if_tmpl = 8, if_len = 64, if_payload = demo_price_bytes\<rparr>"

text \<open>The demonstration partition over a journal: an empty state and one price to apply.\<close>

definition demo_over :: "'j \<Rightarrow> 'j Partition" where
  "demo_over j = \<lparr>pt_estado = demo_empty, pt_diario = j,
     pt_entrada = \<lparr>rg_head = 1, rg_tail = 0, rg_tail_cache = 0, rg_head_cache = 0, rg_slots = [demo_frame, demo_frame]\<rparr>,
     pt_saida = ob_new 16 1024, pt_metricas = metrics_new, pt_motivo = kOk, pt_lsn_da_parada = 0, pt_publicados = 0, pt_parado = False\<rparr>"

definition demo_partition :: "MemoryJournal Partition" where
  "demo_partition = demo_over (mj_new 64 256)"

lemma demo_over_fields [simp]:
  "pt_estado (demo_over j) = demo_empty" "pt_diario (demo_over j) = j" "pt_saida (demo_over j) = ob_new 16 1024" "\<not> pt_parado (demo_over j)"
  "pt_publicados (demo_over j) = 0"
  by (simp_all add: demo_over_def)

lemma demo_over_ok: "jinv j \<Longrightarrow> pt_ok jinv (demo_over j)" "rg_items (pt_entrada (demo_over j)) = [demo_frame]"
proof -
  show items: "rg_items (pt_entrada (demo_over j)) = [demo_frame]"
    by (simp add: rg_items_def demo_over_def)
  moreover have "frame_ok demo_frame" using demo_price_length by (simp add: frame_ok_def demo_frame_def kMaxIngressPayload_def)
  moreover have "rg_inv (pt_entrada (demo_over j))"
    unfolding rg_inv_def demo_over_def by (intro conjI exI [of _ 1]) simp_all
  moreover have "ob_inv (ob_new 16 1024)" using ob_new_inv [of 16 1024] pow2_capI [of 4] by simp
  ultimately show "jinv j \<Longrightarrow> pt_ok jinv (demo_over j)" using demo_empty_inv(1) by (simp add: pt_ok_def)
qed

lemma demo_partition_ok: "pt_ok mj_inv demo_partition" "rg_items (pt_entrada demo_partition) = [demo_frame]"
  using demo_over_ok(1) [of mj_inv "mj_new 64 256"] demo_over_ok(2) [of "mj_new 64 256"] mj_new_inv [of 64 256] by (simp_all add: demo_partition_def)

lemma demo_append:
  "\<exists>a j. mj_append (mj_new 64 256) 8 (if_bytes demo_frame) 0 = (Inr a, j) \<and> decode 64 (event_of demo_frame a) = Inr demo_price_bytes"
  using demo_price_length
  by (simp add: mj_append_def mj_new_def if_bytes_def demo_frame_def align8_def Let_def event_of_def decode_def view_bytes_def ev_span_def aligned_iff)

lemma demo_partition_start: "\<not> pt_parado demo_partition" "unat (mj_last (pt_diario demo_partition)) + kBatch < 2 ^ 64"
  by (simp_all add: demo_partition_def mj_new_def kBatch_def)

lemma demo_turn:
  assumes app: "jo_append ops j 8 (if_bytes demo_frame) 0 = (Inr a, j')" and dec: "decode 64 (event_of demo_frame a) = Inr demo_price_bytes"
  shows "\<exists>p'. poll True False sbe_codec ops 0 (demo_over j) = Some (1, p')"
proof -
  let ?p = "demo_over j"
  have ev: "apply_event True False sbe_codec demo_empty (event_of demo_frame a) c
      = Some (kOk, demo_priced\<lparr>applied_lsn := ev_lsn (event_of demo_frame a)\<rparr>, c\<lparr>cx_metrics := map_option (count_outcome kOk) (cx_metrics c)\<rparr>)" for c
    using demo_price_event_applied [OF _ dec, of c] by (simp add: event_of_def demo_frame_def)
  have room: "has_room (ob_new 16 1024) kMaxOutputsPerEvent kMaxOutputBytesPerEvent"
    by (simp add: has_room_def ob_new_def u32_add_def kMaxOutputsPerEvent_def kMaxOutputBytesPerEvent_def)
  have frame: "if_tmpl demo_frame = 8" "if_arrival_ts_ns demo_frame = 0" by (simp_all add: demo_frame_def)
  have peek: "rg_peek (pt_entrada ?p) = (Some demo_frame, (pt_entrada ?p)\<lparr>rg_head_cache := 1\<rparr>)"
    by (simp add: demo_over_def rg_peek_def rg_slot_def rg_cap_def)
  obtain r where last: "rg_peek (rg_pop ((pt_entrada ?p)\<lparr>rg_head_cache := 1\<rparr>)) = (None, r)"
    by (simp add: demo_over_def rg_peek_def rg_pop_def)
  have "\<exists>p'. poll_loop True False sbe_codec ops (Suc (Suc n)) 0 ?p = Some (1, p')" for n
    by (simp add: peek last room app ev frame with_context_def Let_def)
  from this [of 254] have "\<exists>p'. poll_loop True False sbe_codec ops kBatch 0 ?p = Some (1, p')"
    by (simp add: kBatch_def del: poll_loop.simps)
  then show ?thesis by (auto simp: poll_def)
qed

lemma demo_poll_runs: "\<exists>p'. poll True False sbe_codec memory_ops 0 demo_partition = Some (1, p')"
  using demo_append demo_turn [of memory_ops "mj_new 64 256"] by (auto simp: memory_ops_def demo_partition_def)

text \<open>The same turn over the write-ahead log.\<close>

lemma demo_wal_safe: "wal_safe demo_header demo_header {} demo_wal []"
proof -
  have "gc_block_size (wl_group demo_wal) = kFallbackBlock" by (simp add: demo_wal_def demo_group_def gc_new_def)
  moreover have "length demo_header = kSegmentHdrBytes" by (simp add: demo_header_def)
  moreover have "\<forall>i a. demo_align i = Some a \<longrightarrow> 8 dvd a" by (auto simp: demo_align_def)
  ultimately show ?thesis by (intro new_log_safe [OF demo_open]) (simp_all add: kSegmentHdrBytes_def)
qed

lemma demo_wal_append:
  "\<exists>a j. jo_append (wal_ops (pwrite_ops mem_pwrite)) (demo_wal, demo_world, []) 8 (if_bytes demo_frame) 0 = (Inr a, j)
     \<and> decode 64 (event_of demo_frame a) = Inr demo_price_bytes"
proof -
  have len: "length (bs_bytes (if_bytes demo_frame)) = 64" using demo_price_length by (simp add: if_bytes_def demo_frame_def)
  have "unat (record_bytes (of_nat 64)) = 96" using record_bytes_up [of 64] by (simp add: kMaxPayload_def up_to_def)
  then obtain a g where g: "gc_append (wl_group demo_wal) 8 (if_bytes demo_frame) 0 7 1 = (Inr a, g)"
    using len by (cases "gc_write (wl_group demo_wal) 8 (bs_bytes (if_bytes demo_frame)) 0 7 1 96")
      (simp add: gc_append_def Let_def kMaxPayload_def kMaxGroupBytes_def kMaxBuffers_def demo_wal_def demo_group_def gc_new_def)
  have w: "wl_append (pwrite_ops mem_pwrite) demo_wal demo_world 8 (if_bytes demo_frame) 0 = (Inr a, demo_wal\<lparr>wl_group := g, wl_last_lsn := 1\<rparr>, demo_world)"
    using g by (simp add: wl_append_def Let_def wl_stuck_def sg_valid_def lsn_next_def demo_wal_def wl_new_def)
  have h: "wal_holds demo_wal []" using safe_inv [OF demo_wal_safe] by (simp add: wal_inv_def)
  have "bs_bytes (ap_payload a) = demo_price_bytes" "8 dvd bs_addr (ap_payload a)"
    using wl_append_holds [OF h w] len demo_price_length by (simp_all add: demo_wal_def wl_new_def if_bytes_def demo_frame_def)
  then have "decode 64 (event_of demo_frame a) = Inr demo_price_bytes"
    using demo_price_length by (simp add: event_of_def demo_frame_def decode_def view_bytes_def ev_span_def aligned_iff)
  with w show ?thesis by (simp add: wal_ops_def wal_append_op_def)
qed

theorem poll_logs_what_it_applies_witness:
  "\<exists>p'. poll True False sbe_codec memory_ops 0 demo_partition = Some (1, p') \<and> pt_ok mj_inv p' \<and> rg_items (pt_entrada p') = []"
proof -
  obtain p' where run: "poll True False sbe_codec memory_ops 0 demo_partition = Some (1, p')" using demo_poll_runs by blast
  obtain fs where "[demo_frame] = fs @ rg_items (pt_entrada p')" "length fs = 1" "pt_ok mj_inv p'"
    using poll_logs_what_it_applies [OF run demo_partition_ok(1) demo_partition_start] demo_partition_ok(2) by metis
  with run show ?thesis by (cases fs) auto
qed

theorem poll_publishes_durable_only_witness:
  "\<exists>n p'. poll True False sbe_codec memory_ops 0 demo_partition = Some (n, p') \<and> (\<exists>rel :: (u64 \<times> OutKind \<times> u8 list) list. pt_publicados p' = 0 + length rel
     \<and> list_all (\<lambda>x. fst x \<le> mj_durable (pt_diario p')) rel)"
proof -
  obtain p' where run: "poll True False sbe_codec memory_ops 0 demo_partition = Some (1, p')" using demo_poll_runs by blast
  have "pt_publicados demo_partition = 0" by (simp add: demo_partition_def)
  moreover obtain rel :: "(u64 \<times> OutKind \<times> u8 list) list" where "pt_publicados p' = pt_publicados demo_partition + length rel" "list_all (\<lambda>x. fst x \<le> mj_durable (pt_diario p')) rel"
    using poll_publishes_durable_only [OF run demo_partition_ok(1) demo_partition_start] by (elim conjE exE) (rule that)
  ultimately show ?thesis using run by auto
qed

definition demo_files :: "MemFile PwriteBackend \<Rightarrow> string \<Rightarrow> FileAnswer" where
  "demo_files w path = (if path = segment_path (Some ''.'') 0 1 then Mapped \<lparr>bs_addr = 4096, bs_bytes = snd (pb_fs w)\<rparr> else OpenFailed)"

theorem crash_recovery_witness:
  "\<exists>p wl w hist more c s1. poll True False sbe_codec (wal_ops (pwrite_ops mem_pwrite)) 0 (demo_over (demo_wal, demo_world, [])) = Some (1, p)
     \<and> pt_diario p = (wl, w, hist) \<and> replay True False sbe_codec demo_empty (take (unat (wl_durable_lsn wl)) hist) = Some (c, s1)
     \<and> map_option rc_state (recover_log True False sbe_codec (Some [segment_name 0 1]) (demo_files w)
          (Some ''.'') 0 report_new metrics_new demo_empty) = (if c then Some s1 else map_option snd (replay True False sbe_codec s1 more))"
proof -
  let ?ops = "wal_ops (pwrite_ops mem_pwrite)" and ?p = "demo_over (demo_wal, demo_world, [])"
  obtain p where run: "poll True False sbe_codec ?ops 0 ?p = Some (1, p)" using demo_wal_append demo_turn [of ?ops] by blast
  obtain wl w hist where j: "pt_diario p = (wl, w, hist)" by (metis prod_cases3)
  have e: "engine_run True False sbe_codec ?ops 1 ?p p" using engine_run.turn [OF engine_run.start run] by simp
  have k: "(1 :: nat) < 2 ^ 36" by simp
  have inv: "pt_ok wal_inv ?p" by (rule demo_over_ok(1) [of wal_inv, OF safe_inv [OF demo_wal_safe]])
  have st: "\<not> pt_parado ?p" "pt_diario ?p = (demo_wal, demo_world, [])" "pt_estado ?p = demo_empty" by simp_all
  have f: "demo_files w (segment_path (Some ''.'') 0 1) = Mapped \<lparr>bs_addr = 4096, bs_bytes = snd (pb_fs w)\<rparr>" "8 dvd (4096 :: nat)"
    by (simp_all add: demo_files_def)
  obtain c s1 more where "replay True False sbe_codec demo_empty (take (unat (wl_durable_lsn wl)) hist) = Some (c, s1)"
    "map_option rc_state (recover_log True False sbe_codec (Some [segment_name 0 1]) (demo_files w)
          (Some ''.'') 0 report_new metrics_new demo_empty) = (if c then Some s1 else map_option snd (replay True False sbe_codec s1 more))"
    using crash_recovery [where disk = snd and files = "demo_files w" and dir = "Some ''.''" and metrics = metrics_new and wl = demo_wal,
      OF mem_pwrite_law demo_open demo_start inv st(1,2) e k j f, unfolded st(3)] by (elim exE conjE) (rule that)
  with run j show ?thesis by blast
qed

theorem stopped_partition_is_inert_witness:
  "\<exists>p'. poll True False sbe_codec memory_ops 0 (parar (fail StateCorrupt 0) 7 demo_partition) = Some (0, p')
      \<and> rg_items (pt_entrada p') = [demo_frame]"
proof -
  have "pt_ok mj_inv (parar (fail StateCorrupt 0) 7 demo_partition)"
    using demo_partition_ok(1) by (simp add: pt_ok_def parar_def freeze_inv)
  from stopped_partition_is_inert [OF this, of True False sbe_codec 0] demo_partition_ok(2) show ?thesis
    by (auto simp: parar_def freeze_def)
qed

definition demo_capacity :: PartitionCapacity where
  "demo_capacity = default_capacity\<lparr>cp_accounts := 2, cp_positions := 2, cp_instruments := 2, cp_trades := 2,
     cp_corporate_actions_per_gen := 2, cp_exceptions := 2\<rparr>"

lemma step_congs: "r = r' \<Longrightarrow> init_then r f = init_then r' f" "p = q \<Longrightarrow> and_then p g = and_then q g"
  by simp_all

lemma steps: "init_then (Some (Some x, a)) f = f x a" "and_then (Some y, b) g = g y b"
  by (simp_all add: init_then_def and_then_def)

lemma coluna_eval:
  "coluna sz al z n a = (if ar_sealed a \<or> of_nat sz * of_nat n = (0::u64) then (None, a) else
     let off = (ar_used a + of_nat al - 1) AND NOT (of_nat al - 1) in
        if ar_cap a < off + of_nat sz * of_nat n then (None, a\<lparr>ar_overflowed := True\<rparr>)
        else (Some (replicate n z), a\<lparr>ar_used := off + of_nat sz * of_nat n, ar_blocks := ar_blocks a + 1\<rparr>))"
  by (simp add: coluna_def alloc_array_def allocate_def Let_def)

lemma demo_grow: "grow_cap 16 (table_minimum 2) = Some 16"
  by (simp add: grow_cap_done table_minimum_def)

lemma demo_init_runs: "map_option (\<lambda>r. fst r \<noteq> None) (ps_init (arena_new 65536) 0 demo_capacity) = Some True"
  by (simp add: ps_init_def custody_init_def cash_init_def instruments_init_def trades_init_def di_init_def tg_init_def pi_init_def
      steps coluna_eval alloc_array_def allocate_def arena_new_def kSettlementSlots_def demo_grow Let_def demo_capacity_def
      cong: step_congs)

theorem init_establishes_invariant_witness:
  "\<exists>s a. ps_init (arena_new 65536) 0 demo_capacity = Some (Some s, a) \<and> ps_inv s \<and> trade_list (trades s) = []"
proof -
  obtain s a where run: "ps_init (arena_new 65536) 0 demo_capacity = Some (Some s, a)"
    using demo_init_runs by (cases "ps_init (arena_new 65536) 0 demo_capacity") auto
  have "capacity_ok demo_capacity" by (simp add: capacity_ok_def demo_capacity_def)
  from init_establishes_invariant [OF this run] run show ?thesis by blast
qed

end
